(* ===== verification/Prelude.thy ===== *)
theory Prelude
  imports Main "HOL-Library.Word" "HOL-Library.Sublist" "HOL-Library.Signed_Division"
begin

text \<open>
  What every component of the development shares: the names of the model's types (bytes,
  fixed-width integers, Go strings, instants), the parts of Go's standard library the sources use
  (big-endian encoding, \<open>strconv\<close>, \<open>strings\<close>, \<open>copy\<close>) and the lemmas and collections that carry
  the component proofs. Nothing here maps to a file of the repository: it models the language and
  its library.

  Go strings are byte strings; a \<open>string\<close> of HOL is a list of 8-bit characters, so the two agree
  byte for byte. An instant (\<open>time.Time\<close>) is its Unix time in nanoseconds, an \<open>int\<close>, and a
  duration is a difference of instants.
\<close>

unbundle bit_operations_syntax

section \<open>Types\<close>

type_synonym byte = "8 word"
type_synonym bytes = "byte list"
type_synonym u16 = "16 word"
type_synonym u32 = "32 word"
type_synonym u64 = "64 word"
type_synonym instant = int
type_synonym duration = int

text \<open>Lemma collections: unfolding of codec definitions, and round-trip laws.\<close>

named_theorems codec_defs
named_theorems roundtrips

section \<open>Durations and the zero instant\<close>

definition nanosecond :: duration where "nanosecond = 1"
definition millisecond :: duration where "millisecond = 1000000"
definition second :: duration where "second = 1000000000"
definition minute :: duration where "minute = 60 * 1000000000"

text \<open>Go's zero \<open>time.Time\<close> is January 1 of year 1, in Unix nanoseconds.\<close>

definition zero_time :: instant where "zero_time = - (62135596800 * 1000000000)"

definition is_zero_time :: "instant \<Rightarrow> bool" where "is_zero_time t \<longleftrightarrow> t = zero_time"

lemmas duration_defs = nanosecond_def millisecond_def second_def minute_def

section \<open>Words\<close>

lemma unat_inc: "c < d \<Longrightarrow> unat (c + 1) = Suc (unat c)"
  for c d :: "'a::len word"
proof -
  assume "c < d"
  then have "c \<noteq> - 1" using leD word_order.extremum by blast
  then have "1 + c \<noteq> 0" by (metis add.commute eq_neg_iff_add_eq_0)
  then show ?thesis by (metis add.commute unatSuc)
qed

lemma unat_inc_below: "Suc (unat c) < 2 ^ LENGTH('a) \<Longrightarrow> unat (c + 1) = Suc (unat c)"
  for c :: "'a::len word"
  by (simp add: unat_word_ariths)

lemma smod_nat: "0 \<le> a \<Longrightarrow> 0 < n \<Longrightarrow> a smod int n = a mod int n"
  by (cases "a = 0") (simp_all add: signed_modulo_int_def signed_divide_int_def minus_div_mult_eq_mod)

text \<open>Go's \<open>int(c)\<close> of a 64-bit counter, below the sign bit.\<close>

lemma sint_small:
  fixes c :: u64
  assumes "unat c < 2 ^ 63"
  shows "sint c = int (unat c)"
proof -
  have "int (unat c) < int (2 ^ 63)" using assms by (simp only: of_nat_less_iff)
  then have "uint c < 2 ^ 63" by (simp only: uint_nat of_nat_power of_nat_numeral)
  then have "signed_take_bit 63 (uint c) = uint c" by (intro signed_take_bit_int_eq_self) (auto intro: order_trans[OF _ uint_ge_0])
  then show ?thesis by (simp add: sint_uint)
qed

lemma word_eq_bits: "x = y \<longleftrightarrow> (\<forall>n < LENGTH('a). bit x n = bit y n)"
  for x y :: "'a::len word"
  using bit_word_eqI by auto

lemma ex_range_Suc:
  "a \<le> b \<Longrightarrow> (\<exists>d. a \<le> d \<and> d \<le> b \<and> P d) \<longleftrightarrow> P a \<or> (\<exists>d. Suc a \<le> d \<and> d \<le> b \<and> P d)"
  by (auto simp: Suc_le_eq) (metis le_neq_implies_less, metis less_imp_le)

section \<open>Slices\<close>

lemma drop_split: "drop n xs = take m (drop n xs) @ drop (n + m) xs"
  by (metis append_take_drop_id drop_drop add.commute)

lemma take1_nth: "xs \<noteq> [] \<Longrightarrow> take (Suc 0) xs = [xs ! 0]"
  by (cases xs) auto

section \<open>Big-endian integers\<close>

text \<open>
  \<open>be_put k w\<close> is the low \<open>k\<close> bytes of \<open>w\<close>, most significant first, and \<open>be_get\<close> reads bytes back.
  \<open>encoding/binary\<close>'s \<open>PutUint16\<close>, \<open>PutUint32\<close>, \<open>PutUint64\<close> and their readers are the instances
  below. The readers take the first bytes of their argument; Go's panic on a shorter slice, and
  every use in the sources is behind a length check, which the models keep.
\<close>

primrec be_put :: "nat \<Rightarrow> 'a::len word \<Rightarrow> bytes" where
  "be_put 0 w = []"
| "be_put (Suc k) w = be_put k (drop_bit 8 w) @ [ucast w]"

definition be_get :: "bytes \<Rightarrow> 'a::len word" where
  "be_get bs = foldl (\<lambda>acc b. push_bit 8 acc OR ucast b) 0 bs"

definition put16 :: "u16 \<Rightarrow> bytes" where "put16 w = be_put 2 w"
definition put32 :: "u32 \<Rightarrow> bytes" where "put32 w = be_put 4 w"
definition put64 :: "u64 \<Rightarrow> bytes" where "put64 w = be_put 8 w"
definition get16 :: "bytes \<Rightarrow> u16" where "get16 b = be_get (take 2 b)"
definition get32 :: "bytes \<Rightarrow> u32" where "get32 b = be_get (take 4 b)"
definition get64 :: "bytes \<Rightarrow> u64" where "get64 b = be_get (take 8 b)"

lemmas be_defs = put16_def put32_def put64_def get16_def get32_def get64_def

lemma length_be_put [simp]: "length (be_put k w) = k"
  by (induction k arbitrary: w) auto

lemma be_get_Nil [simp]: "be_get [] = 0"
  by (simp add: be_get_def)

lemma be_get_snoc [simp]: "be_get (bs @ [b]) = push_bit 8 (be_get bs) OR ucast b"
  by (simp add: be_get_def)

lemma put16_bytes: "put16 w = [ucast (drop_bit 8 w), ucast w]"
  by (simp add: be_defs numeral_2_eq_2)

lemma push_take_drop_bit: "push_bit 8 (take_bit n (drop_bit 8 w)) OR ucast (ucast w :: byte) = take_bit (n + 8) w"
  for w :: "'a::len word"
  by (rule bit_word_eqI) (auto simp: bit_simps)

lemma be_get_put: "be_get (be_put k w) = take_bit (8 * k) w"
proof (induction k arbitrary: w)
  case 0
  then show ?case by simp
next
  case (Suc k)
  then show ?case by (simp add: push_take_drop_bit add.commute)
qed

lemma get_put [simp, roundtrips]:
  "get16 (put16 w @ r) = w" "get32 (put32 v @ r) = v" "get64 (put64 u @ r) = u"
  by (simp_all add: be_defs be_get_put take_bit_word_eq_self)

lemma get_put_self [simp, roundtrips]:
  "get16 (put16 w) = w" "get32 (put32 v) = v" "get64 (put64 u) = u"
  using get_put(1)[of w "[]"] get_put(2)[of v "[]"] get_put(3)[of u "[]"] by simp_all

lemma put_inj [simp]:
  "put16 w = put16 w' \<longleftrightarrow> w = w'" "put32 v = put32 v' \<longleftrightarrow> v = v'" "put64 u = put64 u' \<longleftrightarrow> u = u'"
  by (metis get_put_self)+

lemma length_put [simp]:
  "length (put16 w) = 2" "length (put32 v) = 4" "length (put64 u) = 8"
  by (simp_all add: be_defs)

lemma be_put_get:
  assumes "8 * length bs \<le> LENGTH('a::len)"
  shows "be_put (length bs) (be_get bs :: 'a word) = bs"
  using assms
proof (induction bs rule: rev_induct)
  case Nil
  then show ?case by simp
next
  case (snoc b bs)
  have small: "take_bit (8 * length bs) (be_get bs :: 'a word) = be_get bs"
    using snoc by (metis be_get_put add_leD1 distrib_left length_append)
  have "drop_bit 8 (push_bit 8 (be_get bs) OR ucast b :: 'a word) = be_get bs"
  proof (rule bit_word_eqI)
    fix n assume "n < LENGTH('a)"
    have "bit (be_get bs :: 'a word) n \<Longrightarrow> n < 8 * length bs"
      using small by (metis bit_take_bit_iff)
    then show "bit (drop_bit 8 (push_bit 8 (be_get bs) OR ucast b :: 'a word)) n = bit (be_get bs :: 'a word) n"
      using snoc.prems by (auto simp: bit_simps dest: bit_imp_le_length)
  qed
  moreover have "ucast (push_bit 8 (be_get bs) OR ucast b :: 'a word) = b"
    using snoc.prems by (intro bit_word_eqI) (auto simp: bit_simps)
  ultimately show ?case using snoc by simp
qed

lemma put_get [simp, roundtrips]:
  "2 \<le> length b \<Longrightarrow> put16 (get16 b) = take 2 b"
  "4 \<le> length b \<Longrightarrow> put32 (get32 b) = take 4 b"
  "8 \<le> length b \<Longrightarrow> put64 (get64 b) = take 8 b"
  using be_put_get[of "take 2 b", where 'a=16] be_put_get[of "take 4 b", where 'a=32]
    be_put_get[of "take 8 b", where 'a=64]
  by (simp_all add: be_defs)

text \<open>Bytes and strings. Go converts between \<open>[]byte\<close> and \<open>string\<close> byte by byte.\<close>

definition byte_of_char :: "char \<Rightarrow> byte" where "byte_of_char c = word_of_nat (of_char c)"
definition char_of_byte :: "byte \<Rightarrow> char" where "char_of_byte b = char_of (unat b)"
definition bytes_of :: "string \<Rightarrow> bytes" where "bytes_of s = map byte_of_char s"
definition string_of :: "bytes \<Rightarrow> string" where "string_of b = map char_of_byte b"

lemma char_of_byte_of_char [simp]: "char_of_byte (byte_of_char c) = c"
proof -
  have "(of_char c :: nat) < 256" by simp
  then show ?thesis
    by (simp add: char_of_byte_def byte_of_char_def unat_of_nat take_bit_nat_eq_self)
qed

lemma byte_of_char_of_byte [simp]: "byte_of_char (char_of_byte b) = b"
proof -
  have "of_char (char_of (unat b) :: char) = unat b mod 256"
    by (simp add: of_char_of)
  moreover have "unat b < 256" using unsigned_less[of b, where ?'a=nat] by simp
  ultimately show ?thesis by (simp add: char_of_byte_def byte_of_char_def)
qed

lemma string_of_bytes_of [simp, roundtrips]: "string_of (bytes_of s) = s"
  by (simp add: string_of_def bytes_of_def o_def)

lemma bytes_of_string_of [simp, roundtrips]: "bytes_of (string_of b) = b"
  by (simp add: string_of_def bytes_of_def o_def)

lemma length_bytes_of [simp]: "length (bytes_of s) = length s" "length (string_of b) = length b"
  by (simp_all add: bytes_of_def string_of_def)

section \<open>Decimal numbers\<close>

definition digit_char :: "nat \<Rightarrow> char" where "digit_char d = char_of (48 + d)"

definition is_digit :: "char \<Rightarrow> bool" where
  "is_digit c \<longleftrightarrow> 48 \<le> (of_char c :: nat) \<and> (of_char c :: nat) \<le> 57"

definition digit_val :: "char \<Rightarrow> nat" where "digit_val c = of_char c - 48"

text \<open>\<open>strconv.FormatUint(n, 10)\<close>.\<close>

fun format_nat :: "nat \<Rightarrow> string" where
  "format_nat n = (if n < 10 then [digit_char n] else format_nat (n div 10) @ [digit_char (n mod 10)])"

declare format_nat.simps [simp del]

text \<open>\<open>strconv.Itoa\<close>.\<close>

definition itoa :: "int \<Rightarrow> string" where
  "itoa i = (if i < 0 then CHR ''-'' # format_nat (nat (- i)) else format_nat (nat i))"

definition decimal_val :: "string \<Rightarrow> nat" where
  "decimal_val s = foldl (\<lambda>acc c. 10 * acc + digit_val c) 0 s"

text \<open>\<open>strconv.ParseUint(s, 10, bits)\<close>: digits only, at least one, and the value in range.\<close>

definition parse_uint :: "nat \<Rightarrow> string \<Rightarrow> nat option" where
  "parse_uint bits s =
     (if s = [] \<or> \<not> list_all is_digit s then None
      else if decimal_val s < 2 ^ bits then Some (decimal_val s) else None)"

text \<open>\<open>strconv.Atoi\<close> on a 64-bit machine: an optional sign, then digits, within \<open>int64\<close>.\<close>

definition atoi :: "string \<Rightarrow> int option" where
  "atoi s =
     (let neg = (s \<noteq> [] \<and> hd s = CHR ''-'');
          ds = (if s \<noteq> [] \<and> (hd s = CHR ''-'' \<or> hd s = CHR ''+'') then tl s else s)
      in if ds = [] \<or> \<not> list_all is_digit ds then None
         else let n = int (decimal_val ds)
              in if neg then (if n \<le> 2 ^ 63 then Some (- n) else None)
                 else (if n < 2 ^ 63 then Some n else None))"

lemma of_char_digit_char: "d < 10 \<Longrightarrow> of_char (digit_char d) = (48 + d :: nat)"
  by (simp add: digit_char_def of_char_of)

lemma digit_char_props [simp]:
  assumes "d < 10"
  shows "is_digit (digit_char d)" "digit_val (digit_char d) = d"
  using assms by (simp_all add: is_digit_def digit_val_def of_char_digit_char)

lemma decimal_val_snoc [simp]: "decimal_val (s @ [c]) = 10 * decimal_val s + digit_val c"
  by (simp add: decimal_val_def)

lemma decimal_val_Nil [simp]: "decimal_val [] = 0"
  by (simp add: decimal_val_def)

lemma decimal_val_single [simp]: "decimal_val [c] = digit_val c"
  by (simp add: decimal_val_def)

lemma format_nat_digits [simp]: "list_all is_digit (format_nat n)"
proof (induction n rule: format_nat.induct)
  case (1 n)
  then show ?case by (subst format_nat.simps) auto
qed

lemma format_nat_not_Nil [simp]: "format_nat n \<noteq> []"
  by (subst format_nat.simps) simp

lemma decimal_val_format_nat [simp, roundtrips]: "decimal_val (format_nat n) = n"
proof (induction n rule: format_nat.induct)
  case (1 n)
  then show ?case by (subst format_nat.simps) auto
qed

lemma parse_uint_format_nat [simp, roundtrips]: "n < 2 ^ bits \<Longrightarrow> parse_uint bits (format_nat n) = Some n"
  by (simp add: parse_uint_def)

lemma parse_uint_bound: "parse_uint bits s = Some n \<Longrightarrow> n < 2 ^ bits"
  by (auto simp: parse_uint_def split: if_splits)

lemma digit_not_sign: "is_digit c \<Longrightarrow> c \<noteq> CHR ''-'' \<and> c \<noteq> CHR ''+'' \<and> c \<noteq> CHR '','' \<and> c \<noteq> CHR ''=''"
  by (auto simp: is_digit_def)

lemma format_nat_inj: "format_nat a = format_nat b \<longleftrightarrow> a = b"
  by (metis decimal_val_format_nat)

lemma format_nat_hd: "hd (format_nat n) \<noteq> CHR ''-''" "hd (format_nat n) \<noteq> CHR ''+''"
  using digit_not_sign format_nat_digits[of n] format_nat_not_Nil[of n]
  by (cases "format_nat n"; auto)+

lemma atoi_itoa [simp, roundtrips]:
  assumes "- (2 ^ 63) \<le> i" "i < 2 ^ 63"
  shows "atoi (itoa i) = Some i"
  using assms by (auto simp: atoi_def itoa_def Let_def format_nat_hd)

lemma atoi_range: "atoi s = Some i \<Longrightarrow> - (2 ^ 63) \<le> i \<and> i < 2 ^ 63"
  by (auto simp: atoi_def Let_def split: if_splits)

section \<open>Strings\<close>

text \<open>\<open>strings.Cut\<close>: around the first occurrence of a separator.\<close>

fun cut :: "string \<Rightarrow> string \<Rightarrow> (string \<times> string) option" where
  "cut sep [] = (if sep = [] then Some ([], []) else None)"
| "cut sep (c # s) =
     (if prefix sep (c # s) then Some ([], drop (length sep) (c # s))
      else map_option (\<lambda>(a, b). (c # a, b)) (cut sep s))"

lemma cut_eq: "cut sep s = Some (a, b) \<Longrightarrow> s = a @ sep @ b"
proof (induction s arbitrary: a)
  case Nil
  then show ?case by (auto split: if_splits)
next
  case (Cons c s)
  then show ?case
    by (auto split: if_splits) (metis append_eq_conv_conj prefixE append_take_drop_id)
qed

text \<open>A separator whose first character the left part does not hold is cut where it was put.\<close>

lemma cut_append:
  assumes "x \<notin> set a"
  shows "cut (x # sep) (a @ (x # sep) @ b) = Some (a, b)"
  using assms by (induction a) auto

lemma cut_None: "x \<notin> set a \<Longrightarrow> cut (x # sep) a = None"
  by (induction a) auto

text \<open>
  \<open>strings.TrimSpace\<close>: leading and trailing Unicode white space, by the UTF-8 encodings of its
  characters. A suffix (prefix) that is one of these encodings is exactly the case in which the last
  (first) rune is white space.
\<close>

definition space_runes :: "string list" where
  "space_runes =
     [[CHR 0x09], [CHR 0x0A], [CHR 0x0B], [CHR 0x0C], [CHR 0x0D], [CHR 0x20],
      [CHR 0xC2, CHR 0x85], [CHR 0xC2, CHR 0xA0], [CHR 0xE1, CHR 0x9A, CHR 0x80],
      [CHR 0xE2, CHR 0x80, CHR 0x80], [CHR 0xE2, CHR 0x80, CHR 0x81], [CHR 0xE2, CHR 0x80, CHR 0x82],
      [CHR 0xE2, CHR 0x80, CHR 0x83], [CHR 0xE2, CHR 0x80, CHR 0x84], [CHR 0xE2, CHR 0x80, CHR 0x85],
      [CHR 0xE2, CHR 0x80, CHR 0x86], [CHR 0xE2, CHR 0x80, CHR 0x87], [CHR 0xE2, CHR 0x80, CHR 0x88],
      [CHR 0xE2, CHR 0x80, CHR 0x89], [CHR 0xE2, CHR 0x80, CHR 0x8A], [CHR 0xE2, CHR 0x80, CHR 0xA8],
      [CHR 0xE2, CHR 0x80, CHR 0xA9], [CHR 0xE2, CHR 0x80, CHR 0xAF], [CHR 0xE2, CHR 0x81, CHR 0x9F],
      [CHR 0xE3, CHR 0x80, CHR 0x80]]"

definition space_prefix :: "string list \<Rightarrow> string \<Rightarrow> nat" where
  "space_prefix runes s = (case find (\<lambda>r. prefix r s) runes of None \<Rightarrow> 0 | Some r \<Rightarrow> length r)"

function trim_left :: "string list \<Rightarrow> string \<Rightarrow> string" where
  "trim_left runes s =
     (if s = [] \<or> space_prefix runes s = 0 then s else trim_left runes (drop (space_prefix runes s) s))"
  by pat_completeness auto
termination
  by (relation "measure (\<lambda>(runes, s). length s)") auto

declare trim_left.simps [simp del]

definition TrimSpace :: "string \<Rightarrow> string" where
  "TrimSpace s = rev (trim_left (map rev space_runes) (rev (trim_left space_runes s)))"

text \<open>Visible ASCII characters are never trimmed.\<close>

definition visible :: "char \<Rightarrow> bool" where
  "visible c \<longleftrightarrow> 0x21 \<le> (of_char c :: nat) \<and> (of_char c :: nat) \<le> 0x7E"

lemma space_prefix_visible:
  assumes "\<forall>r \<in> set runes. r \<noteq> [] \<and> \<not> visible (hd r)" "visible c"
  shows "space_prefix runes (c # s) = 0"
proof -
  have "find (\<lambda>r. prefix r (c # s)) runes = None"
    using assms unfolding find_None_iff by (auto simp: prefix_Cons)
  then show ?thesis by (simp add: space_prefix_def)
qed

lemma space_runes_invisible:
  "\<forall>r \<in> set space_runes. r \<noteq> [] \<and> \<not> visible (hd r)" "\<forall>r \<in> set (map rev space_runes). r \<noteq> [] \<and> \<not> visible (hd r)"
  by (simp_all add: space_runes_def visible_def)

lemma trim_left_visible:
  assumes "\<forall>r \<in> set runes. r \<noteq> [] \<and> \<not> visible (hd r)" "s \<noteq> [] \<Longrightarrow> visible (hd s)"
  shows "trim_left runes s = s"
  using assms space_prefix_visible[OF assms(1)] by (cases s) (simp_all add: trim_left.simps)

lemma TrimSpace_visible [simp]: "list_all visible s \<Longrightarrow> TrimSpace s = s"
  using trim_left_visible[OF space_runes_invisible(1), of s] trim_left_visible[OF space_runes_invisible(2), of "rev s"]
  by (cases s rule: rev_cases) (auto simp: TrimSpace_def list_all_iff hd_append)

lemma digit_visible: "is_digit c \<Longrightarrow> visible c"
  by (simp add: is_digit_def visible_def)

lemma format_nat_visible [simp]: "list_all visible (format_nat n)"
  using format_nat_digits[of n] by (auto simp: list_all_iff digit_visible)

text \<open>
  \<open>strings.ToLower\<close>, exact wherever the result is ASCII, which is all the sources compare it with:
  besides the ASCII letters two other runes have an ASCII lower case, U+0130 and U+212A.
\<close>

definition lower_char :: "char \<Rightarrow> char" where
  "lower_char c = (if 65 \<le> (of_char c :: nat) \<and> (of_char c :: nat) \<le> 90 then char_of (of_char c + 32 :: nat) else c)"

fun ToLower :: "string \<Rightarrow> string" where
  "ToLower [] = []"
| "ToLower (c # s) =
     (if c = CHR 0xC4 \<and> prefix [CHR 0xB0] s then CHR ''i'' # ToLower (drop 1 s)
      else if c = CHR 0xE2 \<and> prefix [CHR 0x84, CHR 0xAA] s then CHR ''k'' # ToLower (drop 2 s)
      else lower_char c # ToLower s)"

text \<open>\<open>strings.Split\<close> on a one-character separator.\<close>

fun split_on :: "char \<Rightarrow> string \<Rightarrow> string list" where
  "split_on x [] = [[]]"
| "split_on x (c # s) =
     (if c = x then [] # split_on x s
      else (case split_on x s of [] \<Rightarrow> [[c]] | p # ps \<Rightarrow> (c # p) # ps))"

lemma split_on_not_Nil [simp]: "split_on x s \<noteq> []"
  by (cases s) (auto split: list.splits)

lemma split_on_none: "x \<notin> set s \<Longrightarrow> split_on x s = [s]"
  by (induction s) auto

lemma split_on_append: "x \<notin> set a \<Longrightarrow> split_on x (a @ x # b) = a # split_on x b"
  by (induction a) auto

text \<open>\<open>net.SplitHostPort\<close> and \<open>net.JoinHostPort\<close>.\<close>

fun index_of :: "char \<Rightarrow> string \<Rightarrow> nat option" where
  "index_of x [] = None"
| "index_of x (c # s) = (if c = x then Some 0 else map_option Suc (index_of x s))"

definition last_index_of :: "char \<Rightarrow> string \<Rightarrow> nat option" where
  "last_index_of x s = map_option (\<lambda>i. length s - 1 - i) (index_of x (rev s))"

datatype addr_error = MissingPort | TooManyColons | MissingBracket | UnexpectedBracket

definition SplitHostPort :: "string \<Rightarrow> addr_error + string \<times> string" where
  "SplitHostPort hostport =
     (case last_index_of (CHR '':'') hostport of
        None \<Rightarrow> Inl MissingPort
      | Some i \<Rightarrow>
          (case (if hd hostport = CHR ''[''
                 then (case index_of (CHR '']'') hostport of
                         None \<Rightarrow> Inl MissingBracket
                       | Some e \<Rightarrow>
                           if e + 1 = length hostport then Inl MissingPort
                           else if e + 1 = i then Inr (take (e - 1) (drop 1 hostport), 1, e + 1)
                           else if hostport ! (e + 1) = CHR '':'' then Inl TooManyColons
                           else Inl MissingPort)
                 else if CHR '':'' \<in> set (take i hostport) then Inl TooManyColons
                 else Inr (take i hostport, 0, 0))
           of Inl e \<Rightarrow> Inl e
            | Inr (host, j, k) \<Rightarrow>
                if CHR ''['' \<in> set (drop j hostport) then Inl UnexpectedBracket
                else if CHR '']'' \<in> set (drop k hostport) then Inl UnexpectedBracket
                else Inr (host, drop (i + 1) hostport)))"

definition JoinHostPort :: "string \<Rightarrow> string \<Rightarrow> string" where
  "JoinHostPort host port =
     (if CHR '':'' \<in> set host then ''['' @ host @ '']:'' @ port else host @ '':'' @ port)"

lemma index_of_append: "x \<notin> set a \<Longrightarrow> index_of x (a @ x # b) = Some (length a)"
  by (induction a) auto

lemma last_index_of_append: "x \<notin> set b \<Longrightarrow> last_index_of x (a @ x # b) = Some (length a)"
  by (simp add: last_index_of_def index_of_append)

lemma format_nat_plain: "set (format_nat n) \<inter> {CHR '':'', CHR ''['', CHR '']''} = {}"
  using format_nat_digits[of n] by (auto simp: list_all_iff is_digit_def)

text \<open>A host without brackets is split off where it was joined, whether or not it holds colons.\<close>

lemma SplitHostPort_JoinHostPort [roundtrips]:
  assumes "CHR ''['' \<notin> set host" "CHR '']'' \<notin> set host" "set port \<inter> {CHR '':'', CHR ''['', CHR '']''} = {}"
  shows "SplitHostPort (JoinHostPort host port) = Inr (host, port)"
proof (cases "CHR '':'' \<in> set host")
  case True
  have c: "last_index_of (CHR '':'') (''['' @ host @ '']:'' @ port) = Some (length host + 2)"
    using last_index_of_append[of "CHR '':''" port "''['' @ host @ '']''"] assms(3) by simp
  have b: "index_of (CHR '']'') (''['' @ host @ '']:'' @ port) = Some (length host + 1)"
    using index_of_append[of "CHR '']''" "''['' @ host" "'':'' @ port"] assms(2) by simp
  show ?thesis using True assms c b by (simp add: SplitHostPort_def JoinHostPort_def)
next
  case False
  have c: "last_index_of (CHR '':'') (host @ '':'' @ port) = Some (length host)"
    using last_index_of_append[of "CHR '':''" port host] assms(3) by simp
  have "hd (host @ '':'' @ port) \<noteq> CHR ''[''" using assms(1) by (cases host) auto
  then show ?thesis using False assms c by (simp add: SplitHostPort_def JoinHostPort_def)
qed

section \<open>Checks in sequence\<close>

text \<open>Sequencing of checks: the first that refuses decides.\<close>

definition and_then :: "'e + 'a \<Rightarrow> ('a \<Rightarrow> 'e + 'b) \<Rightarrow> 'e + 'b" where
  "and_then x f = (case x of Inl e \<Rightarrow> Inl e | Inr y \<Rightarrow> f y)"

definition refuse_if :: "bool \<Rightarrow> 'e \<Rightarrow> 'a \<Rightarrow> 'e + 'a" where
  "refuse_if b e c = (if b then Inl e else Inr c)"

definition refuse_on :: "'x option \<Rightarrow> ('x \<Rightarrow> 'e) \<Rightarrow> 'a \<Rightarrow> 'e + 'a" where
  "refuse_on x f c = (case x of None \<Rightarrow> Inr c | Some y \<Rightarrow> Inl (f y))"

definition error_of :: "'e + 'a \<Rightarrow> 'e option" where
  "error_of x = (case x of Inl e \<Rightarrow> Some e | Inr _ \<Rightarrow> None)"

lemma and_then_Inr: "and_then x f = Inr z \<longleftrightarrow> (\<exists>y. x = Inr y \<and> f y = Inr z)"
  by (auto simp: and_then_def split: sum.splits)

lemma refuse_if_Inr: "refuse_if b e c = Inr c' \<longleftrightarrow> \<not> b \<and> c' = c"
  by (auto simp: refuse_if_def)

lemma refuse_on_Inr: "refuse_on x f c = Inr c' \<longleftrightarrow> x = None \<and> c' = c"
  by (auto simp: refuse_on_def split: option.splits)

lemma error_of_None: "error_of x = None \<longleftrightarrow> (\<exists>y. x = Inr y)"
  by (auto simp: error_of_def split: sum.splits)

lemmas check_simps = and_then_Inr refuse_if_Inr refuse_on_Inr error_of_None

end
