(* ===== verification/Wire.thy ===== *)
theory Wire
  imports Prelude
begin

text \<open>
  The layer-3 wire format, \<open>src/internal/tunnel/l3/wire.go\<close>: the 13-byte header in front of every
  datagram (kind, session, counter), its encoder and its parser with both refusals. The locale
  \<open>framing\<close> is the contract every framing layer of the tunnel promises its user: what was framed is
  read back, and frames of different contents differ. It is interpreted on the header here and on
  the other framings in their own theories.
\<close>

section \<open>The header\<close>

definition typeInit :: byte where "typeInit = 1"
definition typeResp :: byte where "typeResp = 2"
definition typeData :: byte where "typeData = 3"
definition typeProbe :: byte where "typeProbe = 4"
definition typeProbeAck :: byte where "typeProbeAck = 5"

lemmas kind_defs = typeInit_def typeResp_def typeData_def typeProbe_def typeProbeAck_def

definition headerLen :: nat where "headerLen = 13"
definition tagLen :: nat where "tagLen = 16"
definition dataOverhead :: nat where "dataOverhead = headerLen + tagLen"

datatype wire_error = ErrShortPacket | ErrBadKind

record header =
  hdr_kind :: byte
  hdr_session :: u32
  hdr_counter :: u64

text \<open>\<open>put\<close> writes over the front of its argument; a shorter slice is an index panic, \<open>None\<close>.\<close>

definition header_put :: "header \<Rightarrow> bytes \<Rightarrow> bytes option" where
  "header_put h dst =
     (if length dst < headerLen then None
      else Some ([hdr_kind h] @ put32 (hdr_session h) @ put64 (hdr_counter h) @ drop headerLen dst))"

definition header_bytes :: "header \<Rightarrow> bytes" where
  "header_bytes h = the (header_put h (replicate headerLen 0))"

definition known_kind :: "byte \<Rightarrow> bool" where
  "known_kind k \<longleftrightarrow> k \<in> {typeInit, typeResp, typeData, typeProbe, typeProbeAck}"

definition parseHeader :: "bytes \<Rightarrow> wire_error + header \<times> bytes" where
  "parseHeader buf =
     (if length buf < headerLen then Inl ErrShortPacket
      else let h = \<lparr>hdr_kind = buf ! 0, hdr_session = get32 (take 4 (drop 1 buf)),
                    hdr_counter = get64 (take 8 (drop 5 buf))\<rparr>
           in if known_kind (hdr_kind h) then Inr (h, drop headerLen buf) else Inl ErrBadKind)"

definition datagram_parse :: "bytes \<Rightarrow> (header \<times> bytes) option" where
  "datagram_parse buf = (case parseHeader buf of Inl _ \<Rightarrow> None | Inr r \<Rightarrow> Some r)"

section \<open>The contract of a framing layer\<close>

locale framing =
  fixes encode :: "'a \<Rightarrow> bytes" and decode :: "bytes \<Rightarrow> 'a option" and valid :: "'a \<Rightarrow> bool"
  assumes decode_encode: "valid x \<Longrightarrow> decode (encode x) = Some x"
begin

lemma encode_inj: "valid x \<Longrightarrow> valid y \<Longrightarrow> encode x = encode y \<longleftrightarrow> x = y"
  by (metis decode_encode option.inject)

lemma decode_image: "valid x \<Longrightarrow> \<exists>b. decode b = Some x"
  using decode_encode by blast

end

text \<open>A framing whose decoder accepts nothing but what its encoder writes.\<close>

locale exact_framing = framing +
  assumes encode_decode: "decode b = Some x \<Longrightarrow> valid x \<and> encode x = b"
begin

lemma decode_inj: "decode b = Some x \<Longrightarrow> decode c = Some x \<Longrightarrow> b = c"
  using encode_decode by blast

lemma decode_iff: "decode b = Some x \<longleftrightarrow> valid x \<and> encode x = b"
  using encode_decode decode_encode by blast

end

section \<open>Lemmas\<close>

lemma header_bytes_eq:
  "header_bytes h = hdr_kind h # put32 (hdr_session h) @ put64 (hdr_counter h)"
  by (simp add: header_bytes_def header_put_def headerLen_def)

lemma length_header_bytes [simp]: "length (header_bytes h) = 13"
  by (simp add: header_bytes_eq)

lemma header_put_front: "headerLen \<le> length dst \<Longrightarrow> header_put h dst = Some (header_bytes h @ drop headerLen dst)"
  by (simp add: header_put_def header_bytes_eq)

lemma parseHeader_header_bytes [simp, roundtrips]:
  "known_kind (hdr_kind h) \<Longrightarrow> parseHeader (header_bytes h @ body) = Inr (h, body)"
  by (simp add: parseHeader_def header_bytes_eq headerLen_def Let_def)

lemma parseHeader_Inr:
  "parseHeader buf = Inr (h, body) \<longleftrightarrow> known_kind (hdr_kind h) \<and> buf = header_bytes h @ body"
proof
  assume p: "parseHeader buf = Inr (h, body)"
  then have len: "13 \<le> length buf" and kind: "known_kind (hdr_kind h)"
    and h: "hdr_kind h = buf ! 0" "hdr_session h = get32 (take 4 (drop 1 buf))"
      "hdr_counter h = get64 (take 8 (drop 5 buf))" and body: "body = drop 13 buf"
    by (auto simp: parseHeader_def headerLen_def Let_def not_less split: if_splits)
  have "buf = take 1 buf @ take 4 (drop 1 buf) @ take 8 (drop 5 buf) @ drop 13 buf"
    using drop_split[of 0 buf 1] drop_split[of 1 buf 4] drop_split[of 5 buf 8] by simp
  moreover have "take 1 buf = [buf ! 0]"
    using len by (intro trans[OF _ take1_nth]) auto
  ultimately show "known_kind (hdr_kind h) \<and> buf = header_bytes h @ body"
    using len kind h body by (simp add: header_bytes_eq)
next
  assume "known_kind (hdr_kind h) \<and> buf = header_bytes h @ body"
  then show "parseHeader buf = Inr (h, body)" by simp
qed

interpretation wire: exact_framing
  "\<lambda>(h, body). header_bytes h @ body" datagram_parse "\<lambda>(h, body). known_kind (hdr_kind h)"
proof unfold_locales
  show "datagram_parse (case x of (h, body) \<Rightarrow> header_bytes h @ body) = Some x"
    if "case x of (h, body) \<Rightarrow> known_kind (hdr_kind h)" for x
    using that by (auto simp: datagram_parse_def)
  show "(case x of (h, body) \<Rightarrow> known_kind (hdr_kind h)) \<and> (case x of (h, body) \<Rightarrow> header_bytes h @ body) = b"
    if "datagram_parse b = Some x" for b x
    using that by (cases x) (auto simp: datagram_parse_def parseHeader_Inr split: sum.splits)
qed

end
