(* ===== verification/Replay.thy ===== *)
theory Replay
  imports Prelude
begin

text \<open>
  The anti-replay window of a session, \<open>src/internal/tunnel/l3/replay.go\<close>: the high-water mark, the
  bitmap of the 2048 counters below it, \<open>accept\<close> (may this counter be used?) and \<open>commit\<close> (record
  it). The loop of \<open>commit\<close> counts with a wrapping \<open>uint64\<close>, so it is a function that may not
  return; not returning is \<open>None\<close>.

  The abstract specification is the set of the counters committed so far. The locale
  \<open>replay_filter\<close> is what a session relies on, proved here for the window.
\<close>

section \<open>Definitions\<close>

definition replayWindowBits :: u64 where "replayWindowBits = 2048"

definition replayWords :: nat where "replayWords = 32"

record replayWindow =
  rw_max :: u64
  rw_seeded :: bool
  rw_bitmap :: "u64 list"

definition empty_window :: replayWindow where
  "empty_window = \<lparr>rw_max = 0, rw_seeded = False, rw_bitmap = replicate replayWords 0\<rparr>"

definition slot :: "u64 \<Rightarrow> nat \<times> u64" where
  "slot counter =
     (let idx = counter mod replayWindowBits
      in (unat (idx div 64), push_bit (unat (idx mod 64)) 1))"

definition accept :: "replayWindow \<Rightarrow> u64 \<Rightarrow> bool" where
  "accept w counter =
     (if \<not> rw_seeded w then True
      else if counter > rw_max w then True
      else if rw_max w - counter \<ge> replayWindowBits then False
      else (case slot counter of (word, b) \<Rightarrow> rw_bitmap w ! word AND b = 0))"

text \<open>The clearing loop \<open>for c := w.max + 1; c <= counter; c++\<close>, at the width of \<open>uint64\<close>.\<close>

partial_function (option) clear_range :: "u64 list \<Rightarrow> u64 \<Rightarrow> u64 \<Rightarrow> u64 list option" where
  "clear_range bm c counter =
     (if c \<le> counter
      then clear_range (case slot c of (word, b) \<Rightarrow> bm[word := bm ! word AND NOT b]) (c + 1) counter
      else Some bm)"

definition mark :: "u64 list \<Rightarrow> u64 \<Rightarrow> u64 list" where
  "mark bm counter = (case slot counter of (word, b) \<Rightarrow> bm[word := bm ! word OR b])"

definition commit :: "replayWindow \<Rightarrow> u64 \<Rightarrow> replayWindow option" where
  "commit w counter =
     (if \<not> rw_seeded w
      then Some (w\<lparr>rw_seeded := True, rw_max := counter, rw_bitmap := mark (rw_bitmap w) counter\<rparr>)
      else if counter > rw_max w
      then (if counter - rw_max w \<ge> replayWindowBits
            then Some (w\<lparr>rw_max := counter, rw_bitmap := mark (replicate replayWords 0) counter\<rparr>)
            else map_option (\<lambda>bm. w\<lparr>rw_max := counter, rw_bitmap := mark bm counter\<rparr>)
                   (clear_range (rw_bitmap w) (rw_max w + 1) counter))
      else Some (w\<lparr>rw_bitmap := mark (rw_bitmap w) counter\<rparr>))"

section \<open>The abstract specification\<close>

text \<open>The window over the set \<open>S\<close> of committed counters.\<close>

definition window_accepts :: "u64 set \<Rightarrow> u64 \<Rightarrow> bool" where
  "window_accepts S c \<longleftrightarrow>
     S = {} \<or> Max S < c \<or> (unat (Max S) - unat c < 2048 \<and> c \<notin> S)"

definition rbit :: "u64 list \<Rightarrow> nat \<Rightarrow> bool" where
  "rbit bm i \<longleftrightarrow> bit (bm ! (i div 64)) (i mod 64)"

definition seen_by :: "replayWindow \<Rightarrow> u64 set \<Rightarrow> bool" where
  "seen_by w S \<longleftrightarrow>
     finite S \<and> length (rw_bitmap w) = replayWords \<and>
     (if rw_seeded w
      then S \<noteq> {} \<and> rw_max w = Max S \<and>
           (\<forall>c. c \<le> rw_max w \<and> unat (rw_max w) - unat c < 2048 \<longrightarrow>
                (rbit (rw_bitmap w) (unat c mod 2048) \<longleftrightarrow> c \<in> S))
      else S = {} \<and> (\<forall>i < 2048. \<not> rbit (rw_bitmap w) i))"

fun filter_run :: "('s \<Rightarrow> 'c \<Rightarrow> bool) \<Rightarrow> ('s \<Rightarrow> 'c \<Rightarrow> 's option) \<Rightarrow> 's \<Rightarrow> 'c list \<Rightarrow> ('s \<times> 'c list) option" where
  "filter_run acc com s [] = Some (s, [])"
| "filter_run acc com s (c # cs) =
     (if acc s c
      then case com s c of
             None \<Rightarrow> None
           | Some t \<Rightarrow> map_option (\<lambda>(u, ds). (u, c # ds)) (filter_run acc com t cs)
      else filter_run acc com s cs)"

text \<open>The contract a receiver relies on: over a set of committed elements, an accepted element is
  new, committing an accepted one adds it, and committing a legal one returns.\<close>

locale replay_filter =
  fixes init :: 's and accepts :: "'s \<Rightarrow> 'c \<Rightarrow> bool" and commits :: "'s \<Rightarrow> 'c \<Rightarrow> 's option"
    and represents :: "'s \<Rightarrow> 'c set \<Rightarrow> bool" and legal :: "'c \<Rightarrow> bool"
  assumes init_empty: "represents init {}"
    and accepts_new: "represents s S \<Longrightarrow> accepts s c \<Longrightarrow> c \<notin> S"
    and commit_adds: "represents s S \<Longrightarrow> accepts s c \<Longrightarrow> commits s c = Some s' \<Longrightarrow>
          represents s' (insert c S)"
    and commit_returns: "represents s S \<Longrightarrow> accepts s c \<Longrightarrow> legal c \<Longrightarrow> \<exists>s'. commits s c = Some s'"
begin

lemma accept_then_commit:
  assumes "represents s S" "accepts s c" "commits s c = Some s'"
  shows "c \<notin> S \<and> represents s' (insert c S) \<and> \<not> accepts s' c"
proof -
  from assms have r: "represents s' (insert c S)" by (rule commit_adds)
  with accepts_new[OF r, of c] accepts_new[OF assms(1,2)] show ?thesis by blast
qed

text \<open>A run of arrivals, each accepted one committed: no element is accepted twice.\<close>

lemma run_accepts_once:
  assumes "represents s S" "filter_run accepts commits s cs = Some (s', ds)"
  shows "distinct ds \<and> set ds \<inter> S = {} \<and> set ds \<subseteq> set cs \<and> represents s' (S \<union> set ds)"
  using assms
proof (induction cs arbitrary: s S ds)
  case (Cons c cs)
  show ?case
  proof (cases "accepts s c")
    case True
    with Cons.prems obtain t es where t: "commits s c = Some t"
      "filter_run accepts commits t cs = Some (s', es)" "ds = c # es"
      by (auto split: option.splits)
    have "represents t (insert c S)" "c \<notin> S"
      using accept_then_commit[OF Cons.prems(1) True t(1)] by blast+
    with Cons.IH[OF _ t(2), of "insert c S"] t(3) show ?thesis by auto
  next
    case False
    with Cons.prems Cons.IH[of s S ds] show ?thesis by auto
  qed
qed simp

end

section \<open>Lemmas\<close>

lemma slot_eq: "slot c = (unat c mod 2048 div 64, push_bit (unat c mod 2048 mod 64) 1)"
  by (simp add: slot_def replayWindowBits_def Let_def unat_div unat_mod)

lemma rbit_set:
  assumes "length bm = 32" "i < 2048" "j < 2048"
  shows "rbit (bm[i div 64 := bm ! (i div 64) OR push_bit (i mod 64) 1]) j \<longleftrightarrow> j = i \<or> rbit bm j"
proof (cases "i div 64 = j div 64")
  case True
  then have "j = i \<longleftrightarrow> i mod 64 = j mod 64" by (metis div_mult_mod_eq)
  with True assms show ?thesis
    by (auto simp: rbit_def bit_simps)
next
  case False
  then show ?thesis by (auto simp: rbit_def)
qed

lemma rbit_clear:
  assumes "length bm = 32" "i < 2048" "j < 2048"
  shows "rbit (bm[i div 64 := bm ! (i div 64) AND NOT (push_bit (i mod 64) 1)]) j \<longleftrightarrow> j \<noteq> i \<and> rbit bm j"
proof (cases "i div 64 = j div 64")
  case True
  then have "j = i \<longleftrightarrow> i mod 64 = j mod 64" by (metis div_mult_mod_eq)
  with True assms show ?thesis
    by (auto simp: rbit_def bit_simps)
next
  case False
  then show ?thesis by (auto simp: rbit_def)
qed

lemma rbit_mark:
  assumes "length bm = 32" "j < 2048"
  shows "rbit (mark bm c) j \<longleftrightarrow> j = unat c mod 2048 \<or> rbit bm j"
  using assms rbit_set[of bm "unat c mod 2048" j] by (simp add: mark_def slot_eq)

lemma length_mark [simp]: "length (mark bm c) = length bm"
  by (simp add: mark_def slot_eq)

lemma rbit_zero [simp]: "i < 2048 \<Longrightarrow> \<not> rbit (replicate 32 0) i"
  by (simp add: rbit_def)

lemma slot_test: "(case slot c of (word, b) \<Rightarrow> bm ! word AND b = 0) \<longleftrightarrow> \<not> rbit bm (unat c mod 2048)"
  by (simp add: slot_eq rbit_def and_exp_eq_0_iff_not_bit push_bit_eq_mult)

lemma rbit_unmark:
  assumes "length bm = 32" "j < 2048"
  shows "rbit (case slot c of (word, b) \<Rightarrow> bm[word := bm ! word AND NOT b]) j \<longleftrightarrow>
    j \<noteq> unat c mod 2048 \<and> rbit bm j"
  using assms rbit_clear[of bm "unat c mod 2048" j] by (simp add: slot_eq)

lemma length_unmark [simp]:
  "length (case slot c of (word, b) \<Rightarrow> bm[word := bm ! word AND NOT b]) = length bm"
  by (simp add: slot_eq)

text \<open>The clearing loop returns unless it has to reach the top of the range, and clears exactly the
  slots of the counters it walked over.\<close>

lemma clear_range_rbit:
  assumes "length bm = 32" "c \<le> counter" "counter \<noteq> - 1"
  shows "\<exists>bm'. clear_range bm c counter = Some bm' \<and> length bm' = 32 \<and>
    (\<forall>i < 2048. rbit bm' i \<longleftrightarrow>
       rbit bm i \<and> \<not> (\<exists>d. unat c \<le> d \<and> d \<le> unat counter \<and> d mod 2048 = i))"
  using assms
proof (induction "unat counter - unat c" arbitrary: bm c)
  case 0
  then have eq: "c = counter" by (simp add: word_le_nat_alt unat_arith_simps)
  let ?bm = "case slot counter of (word, b) \<Rightarrow> bm[word := bm ! word AND NOT b]"
  have "clear_range bm c counter = Some ?bm"
    using 0 eq by (simp add: clear_range.simps[of bm] clear_range.simps[of ?bm] inc_less_eq_self_iff_eq)
  then show ?case using 0 eq by (auto simp: rbit_unmark)
next
  case (Suc k)
  let ?bm = "case slot c of (word, b) \<Rightarrow> bm[word := bm ! word AND NOT b]"
  from Suc.hyps(2) have lt: "c < counter" by (simp add: word_less_nat_alt)
  then have u: "unat (c + 1) = Suc (unat c)" by (rule unat_inc)
  have "k = unat counter - unat (c + 1)" "length ?bm = 32" "c + 1 \<le> counter"
    using Suc.hyps(2) Suc.prems u lt by (simp_all add: inc_le)
  from Suc.hyps(1)[OF this Suc.prems(3)] obtain bm' where bm':
    "clear_range ?bm (c + 1) counter = Some bm'" "length bm' = 32"
    "\<forall>i < 2048. rbit bm' i \<longleftrightarrow>
       rbit ?bm i \<and> \<not> (\<exists>d. unat (c + 1) \<le> d \<and> d \<le> unat counter \<and> d mod 2048 = i)"
    by blast
  have "clear_range bm c counter = Some bm'"
    using Suc.prems bm'(1) by (simp add: clear_range.simps[of bm])
  moreover have "(\<exists>d. unat c \<le> d \<and> d \<le> unat counter \<and> d mod 2048 = i) \<longleftrightarrow>
      i = unat c mod 2048 \<or> (\<exists>d. unat (c + 1) \<le> d \<and> d \<le> unat counter \<and> d mod 2048 = i)" for i
    using ex_range_Suc[of "unat c" "unat counter"] u lt by (auto simp: word_less_nat_alt)
  ultimately show ?case using bm'(2,3) Suc.prems by (auto simp: rbit_unmark)
qed

text \<open>At the top of the range the loop never ends: \<open>c <= counter\<close> cannot fail.\<close>

lemma clear_range_top: "clear_range bm c (- 1) = None"
proof (rule ccontr)
  assume "clear_range bm c (- 1) \<noteq> None"
  then obtain r where r: "clear_range bm c (- 1) = Some r" by blast
  have "(- 1 :: u64) \<noteq> - 1"
  proof (rule clear_range.raw_induct[where P = "\<lambda>bm c counter r. counter \<noteq> - 1", OF _ r])
    fix f :: "u64 list \<Rightarrow> u64 \<Rightarrow> u64 \<Rightarrow> u64 list option" and bm c counter r
    assume IH: "\<And>bm c counter r. f bm c counter = Some r \<Longrightarrow> counter \<noteq> - 1"
      and eq: "(if c \<le> counter
        then f (case slot c of (word, b) \<Rightarrow> bm[word := bm ! word AND NOT b]) (c + 1) counter
        else Some bm) = Some r"
    show "counter \<noteq> - 1"
      using eq IH by (auto split: if_splits)
  qed
  then show False by simp
qed

lemma mod_2048_inj:
  assumes "(a::nat) mod 2048 = b mod 2048" "a \<le> b" "b - a < 2048"
  shows "a = b"
proof -
  have "2048 dvd b - a" using assms(1,2) by (metis mod_eq_dvd_iff_nat)
  with assms(3) have "b - a = 0" by (auto dest: dvd_imp_le)
  with assms(2) show ?thesis by simp
qed

text \<open>Two counters less than a window below the same mark share a slot only if they are equal.\<close>

lemma same_slot:
  assumes "(a::nat) \<le> m" "m - a < 2048" "b \<le> m" "m - b < 2048"
  shows "a mod 2048 = b mod 2048 \<longleftrightarrow> a = b"
proof (cases "a \<le> b")
  case True
  with assms show ?thesis by (auto dest: mod_2048_inj)
next
  case False
  then have "b \<le> a" "a - b < 2048" using assms by linarith+
  with False mod_2048_inj[of b a] show ?thesis by auto
qed

lemma seen_by_empty: "seen_by empty_window {}"
  by (simp add: seen_by_def empty_window_def replayWords_def)

lemma accept_seen_by:
  assumes "seen_by w S"
  shows "accept w c = window_accepts S c"
proof (cases "rw_seeded w")
  case False
  with assms show ?thesis by (simp add: seen_by_def accept_def window_accepts_def)
next
  case True
  with assms have S: "S \<noteq> {}" "rw_max w = Max S" "finite S"
    and bits: "\<And>c. c \<le> Max S \<Longrightarrow> unat (Max S) - unat c < 2048 \<Longrightarrow>
                rbit (rw_bitmap w) (unat c mod 2048) \<longleftrightarrow> c \<in> S"
    by (auto simp: seen_by_def)
  have "Max S - c \<ge> replayWindowBits \<longleftrightarrow> \<not> unat (Max S) - unat c < 2048" if "c \<le> Max S"
    using that by (simp add: word_le_nat_alt replayWindowBits_def unat_sub not_less)
  then show ?thesis
    using True S bits[of c]
    by (cases "c \<le> Max S") (simp_all add: accept_def window_accepts_def slot_test not_le leD)
qed

text \<open>Committing an accepted counter adds it to the set of counters seen.\<close>

lemma seen_by_first:
  assumes "seen_by w {}" "\<not> rw_seeded w"
  shows "seen_by (w\<lparr>rw_seeded := True, rw_max := c, rw_bitmap := mark (rw_bitmap w) c\<rparr>) {c}"
  using assms
  by (auto simp: seen_by_def replayWords_def rbit_mark word_le_nat_alt
      dest!: mod_2048_inj intro: word_unat_eq_iff[THEN iffD2])

lemma seen_by_inside:
  assumes inv: "seen_by w S" "rw_seeded w" and c: "c \<le> rw_max w" "unat (rw_max w) - unat c < 2048"
  shows "seen_by (w\<lparr>rw_bitmap := mark (rw_bitmap w) c\<rparr>) (insert c S)"
proof -
  from inv have S: "finite S" "S \<noteq> {}" "rw_max w = Max S" "length (rw_bitmap w) = 32"
    by (auto simp: seen_by_def replayWords_def)
  have max: "Max (insert c S) = rw_max w" using S c by (simp add: max_def)
  have "rbit (mark (rw_bitmap w) c) (unat d mod 2048) \<longleftrightarrow> d \<in> insert c S"
    if d: "d \<le> rw_max w" "unat (rw_max w) - unat d < 2048" for d
  proof -
    have "unat d mod 2048 = unat c mod 2048 \<longleftrightarrow> d = c"
      using same_slot c d by (simp add: word_le_nat_alt word_unat_eq_iff)
    then show ?thesis using d inv S by (auto simp: rbit_mark seen_by_def)
  qed
  with S max inv show ?thesis by (auto simp: seen_by_def replayWords_def)
qed

lemma seen_by_jump:
  assumes inv: "seen_by w S" "rw_seeded w" and c: "c > rw_max w"
    and far: "counter_far \<Longrightarrow> bm = replicate 32 0"
    and near: "\<not> counter_far \<Longrightarrow> length bm = 32 \<and> (\<forall>i < 2048. rbit bm i \<longleftrightarrow> rbit (rw_bitmap w) i \<and>
      \<not> (\<exists>d. Suc (unat (rw_max w)) \<le> d \<and> d \<le> unat c \<and> d mod 2048 = i))"
    and counter_far: "counter_far \<longleftrightarrow> 2048 \<le> unat c - unat (rw_max w)"
  shows "seen_by (w\<lparr>rw_max := c, rw_bitmap := mark bm c\<rparr>) (insert c S)"
proof -
  from inv have S: "finite S" "S \<noteq> {}" "rw_max w = Max S"
    by (auto simp: seen_by_def)
  have len: "length bm = 32" using far near by (cases counter_far) auto
  have max: "Max (insert c S) = c"
    using c Max_insert[OF S(1,2)] by (metis S(3) less_imp_le max.absorb1)
  have "rbit (mark bm c) (unat d mod 2048) \<longleftrightarrow> d \<in> insert c S"
    if d: "d \<le> c" "unat c - unat d < 2048" for d
  proof -
    have eq: "unat d mod 2048 = unat c mod 2048 \<longleftrightarrow> d = c"
      using same_slot[of "unat d" "unat c" "unat c"] d by (simp add: word_le_nat_alt word_unat_eq_iff)
    have old: "rbit bm (unat d mod 2048) \<longleftrightarrow> d \<in> S" if "d \<noteq> c"
    proof (cases "d \<le> rw_max w")
      case False
      then have "d \<notin> S" using S by (auto simp: not_le dest: Max_ge)
      moreover have "\<not> rbit bm (unat d mod 2048)"
        using far near d False by (cases counter_far) (auto simp: word_le_nat_alt)
      ultimately show ?thesis by simp
    next
      case True
      have "\<not> counter_far" using d True c counter_far by (auto simp: word_le_nat_alt word_less_nat_alt)
      moreover have "\<not> (\<exists>e. Suc (unat (rw_max w)) \<le> e \<and> e \<le> unat c \<and> e mod 2048 = unat d mod 2048)"
      proof
        assume "\<exists>e. Suc (unat (rw_max w)) \<le> e \<and> e \<le> unat c \<and> e mod 2048 = unat d mod 2048"
        then obtain e where e: "Suc (unat (rw_max w)) \<le> e" "e \<le> unat c" "e mod 2048 = unat d mod 2048"
          by blast
        moreover have "unat d \<le> unat (rw_max w)" using True by (simp add: word_le_nat_alt)
        ultimately have "unat d < e" by linarith
        with d e mod_2048_inj[of "unat d" e] show False by linarith
      qed
      moreover have "unat (rw_max w) - unat d < 2048" using d c by (auto simp: word_less_nat_alt)
      ultimately show ?thesis using near inv True by (auto simp: seen_by_def)
    qed
    from eq old len show ?thesis by (auto simp: rbit_mark)
  qed
  with S max len inv show ?thesis by (auto simp: seen_by_def replayWords_def)
qed

lemma seen_by_commit:
  assumes inv: "seen_by w S" and acc: "accept w c"
    and returns: "c \<noteq> - 1 \<or> commit w c \<noteq> None"
  shows "\<exists>w'. commit w c = Some w' \<and> seen_by w' (insert c S)"
proof (cases "rw_seeded w")
  case False
  with inv have "S = {}" by (simp add: seen_by_def)
  with False inv show ?thesis by (auto simp: commit_def intro: seen_by_first)
next
  case seeded: True
  show ?thesis
  proof (cases "c > rw_max w")
    case False
    then have le: "c \<le> rw_max w" by simp
    moreover have "\<not> rw_max w - c \<ge> replayWindowBits"
      using acc seeded False by (simp add: accept_def split: if_splits)
    with le have "unat (rw_max w) - unat c < 2048"
      by (simp add: replayWindowBits_def word_le_nat_alt unat_sub)
    moreover note le
    ultimately have "c \<le> rw_max w" "unat (rw_max w) - unat c < 2048" by blast+
    with False seeded inv show ?thesis by (auto simp: commit_def intro: seen_by_inside)
  next
    case True
    then have far: "c - rw_max w \<ge> replayWindowBits \<longleftrightarrow> 2048 \<le> unat c - unat (rw_max w)"
      by (simp add: word_le_nat_alt replayWindowBits_def unat_sub[OF less_imp_le])
    show ?thesis
    proof (cases "2048 \<le> unat c - unat (rw_max w)")
      case jump: True
      then show ?thesis
        using seen_by_jump[OF inv seeded True, of True "replicate 32 0"] far True seeded
        by (auto simp: commit_def replayWords_def)
    next
      case near: False
      have up: "rw_max w + 1 \<le> c" and len: "length (rw_bitmap w) = 32"
        using True inv by (auto simp: inc_le seen_by_def replayWords_def)
      have top: "c \<noteq> - 1"
        using returns near True seeded far by (auto simp: commit_def clear_range_top)
      from clear_range_rbit[OF len up top] obtain bm where bm:
        "clear_range (rw_bitmap w) (rw_max w + 1) c = Some bm" "length bm = 32"
        "\<forall>i < 2048. rbit bm i \<longleftrightarrow> rbit (rw_bitmap w) i \<and>
          \<not> (\<exists>d. unat (rw_max w + 1) \<le> d \<and> d \<le> unat c \<and> d mod 2048 = i)"
        by blast
      then show ?thesis
        using seen_by_jump[OF inv seeded True, of False bm] far near True seeded unat_inc[OF True]
        by (auto simp: commit_def)
    qed
  qed
qed

interpretation window: replay_filter empty_window accept commit seen_by "\<lambda>c. c \<noteq> - 1"
proof unfold_locales
  show "seen_by empty_window {}" by (rule seen_by_empty)
  show "c \<notin> S" if "seen_by s S" "accept s c" for s S c
    using that Max_ge[of S c] by (auto simp: accept_seen_by window_accepts_def seen_by_def leD)
  show "seen_by s' (insert c S)" if "seen_by s S" "accept s c" "commit s c = Some s'" for s S c s'
    using seen_by_commit[of s S c] that by auto
  show "\<exists>s'. commit s c = Some s'" if "seen_by s S" "accept s c" "c \<noteq> - 1" for s S c
    using seen_by_commit[of s S c] that by auto
qed

section \<open>Properties\<close>



text \<open>Committing an accepted counter below the top of the range returns, records exactly that
  counter, and the window then refuses it for good.\<close>
theorem replay_commit_once:
  assumes "seen_by w S" "accept w c" "c \<noteq> - 1"
  shows "\<exists>w'. commit w c = Some w' \<and> seen_by w' (insert c S) \<and> c \<notin> S \<and> \<not> accept w' c"
  using window.commit_returns[OF assms] window.accept_then_commit[OF assms(1,2)] by blast

theorem replay_commit_once_witness:
  "\<exists>w'. commit empty_window 7 = Some w' \<and> seen_by w' {7} \<and> \<not> accept w' 7"
  using replay_commit_once[OF seen_by_empty, of 7] by (auto simp: accept_def empty_window_def)

text \<open>(C19) \<open>commit\<close> fails to return in one case only: the counter \<open>2^64 - 1\<close>, arriving within a
  window of the high-water mark. There the clearing loop's \<open>c <= counter\<close> can never be false.\<close>
theorem replay_commit_returns:
  assumes "length (rw_bitmap w) = replayWords"
  shows "commit w c = None \<longleftrightarrow>
    c = - 1 \<and> rw_seeded w \<and> rw_max w < c \<and> c - rw_max w < replayWindowBits"
proof -
  have "clear_range (rw_bitmap w) (rw_max w + 1) c \<noteq> None" if "rw_max w < c" "c \<noteq> - 1"
    using clear_range_rbit[OF _ _ that(2), of "rw_bitmap w" "rw_max w + 1"] assms that(1)
    by (auto simp: replayWords_def inc_le)
  then show ?thesis
    by (cases "c = - 1") (auto simp: commit_def clear_range_top not_le)
qed

theorem replay_commit_returns_witness:
  "commit \<lparr>rw_max = - 3, rw_seeded = True, rw_bitmap = replicate replayWords 0\<rparr> (- 1) = None \<and>
   commit \<lparr>rw_max = - 3, rw_seeded = True, rw_bitmap = replicate replayWords 0\<rparr> (- 2) \<noteq> None"
proof -
  let ?w = "\<lparr>rw_max = - 3, rw_seeded = True, rw_bitmap = replicate replayWords 0\<rparr>"
  have "length (rw_bitmap ?w) = replayWords" by simp
  note r = replay_commit_returns[OF this]
  show ?thesis using r[of "- 1"] r[of "- 2"] by (simp add: replayWindowBits_def)
qed

end
