(* ===== verification/Version.thy ===== *)
theory Version
  imports Prelude
begin

text \<open>
  Version negotiation of the layer-3 handshake, \<open>src/internal/tunnel/l3/version.go\<close>: the listener's
  reply payload with its version block, the dialler's parser of it with every refusal, and the
  version both ends settle on.
\<close>

section \<open>Definitions\<close>

definition versionLegacy :: int where "versionLegacy = 0"
definition version1 :: int where "version1 = 1"
definition version2 :: int where "version2 = 2"
definition versionCurrent :: int where "versionCurrent = version2"

lemmas version_defs = versionLegacy_def version1_def version2_def versionCurrent_def

definition versionSep :: string where "versionSep = [CHR 0x00]"

datatype version_error = VersionUnreadable | VersionIncomplete | VersionNotNumbers | VersionNegative

definition replyPayloadBlock :: "string \<Rightarrow> int \<Rightarrow> int \<Rightarrow> string" where
  "replyPayloadBlock encap mine saw =
     encap @ versionSep @ ''v'' @ itoa mine @ '','' @ itoa (max saw 0)"

definition replyPayload :: "string \<Rightarrow> int \<Rightarrow> int \<Rightarrow> string" where
  "replyPayload encap mine saw =
     (if saw \<le> versionLegacy then encap else replyPayloadBlock encap mine saw)"

definition parseReplyPayload :: "string \<Rightarrow> version_error + string \<times> int \<times> int" where
  "parseReplyPayload payload =
     (case cut versionSep payload of
        None \<Rightarrow> Inr (payload, versionLegacy, versionLegacy)
      | Some (encap, rest) \<Rightarrow>
          if \<not> prefix ''v'' rest then Inl VersionUnreadable
          else case cut '','' (drop 1 rest) of
            None \<Rightarrow> Inl VersionIncomplete
          | Some (mine, saw) \<Rightarrow>
              (case (atoi mine, atoi saw) of
                 (Some theirs, Some sawMine) \<Rightarrow>
                   if theirs < 0 \<or> sawMine < 0 then Inl VersionNegative
                   else Inr (encap, theirs, sawMine)
               | _ \<Rightarrow> Inl VersionNotNumbers))"

definition agreedVersion :: "int \<Rightarrow> int \<Rightarrow> int" where
  "agreedVersion mine theirs = (if theirs < mine then theirs else mine)"

section \<open>Lemmas\<close>

lemma format_nat_no_comma [simp]: "CHR '','' \<notin> set (format_nat n)"
  using format_nat_digits[of n] digit_not_sign unfolding list_all_iff by blast

lemma itoa_no_comma [simp]: "CHR '','' \<notin> set (itoa i)"
  by (simp add: itoa_def)

lemma parseReplyPayload_block:
  assumes "CHR 0x00 \<notin> set encap" "0 \<le> mine" "mine < 2 ^ 63" "saw < 2 ^ 63"
  shows "parseReplyPayload (replyPayloadBlock encap mine saw) = Inr (encap, mine, max saw 0)"
proof -
  have 1: "cut versionSep (replyPayloadBlock encap mine saw) = Some (encap, ''v'' @ itoa mine @ '','' @ itoa (max saw 0))"
    using cut_append[OF assms(1), of "[]"] by (simp add: versionSep_def replyPayloadBlock_def)
  have 2: "cut '','' (itoa mine @ '','' @ itoa (max saw 0)) = Some (itoa mine, itoa (max saw 0))"
    using cut_append[OF itoa_no_comma, of "[]" mine] by simp
  show ?thesis using assms 1 2 by (simp add: parseReplyPayload_def)
qed

lemma parseReplyPayload_bare:
  "CHR 0x00 \<notin> set encap \<Longrightarrow> parseReplyPayload encap = Inr (encap, versionLegacy, versionLegacy)"
  by (simp add: parseReplyPayload_def versionSep_def cut_None)

section \<open>Properties\<close>

text \<open>The dialler reads back exactly what the listener wrote: the encapsulation always, and with
  a version block the listener's version and the version it saw; a listener that saw no announced
  version answers in the legacy shape, which reads as version 0 on both counts.\<close>
theorem reply_roundtrip:
  assumes "CHR 0x00 \<notin> set encap" "0 \<le> mine" "mine < 2 ^ 63" "saw < 2 ^ 63"
  shows "parseReplyPayload (replyPayloadBlock encap mine saw) = Inr (encap, mine, max saw 0) \<and>
    parseReplyPayload (replyPayload encap mine saw) =
      (if saw \<le> 0 then Inr (encap, 0, 0) else Inr (encap, mine, saw))"
  using assms parseReplyPayload_block[OF assms] parseReplyPayload_bare[of encap]
  by (auto simp: replyPayload_def versionLegacy_def)

theorem reply_roundtrip_witness:
  "parseReplyPayload (replyPayload ''gre:7'' 2 1) = Inr (''gre:7'', 2, 1) \<and>
   parseReplyPayload (replyPayload ''gre'' 2 0) = Inr (''gre'', 0, 0)"
  using reply_roundtrip[of "''gre:7''" 2 1] reply_roundtrip[of "''gre''" 2 0] by simp

text \<open>Whatever the bytes, a reply that parses carries two versions that are counts, never
  negative, and settling with any version of one's own yields one neither end exceeds.\<close>
theorem reply_versions_are_counts:
  assumes "parseReplyPayload payload = Inr (encap, theirs, sawMine)" "0 \<le> mine"
  shows "0 \<le> theirs \<and> 0 \<le> sawMine \<and> 0 \<le> agreedVersion mine theirs \<and>
    agreedVersion mine theirs \<le> mine \<and> agreedVersion mine theirs \<le> theirs"
  using assms
  by (auto simp: parseReplyPayload_def versionLegacy_def agreedVersion_def
      split: option.splits if_splits)

theorem reply_versions_are_counts_witness:
  "parseReplyPayload ''gre'' = Inr (''gre'', 0, 0) \<and> agreedVersion 2 0 = 0 \<and>
   parseReplyPayload (''gre'' @ versionSep @ ''v-1,2'') = Inl VersionNegative"
proof -
  have p: "parseReplyPayload ''gre'' = Inr (''gre'', 0, 0)"
    by (simp add: parseReplyPayload_def versionSep_def versionLegacy_def)
  show ?thesis
    using p reply_versions_are_counts[OF p, of 2]
    by (simp add: agreedVersion_def parseReplyPayload_def versionSep_def atoi_def is_digit_def
        digit_val_def decimal_val_def)
qed

end
