(* ===== verification/Freshness.thy ===== *)
theory Freshness
  imports Version Replay
begin

text \<open>
  Freshness of the layer-3 handshake: the timestamp in the dialler's payload, the dialler's clock
  and the listener's memory of what it accepted (\<open>src/internal/tunnel/l3/freshness.go\<close>), and the
  bounded memory of recently answered session identifiers (\<open>src/internal/tunnel/l3/initreplay.go\<close>).
\<close>

section \<open>Definitions: the timestamp\<close>

definition freshSep :: string where "freshSep = versionSep @ ''t''"

definition legacyRetry :: duration where "legacyRetry = 30 * minute"

datatype fresh_error = FreshUnreadable

definition initPayload :: "string \<Rightarrow> u64 \<Rightarrow> string" where
  "initPayload encap fresh = (if fresh = 0 then encap else encap @ freshSep @ format_nat (unat fresh))"

definition parseInitPayload :: "string \<Rightarrow> fresh_error + string \<times> u64" where
  "parseInitPayload payload =
     (case cut freshSep payload of
        None \<Rightarrow> Inr (payload, 0)
      | Some (encap, rest) \<Rightarrow>
          (case parse_uint 64 rest of
             None \<Rightarrow> Inl FreshUnreadable
           | Some n \<Rightarrow> if n = 0 then Inl FreshUnreadable else Inr (encap, word_of_nat n)))"

record freshClock =
  fc_last :: u64

definition freshClock_next :: "freshClock \<Rightarrow> instant \<Rightarrow> freshClock \<times> u64" where
  "freshClock_next c now =
     (let ts = (word_of_int now :: u64);
          ts = (if ts \<le> fc_last c then fc_last c + 1 else ts)
      in (c\<lparr>fc_last := ts\<rparr>, ts))"

record freshJudge =
  fj_last :: u64
  fj_required :: bool

definition freshJudge_init :: freshJudge where
  "freshJudge_init = \<lparr>fj_last = 0, fj_required = False\<rparr>"

datatype admit_error = NoTimestamp | NotNewer u64 u64

definition admit :: "freshJudge \<Rightarrow> u64 \<Rightarrow> admit_error + freshJudge" where
  "admit j fresh =
     (if fresh = 0 then (if fj_required j then Inl NoTimestamp else Inr j)
      else if fresh \<le> fj_last j then Inl (NotNewer fresh (fj_last j))
      else Inr (j\<lparr>fj_last := fresh, fj_required := True\<rparr>))"

section \<open>Definitions: recently answered handshakes\<close>

definition initMemory :: nat where "initMemory = 64"
definition initMemoryWindow :: duration where "initMemoryWindow = 10 * minute"

record seenInits =
  si_ids :: "u32 list"
  si_when :: "instant list"

definition seenInits_init :: seenInits where
  "seenInits_init = \<lparr>si_ids = [], si_when = []\<rparr>"

definition expire :: "seenInits \<Rightarrow> instant \<Rightarrow> seenInits" where
  "expire s now =
     (let c = length (takeWhile (\<lambda>w. now - w > initMemoryWindow) (si_when s))
      in if c > 0 then s\<lparr>si_ids := drop c (si_ids s), si_when := drop c (si_when s)\<rparr> else s)"

definition seen :: "seenInits \<Rightarrow> u32 \<Rightarrow> instant \<Rightarrow> bool \<times> seenInits" where
  "seen s0 i now =
     (let s = expire s0 now
      in if i \<in> set (si_ids s) then (True, s)
         else let ids = si_ids s @ [i]; ws = si_when s @ [now]
              in (False,
                  if length ids > initMemory
                  then \<lparr>si_ids = drop (length ids - initMemory) ids,
                        si_when = drop (length ws - initMemory) ws\<rparr>
                  else \<lparr>si_ids = ids, si_when = ws\<rparr>))"

text \<open>A sequence of first-message arrivals, each with its identifier and its instant.\<close>

fun seen_run :: "seenInits \<Rightarrow> (u32 \<times> instant) list \<Rightarrow> seenInits" where
  "seen_run s [] = s"
| "seen_run s ((i, t) # es) = seen_run (snd (seen s i t)) es"

fun clock_run :: "freshClock \<Rightarrow> instant list \<Rightarrow> u64 list" where
  "clock_run c [] = []"
| "clock_run c (t # ts) = (let (c', x) = freshClock_next c t in x # clock_run c' ts)"

section \<open>Specifications\<close>

text \<open>The judge as a replay filter over timestamps; \<open>judged j S\<close>: the timestamps of \<open>S\<close> have been
  admitted.\<close>

definition judge_accepts :: "freshJudge \<Rightarrow> u64 \<Rightarrow> bool" where
  "judge_accepts j f \<longleftrightarrow> f \<noteq> 0 \<and> (\<exists>j'. admit j f = Inr j')"

definition judge_commits :: "freshJudge \<Rightarrow> u64 \<Rightarrow> freshJudge option" where
  "judge_commits j f = (case admit j f of Inl _ \<Rightarrow> None | Inr j' \<Rightarrow> Some j')"

definition judged :: "freshJudge \<Rightarrow> u64 set \<Rightarrow> bool" where
  "judged j S \<longleftrightarrow> (\<forall>f \<in> S. f \<le> fj_last j) \<and> (S \<noteq> {} \<longrightarrow> fj_required j)"

fun admit_run :: "freshJudge \<Rightarrow> u64 list \<Rightarrow> freshJudge" where
  "admit_run j [] = j"
| "admit_run j (f # fs) = admit_run (case admit j f of Inl _ \<Rightarrow> j | Inr j' \<Rightarrow> j') fs"

text \<open>\<open>remembers s i w k\<close>: the memory holds \<open>i\<close>, recorded at \<open>w\<close>, with at most \<open>k\<close> newer entries.\<close>

definition remembers :: "seenInits \<Rightarrow> u32 \<Rightarrow> instant \<Rightarrow> nat \<Rightarrow> bool" where
  "remembers s i w k \<longleftrightarrow> (\<exists>a b a' b'. si_ids s = a @ i # b \<and> si_when s = a' @ w # b' \<and>
     length a = length a' \<and> length b = length b' \<and> length b \<le> k)"

definition memory_ok :: "seenInits \<Rightarrow> bool" where
  "memory_ok s \<longleftrightarrow> length (si_ids s) = length (si_when s) \<and> length (si_ids s) \<le> initMemory \<and>
     distinct (si_ids s)"

section \<open>Lemmas\<close>

lemma parseInitPayload_initPayload [simp, roundtrips]:
  assumes "CHR 0x00 \<notin> set encap"
  shows "parseInitPayload (initPayload encap fresh) = Inr (encap, fresh)"
proof (cases "fresh = 0")
  case True
  then show ?thesis
    using assms by (simp add: parseInitPayload_def initPayload_def freshSep_def versionSep_def cut_None)
next
  case False
  have "unat fresh < 2 ^ 64" using unsigned_less[of fresh, where ?'a=nat] by simp
  then show ?thesis
    using False cut_append[OF assms, of "''t''"]
    by (simp add: parseInitPayload_def initPayload_def freshSep_def versionSep_def unat_eq_zero)
qed


text \<open>The dialler's clock: within its range it strictly increases, whatever the wall clock does.\<close>

lemma clock_run_increasing:
  assumes "unat (fc_last c) < B" "\<forall>t \<in> set ts. 0 \<le> t \<and> t < int B" "B + length ts \<le> 2 ^ 64"
  shows "sorted_wrt (<) (fc_last c # clock_run c ts)"
  using assms
proof (induction ts arbitrary: c B)
  case Nil
  then show ?case by simp
next
  case (Cons t ts)
  obtain c' x where n: "freshClock_next c t = (c', x)" by fastforce
  have B: "B < 2 ^ 64" "0 \<le> t" "t < int B" using Cons.prems by simp_all
  then have "t < 2 ^ 64" by (metis less_trans of_nat_less_iff of_nat_numeral of_nat_power)
  with B(2) have t: "unat (word_of_int t :: u64) = nat t"
    by (simp only: unat_eq_nat_uint uint_word_of_int_eq) (simp add: take_bit_int_eq_self)
  have inc: "unat (fc_last c + 1) = Suc (unat (fc_last c))"
    using B(1) Cons.prems(1) by (intro unat_inc_below) simp
  have x: "fc_last c' = x" "fc_last c < x" "unat x < Suc B"
    using n t inc Cons.prems
    by (auto simp: freshClock_next_def Let_def word_less_nat_alt word_le_nat_alt split: if_splits)
  have "sorted_wrt (<) (fc_last c' # clock_run c' ts)"
    using Cons.prems x by (intro Cons.IH[of _ "Suc B"]) auto
  then show ?case using n x by (auto intro: less_trans)
qed

text \<open>The judge remembers its newest timestamp, so it is a replay filter over timestamps.\<close>

interpretation judge: replay_filter freshJudge_init judge_accepts judge_commits judged "\<lambda>_. True"
proof unfold_locales
  show "judged freshJudge_init {}" by (simp add: judged_def)
  show "f \<notin> S" if "judged j S" "judge_accepts j f" for j S f
    using that by (auto simp: judged_def judge_accepts_def admit_def split: if_splits)
  show "judged j' (insert f S)"
    if "judged j S" "judge_accepts j f" "judge_commits j f = Some j'" for j S f j'
    using that
    by (fastforce simp: judged_def judge_accepts_def judge_commits_def admit_def split: if_splits)
  show "\<exists>j'. judge_commits j f = Some j'" if "judge_accepts j f" for j S f
    using that by (auto simp: judge_accepts_def judge_commits_def)
qed

lemma admit_run_judged: "judged j S \<Longrightarrow> judged (admit_run j fs) S"
proof (induction fs arbitrary: j)
  case (Cons f fs)
  have "judged (case admit j f of Inl _ \<Rightarrow> j | Inr j' \<Rightarrow> j') S"
    using Cons.prems by (auto simp: judged_def admit_def split: sum.splits if_splits)
  then show ?case using Cons.IH by simp
qed simp

lemma admit_run_last:
  "sorted_wrt (<) (fj_last j # fs) \<Longrightarrow> fj_last (admit_run j fs) = last (fj_last j # fs)"
proof (induction fs arbitrary: j)
  case (Cons f fs)
  then have "admit j f = Inr (j\<lparr>fj_last := f, fj_required := True\<rparr>)"
    by (auto simp: admit_def)
  with Cons.prems Cons.IH[of "j\<lparr>fj_last := f, fj_required := True\<rparr>"] show ?case by auto
qed simp

lemma admit_judged:
  assumes "admit j f = Inr j'" "f \<noteq> 0"
  shows "judged j' {f}"
  using assms by (auto simp: judged_def admit_def split: if_splits)

text \<open>An identifier stays in the memory while fewer than \<open>initMemory\<close> newer ones follow it.\<close>

lemma expire_remembers:
  assumes "remembers s i w k" "now - w \<le> initMemoryWindow"
  shows "remembers (expire s now) i w k"
proof -
  from assms(1) obtain a b a' b' where s: "si_ids s = a @ i # b" "si_when s = a' @ w # b'"
    "length a = length a'" "length b = length b'" "length b \<le> k"
    unfolding remembers_def by blast
  let ?c = "length (takeWhile (\<lambda>w. now - w > initMemoryWindow) (si_when s))"
  have "?c \<le> length a'"
    using assms(2) length_takeWhile_le[of _ a'] by (simp add: s(2) takeWhile_append)
  then have "remembers \<lparr>si_ids = drop ?c (si_ids s), si_when = drop ?c (si_when s)\<rparr> i w k"
    using s unfolding remembers_def
    by (intro exI[of _ "drop ?c a"] exI[of _ b] exI[of _ "drop ?c a'"] exI[of _ b']) simp
  then show ?thesis using assms(1) by (simp add: expire_def remembers_def Let_def)
qed

lemma seen_remembers:
  assumes "remembers s i w k" "now - w \<le> initMemoryWindow" "Suc k < initMemory"
  shows "remembers (snd (seen s j now)) i w (Suc k)"
proof -
  from expire_remembers[OF assms(1,2)] obtain a b a' b' where
    s: "si_ids (expire s now) = a @ i # b" "si_when (expire s now) = a' @ w # b'"
    "length a = length a'" "length b = length b'" "length b \<le> k"
    unfolding remembers_def by blast
  let ?n = "length a + length b + 2 - initMemory"
  have "?n \<le> length a" using s(5) assms(3) by linarith
  then have "remembers \<lparr>si_ids = drop ?n (si_ids (expire s now) @ [j]),
      si_when = drop ?n (si_when (expire s now) @ [now])\<rparr> i w (Suc k)"
    using s unfolding remembers_def
    by (intro exI[of _ "drop ?n a"] exI[of _ "b @ [j]"] exI[of _ "drop ?n a'"] exI[of _ "b' @ [now]"]) simp
  moreover have "remembers (expire s now) i w (Suc k)"
    using s unfolding remembers_def by fastforce
  ultimately show ?thesis
    using s by (auto simp: seen_def Let_def not_less split: if_splits)
qed

lemma seen_run_remembers:
  assumes "remembers s i w k" "k + length es < initMemory" "\<forall>(j, t) \<in> set es. t - w \<le> initMemoryWindow"
  shows "remembers (seen_run s es) i w (k + length es)"
  using assms
proof (induction es arbitrary: s k)
  case (Cons e es)
  obtain j t where e: "e = (j, t)" by fastforce
  with Cons.prems have "remembers (snd (seen s j t)) i w (Suc k)"
    by (intro seen_remembers) auto
  with Cons e show ?case using Cons.IH[of "snd (seen s j t)" "Suc k"] by auto
qed simp

lemma seen_answered:
  assumes "length (si_ids s) = length (si_when s)" "\<not> fst (seen s i t)"
  shows "remembers (snd (seen s i t)) i t 0"
proof -
  let ?e = "expire s t"
  have len: "length (si_ids ?e) = length (si_when ?e)"
    using assms(1) by (simp add: expire_def Let_def)
  let ?n = "length (si_ids ?e) + 1 - initMemory"
  have "?n \<le> length (si_ids ?e)" by (simp add: initMemory_def)
  then have "remembers \<lparr>si_ids = drop ?n (si_ids ?e @ [i]), si_when = drop ?n (si_when ?e @ [t])\<rparr> i t 0"
    using len unfolding remembers_def
    by (intro exI[of _ "drop ?n (si_ids ?e)"] exI[of _ "[]"] exI[of _ "drop ?n (si_when ?e)"]) simp
  with assms(2) len show ?thesis
    by (auto simp: seen_def Let_def not_less split: if_splits)
qed

lemma expire_memory_ok: "memory_ok s \<Longrightarrow> memory_ok (expire s t)"
  by (auto simp: memory_ok_def expire_def Let_def)

lemma seen_memory_ok: "memory_ok s \<Longrightarrow> memory_ok (snd (seen s i t))"
  using expire_memory_ok[of s t]
  by (auto simp: memory_ok_def seen_def Let_def initMemory_def dest: in_set_dropD)

lemma seen_run_memory_ok: "memory_ok s \<Longrightarrow> memory_ok (seen_run s es)"
  by (induction s es rule: seen_run.induct) (auto simp: seen_memory_ok)

section \<open>Properties\<close>

text \<open>The listener reads back the encapsulation and the timestamp the dialler wrote, for every
  encapsulation name without a separator byte and every timestamp, the legacy 0 included.\<close>
theorem init_payload_roundtrip:
  assumes "CHR 0x00 \<notin> set encap"
  shows "parseInitPayload (initPayload encap fresh) = Inr (encap, fresh)"
  using assms by simp

theorem init_payload_roundtrip_witness:
  "parseInitPayload (initPayload ''gre:7'' 1700000000000000000) = Inr (''gre:7'', 1700000000000000000)"
  using init_payload_roundtrip[of "''gre:7''" 1700000000000000000] by simp

text \<open>Timestamps of one dialler strictly increase, however its wall clock jumps, so a listener
  whose newest timestamp is the dialler's last one admits every later one, in order: nothing but the
  end of the 64-bit range stops the sequence.\<close>
theorem dialler_timestamps_admitted:
  assumes "unat (fc_last c) < B" "\<forall>t \<in> set ts. 0 \<le> t \<and> t < int B" "B + length ts \<le> 2 ^ 64"
    and "fj_last j = fc_last c"
  shows "sorted_wrt (<) (clock_run c ts) \<and>
    fj_last (admit_run j (clock_run c ts)) = last (fc_last c # clock_run c ts)"
  using clock_run_increasing[OF assms(1-3)] admit_run_last[of j] assms(4) by auto

theorem dialler_timestamps_admitted_witness:
  "sorted_wrt (<) (clock_run \<lparr>fc_last = 0\<rparr> [100, 90, 90]) \<and>
   clock_run \<lparr>fc_last = 0\<rparr> [100, 90, 90] = [100, 101, 102] \<and>
   fj_last (admit_run freshJudge_init [100, 101, 102]) = 102"
proof -
  have r: "clock_run \<lparr>fc_last = 0\<rparr> [100, 90, 90] = [100, 101, 102]"
    by (simp add: freshClock_next_def)
  show ?thesis
    using dialler_timestamps_admitted[of "\<lparr>fc_last = 0\<rparr>" 200 "[100, 90, 90]" freshJudge_init]
    unfolding r by (simp add: freshJudge_init_def del: clock_run.simps admit_run.simps)
qed

text \<open>Once a timestamp was admitted, no later state of the listener admits it again, nor any
  older one, nor a payload without a timestamp: a recorded handshake is worthless.\<close>
theorem admitted_never_replayed:
  assumes "admit j f = Inr j'" "f \<noteq> 0" "g \<le> f"
  shows "\<exists>e. admit (admit_run j' fs) g = Inl e"
  using admit_run_judged[OF admit_judged[OF assms(1,2)], of fs] assms(3)
  by (auto simp: judged_def admit_def)

theorem admitted_never_replayed_witness:
  "\<exists>e. admit (admit_run (the (judge_commits freshJudge_init 50)) [60, 0, 55]) 50 = Inl e"
  using admitted_never_replayed[of freshJudge_init 50 "the (judge_commits freshJudge_init 50)" 50 "[60, 0, 55]"]
  by (simp add: admit_def freshJudge_init_def judge_commits_def)

text \<open>A handshake answered once is refused while it is within the memory: for as long as no more
  than the window passes and fewer than 64 other handshakes arrive in between. The memory itself
  never holds more than 64 identifiers, nor one twice.\<close>
theorem answered_init_refused:
  assumes "memory_ok s" "\<not> fst (seen s i w)" "length es < initMemory"
    and "\<forall>(j, t) \<in> set es. t - w \<le> initMemoryWindow" "now - w \<le> initMemoryWindow"
  shows "fst (seen (seen_run (snd (seen s i w)) es) i now) \<and> memory_ok (seen_run s es)"
proof -
  have "remembers (snd (seen s i w)) i w 0"
    using assms(1,2) by (intro seen_answered) (simp_all add: memory_ok_def)
  then have "remembers (seen_run (snd (seen s i w)) es) i w (length es)"
    using seen_run_remembers[of _ i w 0 es] assms(3,4) by simp
  from expire_remembers[OF this assms(5)] show ?thesis
    using seen_run_memory_ok[OF assms(1)] by (auto simp: remembers_def seen_def Let_def)
qed

theorem answered_init_refused_witness:
  "fst (seen (seen_run (snd (seen seenInits_init 9 0)) [(4, 5), (9, 6), (3, 7)]) 9 (10 * minute))"
  using answered_init_refused[of seenInits_init 9 0 "[(4, 5), (9, 6), (3, 7)]" "10 * minute"]
  by (simp add: seenInits_init_def memory_ok_def seen_def expire_def initMemory_def
      initMemoryWindow_def minute_def)

end
