(* ===== verification/Encap.thy ===== *)
theory Encap
  imports Wire
begin

text \<open>
  Encapsulation of the inner IP packet, \<open>src/internal/tunnel/l3/encap.go\<close>: GRE (RFC 2784) with the
  optional key of RFC 2890, its selection by name, its overhead, \<open>Wrap\<close> and \<open>Unwrap\<close> with every
  refusal, and the identifier the handshake announces for it (\<open>encapID\<close> of \<open>session.go\<close>).

  The Go interface \<open>Encap\<close> has one implementation, \<open>greEncap\<close>; its contract is \<open>exact_framing\<close>.
\<close>

section \<open>Definitions\<close>

datatype encap_error = ErrEmptyPacket | ErrBadIPVersion | ErrShortGRE | ErrGREFlags | ErrGREKeyMissing
  | ErrGREKeyWrong | ErrGREProto | ErrUnknownEncap string

definition etherIPv4 :: u16 where "etherIPv4 = 0x0800"
definition etherIPv6 :: u16 where "etherIPv6 = 0x86DD"
definition greKeyPresent :: u16 where "greKeyPresent = 0x2000"

record greEncap =
  gre_key :: u32
  gre_keyed :: bool

definition NewEncap :: "string \<Rightarrow> u32 \<Rightarrow> encap_error + greEncap" where
  "NewEncap name greKey =
     (if ToLower (TrimSpace name) \<in> {'''', ''ipip'', ''gre''}
      then Inr \<lparr>gre_key = greKey, gre_keyed = (greKey \<noteq> 0)\<rparr>
      else Inl (ErrUnknownEncap name))"

definition ipVersion :: "bytes \<Rightarrow> encap_error + byte" where
  "ipVersion pkt =
     (if pkt = [] then Inl ErrEmptyPacket
      else let v = drop_bit 4 (pkt ! 0) in if v = 4 \<or> v = 6 then Inr v else Inl ErrBadIPVersion)"

definition greName :: "greEncap \<Rightarrow> string" where "greName g = ''gre''"

definition Overhead :: "greEncap \<Rightarrow> nat" where
  "Overhead g = (if gre_keyed g then 8 else 4)"

definition Wrap :: "greEncap \<Rightarrow> bytes \<Rightarrow> bytes \<Rightarrow> encap_error + bytes" where
  "Wrap g dst pkt =
     (case ipVersion pkt of
        Inl e \<Rightarrow> Inl e
      | Inr version \<Rightarrow>
          let proto = (if version = 6 then etherIPv6 else etherIPv4);
              flags = (if gre_keyed g then 0 OR greKeyPresent else 0);
              hdr = put16 flags @ put16 proto @ (if gre_keyed g then put32 (gre_key g) else replicate 4 0)
          in Inr (dst @ take (Overhead g) hdr @ pkt))"

definition Unwrap :: "greEncap \<Rightarrow> bytes \<Rightarrow> encap_error + bytes" where
  "Unwrap g frame =
     (if length frame < 4 then Inl ErrShortGRE
      else let flags = get16 frame; proto = get16 (drop 2 frame) in
        if flags AND NOT greKeyPresent \<noteq> 0 then Inl ErrGREFlags
        else if proto \<noteq> etherIPv4 \<and> proto \<noteq> etherIPv6 then Inl ErrGREProto
        else
          case (if flags AND greKeyPresent \<noteq> 0
                then if length frame < 8 then Inl ErrShortGRE
                     else if \<not> gre_keyed g then Inl ErrGREKeyWrong
                     else if get32 (drop 4 frame) \<noteq> gre_key g then Inl ErrGREKeyWrong
                     else Inr 8
                else if gre_keyed g then Inl ErrGREKeyMissing else Inr 4)
          of Inl e \<Rightarrow> Inl e
           | Inr offset \<Rightarrow>
               let inner = drop offset frame in
               (case ipVersion inner of
                  Inl e \<Rightarrow> Inl e
                | Inr version \<Rightarrow>
                    if (version = 4) \<noteq> (proto = etherIPv4) then Inl ErrGREProto else Inr inner))"

text \<open>What each end announces in the handshake (\<open>session.go\<close>).\<close>

definition encapID :: "greEncap \<Rightarrow> string" where
  "encapID g = (if gre_keyed g then ''gre:'' @ format_nat (unat (gre_key g)) else greName g)"

text \<open>Views of the operations as a framing, and what \<open>Wrap\<close> accepts.\<close>

definition gre_encode :: "greEncap \<Rightarrow> bytes \<Rightarrow> bytes" where
  "gre_encode g pkt = (case Wrap g [] pkt of Inl _ \<Rightarrow> [] | Inr f \<Rightarrow> f)"

definition gre_decode :: "greEncap \<Rightarrow> bytes \<Rightarrow> bytes option" where
  "gre_decode g f = (case Unwrap g f of Inl _ \<Rightarrow> None | Inr p \<Rightarrow> Some p)"

definition ip_packet :: "bytes \<Rightarrow> bool" where
  "ip_packet p \<longleftrightarrow> p \<noteq> [] \<and> drop_bit 4 (p ! 0) \<in> {4, 6}"

definition gre_proto :: "bytes \<Rightarrow> u16" where
  "gre_proto p = (if drop_bit 4 (p ! 0) = 6 then etherIPv6 else etherIPv4)"

section \<open>Lemmas\<close>

lemma ipVersion_Inr: "ipVersion p = Inr v \<longleftrightarrow> ip_packet p \<and> v = drop_bit 4 (p ! 0)"
  by (auto simp: ipVersion_def ip_packet_def Let_def)

lemma ipVersion_ip: "ip_packet p \<Longrightarrow> ipVersion p = Inr (drop_bit 4 (p ! 0))"
  by (simp add: ipVersion_Inr)

lemma Wrap_eq:
  "Wrap g dst p = Inr f \<longleftrightarrow> ip_packet p \<and>
     f = dst @ put16 (if gre_keyed g then greKeyPresent else 0) @ put16 (gre_proto p) @
         (if gre_keyed g then put32 (gre_key g) else []) @ p"
proof (cases "ip_packet p")
  case True
  then show ?thesis by (auto simp: Wrap_def ipVersion_ip gre_proto_def Overhead_def Let_def)
next
  case False
  then obtain e where "ipVersion p = Inl e" by (cases "ipVersion p") (auto simp: ipVersion_Inr)
  with False show ?thesis by (simp add: Wrap_def)
qed

lemma greKey_bits:
  fixes flags :: u16
  shows "flags AND NOT greKeyPresent = 0 \<longleftrightarrow> flags = 0 \<or> flags = greKeyPresent"
proof
  have e: "greKeyPresent = 2 ^ 13" by (simp add: greKeyPresent_def)
  have k: "bit greKeyPresent n \<longleftrightarrow> n = 13" for n
    unfolding e bit_exp_iff by auto
  assume a: "flags AND NOT greKeyPresent = 0"
  have only: "bit flags n \<Longrightarrow> n = 13" for n
    using arg_cong[OF a, of "\<lambda>w. bit w n"] bit_imp_le_length[of flags n] by (auto simp: k bit_simps)
  have "bit flags n = bit (if bit flags 13 then greKeyPresent else 0) n" for n
    using only[of n] k[of n] by (cases "n = 13") auto
  then have "flags = (if bit flags 13 then greKeyPresent else 0)"
    by (intro bit_word_eqI) blast
  then show "flags = 0 \<or> flags = greKeyPresent" by presburger
qed (auto simp: greKeyPresent_def)

lemma ether_distinct [simp]: "etherIPv4 \<noteq> etherIPv6" "etherIPv6 \<noteq> etherIPv4"
  by (simp_all add: etherIPv4_def etherIPv6_def)

lemma Unwrap_Wrap [roundtrips]: "Wrap g [] p = Inr f \<Longrightarrow> Unwrap g f = Inr p"
  by (cases "gre_keyed g")
    (auto simp: Wrap_eq Unwrap_def Let_def gre_proto_def ipVersion_ip ip_packet_def greKeyPresent_def)

lemma Unwrap_split:
  assumes "4 \<le> length frame"
  shows "frame = put16 (get16 frame) @ put16 (get16 (drop 2 frame)) @ drop 4 frame"
  using assms drop_split[of 0 frame 2] drop_split[of 2 frame 2] by simp

lemma Wrap_Unwrap:
  assumes u: "Unwrap g f = Inr p"
  shows "Wrap g [] p = Inr f"
proof -
  have len: "4 \<le> length f" using u by (auto simp: Unwrap_def not_less split: if_splits)
  obtain flags proto rest where f: "f = put16 flags @ put16 proto @ rest"
    using Unwrap_split[OF len] by blast
  have fl: "flags = 0 \<or> flags = greKeyPresent"
    using u by (auto simp: f Unwrap_def Let_def greKey_bits split: if_splits)
  have key: "gre_keyed g \<longleftrightarrow> flags = greKeyPresent"
    and pr: "proto = etherIPv4 \<or> proto = etherIPv6"
    using u fl by (auto simp: f Unwrap_def Let_def greKeyPresent_def split: if_splits sum.splits)
  have rest: "ip_packet p \<and> proto = gre_proto p \<and>
     rest = (if gre_keyed g then put32 (gre_key g) @ p else p)"
  proof (cases "gre_keyed g")
    case True
    with u key have "4 \<le> length rest" "gre_key g = get32 rest" "p = drop 4 rest"
      and v: "ip_packet p" "(drop_bit 4 (p ! 0) = 4) = (proto = etherIPv4)"
      by (auto simp: f Unwrap_def Let_def greKeyPresent_def ipVersion_Inr split: if_splits sum.splits)
    then show ?thesis using True pr by (auto simp: gre_proto_def ip_packet_def)
  next
    case False
    with u key fl have "p = rest" "ip_packet p" "(drop_bit 4 (p ! 0) = 4) = (proto = etherIPv4)"
      by (auto simp: f Unwrap_def Let_def greKeyPresent_def ipVersion_Inr split: if_splits sum.splits)
    then show ?thesis using False pr by (auto simp: gre_proto_def ip_packet_def)
  qed
  then show ?thesis using key fl by (auto simp: f Wrap_eq)
qed

interpretation gre: exact_framing "gre_encode g" "gre_decode g" ip_packet for g
proof unfold_locales
  show "gre_decode g (gre_encode g x) = Some x" if ip: "ip_packet x" for x
  proof -
    obtain f where "Wrap g [] x = Inr f" using ip by (auto simp: Wrap_eq)
    then show ?thesis by (simp add: gre_decode_def gre_encode_def Unwrap_Wrap)
  qed
  show "ip_packet x \<and> gre_encode g x = b" if "gre_decode g b = Some x" for b x
  proof -
    have w: "Wrap g [] x = Inr b"
      using that by (intro Wrap_Unwrap) (simp add: gre_decode_def split: sum.splits)
    then show ?thesis using Wrap_eq[THEN iffD1, OF w] by (simp add: gre_encode_def)
  qed
qed

lemma gre_keys_agree:
  assumes "Unwrap g frame = Inr pkt" "Unwrap h frame = Inr pkt'"
  shows "gre_keyed g = gre_keyed h \<and> (gre_keyed g \<longrightarrow> gre_key g = gre_key h) \<and> pkt = pkt'"
proof -
  have f: "Wrap g [] pkt = Inr frame" "Wrap h [] pkt' = Inr frame"
    using assms Wrap_Unwrap by blast+
  have fl: "get16 frame = (if gre_keyed g then greKeyPresent else 0)" if "Wrap g [] pkt = Inr frame" for g pkt
    using that by (auto simp: Wrap_eq)
  note fl[OF f(1)] fl[OF f(2)]
  then have k: "gre_keyed g = gre_keyed h" 
    by (cases "gre_keyed g"; cases "gre_keyed h") (simp_all add: greKeyPresent_def)
  have "gre_key g = gre_key h" if "gre_keyed g"
  proof -
    have "get32 (drop 4 frame) = gre_key g" "get32 (drop 4 frame) = gre_key h"
      using f k that by (auto simp: Wrap_eq)
    then show ?thesis by simp
  qed
  then show ?thesis using f k by (auto simp: Wrap_eq)
qed

section \<open>Properties\<close>

text \<open>\<open>Unwrap\<close> inverts \<open>Wrap\<close> and accepts nothing else: a frame yields an inner packet exactly if
  wrapping that packet, with the same key, gives that frame.\<close>
theorem gre_unwrap_exact:
  "Unwrap g frame = Inr pkt \<longleftrightarrow> Wrap g [] pkt = Inr frame"
  using Wrap_Unwrap Unwrap_Wrap by blast

text \<open>\<open>Wrap\<close> adds exactly \<open>Overhead\<close> bytes behind what the buffer held, which is what the MTU
  calculation relies on, and it succeeds exactly for IPv4 and IPv6 packets.\<close>
theorem gre_overhead_exact:
  "(\<exists>f. Wrap g dst pkt = Inr f \<and> take (length dst) f = dst \<and>
        length f = length dst + Overhead g + length pkt) \<longleftrightarrow> ip_packet pkt"
  by (auto simp: Wrap_eq Overhead_def)

text \<open>A frame is never read by an end with another key: if two ends unwrap the same frame, they
  agree on being keyed, and on the key, and read the same packet.\<close>
theorem gre_keys_separate:
  assumes "Unwrap g frame = Inr pkt" "Unwrap h frame = Inr pkt'"
  shows "gre_keyed g = gre_keyed h \<and> (gre_keyed g \<longrightarrow> gre_key g = gre_key h) \<and> pkt = pkt'"
  using assms by (rule gre_keys_agree)

theorem gre_keys_separate_witness:
  "(let g = \<lparr>gre_key = 7, gre_keyed = True\<rparr>; f = [0x20, 0, 8, 0, 0, 0, 0, 7, 0x45, 0]
    in Unwrap g f = Inr [0x45, 0] \<and> gre_keyed g)"
proof -
  have u: "Unwrap \<lparr>gre_key = 7, gre_keyed = True\<rparr> [0x20, 0, 8, 0, 0, 0, 0, 7, 0x45, 0] = Inr [0x45, 0]"
    by code_simp
  show ?thesis using u gre_keys_separate[OF u u] by simp
qed

text \<open>The identifier announced in the handshake tells encapsulations apart exactly as the data
  path does: two configured ends announce the same identifier only if each unwraps what the other
  wraps.\<close>
theorem encapID_faithful:
  assumes "NewEncap name k = Inr g" "NewEncap name' k' = Inr h"
  shows "encapID g = encapID h \<longleftrightarrow> (\<forall>pkt. ip_packet pkt \<longrightarrow> gre_decode h (gre_encode g pkt) = Some pkt)"
proof
  assume "encapID g = encapID h"
  then have "g = h"
    using assms
    by (auto simp: encapID_def greName_def NewEncap_def format_nat_inj unsigned_word_eqI split: if_splits)
  then show "\<forall>pkt. ip_packet pkt \<longrightarrow> gre_decode h (gre_encode g pkt) = Some pkt"
    using gre.decode_encode by blast
next
  assume a: "\<forall>pkt. ip_packet pkt \<longrightarrow> gre_decode h (gre_encode g pkt) = Some pkt"
  have ip: "ip_packet [0x45]" by (simp add: ip_packet_def)
  then have "gre_decode h (gre_encode g [0x45]) = Some [0x45]" "gre_decode g (gre_encode g [0x45]) = Some [0x45]"
    using a gre.decode_encode by blast+
  then obtain f where "Unwrap h f = Inr [0x45]" "Unwrap g f = Inr [0x45]"
    by (auto simp: gre_decode_def split: sum.splits)
  from gre_keys_agree[OF this] show "encapID g = encapID h"
    using assms by (auto simp: encapID_def greName_def)
qed

theorem encapID_faithful_witness:
  "\<not> (\<forall>pkt. ip_packet pkt \<longrightarrow>
     gre_decode \<lparr>gre_key = 8, gre_keyed = True\<rparr> (gre_encode \<lparr>gre_key = 7, gre_keyed = True\<rparr> pkt) = Some pkt)"
proof -
  have n: "NewEncap ''gre'' 7 = Inr \<lparr>gre_key = 7, gre_keyed = True\<rparr>"
    "NewEncap '' IPIP '' 8 = Inr \<lparr>gre_key = 8, gre_keyed = True\<rparr>"
    by code_simp+
  have "encapID \<lparr>gre_key = 7, gre_keyed = True\<rparr> \<noteq> encapID \<lparr>gre_key = 8, gre_keyed = True\<rparr>"
    by (simp add: encapID_def format_nat_inj)
  with encapID_faithful[OF n] show ?thesis by blast
qed

end
