(* ===== verification/Session.thy ===== *)
theory Session
  imports Wire Replay Version Freshness Encap
begin

text \<open>
  The cryptographic session, \<open>src/internal/tunnel/l3/session.go\<close>: sealing and opening of datagrams,
  the session's lifetime, and both sides of the handshake.

  The Noise library (\<open>github.com/flynn/noise\<close>) and HKDF are not part of the repository. They are the
  functions of a record \<open>noise\<close> every operation takes: a handshake state of type \<open>'h\<close>, transport keys
  of type \<open>'c\<close>. What the code relies on is stated as the predicates \<open>aead_correct\<close> (decryption
  inverts encryption) and \<open>noise_correct\<close> (the two ends of an undisturbed handshake with one key
  read each other's payloads and derive the same pair of keys), and the witnesses instantiate them
  with a concrete record. Fresh randomness is an argument. \<open>time.Now\<close> is the argument \<open>now\<close>.

  A destination buffer whose content is overwritten (\<open>dst[:0]\<close>) is not an argument of the model. An
  operation on a session returns the session it leaves behind. \<open>open\<close> may fail to return, because
  \<open>commit\<close> may: that is \<open>None\<close>.
\<close>

section \<open>Definitions: the library\<close>

record ('h, 'c) noise =
  nh_psk :: "string \<Rightarrow> string \<Rightarrow> bytes option"
  nh_new :: "string \<Rightarrow> bytes \<Rightarrow> bool \<Rightarrow> 'h option"
  nh_write :: "'h \<Rightarrow> bytes \<Rightarrow> bytes \<Rightarrow> 'h \<times> (bytes \<times> 'c option \<times> 'c option) option"
  nh_read :: "'h \<Rightarrow> bytes \<Rightarrow> 'h \<times> (bytes \<times> 'c option \<times> 'c option) option"
  nc_encrypt :: "'c \<Rightarrow> u64 \<Rightarrow> bytes \<Rightarrow> bytes \<Rightarrow> bytes"
  nc_decrypt :: "'c \<Rightarrow> u64 \<Rightarrow> bytes \<Rightarrow> bytes \<Rightarrow> bytes option"

definition aead_correct :: "('h, 'c) noise \<Rightarrow> bool" where
  "aead_correct N \<longleftrightarrow>
     (\<forall>k n ad p. nc_decrypt N k n ad (nc_encrypt N k n ad p) = Some p \<and>
                 length (nc_encrypt N k n ad p) = length p + tagLen)"

definition noise_correct :: "('h, 'c) noise \<Rightarrow> bool" where
  "noise_correct N \<longleftrightarrow>
     (\<forall>prologue psk hi hr e1 p1 hi1 m1 x.
        nh_new N prologue psk True = Some hi \<and> nh_new N prologue psk False = Some hr \<and>
        nh_write N hi e1 p1 = (hi1, Some (m1, x)) \<longrightarrow>
        (\<exists>hr1 y. nh_read N hr m1 = (hr1, Some (p1, y)) \<and>
           (\<forall>e2 p2 hr2 m2 c0 c1. nh_write N hr1 e2 p2 = (hr2, Some (m2, c0, c1)) \<longrightarrow>
              (\<exists>hi2. nh_read N hi1 m2 = (hi2, Some (p2, c0, c1))))))"

section \<open>Definitions: the session\<close>

definition l3Prologue :: string where "l3Prologue = ''backpack-l3-v1''"
definition l3PSKLabel :: string where "l3PSKLabel = ''backpack-l3-psk-v1''"

definition rekeyAfterMessages :: u64 where "rekeyAfterMessages = 2 ^ 48"
definition rejectAfterMessages :: u64 where "rejectAfterMessages = 2 ^ 60"
definition rekeyAfterTime :: duration where "rekeyAfterTime = 2 * minute"
definition rejectAfterTime :: duration where "rejectAfterTime = 5 * minute"

datatype session_error = ErrSessionExhausted | ErrReplayed | ErrHandshakeShort
  | ErrEncapMismatch string string | ErrDowngraded int int | ErrPeerLegacy
  | ErrBuild | ErrWrite | ErrRejected | ErrDecrypt | ErrRandom | ErrNoDistinctID
  | ErrReply version_error | ErrTimestamp fresh_error

record 'c session =
  se_id :: u32
  se_created :: instant
  se_send :: 'c
  se_recv :: 'c
  se_counter :: u64
  se_replay :: replayWindow

definition l3PSK :: "('h, 'c) noise \<Rightarrow> string \<Rightarrow> bytes option" where
  "l3PSK N token = nh_psk N token l3PSKLabel"

definition newSession :: "u32 \<Rightarrow> 'c option \<Rightarrow> 'c option \<Rightarrow> instant \<Rightarrow> session_error + 'c session" where
  "newSession i sendCS recvCS now =
     (case (sendCS, recvCS) of
        (Some k, Some l) \<Rightarrow>
          Inr \<lparr>se_id = i, se_created = now, se_send = k, se_recv = l, se_counter = 0, se_replay = empty_window\<rparr>
      | _ \<Rightarrow> Inl ErrHandshakeShort)"

definition sealKind ::
  "('h, 'c) noise \<Rightarrow> 'c session \<Rightarrow> bytes \<Rightarrow> byte \<Rightarrow> 'c session \<times> (session_error + bytes)" where
  "sealKind N s plaintext kind =
     (let s' = s\<lparr>se_counter := se_counter s + 1\<rparr>;
          counter = se_counter s' - 1
      in if counter \<ge> rejectAfterMessages then (s', Inl ErrSessionExhausted)
         else let ad = header_bytes \<lparr>hdr_kind = kind, hdr_session = se_id s, hdr_counter = counter\<rparr>
              in (s', Inr (ad @ nc_encrypt N (se_send s) counter ad plaintext)))"

definition seal :: "('h, 'c) noise \<Rightarrow> 'c session \<Rightarrow> bytes \<Rightarrow> 'c session \<times> (session_error + bytes)" where
  "seal N s plaintext = sealKind N s plaintext typeData"

definition open_msg ::
  "('h, 'c) noise \<Rightarrow> 'c session \<Rightarrow> header \<Rightarrow> bytes \<Rightarrow> ('c session \<times> (session_error + bytes)) option" where
  "open_msg N s h body =
     (if \<not> accept (se_replay s) (hdr_counter h) then Some (s, Inl ErrReplayed)
      else case nc_decrypt N (se_recv s) (hdr_counter h) (header_bytes h) body of
             None \<Rightarrow> Some (s, Inl ErrDecrypt)
           | Some plain \<Rightarrow>
               map_option (\<lambda>w. (s\<lparr>se_replay := w\<rparr>, Inr plain)) (commit (se_replay s) (hdr_counter h)))"

definition dueForRekey :: "'c session \<Rightarrow> instant \<Rightarrow> bool" where
  "dueForRekey s now \<longleftrightarrow> se_counter s \<ge> rekeyAfterMessages \<or> now - se_created s \<ge> rekeyAfterTime"

definition expired :: "'c session \<Rightarrow> instant \<Rightarrow> bool" where
  "expired s now \<longleftrightarrow> now - se_created s \<ge> rejectAfterTime"

section \<open>Definitions: the handshake\<close>

definition newHandshakeState :: "('h, 'c) noise \<Rightarrow> string \<Rightarrow> bool \<Rightarrow> 'h option" where
  "newHandshakeState N token initiator =
     (case l3PSK N token of None \<Rightarrow> None | Some psk \<Rightarrow> nh_new N l3Prologue psk initiator)"

record 'h initiatorHandshake =
  ih_id :: u32
  ih_state :: 'h
  ih_msg :: bytes
  ih_encap :: string
  ih_announced :: int
  ih_agreed :: int
  ih_fresh :: u64

text \<open>\<open>newSessionID\<close> draws four random bytes up to eight times; \<open>draw i\<close> is the \<open>i\<close>-th read.\<close>

fun newSessionID_from :: "(nat \<Rightarrow> bytes option) \<Rightarrow> u32 \<Rightarrow> nat \<Rightarrow> nat \<Rightarrow> session_error + u32" where
  "newSessionID_from draw avoid attempt 0 = Inl ErrNoDistinctID"
| "newSessionID_from draw avoid attempt (Suc left) =
     (case draw attempt of
        None \<Rightarrow> Inl ErrRandom
      | Some b \<Rightarrow> let i = get32 b in
          if i \<noteq> 0 \<and> i \<noteq> avoid then Inr i else newSessionID_from draw avoid (Suc attempt) left)"

definition newSessionID :: "(nat \<Rightarrow> bytes option) \<Rightarrow> u32 \<Rightarrow> session_error + u32" where
  "newSessionID draw avoid = newSessionID_from draw avoid 0 8"

definition beginHandshakeFresh ::
  "('h, 'c) noise \<Rightarrow> bytes \<Rightarrow> (nat \<Rightarrow> bytes option) \<Rightarrow> string \<Rightarrow> u32 \<Rightarrow> string \<Rightarrow> u64 \<Rightarrow>
   session_error + 'h initiatorHandshake" where
  "beginHandshakeFresh N entropy draw token avoid encap fresh =
     (case newHandshakeState N token True of
        None \<Rightarrow> Inl ErrBuild
      | Some state \<Rightarrow>
          (case nh_write N state entropy (bytes_of (initPayload encap fresh)) of
             (state', None) \<Rightarrow> Inl ErrWrite
           | (state', Some (msg, _)) \<Rightarrow>
               (case newSessionID draw avoid of
                  Inl e \<Rightarrow> Inl e
                | Inr i \<Rightarrow>
                    Inr \<lparr>ih_id = i, ih_state = state', ih_msg = msg, ih_encap = encap,
                         ih_announced = versionCurrent, ih_agreed = versionLegacy, ih_fresh = fresh\<rparr>)))"

definition beginHandshake ::
  "('h, 'c) noise \<Rightarrow> bytes \<Rightarrow> (nat \<Rightarrow> bytes option) \<Rightarrow> string \<Rightarrow> u32 \<Rightarrow> string \<Rightarrow>
   session_error + 'h initiatorHandshake" where
  "beginHandshake N entropy draw token avoid encap = beginHandshakeFresh N entropy draw token avoid encap 0"

definition datagram :: "'h initiatorHandshake \<Rightarrow> bytes" where
  "datagram h =
     header_bytes \<lparr>hdr_kind = typeInit, hdr_session = ih_id h, hdr_counter = word_of_int (ih_announced h)\<rparr>
     @ ih_msg h"

definition complete ::
  "('h, 'c) noise \<Rightarrow> 'h initiatorHandshake \<Rightarrow> bytes \<Rightarrow> instant \<Rightarrow>
   'h initiatorHandshake \<times> (session_error + 'c session)" where
  "complete N h0 reply now =
     (case nh_read N (ih_state h0) reply of
        (st, None) \<Rightarrow> (h0\<lparr>ih_state := st\<rparr>, Inl ErrRejected)
      | (st, Some (payload, cs0, cs1)) \<Rightarrow>
          let h = h0\<lparr>ih_state := st\<rparr> in
          (case parseReplyPayload (string_of payload) of
             Inl e \<Rightarrow> (h, Inl (ErrReply e))
           | Inr (theirEncap, theirVersion, sawMine) \<Rightarrow>
               if theirEncap \<noteq> [] \<and> theirEncap \<noteq> ih_encap h
               then (h, Inl (ErrEncapMismatch (ih_encap h) theirEncap))
               else if theirVersion > versionLegacy \<and> sawMine \<noteq> ih_announced h
               then (h, Inl (ErrDowngraded (ih_announced h) sawMine))
               else if ih_fresh h \<noteq> 0 \<and> theirVersion < version2
               then (h, Inl ErrPeerLegacy)
               else (h\<lparr>ih_agreed := agreedVersion (ih_announced h) theirVersion\<rparr>,
                     newSession (ih_id h) cs0 cs1 now)))"

text \<open>\<open>respondFresh\<close> returns the session, the reply datagram, the timestamp and the error, each of
  which may be absent.\<close>

definition respondFresh ::
  "('h, 'c) noise \<Rightarrow> bytes \<Rightarrow> string \<Rightarrow> u32 \<Rightarrow> int \<Rightarrow> bytes \<Rightarrow> string \<Rightarrow> instant \<Rightarrow>
   'c session option \<times> bytes option \<times> u64 \<times> session_error option" where
  "respondFresh N entropy token i peerVersion msg encap now =
     (case newHandshakeState N token False of
        None \<Rightarrow> (None, None, 0, Some ErrBuild)
      | Some state \<Rightarrow>
          (case nh_read N state msg of
             (state', None) \<Rightarrow> (None, None, 0, Some ErrRejected)
           | (state', Some (payload, _)) \<Rightarrow>
               (case parseInitPayload (string_of payload) of
                  Inl e \<Rightarrow> (None, None, 0, Some (ErrTimestamp e))
                | Inr (theirs, fresh) \<Rightarrow>
                    let answer = (if fresh \<noteq> 0 then replyPayloadBlock encap versionCurrent peerVersion
                                  else replyPayload encap versionCurrent peerVersion)
                    in (case nh_write N state' entropy (bytes_of answer) of
                          (_, None) \<Rightarrow> (None, None, 0, Some ErrWrite)
                        | (_, Some (reply, cs0, cs1)) \<Rightarrow>
                            let dg = header_bytes \<lparr>hdr_kind = typeResp, hdr_session = i, hdr_counter = 0\<rparr> @ reply
                            in if theirs \<noteq> [] \<and> theirs \<noteq> encap
                               then (None, Some dg, 0, Some (ErrEncapMismatch encap theirs))
                               else (case newSession i cs1 cs0 now of
                                       Inl e \<Rightarrow> (None, None, 0, Some e)
                                     | Inr sess \<Rightarrow> (Some sess, Some dg, fresh, None))))))"

definition respondV ::
  "('h, 'c) noise \<Rightarrow> bytes \<Rightarrow> string \<Rightarrow> u32 \<Rightarrow> int \<Rightarrow> bytes \<Rightarrow> string \<Rightarrow> instant \<Rightarrow>
   'c session option \<times> bytes option \<times> session_error option" where
  "respondV N entropy token i peerVersion msg encap now =
     (case respondFresh N entropy token i peerVersion msg encap now of
        (sess, reply, _, err) \<Rightarrow> (sess, reply, err))"

definition respond ::
  "('h, 'c) noise \<Rightarrow> bytes \<Rightarrow> string \<Rightarrow> u32 \<Rightarrow> bytes \<Rightarrow> string \<Rightarrow> instant \<Rightarrow>
   'c session option \<times> bytes option \<times> session_error option" where
  "respond N entropy token i msg encap now = respondV N entropy token i versionLegacy msg encap now"

section \<open>Runs of a session, and what they are judged by\<close>

text \<open>A sequence of seals, and the datagrams it put out.\<close>

fun seal_run :: "('h, 'c) noise \<Rightarrow> 'c session \<Rightarrow> (bytes \<times> byte) list \<Rightarrow> bytes list" where
  "seal_run N s [] = []"
| "seal_run N s ((p, k) # ps) =
     (case sealKind N s p k of
        (s', Inl _) \<Rightarrow> seal_run N s' ps
      | (s', Inr d) \<Rightarrow> d # seal_run N s' ps)"

text \<open>The nonce of a datagram is the counter in its header.\<close>

definition nonce_of :: "bytes \<Rightarrow> u64" where "nonce_of d = get64 (drop 5 d)"

text \<open>A sequence of arrivals, and the counters of those that were opened.\<close>

fun open_run ::
  "('h, 'c) noise \<Rightarrow> 'c session \<Rightarrow> (header \<times> bytes) list \<Rightarrow> ('c session \<times> u64 list) option" where
  "open_run N s [] = Some (s, [])"
| "open_run N s ((h, body) # ds) =
     (case open_msg N s h body of
        None \<Rightarrow> None
      | Some (s', Inl _) \<Rightarrow> open_run N s' ds
      | Some (s', Inr _) \<Rightarrow> map_option (\<lambda>(t, cs). (t, hdr_counter h # cs)) (open_run N s' ds))"

text \<open>Two sessions are mirror images: same identifier, each sends under the key the other receives
  under.\<close>

definition mirrored :: "'c session \<Rightarrow> 'c session \<Rightarrow> bool" where
  "mirrored a b \<longleftrightarrow> se_id a = se_id b \<and> se_send a = se_recv b \<and> se_recv a = se_send b"

text \<open>A concrete library for the witnesses: messages and ciphertexts carry their key.\<close>

definition demo_noise :: "(bytes \<times> nat, bytes \<times> nat) noise" where
  "demo_noise = \<lparr>
     nh_psk = (\<lambda>token label. Some (bytes_of (label @ token))),
     nh_new = (\<lambda>prologue psk i. Some (psk, 0)),
     nh_write = (\<lambda>(psk, n) e p.
       ((psk, Suc n), Some (psk @ p, if n = 0 then (None, None) else (Some (psk, 0), Some (psk, 1))))),
     nh_read = (\<lambda>(psk, n) m.
       ((psk, Suc n), if take (length psk) m = psk
        then Some (drop (length psk) m, if n = 0 then (None, None) else (Some (psk, 0), Some (psk, 1)))
        else None)),
     nc_encrypt = (\<lambda>k n ad p. put64 n @ put64 n @ p),
     nc_decrypt = (\<lambda>k n ad c. if take 8 c = put64 n \<and> take 8 (drop 8 c) = put64 n then Some (drop 16 c) else None)\<rparr>"

section \<open>Lemmas\<close>

lemma demo_noise_correct: "aead_correct demo_noise" "noise_correct demo_noise"
  by (auto simp: aead_correct_def noise_correct_def demo_noise_def tagLen_def)

lemma sealKind_Inr:
  assumes "sealKind N s p k = (s', Inr d)"
  shows "s' = s\<lparr>se_counter := se_counter s + 1\<rparr>" "se_counter s < rejectAfterMessages"
    "d = (let ad = header_bytes \<lparr>hdr_kind = k, hdr_session = se_id s, hdr_counter = se_counter s\<rparr>
          in ad @ nc_encrypt N (se_send s) (se_counter s) ad p)"
  using assms by (auto simp: sealKind_def Let_def not_le split: if_splits)

lemma sealKind_state: "fst (sealKind N s p k) = s\<lparr>se_counter := se_counter s + 1\<rparr>"
  by (simp add: sealKind_def Let_def)

lemma nonce_of_header [simp]: "nonce_of (header_bytes h @ r) = hdr_counter h"
  by (simp add: nonce_of_def header_bytes_eq)

lemma seal_run_nonces:
  assumes "unat (se_counter s) + length ps \<le> 2 ^ 64"
  shows "distinct (map nonce_of (seal_run N s ps)) \<and>
    (\<forall>d \<in> set (seal_run N s ps). se_counter s \<le> nonce_of d \<and> nonce_of d < rejectAfterMessages)"
  using assms
proof (induction ps arbitrary: s)
  case (Cons q ps)
  obtain p k where q: "q = (p, k)" by fastforce
  let ?s = "s\<lparr>se_counter := se_counter s + 1\<rparr>"
  show ?case
  proof (cases "ps = []")
    case True
    then show ?thesis
      by (auto simp: q sealKind_def Let_def not_le split: if_splits)
  next
    case False
    then obtain q' ps' where "ps = q' # ps'" by (cases ps) auto
    then have inc: "unat (se_counter s + 1) = Suc (unat (se_counter s))"
      using Cons.prems by (intro unat_inc_below) simp
    then have lt: "se_counter s < se_counter ?s" by (simp add: word_less_nat_alt)
    have IH: "distinct (map nonce_of (seal_run N ?s ps))"
      "\<forall>d \<in> set (seal_run N ?s ps). se_counter ?s \<le> nonce_of d \<and> nonce_of d < rejectAfterMessages"
      using Cons.IH[of ?s] Cons.prems inc by auto
    then have above: "\<forall>d \<in> set (seal_run N ?s ps). se_counter s < nonce_of d"
      using lt by (meson less_le_trans)
    show ?thesis
    proof (cases "snd (sealKind N s p k)")
      case (Inl e)
      then have "sealKind N s p k = (?s, Inl e)" using sealKind_state by (metis prod.collapse)
      then show ?thesis using IH above by (auto simp: q dest: less_imp_le)
    next
      case (Inr d)
      then have e: "sealKind N s p k = (?s, Inr d)" using sealKind_state by (metis prod.collapse)
      have "nonce_of d = se_counter s" using sealKind_Inr(3)[OF e] by (simp add: Let_def)
      then show ?thesis using IH above e sealKind_Inr(2)[OF e] by (auto simp: q dest: less_imp_le)
    qed
  qed
qed simp

lemma open_refused_unchanged: "open_msg N s h body = Some (s', Inl e) \<Longrightarrow> s' = s"
  by (auto simp: open_msg_def split: if_splits option.splits)

lemma open_Inr:
  assumes "open_msg N s h body = Some (s', Inr p)"
  shows "accept (se_replay s) (hdr_counter h)"
    "nc_decrypt N (se_recv s) (hdr_counter h) (header_bytes h) body = Some p"
    "\<exists>w. commit (se_replay s) (hdr_counter h) = Some w \<and> s' = s\<lparr>se_replay := w\<rparr>"
  using assms by (auto simp: open_msg_def split: if_splits option.splits)

lemma open_run_once:
  assumes "seen_by (se_replay s) S" "open_run N s ds = Some (s', cs)"
  shows "distinct cs \<and> set cs \<inter> S = {} \<and> seen_by (se_replay s') (S \<union> set cs)"
  using assms
proof (induction ds arbitrary: s S cs)
  case (Cons d ds)
  obtain h body where d: "d = (h, body)" by fastforce
  obtain s1 r where o: "open_msg N s h body = Some (s1, r)"
    using Cons.prems(2) by (auto simp: d split: option.splits)
  show ?case
  proof (cases r)
    case (Inl e)
    then have "s1 = s" using o open_refused_unchanged by blast
    then show ?thesis using Cons Inl o by (auto simp: d)
  next
    case (Inr p)
    note o' = open_Inr[OF o[unfolded Inr]]
    obtain es where es: "open_run N s1 ds = Some (s', es)" "cs = hdr_counter h # es"
      using Cons.prems(2) o Inr by (auto simp: d)
    have "hdr_counter h \<notin> S \<and> seen_by (se_replay s1) (insert (hdr_counter h) S)"
      using window.accept_then_commit[OF Cons.prems(1) o'(1)] o'(3) by auto
    with Cons.IH[OF _ es(1), of "insert (hdr_counter h) S"] es(2) show ?thesis by auto
  qed
qed simp

lemma newSessionID_from_ok:
  "newSessionID_from draw avoid a n = Inr i \<Longrightarrow> i \<noteq> 0 \<and> i \<noteq> avoid"
  by (induction n arbitrary: a) (auto simp: Let_def split: option.splits if_splits)


text \<open>An undisturbed handshake: what the dialler wrote is what the listener reads, and the reply the
  listener answers with is what the dialler reads, with the same pair of keys.\<close>

lemma begin_Inr:
  assumes "beginHandshakeFresh N e draw token avoid encap fresh = Inr ih"
  shows "\<exists>hi x. newHandshakeState N token True = Some hi \<and>
      nh_write N hi e (bytes_of (initPayload encap fresh)) = (ih_state ih, Some (ih_msg ih, x)) \<and>
      newSessionID draw avoid = Inr (ih_id ih) \<and> ih_encap ih = encap \<and> ih_announced ih = versionCurrent \<and>
      ih_agreed ih = versionLegacy \<and> ih_fresh ih = fresh"
  using assms
  by (auto simp: beginHandshakeFresh_def split: option.splits sum.splits prod.splits)

lemma respond_reads:
  assumes N: "noise_correct N" and b: "beginHandshakeFresh N e draw token avoid encap fresh = Inr ih"
    and enc: "CHR 0x00 \<notin> set encap"
    and r: "respondFresh N e' token i v (ih_msg ih) encap' now = (so, Some dg, f, err)"
  shows "\<exists>hi2 m2 c0 c1.
      dg = header_bytes \<lparr>hdr_kind = typeResp, hdr_session = i, hdr_counter = 0\<rparr> @ m2 \<and>
      nh_read N (ih_state ih) m2 =
        (hi2, Some (bytes_of (if fresh \<noteq> 0 then replyPayloadBlock encap' versionCurrent v
                              else replyPayload encap' versionCurrent v), c0, c1)) \<and>
      (if encap \<noteq> [] \<and> encap \<noteq> encap' then so = None \<and> f = 0 \<and> err = Some (ErrEncapMismatch encap' encap)
       else newSession i c1 c0 now = Inr (the so) \<and> so \<noteq> None \<and> f = fresh \<and> err = None)"
proof -
  from begin_Inr[OF b] obtain hi x where hi: "newHandshakeState N token True = Some hi"
    "nh_write N hi e (bytes_of (initPayload encap fresh)) = (ih_state ih, Some (ih_msg ih, x))" by blast
  obtain hr where hr: "newHandshakeState N token False = Some hr"
    using r by (auto simp: respondFresh_def split: option.splits)
  from hi(1) hr obtain psk where psk: "nh_new N l3Prologue psk True = Some hi" "nh_new N l3Prologue psk False = Some hr"
    by (auto simp: newHandshakeState_def split: option.splits)
  from N psk hi(2) obtain hr1 y where read: "nh_read N hr (ih_msg ih) = (hr1, Some (bytes_of (initPayload encap fresh), y))"
    and rest: "\<And>e2 p2 hr2 m2 c0 c1. nh_write N hr1 e2 p2 = (hr2, Some (m2, c0, c1)) \<Longrightarrow>
              \<exists>hi2. nh_read N (ih_state ih) m2 = (hi2, Some (p2, c0, c1))"
    unfolding noise_correct_def by metis
  let ?a = "if fresh \<noteq> 0 then replyPayloadBlock encap' versionCurrent v else replyPayload encap' versionCurrent v"
  obtain hr2 w where w: "nh_write N hr1 e' (bytes_of ?a) = (hr2, w)" by fastforce
  obtain m2 c0 c1 where w': "w = Some (m2, c0, c1)"
    using r hr read w enc by (cases w) (auto simp: respondFresh_def Let_def)
  from rest[OF w[unfolded w']] obtain hi2 where
    i: "nh_read N (ih_state ih) m2 = (hi2, Some (bytes_of ?a, c0, c1))" by blast
  have "dg = header_bytes \<lparr>hdr_kind = typeResp, hdr_session = i, hdr_counter = 0\<rparr> @ m2 \<and>
    (if encap \<noteq> [] \<and> encap \<noteq> encap' then so = None \<and> f = 0 \<and> err = Some (ErrEncapMismatch encap' encap)
       else newSession i c1 c0 now = Inr (the so) \<and> so \<noteq> None \<and> f = fresh \<and> err = None)"
    using r hr read w[unfolded w'] enc
    by (auto simp: respondFresh_def Let_def split: if_splits sum.splits)
  with i show ?thesis by blast
qed

text \<open>How the dialler reads each shape of reply.\<close>

lemma complete_reply:
  assumes "nh_read N (ih_state h) m2 = (st, Some (bytes_of (if fresh \<noteq> 0 then replyPayloadBlock encap' versionCurrent v
      else replyPayload encap' versionCurrent v), c0, c1))"
    and "CHR 0x00 \<notin> set encap'" "v < 2 ^ 63" "ih_announced h = versionCurrent" "ih_fresh h = fresh"
  shows "snd (complete N h m2 now) =
    (if encap' \<noteq> [] \<and> encap' \<noteq> ih_encap h then Inl (ErrEncapMismatch (ih_encap h) encap')
     else if (fresh \<noteq> 0 \<or> 0 < v) \<and> v \<noteq> versionCurrent then Inl (ErrDowngraded versionCurrent (max v 0))
     else newSession (ih_id h) c0 c1 now)"
    "snd (complete N h m2 now) = Inr s \<Longrightarrow>
     ih_agreed (fst (complete N h m2 now)) = (if fresh \<noteq> 0 \<or> 0 < v then versionCurrent else versionLegacy)"
proof -
  have b: "parseReplyPayload (replyPayloadBlock encap' 2 v) = Inr (encap', 2, max v 0)"
    and l: "parseReplyPayload encap' = Inr (encap', 0, 0)"
    using parseReplyPayload_block[OF assms(2), of 2 v] parseReplyPayload_bare[OF assms(2)] assms(3)
    by (simp_all add: version_defs)
  show "snd (complete N h m2 now) =
    (if encap' \<noteq> [] \<and> encap' \<noteq> ih_encap h then Inl (ErrEncapMismatch (ih_encap h) encap')
     else if (fresh \<noteq> 0 \<or> 0 < v) \<and> v \<noteq> versionCurrent then Inl (ErrDowngraded versionCurrent (max v 0))
     else newSession (ih_id h) c0 c1 now)"
    using assms b l by (auto simp: complete_def Let_def replyPayload_def version_defs)
  show "snd (complete N h m2 now) = Inr s \<Longrightarrow>
     ih_agreed (fst (complete N h m2 now)) = (if fresh \<noteq> 0 \<or> 0 < v then versionCurrent else versionLegacy)"
    using assms b l by (auto simp: complete_def Let_def replyPayload_def version_defs agreedVersion_def split: if_splits)
qed

text \<open>Sealing at one end and opening at the other.\<close>

lemma seal_open_roundtrip_lemma:
  assumes "aead_correct N" "mirrored a b" "known_kind k" "sealKind N a p k = (a', Inr d)"
    and "seen_by (se_replay b) S" "window_accepts S (se_counter a)"
  shows "\<exists>h body b'. parseHeader d = Inr (h, body) \<and> hdr_session h = se_id b \<and> hdr_kind h = k \<and>
    open_msg N b h body = Some (b', Inr p) \<and> mirrored a' b' \<and>
    seen_by (se_replay b') (insert (se_counter a) S)"
proof -
  let ?h = "\<lparr>hdr_kind = k, hdr_session = se_id a, hdr_counter = se_counter a\<rparr>"
  let ?body = "nc_encrypt N (se_send a) (se_counter a) (header_bytes ?h) p"
  note s = sealKind_Inr[OF assms(4)]
  have acc: "accept (se_replay b) (se_counter a)" using accept_seen_by[OF assms(5)] assms(6) by simp
  have "rejectAfterMessages < - 1" by (simp add: rejectAfterMessages_def word_less_nat_alt unsigned_minus_1_eq_mask mask_eq_exp_minus_1)
  then have "se_counter a \<noteq> - 1" using s(2) by auto
  from window.commit_returns[OF assms(5) acc this] obtain w where w: "commit (se_replay b) (se_counter a) = Some w" ..
  have "open_msg N b ?h ?body = Some (b\<lparr>se_replay := w\<rparr>, Inr p)"
    using acc w assms(1,2) by (simp add: open_msg_def aead_correct_def mirrored_def)
  moreover have "parseHeader d = Inr (?h, ?body)" using s(3) assms(3) by (simp add: Let_def)
  moreover have "mirrored a' (b\<lparr>se_replay := w\<rparr>)" using assms(2) s(1) by (simp add: mirrored_def)
  moreover have "seen_by w (insert (se_counter a) S)" by (rule window.commit_adds[OF assms(5) acc w])
  ultimately show ?thesis using assms(2) by (auto simp: mirrored_def)
qed

text \<open>The concrete library's handshake, used by the witnesses.\<close>

lemma demo_begin:
  "\<exists>ih. beginHandshakeFresh demo_noise [] (\<lambda>_. Some [0, 0, 0, 6]) t 0 encap fresh = Inr ih \<and>
     ih_id ih = 6 \<and> ih_announced ih = 2 \<and>
     ih_msg ih = bytes_of (l3PSKLabel @ t) @ bytes_of (initPayload encap fresh)"
proof -
  have "newSessionID (\<lambda>_. Some [0, 0, 0, 6]) 0 = Inr 6" by code_simp
  then show ?thesis
    by (simp add: beginHandshakeFresh_def newHandshakeState_def l3PSK_def demo_noise_def version_defs)
qed

lemma demo_respond:
  assumes "CHR 0x00 \<notin> set encap"
  shows "\<exists>so dg f err. respondFresh demo_noise [] t i v
     (bytes_of (l3PSKLabel @ t) @ bytes_of (initPayload encap fresh)) encap' now = (so, Some dg, f, err)"
  using parseInitPayload_initPayload[OF assms, of fresh]
  by (auto simp: respondFresh_def newHandshakeState_def l3PSK_def demo_noise_def newSession_def Let_def)

section \<open>Properties\<close>



text \<open>What one end seals, the other end opens to the same plaintext, provided its window has not
  seen that counter: header, counter and associated data agree on both ends.\<close>
theorem seal_open_roundtrip:
  assumes "aead_correct N" "mirrored a b" "known_kind k" "sealKind N a p k = (a', Inr d)"
    and "seen_by (se_replay b) S" "window_accepts S (se_counter a)"
  shows "\<exists>h body b'. parseHeader d = Inr (h, body) \<and> hdr_session h = se_id b \<and> hdr_kind h = k \<and>
    open_msg N b h body = Some (b', Inr p) \<and> mirrored a' b' \<and>
    seen_by (se_replay b') (insert (se_counter a) S)"
  using assms by (rule seal_open_roundtrip_lemma)

theorem seal_open_roundtrip_witness:
  "(let a = \<lparr>se_id = 5, se_created = 0, se_send = ([1], 0), se_recv = ([1], 1), se_counter = 3, se_replay = empty_window\<rparr>;
        b = a\<lparr>se_send := ([1], 1), se_recv := ([1], 0)\<rparr>
    in \<exists>d h body b'. snd (sealKind demo_noise a [9, 9] typeProbe) = Inr d \<and> parseHeader d = Inr (h, body) \<and>
         open_msg demo_noise b h body = Some (b', Inr [9, 9]))"
proof -
  let ?a = "\<lparr>se_id = 5, se_created = 0, se_send = ([1], 0), se_recv = ([1], 1), se_counter = 3, se_replay = empty_window\<rparr>"
  let ?b = "?a\<lparr>se_send := ([1], 1), se_recv := ([1], 0)\<rparr>"
  obtain a' d where d: "sealKind demo_noise ?a [9, 9] typeProbe = (a', Inr d)"
    by (simp add: sealKind_def rejectAfterMessages_def Let_def)
  have "mirrored ?a ?b" "known_kind typeProbe" "seen_by (se_replay ?b) {}" "window_accepts {} (se_counter ?a)"
    by (simp_all add: mirrored_def known_kind_def seen_by_empty window_accepts_def)
  from seal_open_roundtrip[OF demo_noise_correct(1) this(1,2) d this(3,4)]
  show ?thesis unfolding Let_def d snd_conv by blast
qed

text \<open>No datagram is opened twice: whatever arrives, in whatever order and however often, the
  counters of the opened datagrams are pairwise different, and a refused one changes nothing.\<close>
theorem opened_at_most_once:
  assumes "se_replay s = empty_window" "open_run N s ds = Some (s', cs)"
  shows "distinct cs \<and> seen_by (se_replay s') (set cs)"
  using open_run_once[of s "{}" N ds s' cs] assms seen_by_empty by simp

theorem opened_at_most_once_witness:
  "(let s = \<lparr>se_id = 5, se_created = 0, se_send = ([1], 0), se_recv = ([1], 0), se_counter = 0, se_replay = empty_window\<rparr>;
        h = \<lparr>hdr_kind = typeData, hdr_session = 5, hdr_counter = 4\<rparr>;
        body = nc_encrypt demo_noise ([1], 0) 4 (header_bytes h) [8]
    in map_option snd (open_run demo_noise s [(h, body), (h, body), (h, [])]) = Some [4])"
proof -
  let ?s = "\<lparr>se_id = 5, se_created = 0, se_send = ([1], 0), se_recv = ([1], 0), se_counter = 0, se_replay = empty_window\<rparr>"
  let ?h = "\<lparr>hdr_kind = typeData, hdr_session = 5, hdr_counter = 4\<rparr>"
  let ?b = "nc_encrypt demo_noise ([1], 0) 4 (header_bytes ?h) [8]"
  let ?w = "empty_window\<lparr>rw_seeded := True, rw_max := 4, rw_bitmap := mark (rw_bitmap empty_window) 4\<rparr>"
  have o: "open_msg demo_noise ?s ?h ?b = Some (?s\<lparr>se_replay := ?w\<rparr>, Inr [8])"
    by (simp add: open_msg_def accept_def commit_def empty_window_def demo_noise_def)
  have one: "open_run demo_noise ?s [(?h, ?b)] = Some (?s\<lparr>se_replay := ?w\<rparr>, [4])"
    by (simp add: o)
  have "\<not> accept ?w 4"
    using opened_at_most_once[OF _ one] by (auto simp: accept_seen_by window_accepts_def)
  then have "open_msg demo_noise (?s\<lparr>se_replay := ?w\<rparr>) ?h b = Some (?s\<lparr>se_replay := ?w\<rparr>, Inl ErrReplayed)" for b
    by (simp add: open_msg_def)
  with o show ?thesis by simp
qed

text \<open>A datagram that is refused, replayed or forged, leaves the session exactly as it was: only a
  datagram that decrypts moves the replay window, and then by its own counter.\<close>
theorem open_effects:
  "(open_msg N s h body = Some (s', r)) =
   ((\<exists>e. r = Inl e \<and> s' = s \<and>
      e = (if accept (se_replay s) (hdr_counter h) then ErrDecrypt else ErrReplayed) \<and>
      (accept (se_replay s) (hdr_counter h) \<longrightarrow>
         nc_decrypt N (se_recv s) (hdr_counter h) (header_bytes h) body = None)) \<or>
    (\<exists>p w. r = Inr p \<and> accept (se_replay s) (hdr_counter h) \<and>
      nc_decrypt N (se_recv s) (hdr_counter h) (header_bytes h) body = Some p \<and>
      commit (se_replay s) (hdr_counter h) = Some w \<and> s' = s\<lparr>se_replay := w\<rparr>))"
  by (auto simp: open_msg_def split: if_splits option.splits)

text \<open>(C3) Two ends with one token and one encapsulation, and an undisturbed path, end up with mirror
  sessions under the dialler's identifier: each sends under the key the other receives under. Both
  settle on version 2, and the listener reads the dialler's timestamp.\<close>
theorem handshake_agrees:
  assumes "noise_correct N" "CHR 0x00 \<notin> set encap"
    and "beginHandshakeFresh N e draw token avoid encap fresh = Inr ih"
    and "respondFresh N e' token (ih_id ih) (ih_announced ih) (ih_msg ih) encap now = (so, Some dg, f, err)"
  shows "\<exists>si sr. complete N ih (drop headerLen dg) now' = (fst (complete N ih (drop headerLen dg) now'), Inr si) \<and>
    so = Some sr \<and> err = None \<and> f = fresh \<and> mirrored si sr \<and> se_id si = ih_id ih \<and>
    ih_agreed (fst (complete N ih (drop headerLen dg) now')) = 2"
proof -
  note b = begin_Inr[OF assms(3)]
  from respond_reads[OF assms(1,3,2,4)] obtain hi2 m2 c0 c1 where r:
    "dg = header_bytes \<lparr>hdr_kind = typeResp, hdr_session = ih_id ih, hdr_counter = 0\<rparr> @ m2"
    "nh_read N (ih_state ih) m2 = (hi2, Some (bytes_of (if fresh \<noteq> 0
        then replyPayloadBlock encap versionCurrent (ih_announced ih)
        else replyPayload encap versionCurrent (ih_announced ih)), c0, c1))"
    "newSession (ih_id ih) c1 c0 now = Inr (the so)" "so \<noteq> None" "f = fresh" "err = None"
    by auto
  have ann: "ih_announced ih = versionCurrent" "ih_fresh ih = fresh" "ih_encap ih = encap" "ih_announced ih < 2 ^ 63"
    using b by (auto simp: version_defs)
  obtain k0 k1 where k: "c0 = Some k0" "c1 = Some k1"
    using r(3) by (auto simp: newSession_def split: option.splits)
  note c = complete_reply[OF r(2) assms(2) ann(4,1,2), of now']
  have "snd (complete N ih m2 now') = newSession (ih_id ih) c0 c1 now'"
    using c(1) ann by simp
  moreover obtain si where si: "newSession (ih_id ih) c0 c1 now' = Inr si" by (simp add: k newSession_def)
  ultimately have snd: "snd (complete N ih m2 now') = Inr si" by simp
  have "mirrored si (the so)" "se_id si = ih_id ih"
    using si r(3)[symmetric] by (auto simp: k newSession_def mirrored_def)
  then show ?thesis using r snd c(2)[OF snd] ann by (auto simp: prod_eq_iff version_defs headerLen_def)
qed

theorem handshake_agrees_witness:
  "\<exists>ih dg si sr f.
     beginHandshakeFresh demo_noise [] (\<lambda>_. Some [0, 0, 0, 6]) ''secret'' 0 ''gre'' 77 = Inr ih \<and>
     respondFresh demo_noise [] ''secret'' 6 2 (ih_msg ih) ''gre'' 1 = (Some sr, Some dg, f, None) \<and>
     snd (complete demo_noise ih (drop headerLen dg) 2) = Inr si \<and> mirrored si sr \<and> f = 77"
proof -
  have nul: "CHR 0x00 \<notin> set ''gre''" by simp
  from demo_begin[of "''secret''" "''gre''" 77] obtain ih where ih:
    "beginHandshakeFresh demo_noise [] (\<lambda>_. Some [0, 0, 0, 6]) ''secret'' 0 ''gre'' 77 = Inr ih"
    "ih_id ih = 6" "ih_announced ih = 2"
    "ih_msg ih = bytes_of (l3PSKLabel @ ''secret'') @ bytes_of (initPayload ''gre'' 77)" by blast
  from demo_respond[OF nul, of "''secret''" "ih_id ih" "ih_announced ih" 77 "''gre''" 1, folded ih(4)]
  obtain so dg f err where r:
    "respondFresh demo_noise [] ''secret'' (ih_id ih) (ih_announced ih) (ih_msg ih) ''gre'' 1 = (so, Some dg, f, err)"
    by blast
  from handshake_agrees[OF demo_noise_correct(2) nul ih(1) r, of 2]
  show ?thesis using ih r by (metis snd_conv)
qed

text \<open>Ends that wrap packets differently never get a session: the listener refuses naming both
  encapsulations, still answers, and the dialler reading that answer refuses naming both too.\<close>
theorem handshake_mismatch_named:
  assumes "noise_correct N" "CHR 0x00 \<notin> set encap" "CHR 0x00 \<notin> set encap'"
    and "encap \<noteq> encap'" "encap \<noteq> []" "encap' \<noteq> []" "v < 2 ^ 63"
    and "beginHandshakeFresh N e draw token avoid encap fresh = Inr ih"
    and "respondFresh N e' token i v (ih_msg ih) encap' now = (so, Some dg, f, err)"
  shows "so = None \<and> err = Some (ErrEncapMismatch encap' encap) \<and>
    snd (complete N ih (drop headerLen dg) now') = Inl (ErrEncapMismatch encap encap')"
proof -
  note b = begin_Inr[OF assms(8)]
  from respond_reads[OF assms(1,8,2,9)] assms(4,5) obtain hi2 m2 c0 c1 where r:
    "dg = header_bytes \<lparr>hdr_kind = typeResp, hdr_session = i, hdr_counter = 0\<rparr> @ m2"
    "nh_read N (ih_state ih) m2 = (hi2, Some (bytes_of (if fresh \<noteq> 0
        then replyPayloadBlock encap' versionCurrent v else replyPayload encap' versionCurrent v), c0, c1))"
    "so = None" "err = Some (ErrEncapMismatch encap' encap)" by auto
  have "snd (complete N ih m2 now') = Inl (ErrEncapMismatch encap encap')"
    using complete_reply(1)[OF r(2) assms(3,7), of now'] b assms(4,6) by auto
  with r show ?thesis by (simp add: headerLen_def)
qed

theorem handshake_mismatch_named_witness:
  "\<exists>ih dg so f err. beginHandshakeFresh demo_noise [] (\<lambda>_. Some [0, 0, 0, 6]) ''secret'' 0 ''gre'' 77 = Inr ih \<and>
     respondFresh demo_noise [] ''secret'' 6 2 (ih_msg ih) ''gre:9'' 1 = (so, Some dg, f, err) \<and> so = None \<and>
     snd (complete demo_noise ih (drop headerLen dg) 2) = Inl (ErrEncapMismatch ''gre'' ''gre:9'')"
proof -
  have nul: "CHR 0x00 \<notin> set ''gre''" "CHR 0x00 \<notin> set ''gre:9''" by simp_all
  from demo_begin[of "''secret''" "''gre''" 77] obtain ih where ih:
    "beginHandshakeFresh demo_noise [] (\<lambda>_. Some [0, 0, 0, 6]) ''secret'' 0 ''gre'' 77 = Inr ih"
    "ih_msg ih = bytes_of (l3PSKLabel @ ''secret'') @ bytes_of (initPayload ''gre'' 77)" by blast
  from demo_respond[OF nul(1), of "''secret''" 6 2 77 "''gre:9''" 1, folded ih(2)]
  obtain so dg f err where r:
    "respondFresh demo_noise [] ''secret'' 6 2 (ih_msg ih) ''gre:9'' 1 = (so, Some dg, f, err)" by blast
  have v: "(2 :: int) < 2 ^ 63" "''gre'' \<noteq> ''gre:9''" "''gre'' \<noteq> []" "''gre:9'' \<noteq> []" by simp_all
  from handshake_mismatch_named[OF demo_noise_correct(2) nul v(2-4,1) ih(1) r, of 2]
  show ?thesis using ih r by blast
qed

text \<open>The version in the clear cannot be rewritten on the path: whatever version the listener was
  told other than the one announced, a timestamped handshake ends in \<open>errDowngraded\<close> at the
  dialler, never in a session on weaker terms.\<close>
theorem handshake_downgrade_refused:
  assumes "noise_correct N" "CHR 0x00 \<notin> set encap" "fresh \<noteq> 0" "v \<noteq> 2" "v < 2 ^ 63"
    and "beginHandshakeFresh N e draw token avoid encap fresh = Inr ih"
    and "respondFresh N e' token i v (ih_msg ih) encap now = (so, Some dg, f, err)"
  shows "snd (complete N ih (drop headerLen dg) now') = Inl (ErrDowngraded 2 (max v 0))"
proof -
  note b = begin_Inr[OF assms(6)]
  from respond_reads[OF assms(1,6,2,7)] obtain hi2 m2 c0 c1 where r:
    "dg = header_bytes \<lparr>hdr_kind = typeResp, hdr_session = i, hdr_counter = 0\<rparr> @ m2"
    "nh_read N (ih_state ih) m2 = (hi2, Some (bytes_of (if fresh \<noteq> 0
        then replyPayloadBlock encap versionCurrent v else replyPayload encap versionCurrent v), c0, c1))"
    by auto
  show ?thesis
    using complete_reply(1)[OF r(2) assms(2,5), of now'] b assms(3,4) r(1) by (auto simp: version_defs headerLen_def)
qed

theorem handshake_downgrade_refused_witness:
  "\<exists>ih dg so f err. beginHandshakeFresh demo_noise [] (\<lambda>_. Some [0, 0, 0, 6]) ''secret'' 0 ''gre'' 77 = Inr ih \<and>
     respondFresh demo_noise [] ''secret'' 6 0 (ih_msg ih) ''gre'' 1 = (so, Some dg, f, err) \<and>
     snd (complete demo_noise ih (drop headerLen dg) 2) = Inl (ErrDowngraded 2 0)"
proof -
  have nul: "CHR 0x00 \<notin> set ''gre''" by simp
  from demo_begin[of "''secret''" "''gre''" 77] obtain ih where ih:
    "beginHandshakeFresh demo_noise [] (\<lambda>_. Some [0, 0, 0, 6]) ''secret'' 0 ''gre'' 77 = Inr ih"
    "ih_msg ih = bytes_of (l3PSKLabel @ ''secret'') @ bytes_of (initPayload ''gre'' 77)" by blast
  from demo_respond[OF nul, of "''secret''" 6 0 77 "''gre''" 1, folded ih(2)]
  obtain so dg f err where r:
    "respondFresh demo_noise [] ''secret'' 6 0 (ih_msg ih) ''gre'' 1 = (so, Some dg, f, err)" by blast
  have "snd (complete demo_noise ih (drop headerLen dg) 2) = Inl (ErrDowngraded 2 (max 0 0))"
    by (rule handshake_downgrade_refused[OF demo_noise_correct(2) nul _ _ _ ih(1) r]) simp_all
  then show ?thesis using ih r by auto
qed

text \<open>A drawn session identifier is never zero and never the one being replaced.\<close>
theorem session_id_distinct:
  assumes "beginHandshakeFresh N e draw token avoid encap fresh = Inr ih"
  shows "ih_id ih \<noteq> 0 \<and> ih_id ih \<noteq> avoid"
  using begin_Inr[OF assms] newSessionID_from_ok[of draw avoid 0 8 "ih_id ih"] by (auto simp: newSessionID_def)

theorem session_id_distinct_witness:
  "\<exists>ih. beginHandshakeFresh demo_noise [] (\<lambda>_. Some [0, 0, 0, 6]) ''secret'' 0 ''gre'' 0 = Inr ih \<and> ih_id ih \<noteq> 0"
  using demo_begin[of "''secret''" "''gre''" 0] session_id_distinct[of demo_noise "[]"] by blast

end
