(* ===== verification/Batch.thy ===== *)
theory Batch
  imports Prelude
begin

text \<open>
  Batched sending of the plain UDP carrier: the segmentation-offload planner
  (\<open>src/internal/tunnel/l3/gso.go\<close>), the segmented write and its fallback
  (\<open>gso_linux.go\<close>, \<open>batchread_linux.go\<close>), and the small helpers of \<open>segoverflow.go\<close>.

  The kernel is a parameter: the outcomes of its \<open>sendmsg\<close> calls as a list, used up one per call, and
  the outcome of \<open>sendmmsg\<close>. What the kernel does with a segmented write (\<open>UDP_SEGMENT\<close>) is
  \<open>kernel_cut\<close>: it cuts the buffer into pieces of the declared size.
\<close>

section \<open>Definitions\<close>

definition gsoMaxSegments :: nat where "gsoMaxSegments = 64"
definition gsoMaxPayload :: nat where "gsoMaxPayload = 65507"

fun gso_scan :: "nat \<Rightarrow> nat \<Rightarrow> nat \<Rightarrow> bytes list \<Rightarrow> nat" where
  "gso_scan segment tot i [] = i"
| "gso_scan segment tot i (b # bs) =
     (if i = gsoMaxSegments \<or> tot + length b > gsoMaxPayload then i
      else if length b = 0 then i
      else if length b > segment then i
      else if length b < segment then i + 1
      else gso_scan segment (tot + length b) (i + 1) bs)"

definition gsoRun :: "bytes list \<Rightarrow> (nat \<times> nat) option" where
  "gsoRun bufs =
     (if length bufs < 2 then None
      else let segment = length (hd bufs) in
        if segment = 0 \<or> segment > gsoMaxPayload then None
        else let n = gso_scan segment 0 0 bufs in
          if n < 2 then None else Some (n, segment))"

datatype send_outcome = SendOk | SendBusy | SendRefused

record udpCarrier =
  uc_conn :: bool
  uc_v4 :: bool
  uc_v6 :: bool
  uc_gsoOff :: bool

text \<open>What reached the kernel: a segmented buffer with its segment size, or plain datagrams.\<close>

datatype kernel_op = Segmented bytes nat | Plain "bytes list"

text \<open>\<open>writeGSO\<close>: \<open>addr_ok\<close> is whether the destination has a socket address; \<open>None\<close> is \<open>errNoGSO\<close>.\<close>

definition writeGSO ::
  "udpCarrier \<Rightarrow> bytes list \<Rightarrow> bool \<Rightarrow> send_outcome list \<Rightarrow>
   udpCarrier \<times> send_outcome list \<times> kernel_op list \<times> nat option" where
  "writeGSO c bufs addr_ok outcomes =
     (if \<not> uc_conn c \<or> uc_gsoOff c then (c, outcomes, [], None)
      else case gsoRun bufs of
        None \<Rightarrow> (c, outcomes, [], None)
      | Some (n, segment) \<Rightarrow>
          if \<not> addr_ok then (c, outcomes, [], None)
          else let run = concat (take n bufs) in
            (case outcomes of
               [] \<Rightarrow> (c, [], [], None)
             | SendOk # os \<Rightarrow> (c, os, [Segmented run segment], Some n)
             | SendBusy # os \<Rightarrow> (c, os, [], None)
             | SendRefused # os \<Rightarrow> (c\<lparr>uc_gsoOff := True\<rparr>, os, [], None)))"

lemma gso_scan_bounds: "gso_scan segment tot i bufs \<le> i + length bufs"
  by (induction segment tot i bufs rule: gso_scan.induct) auto

lemma writeGSO_progress: "writeGSO c bufs a os = (c', os', ops, Some n) \<Longrightarrow> 2 \<le> n \<and> n \<le> length bufs"
  using gso_scan_bounds[of "length (hd bufs)" 0 0 bufs]
  by (auto simp: writeGSO_def gsoRun_def Let_def split: if_splits option.splits list.splits send_outcome.splits)

function gso_loop ::
  "udpCarrier \<Rightarrow> bytes list \<Rightarrow> bool \<Rightarrow> send_outcome list \<Rightarrow> udpCarrier \<times> kernel_op list \<times> nat" where
  "gso_loop c bufs addr_ok outcomes =
     (if bufs = [] then (c, [], 0)
      else case writeGSO c bufs addr_ok outcomes of
        (c', os, ops, None) \<Rightarrow> (c', ops, 0)
      | (c', os, ops, Some n) \<Rightarrow>
          (case gso_loop c' (drop n bufs) addr_ok os of
             (c'', ops', m) \<Rightarrow> (c'', ops @ ops', n + m)))"
  by pat_completeness auto
termination
  by (relation "measure (\<lambda>(c, bufs, a, os). length bufs)") (auto dest!: writeGSO_progress[OF sym])

declare gso_loop.simps [simp del]

datatype batch_error = NothingToSend | NoBatch | MmsgFailed

text \<open>\<open>WriteBatch\<close>: \<open>mmsg\<close> is how many of the remaining datagrams \<open>sendmmsg\<close> took, or its failure.\<close>

definition WriteBatch ::
  "udpCarrier \<Rightarrow> bytes list \<Rightarrow> bool \<Rightarrow> send_outcome list \<Rightarrow> (bytes list \<Rightarrow> nat option) \<Rightarrow>
   udpCarrier \<times> kernel_op list \<times> (batch_error + nat)" where
  "WriteBatch c bufs addr_ok outcomes mmsg =
     (if bufs = [] then (c, [], Inl NothingToSend)
      else if \<not> uc_v4 c \<and> \<not> uc_v6 c then (c, [], Inl NoBatch)
      else case gso_loop c bufs addr_ok outcomes of
        (c', ops, done_n) \<Rightarrow>
          if done_n = length bufs then (c', ops, Inr done_n)
          else let rest = drop done_n bufs in
            (case mmsg rest of
               None \<Rightarrow> (c', ops, Inl MmsgFailed)
             | Some n \<Rightarrow> (c', ops @ [Plain (take n rest)], Inr n)))"

text \<open>\<open>segoverflow.go\<close>: \<open>too_many\<close> is whether the error is \<open>ErrTooManySegments\<close>.\<close>

definition segmentOverflow :: "int \<Rightarrow> bool \<Rightarrow> int \<times> bool" where
  "segmentOverflow n too_many = (if \<not> too_many then (0, False) else (if n < 0 then 0 else n, True))"

record reportEvery =
  re_every :: duration
  re_last :: instant
  re_count :: u64

definition allow :: "reportEvery \<Rightarrow> instant \<Rightarrow> reportEvery \<times> u64 \<times> bool" where
  "allow r now =
     (let r1 = r\<lparr>re_count := re_count r + 1\<rparr> in
      if \<not> is_zero_time (re_last r1) \<and> now - re_last r1 < re_every r1 then (r1, re_count r1, False)
      else (r1\<lparr>re_last := now\<rparr>, re_count r1, True))"

section \<open>What the kernel puts on the wire\<close>

function kernel_cut :: "nat \<Rightarrow> bytes \<Rightarrow> bytes list" where
  "kernel_cut s run = (if run = [] \<or> s = 0 then [] else take s run # kernel_cut s (drop s run))"
  by pat_completeness auto
termination by (relation "measure (\<lambda>(s, run). length run)") auto

declare kernel_cut.simps [simp del]

fun on_wire :: "kernel_op list \<Rightarrow> bytes list" where
  "on_wire [] = []"
| "on_wire (Segmented run s # ops) = kernel_cut s run @ on_wire ops"
| "on_wire (Plain ds # ops) = ds @ on_wire ops"

text \<open>The arrivals of a repeated condition, and when a report was let through.\<close>

fun allow_run :: "reportEvery \<Rightarrow> instant list \<Rightarrow> instant list" where
  "allow_run r [] = []"
| "allow_run r (t # ts) = (case allow r t of (r', _, ok) \<Rightarrow> (if ok then t # allow_run r' ts else allow_run r' ts))"

section \<open>Lemmas\<close>

lemma kernel_cut_Nil [simp]: "kernel_cut s [] = []"
  by (simp add: kernel_cut.simps)

lemma kernel_cut_full: "length b = s \<Longrightarrow> 0 < s \<Longrightarrow> kernel_cut s (b @ r) = b # kernel_cut s r"
  by (subst kernel_cut.simps) auto

lemma kernel_cut_last: "b \<noteq> [] \<Longrightarrow> length b \<le> s \<Longrightarrow> kernel_cut s b = [b]"
  by (subst kernel_cut.simps) (cases b; simp)

lemma gso_scan_ge: "i \<le> gso_scan segment tot i bufs"
  by (induction segment tot i bufs rule: gso_scan.induct) (auto intro: order.trans[rotated])

text \<open>The scan's run is what the kernel cuts the joined buffer back into, and it stays within both limits.\<close>

lemma gso_scan_run:
  assumes "0 < segment" "i \<le> gsoMaxSegments"
  shows "kernel_cut segment (concat (take (gso_scan segment tot i bufs - i) bufs)) = take (gso_scan segment tot i bufs - i) bufs \<and>
    gso_scan segment tot i bufs \<le> gsoMaxSegments \<and>
    (tot \<le> gsoMaxPayload \<longrightarrow> tot + length (concat (take (gso_scan segment tot i bufs - i) bufs)) \<le> gsoMaxPayload)"
  using assms
proof (induction segment tot i bufs rule: gso_scan.induct)
  case (2 segment tot i b bs)
  show ?case
  proof (cases "i = gsoMaxSegments \<or> tot + length b > gsoMaxPayload \<or> length b = 0 \<or> length b > segment")
    case True
    then show ?thesis using 2(3) by auto
  next
    case stop: False
    show ?thesis
    proof (cases "length b < segment")
      case True
      then show ?thesis using stop 2(3) by (auto simp: kernel_cut_last)
    next
      case False
      let ?n = "gso_scan segment (tot + length b) (i + 1) bs"
      have "i + 1 \<le> ?n" by (rule gso_scan_ge)
      then obtain k where k: "?n = i + 1 + k" by (metis le_iff_add)
      have IH: "kernel_cut segment (concat (take k bs)) = take k bs \<and> ?n \<le> gsoMaxSegments \<and>
        tot + length b + length (concat (take k bs)) \<le> gsoMaxPayload"
        using 2(1) stop False 2(2,3) k by auto
      have eq: "gso_scan segment tot i (b # bs) = ?n" using stop False by auto
      have "?n - i = Suc k" using k by simp
      then show ?thesis using IH eq stop False 2(2) by (auto simp: kernel_cut_full)
    qed
  qed
qed auto

lemma gsoRun_run:
  assumes "gsoRun bufs = Some (n, segment)"
  shows "kernel_cut segment (concat (take n bufs)) = take n bufs" "2 \<le> n" "n \<le> length bufs" "n \<le> gsoMaxSegments"
    "length (concat (take n bufs)) \<le> gsoMaxPayload"
proof -
  have s: "0 < segment" "n = gso_scan segment 0 0 bufs" "2 \<le> n"
    using assms by (auto simp: gsoRun_def Let_def split: if_splits)
  show "kernel_cut segment (concat (take n bufs)) = take n bufs" "2 \<le> n" "n \<le> length bufs" "n \<le> gsoMaxSegments"
    "length (concat (take n bufs)) \<le> gsoMaxPayload"
    using gso_scan_run[of segment 0 0 bufs] gso_scan_bounds[of segment 0 0 bufs] s by simp_all
qed

lemma writeGSO_wire:
  "writeGSO c bufs a os = (c', os', ops, r) \<Longrightarrow> on_wire ops = take (case r of None \<Rightarrow> 0 | Some n \<Rightarrow> n) bufs"
  by (auto simp: writeGSO_def Let_def gsoRun_run(1) split: if_splits option.splits list.splits send_outcome.splits)

lemma on_wire_append [simp]: "on_wire (xs @ ys) = on_wire xs @ on_wire ys"
  by (induction xs rule: on_wire.induct) auto

lemma gso_loop_wire: "gso_loop c bufs a os = (c', ops, n) \<Longrightarrow> on_wire ops = take n bufs \<and> n \<le> length bufs"
proof (induction c bufs a os arbitrary: c' ops n rule: gso_loop.induct)
  case (1 c bufs a os)
  obtain c1 os1 ops1 r where w: "writeGSO c bufs a os = (c1, os1, ops1, r)" by (metis prod_cases4)
  show ?case
  proof (cases "bufs = [] \<or> r = None")
    case True
    then have "ops = [] \<or> ops = ops1 \<and> r = None" "n = 0"
      using 1(2) w by (auto simp: gso_loop.simps[of c bufs] split: if_splits)
    then show ?thesis using writeGSO_wire[OF w] by auto
  next
    case False
    then obtain k where k: "r = Some k" "bufs \<noteq> []" by auto
    obtain c2 ops2 m where l: "gso_loop c1 (drop k bufs) a os1 = (c2, ops2, m)" by (metis prod_cases3)
    from 1(1)[OF k(2) w[symmetric] refl refl k(1) l] have IH: "on_wire ops2 = take m (drop k bufs)" "m \<le> length bufs - k"
      by auto
    have r: "ops = ops1 @ ops2" "n = k + m" using 1(2) w k l by (auto simp: gso_loop.simps[of c bufs])
    have "k \<le> length bufs" using writeGSO_progress[OF w[unfolded k(1)]] by simp
    then show ?thesis using IH r writeGSO_wire[OF w] k(1) by (simp add: take_add)
  qed
qed

lemma allow_quiet:
  assumes "re_every r \<ge> 0" "\<not> is_zero_time (re_last r)"
    "\<forall>t \<in> set ts. \<not> is_zero_time t" "sorted (re_last r # ts)"
  shows "sorted_wrt (\<lambda>a b. b - a \<ge> re_every r) (re_last r # allow_run r ts)"
  using assms
proof (induction ts arbitrary: r)
  case (Cons t ts)
  obtain r' n ok where a: "allow r t = (r', n, ok)" by (metis prod_cases3)
  show ?case
  proof (cases ok)
    case True
    then have r': "re_last r' = t" "re_every r' = re_every r" "t - re_last r \<ge> re_every r"
      using a Cons.prems by (auto simp: allow_def Let_def split: if_splits)
    have IH: "sorted_wrt (\<lambda>a b. b - a \<ge> re_every r) (t # allow_run r' ts)"
      using Cons.IH[of r'] Cons.prems r' by auto
    have "re_every r \<le> b - re_last r" if "b \<in> set (allow_run r' ts)" for b
    proof -
      have "re_every r \<le> b - t" using IH that by simp
      then show ?thesis using r'(3) Cons.prems(1) by linarith
    qed
    with IH show ?thesis using a True r' by auto
  next
    case False
    then have "re_last r' = re_last r" "re_every r' = re_every r"
      using a by (auto simp: allow_def Let_def split: if_splits)
    then show ?thesis using Cons.IH[of r'] Cons.prems a False by auto
  qed
qed simp

lemmas batch_eval = writeGSO_def gsoRun_def gsoMaxSegments_def gsoMaxPayload_def

section \<open>Properties\<close>

text \<open>A planned run is cut by the kernel exactly where the packets were joined: the pieces of the
  joined buffer are the packets of the run, at most 64 of them and within one UDP payload.\<close>
theorem gso_run_cut_back:
  assumes "gsoRun bufs = Some (n, segment)"
  shows "kernel_cut segment (concat (take n bufs)) = take n bufs \<and> 2 \<le> n \<and> n \<le> length bufs \<and>
    n \<le> 64 \<and> length (concat (take n bufs)) \<le> 65507"
  using gsoRun_run[OF assms] by (simp add: gsoMaxSegments_def gsoMaxPayload_def)

theorem gso_run_cut_back_witness:
  "gsoRun [[1, 2], [3, 4], [5], [6, 7]] = Some (3, 2) \<and> kernel_cut 2 [1, 2, 3, 4, 5] = [[1, 2], [3, 4], [5]]"
proof -
  have r: "gsoRun [[1, 2], [3, 4], [5], [6, 7]] = Some (3, 2)"
    by (simp add: gsoRun_def gsoMaxSegments_def gsoMaxPayload_def)
  show ?thesis using r gso_run_cut_back[OF r] by (simp add: numeral_3_eq_3)
qed

text \<open>(C15) A batch leaves in order and unchanged: whatever mixture of segmented writes and fallback the
  kernel's answers lead to, the datagrams on the wire are a prefix of the batch, and the whole batch
  when the call accounts for all of it.\<close>
theorem batch_wire_prefix:
  assumes "WriteBatch c bufs a os mmsg = (c', ops, r)"
  shows "\<exists>k \<le> length bufs. on_wire ops = take k bufs"
proof -
  obtain c1 ops1 m where l: "gso_loop c bufs a os = (c1, ops1, m)" by (metis prod_cases3)
  note w = gso_loop_wire[OF l]
  have "on_wire ops = take m bufs \<or> (\<exists>n. on_wire ops = take (m + n) bufs) \<or> on_wire ops = take 0 bufs"
    using assms l w by (auto simp: WriteBatch_def Let_def take_add split: if_splits option.splits)
  then show ?thesis using w by (metis le_zero_eq nle_le take_all_iff zero_le)
qed

theorem batch_wire_prefix_witness:
  "on_wire (fst (snd (WriteBatch \<lparr>uc_conn = True, uc_v4 = True, uc_v6 = False, uc_gsoOff = False\<rparr>
     [[1, 2], [3, 4], [5], []] True [SendOk] (\<lambda>rest. Some 1)))) = [[1, 2], [3, 4], [5], []]"
proof -
  let ?c = "\<lparr>uc_conn = True, uc_v4 = True, uc_v6 = False, uc_gsoOff = False\<rparr>"
  have g: "writeGSO ?c [[1, 2], [3, 4], [5], []] True [SendOk] = (?c, [], [Segmented [1, 2, 3, 4, 5] 2], Some 3)"
    "writeGSO ?c [[]] True [] = (?c, [], [], None)" by (simp_all add: batch_eval)
  have w: "WriteBatch ?c [[1, 2], [3, 4], [5], []] True [SendOk] (\<lambda>rest. Some 1) =
      (?c, [Segmented [1, 2, 3, 4, 5] 2, Plain [[]]], Inr 1)"
    by (simp add: WriteBatch_def gso_loop.simps g)
  have "on_wire [Segmented [1, 2, 3, 4, 5] 2, Plain [[]]] = [[1, 2], [3, 4], [5], []]" by code_simp
  then show ?thesis using batch_wire_prefix[OF w] unfolding w by simp
qed

text \<open>After a partly segmented batch the count \<open>WriteBatch\<close> reports is that of the remainder alone: it
  is short by exactly the datagrams the segmented writes already sent, which its caller then counts
  as dropped.\<close>
theorem batch_count_short:
  assumes "WriteBatch c bufs a os mmsg = (c', ops, Inr n)"
    and "gso_loop c bufs a os = (c1, ops1, m)" "m < length bufs" "\<And>rest k. mmsg rest = Some k \<Longrightarrow> k \<le> length rest"
  shows "length (on_wire ops) = m + n"
proof -
  note w = gso_loop_wire[OF assms(2)]
  have "mmsg (drop m bufs) = Some n" "ops = ops1 @ [Plain (take n (drop m bufs))]"
    using assms(1-3) by (auto simp: WriteBatch_def Let_def split: if_splits option.splits)
  then show ?thesis using w assms(3) assms(4)[of "drop m bufs" n] by auto
qed

theorem batch_count_short_witness:
  "(case WriteBatch \<lparr>uc_conn = True, uc_v4 = True, uc_v6 = False, uc_gsoOff = False\<rparr>
      [[1, 2], [3, 4], [5], [6, 7]] True [SendOk] (\<lambda>rest. Some (length rest)) of
    (_, ops, r) \<Rightarrow> r = Inr 1 \<and> length (on_wire ops) = 4)"
proof -
  let ?c = "\<lparr>uc_conn = True, uc_v4 = True, uc_v6 = False, uc_gsoOff = False\<rparr>"
  have g: "writeGSO ?c [[1, 2], [3, 4], [5], [6, 7]] True [SendOk] = (?c, [], [Segmented [1, 2, 3, 4, 5] 2], Some 3)"
    "writeGSO ?c [[6, 7]] True [] = (?c, [], [], None)" by (simp_all add: batch_eval)
  have w: "WriteBatch ?c [[1, 2], [3, 4], [5], [6, 7]] True [SendOk] (\<lambda>rest. Some (length rest)) =
      (?c, [Segmented [1, 2, 3, 4, 5] 2, Plain [[6, 7]]], Inr 1)"
    and l: "gso_loop ?c [[1, 2], [3, 4], [5], [6, 7]] True [SendOk] = (?c, [Segmented [1, 2, 3, 4, 5] 2], 3)"
    by (simp_all add: WriteBatch_def gso_loop.simps g)
  show ?thesis using batch_count_short[OF w l] by (simp add: w)
qed

text \<open>A repeated report is let through at most once per interval: over any sequence of occurrences in
  time order, two that were let through lie at least the interval apart.\<close>
theorem report_rate_limited:
  assumes "re_every r \<ge> 0" "\<forall>t \<in> set (t0 # ts). \<not> is_zero_time t" "sorted (t0 # ts)" "re_last r = zero_time"
  shows "sorted_wrt (\<lambda>a b. b - a \<ge> re_every r) (allow_run r (t0 # ts)) \<and> hd (allow_run r (t0 # ts)) = t0"
proof -
  have a: "allow r t0 = (r\<lparr>re_count := re_count r + 1, re_last := t0\<rparr>, re_count r + 1, True)"
    using assms(4) by (simp add: allow_def is_zero_time_def Let_def)
  show ?thesis using allow_quiet[of "r\<lparr>re_count := re_count r + 1, re_last := t0\<rparr>" ts] assms a by simp
qed

theorem report_rate_limited_witness:
  "allow_run \<lparr>re_every = 10, re_last = zero_time, re_count = 0\<rparr> [100, 105, 109, 110, 125] = [100, 110, 125] \<and>
   sorted_wrt (\<lambda>a b. b - a \<ge> 10) [100, 110, 125 :: int]"
proof -
  let ?r = "\<lparr>re_every = 10, re_last = zero_time, re_count = 0\<rparr>"
  have e: "allow_run ?r [100, 105, 109, 110, 125] = [100, 110, 125]" by code_simp
  show ?thesis
    using report_rate_limited[of ?r 100 "[105, 109, 110, 125]"] unfolding e
    by (simp add: is_zero_time_def zero_time_def)
qed

end
