(* ===== verification/NetAddr.thy ===== *)
theory NetAddr
  imports Prelude
begin

text \<open>
  Textual IP addresses as the standard library reads them: \<open>netip.ParseAddr\<close>, \<open>net.ParseIP\<close> and
  \<open>net.ParseCIDR\<close>. An address is its 4 or 16 bytes.
\<close>

section \<open>Definitions\<close>

text \<open>One decimal field: digits only, no leading zero, at most 255.\<close>

definition parse_octet :: "string \<Rightarrow> byte option" where
  "parse_octet s =
     (if s = [] \<or> \<not> list_all is_digit s \<or> (length s > 1 \<and> hd s = CHR ''0'') \<or> decimal_val s > 255 then None
      else Some (word_of_nat (decimal_val s)))"

definition parse_ipv4 :: "string \<Rightarrow> bytes option" where
  "parse_ipv4 s =
     (case map parse_octet (split_on (CHR ''.'') s) of
        [Some a, Some b, Some c, Some d] \<Rightarrow> Some [a, b, c, d]
      | _ \<Rightarrow> None)"

definition hex_val :: "char \<Rightarrow> nat option" where
  "hex_val c =
     (let n = (of_char c :: nat)
      in if 48 \<le> n \<and> n \<le> 57 then Some (n - 48)
         else if 97 \<le> n \<and> n \<le> 102 then Some (n - 87)
         else if 65 \<le> n \<and> n \<le> 70 then Some (n - 55)
         else None)"

definition hex_prefix :: "string \<Rightarrow> string" where
  "hex_prefix s = takeWhile (\<lambda>c. hex_val c \<noteq> None) s"

definition hex_number :: "string \<Rightarrow> nat" where
  "hex_number s = foldl (\<lambda>acc c. 16 * acc + the (hex_val c)) 0 s"

text \<open>The loop of \<open>parseIPv6\<close>: the bytes so far, where the \<open>::\<close> was, and the rest of the text. The result
  is what the loop leaves, before the final expansion.\<close>

function v6_loop :: "bytes \<Rightarrow> nat option \<Rightarrow> string \<Rightarrow> (bytes \<times> nat option \<times> string) option" where
  "v6_loop ip ellipsis s =
     (if length ip \<ge> 16 then Some (ip, ellipsis, s)
      else
        let h = hex_prefix s; rest = drop (length h) s in
        if h = [] \<or> length h > 4 then None
        else if rest \<noteq> [] \<and> hd rest = CHR ''.'' then
          (if (ellipsis = None \<and> length ip \<noteq> 12) \<or> length ip + 4 > 16 then None
           else (case parse_ipv4 s of None \<Rightarrow> None | Some b \<Rightarrow> Some (ip @ b, ellipsis, [])))
        else
          let ip' = ip @ put16 (word_of_nat (hex_number h)) in
          if rest = [] then Some (ip', ellipsis, [])
          else if hd rest \<noteq> CHR '':'' \<or> length rest = 1 then None
          else if hd (tl rest) = CHR '':'' then
            (if ellipsis \<noteq> None then None
             else if length rest = 2 then Some (ip', Some (length ip'), [])
             else v6_loop ip' (Some (length ip')) (drop 2 rest))
          else v6_loop ip' ellipsis (tl rest))"
  by pat_completeness auto
termination
  by (relation "measure (\<lambda>(ip, ellipsis, s). length s)") (auto simp: hex_prefix_def)

declare v6_loop.simps [simp del]

definition v6_finish :: "bytes \<times> nat option \<times> string \<Rightarrow> bytes option" where
  "v6_finish r =
     (case r of
        (ip, ellipsis, s) \<Rightarrow>
          if s \<noteq> [] then None
          else case ellipsis of
                 None \<Rightarrow> if length ip < 16 then None else Some ip
               | Some e \<Rightarrow> if length ip < 16 then Some (take e ip @ replicate (16 - length ip) 0 @ drop e ip) else None)"

definition parse_ipv6 :: "string \<Rightarrow> bytes option" where
  "parse_ipv6 s =
     (if prefix ''::'' s then
        if length s = 2 then Some (replicate 16 0)
        else Option.bind (v6_loop [] (Some 0) (drop 2 s)) v6_finish
      else Option.bind (v6_loop [] None s) v6_finish)"

text \<open>\<open>netip.ParseAddr\<close> looks for the first of three characters. An address with a zone is of no use to
  the callers here (\<open>net.ParseIP\<close> and \<open>net.ParseCIDR\<close> refuse it), so it is \<open>None\<close> as well.\<close>

definition ParseAddr :: "string \<Rightarrow> bytes option" where
  "ParseAddr s =
     (if CHR ''%'' \<in> set s then None
      else case find (\<lambda>c. c = CHR ''.'' \<or> c = CHR '':'') s of
             None \<Rightarrow> None
           | Some c \<Rightarrow> if c = CHR ''.'' then parse_ipv4 s else parse_ipv6 s)"

definition ParseIP :: "string \<Rightarrow> bytes option" where
  "ParseIP s =
     (case ParseAddr s of
        None \<Rightarrow> None
      | Some b \<Rightarrow> if length b = 4 then Some (replicate 10 0 @ [0xff, 0xff] @ b) else Some b)"

text \<open>The prefix length: digits only, and within the address, which is far below the limit at which the
  library's own conversion gives up.\<close>

definition ParseCIDR :: "string \<Rightarrow> (bytes \<times> nat) option" where
  "ParseCIDR s =
     (case cut ''/'' s of
        None \<Rightarrow> None
      | Some (addr, bits) \<Rightarrow>
          (case ParseAddr addr of
             None \<Rightarrow> None
           | Some b \<Rightarrow>
               if bits = [] \<or> \<not> list_all is_digit bits \<or> decimal_val bits > 8 * length b
               then None else Some (b, decimal_val bits)))"

text \<open>\<open>net.IP.Equal\<close>: an IPv4 address and its IPv4-in-IPv6 form are the same address.\<close>

definition v4InV6Prefix :: bytes where "v4InV6Prefix = replicate 10 0 @ [0xff, 0xff]"

definition ip_Equal :: "bytes \<Rightarrow> bytes \<Rightarrow> bool" where
  "ip_Equal x y =
     (if length x = length y then x = y
      else if length x = 4 \<and> length y = 16 then take 12 y = v4InV6Prefix \<and> x = drop 12 y
      else if length x = 16 \<and> length y = 4 then take 12 x = v4InV6Prefix \<and> drop 12 x = y
      else False)"

definition To4 :: "bytes \<Rightarrow> bytes option" where
  "To4 ip =
     (if length ip = 4 then Some ip
      else if length ip = 16 \<and> take 12 ip = v4InV6Prefix then Some (drop 12 ip)
      else None)"

section \<open>Lemmas\<close>

lemma parse_ipv4_length: "parse_ipv4 s = Some b \<Longrightarrow> length b = 4"
  by (auto simp: parse_ipv4_def split: list.splits option.splits)

lemma parse_octet_bound: "parse_octet s = Some b \<Longrightarrow> unat b = decimal_val s \<and> decimal_val s \<le> 255"
  by (auto simp: parse_octet_def unat_of_nat split: if_splits)

text \<open>An address has no prefix length and no port in it.\<close>

lemma ParseIP_examples:
  "ParseIP ''10.9.0.1'' = Some (replicate 10 0 @ [0xff, 0xff, 10, 9, 0, 1])" "ParseIP ''10.09.0.1'' = None"
  "ParseIP ''::1'' = Some (replicate 15 0 @ [1])" "ParseIP ''1::2::3'' = None"
  "ParseCIDR ''10.9.0.1/30'' = Some ([10, 9, 0, 1], 30)" "ParseCIDR ''10.9.0.1/33'' = None"
  by code_simp+

text \<open>An IPv6 address in full, step by step.\<close>

lemma demo_hex_number: "hex_number ''fd00'' = 64768" "hex_number ''ec2'' = 3778" "hex_number ''254'' = 596"
  by (simp_all add: hex_number_def hex_val_def)

lemma demo_hex_prefix: "hex_prefix ''fd00:ec2::254'' = ''fd00''" "hex_prefix ''ec2::254'' = ''ec2''" "hex_prefix ''254'' = ''254''"
  by code_simp+

lemma demo_put16: "put16 64768 = [0xfd, 0]" "put16 3778 = [0x0e, 0xc2]" "put16 596 = [2, 0x54]"
  by code_simp+

lemma ParseIP_v6_example:
  "ParseIP ''fd00:ec2::254'' = Some [0xfd, 0, 0x0e, 0xc2, 0, 0, 0, 0, 0, 0, 0, 0, 0, 0, 2, 0x54]"
proof -
  have "v6_loop [] None ''fd00:ec2::254'' = v6_loop [0xfd, 0] None ''ec2::254''"
    by (subst v6_loop.simps) (simp add: demo_hex_prefix demo_hex_number demo_put16)
  also have "\<dots> = v6_loop [0xfd, 0, 0x0e, 0xc2] (Some (Suc (Suc (Suc (Suc 0))))) ''254''"
    by (subst v6_loop.simps) (simp add: demo_hex_prefix demo_hex_number demo_put16)
  also have "\<dots> = Some ([0xfd, 0, 0x0e, 0xc2, 2, 0x54], Some (Suc (Suc (Suc (Suc 0)))), [])"
    by (subst v6_loop.simps) (simp add: demo_hex_prefix demo_hex_number demo_put16)
  finally show ?thesis
    by (simp add: ParseIP_def ParseAddr_def parse_ipv6_def v6_finish_def numeral_eq_Suc)
qed

end
