(* ===== verification/Engine.thy ===== *)
theory Engine
  imports Session Batch NetAddr
begin

text \<open>
  The tunnel engine, \<open>src/internal/tunnel/l3/tunnel.go\<close>, with the probe messages of
  \<open>mtuprobe.go\<close> it routes: the guarded state block, its accessors, both directions of the data path, the
  listener's and the dialler's halves of the handshake, retiring of sessions and the liveness check.

  Sessions are shared by reference: the three slots \<open>current\<close>, \<open>pending\<close> and \<open>previous\<close> hold references
  into a store, and \<open>promote\<close> compares references, as the code compares pointers. What leaves through
  the carrier is appended to \<open>tn_out\<close>, what is injected into the interface to \<open>tn_dev\<close>; log lines are
  not modelled. \<open>time.Now\<close>, fresh randomness and the outcomes of writes are arguments. An operation
  that decrypts may fail to return, because \<open>commit\<close> may: that is \<open>None\<close>.
\<close>

section \<open>Definitions: addresses\<close>

text \<open>A \<open>net.Addr\<close>: the two concrete types \<open>sameAddr\<close> knows, and any other by its string form. The
  string forms of the first two are needed only to compare another type with them.\<close>

datatype addr = UDPAddr bytes int string | IPAddr bytes string | OtherAddr string

definition sameAddr :: "(addr \<Rightarrow> string) \<Rightarrow> addr option \<Rightarrow> addr option \<Rightarrow> bool" where
  "sameAddr str a b =
     (case (a, b) of
        (None, None) \<Rightarrow> True
      | (None, Some _) \<Rightarrow> False
      | (Some _, None) \<Rightarrow> False
      | (Some x, Some y) \<Rightarrow>
          (case x of
             UDPAddr ip port zone \<Rightarrow> (case y of UDPAddr ip' port' zone' \<Rightarrow> port = port' \<and> ip_Equal ip ip' | _ \<Rightarrow> False)
           | IPAddr ip zone \<Rightarrow> (case y of IPAddr ip' zone' \<Rightarrow> ip_Equal ip ip' | _ \<Rightarrow> False)
           | OtherAddr s \<Rightarrow> s = (case y of OtherAddr s' \<Rightarrow> s' | _ \<Rightarrow> str y)))"

section \<open>Definitions: the state\<close>

definition handshakeRetry :: duration where "handshakeRetry = 800 * millisecond"
definition handshakeAttempts :: nat where "handshakeAttempts = 6"
definition handshakeBackoff :: duration where "handshakeBackoff = 3 * second"
definition previousGrace :: duration where "previousGrace = 30 * second"
definition peerSilentAfter :: duration where "peerSilentAfter = 15 * second"

datatype mode = ModeDial | ModeListen

record stats =
  st_packetsIn :: u64
  st_packetsOut :: u64
  st_bytesIn :: u64
  st_bytesOut :: u64
  st_dropped :: u64
  st_handshakes :: u64

record 'c tunnel =
  tn_mode :: mode
  tn_token :: string
  tn_encap :: greEncap
  tn_store :: "nat \<rightharpoonup> 'c session"
  tn_fresh_ref :: nat
  tn_current :: "nat option"
  tn_pending :: "nat option"
  tn_previous :: "nat option"
  tn_prevFrom :: instant
  tn_peer :: "addr option"
  tn_judge :: freshJudge
  tn_clock :: freshClock
  tn_legacyUntil :: instant
  tn_unanswered :: int
  tn_silentRekey :: bool
  tn_lastInitID :: u32
  tn_lastReply :: "bytes option"
  tn_seenInits :: seenInits
  tn_replies :: "(u32 \<times> bytes) list"
  tn_waiters :: "u32 \<rightharpoonup> u32 list"
  tn_published :: "addr option"
  tn_stats :: stats
  tn_out :: "(bytes \<times> addr option) list"
  tn_dev :: "bytes list"

definition zero_stats :: stats where
  "zero_stats = \<lparr>st_packetsIn = 0, st_packetsOut = 0, st_bytesIn = 0, st_bytesOut = 0, st_dropped = 0, st_handshakes = 0\<rparr>"

text \<open>\<open>New\<close>, for a validated configuration.\<close>

definition New :: "mode \<Rightarrow> string \<Rightarrow> greEncap \<Rightarrow> 'c tunnel" where
  "New md token encap =
     \<lparr>tn_mode = md, tn_token = token, tn_encap = encap, tn_store = Map.empty, tn_fresh_ref = 0,
      tn_current = None, tn_pending = None, tn_previous = None, tn_prevFrom = zero_time, tn_peer = None,
      tn_judge = freshJudge_init, tn_clock = \<lparr>fc_last = 0\<rparr>, tn_legacyUntil = zero_time, tn_unanswered = 0,
      tn_silentRekey = False, tn_lastInitID = 0, tn_lastReply = None, tn_seenInits = seenInits_init,
      tn_replies = [], tn_waiters = Map.empty, tn_published = None, tn_stats = zero_stats, tn_out = [], tn_dev = []\<rparr>"

section \<open>Definitions: accessors\<close>

definition drop_packets :: "nat \<Rightarrow> 'c tunnel \<Rightarrow> 'c tunnel" where
  "drop_packets n t = t\<lparr>tn_stats := (tn_stats t)\<lparr>st_dropped := st_dropped (tn_stats t) + word_of_nat n\<rparr>\<rparr>"

definition write_out :: "bytes \<Rightarrow> addr option \<Rightarrow> 'c tunnel \<Rightarrow> 'c tunnel" where
  "write_out d a t = t\<lparr>tn_out := tn_out t @ [(d, a)]\<rparr>"

definition setPeer :: "addr option \<Rightarrow> 'c tunnel \<Rightarrow> 'c tunnel" where
  "setPeer a t = (case a of None \<Rightarrow> t | Some _ \<Rightarrow> t\<lparr>tn_peer := a\<rparr>)"

definition sendSession :: "'c tunnel \<Rightarrow> nat option" where
  "sendSession t = (if tn_current t \<noteq> None then tn_current t else tn_pending t)"

definition slot_has :: "'c tunnel \<Rightarrow> nat option \<Rightarrow> u32 \<Rightarrow> bool" where
  "slot_has t sl i = (case sl of None \<Rightarrow> False | Some r \<Rightarrow> (case tn_store t r of None \<Rightarrow> False | Some s \<Rightarrow> se_id s = i))"

definition sessionFor :: "'c tunnel \<Rightarrow> u32 \<Rightarrow> nat option \<times> bool" where
  "sessionFor t i =
     (if slot_has t (tn_current t) i then (tn_current t, False)
      else if slot_has t (tn_pending t) i then (tn_pending t, True)
      else if slot_has t (tn_previous t) i then (tn_previous t, False)
      else (None, False))"

definition publishPeer :: "'c tunnel \<Rightarrow> 'c tunnel" where
  "publishPeer t = (case tn_peer t of None \<Rightarrow> t | Some a \<Rightarrow> t\<lparr>tn_published := Some a\<rparr>)"

definition noteSent :: "instant \<Rightarrow> 'c tunnel \<Rightarrow> 'c tunnel" where
  "noteSent now t =
     (if tn_mode t \<noteq> ModeDial \<or> tn_unanswered t \<noteq> 0 then t else t\<lparr>tn_unanswered := now\<rparr>)"

definition noteAnswered :: "'c tunnel \<Rightarrow> 'c tunnel" where
  "noteAnswered t = (if tn_unanswered t \<noteq> 0 then t\<lparr>tn_unanswered := 0\<rparr> else t)"

definition peerSilent :: "instant \<Rightarrow> 'c tunnel \<Rightarrow> 'c tunnel \<times> bool" where
  "peerSilent now t =
     (if tn_unanswered t = 0 \<or> now - tn_unanswered t < peerSilentAfter then (t, False)
      else (t\<lparr>tn_unanswered := 0\<rparr>, True))"

definition count_handshake :: "'c tunnel \<Rightarrow> 'c tunnel" where
  "count_handshake t = t\<lparr>tn_stats := (tn_stats t)\<lparr>st_handshakes := st_handshakes (tn_stats t) + 1\<rparr>\<rparr>"

text \<open>A session the code has just built is a new object.\<close>

definition alloc :: "'c session \<Rightarrow> 'c tunnel \<Rightarrow> 'c tunnel \<times> nat" where
  "alloc s t = (t\<lparr>tn_store := (tn_store t)(tn_fresh_ref t \<mapsto> s), tn_fresh_ref := Suc (tn_fresh_ref t)\<rparr>, tn_fresh_ref t)"

definition installDialed :: "'c session \<Rightarrow> instant \<Rightarrow> 'c tunnel \<Rightarrow> 'c tunnel" where
  "installDialed sess now t =
     (let (t1, r) = alloc sess t;
          t2 = t1\<lparr>tn_previous := tn_current t1, tn_prevFrom := now, tn_current := Some r, tn_pending := None\<rparr>;
          t3 = noteAnswered (publishPeer (count_handshake t2))
      in t3\<lparr>tn_silentRekey := False\<rparr>)"

definition promote :: "nat \<Rightarrow> instant \<Rightarrow> 'c tunnel \<Rightarrow> 'c tunnel" where
  "promote r now t =
     (if tn_pending t \<noteq> Some r then t
      else publishPeer (count_handshake
             (t\<lparr>tn_previous := tn_current t, tn_prevFrom := now, tn_current := Some r, tn_pending := None\<rparr>)))"

definition slot_expired :: "'c tunnel \<Rightarrow> nat option \<Rightarrow> instant \<Rightarrow> bool" where
  "slot_expired t sl now = (case sl of None \<Rightarrow> False | Some r \<Rightarrow> (case tn_store t r of None \<Rightarrow> False | Some s \<Rightarrow> expired s now))"

definition retireSessions :: "instant \<Rightarrow> 'c tunnel \<Rightarrow> 'c tunnel" where
  "retireSessions now t0 =
     (let t1 = (if tn_previous t0 \<noteq> None \<and> (now - tn_prevFrom t0 > previousGrace \<or> slot_expired t0 (tn_previous t0) now)
                then t0\<lparr>tn_previous := None\<rparr> else t0);
          t2 = (if slot_expired t1 (tn_pending t1) now then t1\<lparr>tn_pending := None\<rparr> else t1);
          t3 = (if slot_expired t2 (tn_current t2) now then t2\<lparr>tn_current := None\<rparr> else t2)
      in if tn_current t3 = None \<and> tn_pending t3 = None then t3\<lparr>tn_published := None\<rparr> else t3)"

definition notePeer :: "(addr \<Rightarrow> string) \<Rightarrow> addr option \<Rightarrow> 'c tunnel \<Rightarrow> 'c tunnel" where
  "notePeer str from t =
     (if from = None then t
      else if sameAddr str (tn_peer t) from then t else t\<lparr>tn_peer := from\<rparr>)"

section \<open>Definitions: receiving\<close>

definition int_of_counter :: "u64 \<Rightarrow> int" where "int_of_counter c = sint c"

definition handleInit ::
  "('h, 'c) noise \<Rightarrow> bytes \<Rightarrow> instant \<Rightarrow> header \<Rightarrow> bytes \<Rightarrow> addr option \<Rightarrow> 'c tunnel \<Rightarrow> 'c tunnel" where
  "handleInit N entropy now h body from t =
     (if tn_mode t \<noteq> ModeListen then t
      else case (if hdr_session h = tn_lastInitID t then tn_lastReply t else None) of
        Some reply \<Rightarrow> write_out reply from t
      | None \<Rightarrow>
          (case seen (tn_seenInits t) (hdr_session h) now of
             (True, si) \<Rightarrow> drop_packets 1 (t\<lparr>tn_seenInits := si\<rparr>)
           | (False, si) \<Rightarrow>
               let t1 = t\<lparr>tn_seenInits := si\<rparr> in
               (case respondFresh N entropy (tn_token t1) (hdr_session h) (int_of_counter (hdr_counter h)) body
                       (encapID (tn_encap t1)) now of
                  (Some sess, reply, fresh, None) \<Rightarrow>
                    (case admit (tn_judge t1) fresh of
                       Inl why \<Rightarrow> drop_packets 1 t1
                     | Inr j \<Rightarrow>
                         let (t2, r) = alloc sess (t1\<lparr>tn_judge := j\<rparr>);
                             t3 = t2\<lparr>tn_pending := Some r, tn_lastInitID := hdr_session h, tn_lastReply := reply\<rparr>;
                             t4 = (if tn_current t3 = None \<and> tn_peer t3 = None then t3\<lparr>tn_peer := from\<rparr> else t3);
                             t5 = publishPeer t4
                         in (case reply of None \<Rightarrow> t5 | Some d \<Rightarrow> write_out d from t5))
                | (_, reply, fresh, _) \<Rightarrow>
                    drop_packets 1 (case reply of None \<Rightarrow> t1 | Some d \<Rightarrow> write_out d from t1))))"

definition handleResp :: "header \<Rightarrow> bytes \<Rightarrow> 'c tunnel \<Rightarrow> 'c tunnel" where
  "handleResp h body t =
     (if tn_mode t \<noteq> ModeDial then t
      else if length (tn_replies t) < 4 then t\<lparr>tn_replies := tn_replies t @ [(hdr_session h, body)]\<rparr> else t)"

text \<open>The common front of the two handlers that decrypt: look up, open, store the session back, promote
  it when it was pending, follow the peer. \<open>Inl\<close> is the dropped datagram.\<close>

definition open_from ::
  "('h, 'c) noise \<Rightarrow> (addr \<Rightarrow> string) \<Rightarrow> instant \<Rightarrow> header \<Rightarrow> bytes \<Rightarrow> addr option \<Rightarrow> 'c tunnel \<Rightarrow>
   ('c tunnel + nat \<times> bytes \<times> 'c tunnel) option" where
  "open_from N str now h body from t =
     (case sessionFor t (hdr_session h) of
        (None, _) \<Rightarrow> Some (Inl (drop_packets 1 t))
      | (Some r, isPending) \<Rightarrow>
          (case tn_store t r of
             None \<Rightarrow> Some (Inl (drop_packets 1 t))
           | Some s \<Rightarrow>
               (case open_msg N s h body of
                  None \<Rightarrow> None
                | Some (s', Inl e) \<Rightarrow> Some (Inl (drop_packets 1 (t\<lparr>tn_store := (tn_store t)(r \<mapsto> s')\<rparr>)))
                | Some (s', Inr opened) \<Rightarrow>
                    let t1 = t\<lparr>tn_store := (tn_store t)(r \<mapsto> s')\<rparr>;
                        t2 = (if isPending then promote r now t1 else t1)
                    in Some (Inr (r, opened, notePeer str from t2)))))"

definition handleData ::
  "('h, 'c) noise \<Rightarrow> (addr \<Rightarrow> string) \<Rightarrow> bool \<Rightarrow> instant \<Rightarrow> header \<Rightarrow> bytes \<Rightarrow> addr option \<Rightarrow> 'c tunnel \<Rightarrow>
   'c tunnel option" where
  "handleData N str dev_ok now h body from t =
     (case open_from N str now h body from t of
        None \<Rightarrow> None
      | Some (Inl t') \<Rightarrow> Some t'
      | Some (Inr (r, opened, t1)) \<Rightarrow>
          let t2 = noteAnswered t1 in
          (case Unwrap (tn_encap t2) opened of
             Inl e \<Rightarrow> Some (drop_packets 1 t2)
           | Inr inner \<Rightarrow>
               let t3 = t2\<lparr>tn_stats := (tn_stats t2)\<lparr>st_bytesIn := st_bytesIn (tn_stats t2) + word_of_nat (length inner),
                                                      st_packetsIn := st_packetsIn (tn_stats t2) + 1\<rparr>\<rparr>
               in Some (if dev_ok then t3\<lparr>tn_dev := tn_dev t3 @ [inner]\<rparr> else drop_packets 1 t3)))"

text \<open>Probe messages (\<open>mtuprobe.go\<close>).\<close>

definition probeHeaderLen :: nat where "probeHeaderLen = 6"

definition buildProbe :: "u32 \<Rightarrow> int \<Rightarrow> nat \<Rightarrow> bytes option" where
  "buildProbe i p encapOverhead =
     (if int encapOverhead + p < int probeHeaderLen then None
      else Some (put32 i @ put16 (word_of_int p) @ replicate (nat (int encapOverhead + p) - probeHeaderLen) 0))"

definition readProbe :: "bytes \<Rightarrow> (u32 \<times> nat) option" where
  "readProbe body =
     (if length body < probeHeaderLen then None
      else Some (get32 (take 4 body), unat (get16 (take 2 (drop 4 body)))))"

definition buildProbeAck :: "u32 \<Rightarrow> nat \<Rightarrow> bytes" where
  "buildProbeAck i p = put32 i @ put16 (word_of_nat p)"

definition answerProbe :: "('h, 'c) noise \<Rightarrow> nat \<Rightarrow> bytes \<Rightarrow> 'c tunnel \<Rightarrow> 'c tunnel" where
  "answerProbe N r body t =
     (case readProbe body of
        None \<Rightarrow> t
      | Some (i, p) \<Rightarrow>
          (case tn_store t r of
             None \<Rightarrow> t
           | Some s \<Rightarrow>
               (case sealKind N s (buildProbeAck i p) typeProbeAck of
                  (s', Inl _) \<Rightarrow> t\<lparr>tn_store := (tn_store t)(r \<mapsto> s')\<rparr>
                | (s', Inr ack) \<Rightarrow>
                    let t1 = t\<lparr>tn_store := (tn_store t)(r \<mapsto> s')\<rparr> in
                    (case tn_peer t1 of None \<Rightarrow> t1 | Some a \<Rightarrow> write_out ack (Some a) t1))))"

definition handleProbeAck :: "bytes \<Rightarrow> 'c tunnel \<Rightarrow> 'c tunnel" where
  "handleProbeAck body t =
     (case readProbe body of
        None \<Rightarrow> t
      | Some (i, _) \<Rightarrow>
          (case tn_waiters t i of
             None \<Rightarrow> t
           | Some ch \<Rightarrow> if ch = [] then t\<lparr>tn_waiters := (tn_waiters t)(i \<mapsto> [i])\<rparr> else t))"

definition handleProbeMessage ::
  "('h, 'c) noise \<Rightarrow> (addr \<Rightarrow> string) \<Rightarrow> instant \<Rightarrow> header \<Rightarrow> bytes \<Rightarrow> addr option \<Rightarrow> 'c tunnel \<Rightarrow> 'c tunnel option" where
  "handleProbeMessage N str now h body from t =
     (case open_from N str now h body from t of
        None \<Rightarrow> None
      | Some (Inl t') \<Rightarrow> Some t'
      | Some (Inr (r, opened, t1)) \<Rightarrow>
          Some (if hdr_kind h = typeProbe then answerProbe N r opened t1
                else if hdr_kind h = typeProbeAck then handleProbeAck opened t1 else t1))"

definition route ::
  "('h, 'c) noise \<Rightarrow> (addr \<Rightarrow> string) \<Rightarrow> bytes \<Rightarrow> bool \<Rightarrow> instant \<Rightarrow> bytes \<Rightarrow> addr option \<Rightarrow> 'c tunnel \<Rightarrow> 'c tunnel option" where
  "route N str entropy dev_ok now dgram from t =
     (case parseHeader dgram of
        Inl e \<Rightarrow> Some (drop_packets 1 t)
      | Inr (h, body) \<Rightarrow>
          if hdr_kind h = typeInit then Some (handleInit N entropy now h body from t)
          else if hdr_kind h = typeResp then Some (handleResp h body t)
          else if hdr_kind h = typeData then handleData N str dev_ok now h body from t
          else if hdr_kind h = typeProbe \<or> hdr_kind h = typeProbeAck then handleProbeMessage N str now h body from t
          else Some t)"

section \<open>Definitions: sending\<close>

text \<open>The sealing loop of \<open>pumpFromTUN\<close> over one batch of packets read from the interface: what is ready
  to send, with the inner size of each.\<close>

definition seal_one ::
  "('h, 'c) noise \<Rightarrow> nat option \<Rightarrow> addr option \<Rightarrow> bytes \<Rightarrow> 'c tunnel \<Rightarrow> 'c tunnel \<times> (bytes \<times> nat) option" where
  "seal_one N sess peer p t =
     (if p = [] then (t, None)
      else case (sess, peer) of
        (Some r, Some _) \<Rightarrow>
          (case Wrap (tn_encap t) [] p of
             Inl e \<Rightarrow> (drop_packets 1 t, None)
           | Inr wrapped \<Rightarrow>
               (case tn_store t r of
                  None \<Rightarrow> (drop_packets 1 t, None)
                | Some s \<Rightarrow>
                    (case seal N s wrapped of
                       (s', x) \<Rightarrow>
                         let t1 = t\<lparr>tn_store := (tn_store t)(r \<mapsto> s')\<rparr> in
                         (case x of
                            Inl e \<Rightarrow> (drop_packets 1 t1, None)
                          | Inr out \<Rightarrow> (t1, Some (out, length p))))))
      | _ \<Rightarrow> (drop_packets 1 t, None))"

fun seal_batch ::
  "('h, 'c) noise \<Rightarrow> nat option \<Rightarrow> addr option \<Rightarrow> bytes list \<Rightarrow> 'c tunnel \<Rightarrow> 'c tunnel \<times> (bytes \<times> nat) list" where
  "seal_batch N sess peer [] t = (t, [])"
| "seal_batch N sess peer (p # ps) t =
     (case seal_one N sess peer p t of
        (t1, x) \<Rightarrow>
          (case seal_batch N sess peer ps t1 of
             (t2, ready) \<Rightarrow> (t2, (case x of None \<Rightarrow> ready | Some d \<Rightarrow> d # ready))))"

definition account :: "nat \<Rightarrow> int \<Rightarrow> int \<Rightarrow> 'c tunnel \<Rightarrow> 'c tunnel" where
  "account ready sent payload t =
     (let t1 = (if sent < int ready then drop_packets (nat (int ready - sent)) t else t)
      in if sent \<le> 0 then t1
         else t1\<lparr>tn_stats := (tn_stats t1)\<lparr>st_bytesOut := st_bytesOut (tn_stats t1) + word_of_int (payload * sent div int ready),
                                              st_packetsOut := st_packetsOut (tn_stats t1) + word_of_int sent\<rparr>\<rparr>)"

text \<open>What the carrier's \<open>WriteBatch\<close> did, and per datagram whether \<open>WriteTo\<close> succeeded.\<close>

datatype batch_outcome = BatchSent nat | BatchDeclined | BatchFailed

definition send_one :: "bool \<Rightarrow> bool \<Rightarrow> bytes \<times> nat \<Rightarrow> addr option \<Rightarrow> 'c tunnel \<Rightarrow> 'c tunnel option" where
  "send_one ok ended d peer t =
     (if ok
      then let t1 = write_out (fst d) peer t
           in Some (t1\<lparr>tn_stats := (tn_stats t1)\<lparr>st_bytesOut := st_bytesOut (tn_stats t1) + word_of_nat (snd d),
                                                   st_packetsOut := st_packetsOut (tn_stats t1) + 1\<rparr>\<rparr>)
      else if ended then None
      else Some (drop_packets 1 t))"

fun send_each :: "(nat \<Rightarrow> bool) \<Rightarrow> bool \<Rightarrow> nat \<Rightarrow> (bytes \<times> nat) list \<Rightarrow> addr option \<Rightarrow> 'c tunnel \<Rightarrow> 'c tunnel \<times> bool" where
  "send_each ok ended i [] peer t = (t, True)"
| "send_each ok ended i (d # ds) peer t =
     (case send_one (ok i) ended d peer t of
        None \<Rightarrow> (t, False)
      | Some t1 \<Rightarrow> send_each ok ended (Suc i) ds peer t1)"

definition send ::
  "(bytes list \<Rightarrow> batch_outcome) option \<Rightarrow> (nat \<Rightarrow> bool) \<Rightarrow> bool \<Rightarrow> (bytes \<times> nat) list \<Rightarrow> addr option \<Rightarrow> 'c tunnel \<Rightarrow>
   'c tunnel \<times> bool" where
  "send writer ok ended ready peer t =
     (case (if length ready > 1 then writer else None) of
        None \<Rightarrow> send_each ok ended 0 ready peer t
      | Some wb \<Rightarrow>
          (case wb (map fst ready) of
             BatchSent n \<Rightarrow> (account (length ready) (int n) (int (sum_list (map snd ready))) t, True)
           | BatchFailed \<Rightarrow> if ended then (t, False) else (drop_packets (length ready) t, True)
           | BatchDeclined \<Rightarrow> send_each ok ended 0 ready peer t))"

definition pumpFromTUN_round ::
  "('h, 'c) noise \<Rightarrow> (bytes list \<Rightarrow> batch_outcome) option \<Rightarrow> (nat \<Rightarrow> bool) \<Rightarrow> bool \<Rightarrow> instant \<Rightarrow> bytes list \<Rightarrow>
   'c tunnel \<Rightarrow> 'c tunnel \<times> bool" where
  "pumpFromTUN_round N writer ok ended now packets t =
     (let sess = sendSession t; peer = tn_peer t
      in case seal_batch N sess peer packets t of
           (t1, ready) \<Rightarrow>
             if ready = [] then (t1, True)
             else send writer ok ended ready peer (noteSent now t1))"

section \<open>Definitions: the dialler\<close>

definition needsSession :: "instant \<Rightarrow> 'c tunnel \<Rightarrow> bool" where
  "needsSession now t =
     (case tn_current t of
        None \<Rightarrow> True
      | Some r \<Rightarrow> (case tn_store t r of None \<Rightarrow> True | Some s \<Rightarrow> dueForRekey s now))"

text \<open>One turn of \<open>handshakeLoop\<close> up to its decision to negotiate.\<close>

definition handshake_turn :: "instant \<Rightarrow> 'c tunnel \<Rightarrow> 'c tunnel \<times> bool" where
  "handshake_turn now t =
     (case peerSilent now t of
        (t1, silent) \<Rightarrow>
          let t2 = (if silent then t1\<lparr>tn_silentRekey := True\<rparr> else t1)
          in (t2, tn_silentRekey t2 \<or> needsSession now t2))"

datatype negotiate_error = NoResolve | NoPeer | NegSession session_error | NegWrite | NegCancelled | NegUnanswered

definition resolvePeer :: "addr option \<Rightarrow> 'c tunnel \<Rightarrow> negotiate_error + 'c tunnel" where
  "resolvePeer resolved t =
     (case resolved of
        None \<Rightarrow> if tn_peer t \<noteq> None then Inr t else Inl NoResolve
      | Some a \<Rightarrow> Inr (setPeer (Some a) t))"

definition drainReplies :: "'c tunnel \<Rightarrow> 'c tunnel" where
  "drainReplies t = t\<lparr>tn_replies := []\<rparr>"

text \<open>What the wait after one attempt ended with.\<close>

datatype wait_outcome = Cancelled | Answer u32 bytes | TimedOut

fun attempts ::
  "('h, 'c) noise \<Rightarrow> instant \<Rightarrow> 'h initiatorHandshake \<Rightarrow> addr option \<Rightarrow> (bool \<times> wait_outcome) list \<Rightarrow> nat \<Rightarrow>
   'c tunnel \<Rightarrow> 'c tunnel \<times> (negotiate_error + 'c session)" where
  "attempts N now hs peer evs 0 t = (t, Inl NegUnanswered)"
| "attempts N now hs peer [] (Suc k) t = (t, Inl NegUnanswered)"
| "attempts N now hs peer ((write_ok, w) # evs) (Suc k) t =
     (if \<not> write_ok then (t, Inl NegWrite)
      else let t1 = write_out (datagram hs) peer t in
        (case w of
           Cancelled \<Rightarrow> (t1, Inl NegCancelled)
         | TimedOut \<Rightarrow> attempts N now hs peer evs k t1
         | Answer i body \<Rightarrow>
             if i \<noteq> ih_id hs then attempts N now hs peer evs k t1
             else (case snd (complete N hs body now) of
                     Inl e \<Rightarrow> (t1, Inl (NegSession e))
                   | Inr s \<Rightarrow> (t1, Inr s))))"

text \<open>One round of \<open>negotiate\<close>: its surroundings, and how it ended. A listener found to be an older build
  starts another round.\<close>

record round_input =
  ri_resolved :: "addr option"
  ri_entropy :: bytes
  ri_draw :: "nat \<Rightarrow> bytes option"
  ri_now :: instant
  ri_waits :: "(bool \<times> wait_outcome) list"

datatype round_result = RoundFailed negotiate_error | RoundLegacy | RoundDone

definition current_id :: "'c tunnel \<Rightarrow> u32" where
  "current_id t = (case tn_current t of None \<Rightarrow> 0 | Some r \<Rightarrow> (case tn_store t r of None \<Rightarrow> 0 | Some s \<Rightarrow> se_id s))"

definition next_fresh :: "instant \<Rightarrow> 'c tunnel \<Rightarrow> 'c tunnel \<times> u64" where
  "next_fresh now t =
     (if now > tn_legacyUntil t
      then (case freshClock_next (tn_clock t) now of (clock, fresh) \<Rightarrow> (t\<lparr>tn_clock := clock\<rparr>, fresh))
      else (t, 0))"

definition negotiate_round :: "('h, 'c) noise \<Rightarrow> round_input \<Rightarrow> 'c tunnel \<Rightarrow> 'c tunnel \<times> round_result" where
  "negotiate_round N ri t =
     (case resolvePeer (ri_resolved ri) t of
        Inl e \<Rightarrow> (t, RoundFailed e)
      | Inr t1 \<Rightarrow>
          if tn_peer t1 = None then (t1, RoundFailed NoPeer)
          else case next_fresh (ri_now ri) t1 of
            (t2, fresh) \<Rightarrow>
              (case beginHandshakeFresh N (ri_entropy ri) (ri_draw ri) (tn_token t2) (current_id t1)
                      (encapID (tn_encap t2)) fresh of
                 Inl e \<Rightarrow> (t2, RoundFailed (NegSession e))
               | Inr hs \<Rightarrow>
                   (case attempts N (ri_now ri) hs (tn_peer t1) (ri_waits ri) handshakeAttempts (drainReplies t2) of
                      (t3, x) \<Rightarrow>
                        (case x of
                           Inr s \<Rightarrow> (installDialed s (ri_now ri) t3, RoundDone)
                         | Inl e \<Rightarrow>
                             if e = NegSession ErrPeerLegacy
                             then (t3\<lparr>tn_legacyUntil := ri_now ri + legacyRetry\<rparr>, RoundLegacy)
                             else (t3, RoundFailed e)))))"

text \<open>\<open>negotiate\<close> over the surroundings of its rounds; \<open>None\<close> is a round more than were given.\<close>

fun negotiate ::
  "('h, 'c) noise \<Rightarrow> round_input list \<Rightarrow> 'c tunnel \<Rightarrow> 'c tunnel \<times> (negotiate_error option) option" where
  "negotiate N [] t = (t, None)"
| "negotiate N (ri # rounds) t =
     (case negotiate_round N ri t of
        (t1, x) \<Rightarrow>
          (case x of
             RoundFailed e \<Rightarrow> (t1, Some (Some e))
           | RoundDone \<Rightarrow> (t1, Some None)
           | RoundLegacy \<Rightarrow> negotiate N rounds t1))"

section \<open>Runs of the engine\<close>

text \<open>The session reference and the counter of a datagram that is opened.\<close>

definition opens :: "('h, 'c) noise \<Rightarrow> 'c tunnel \<Rightarrow> bytes \<Rightarrow> (nat \<times> u64) list" where
  "opens N t dgram =
     (case parseHeader dgram of
        Inl _ \<Rightarrow> []
      | Inr (h, body) \<Rightarrow>
          if hdr_kind h \<in> {typeData, typeProbe, typeProbeAck}
          then (case fst (sessionFor t (hdr_session h)) of
                  None \<Rightarrow> []
                | Some r \<Rightarrow>
                    (case tn_store t r of
                       None \<Rightarrow> []
                     | Some s \<Rightarrow> (case open_msg N s h body of Some (_, Inr _) \<Rightarrow> [(r, hdr_counter h)] | _ \<Rightarrow> [])))
          else [])"

inductive step :: "('h, 'c) noise \<Rightarrow> (addr \<Rightarrow> string) \<Rightarrow> 'c tunnel \<Rightarrow> (nat \<times> u64) list \<Rightarrow> 'c tunnel \<Rightarrow> bool"
  for N :: "('h, 'c) noise" and str where
  step_receive: "route N str entropy dev_ok now d from t = Some t' \<Longrightarrow> step N str t (opens N t d) t'"
| step_send: "pumpFromTUN_round N writer ok ended now ps t = (t', b) \<Longrightarrow> step N str t [] t'"
| step_retire: "step N str t [] (retireSessions now t)"
| step_turn: "handshake_turn now t = (t', b) \<Longrightarrow> step N str t [] t'"
| step_negotiate: "negotiate N rounds t = (t', res) \<Longrightarrow> step N str t [] t'"

inductive_cases step_elim: "step N str t evs t'"

inductive run :: "('h, 'c) noise \<Rightarrow> (addr \<Rightarrow> string) \<Rightarrow> 'c tunnel \<Rightarrow> (nat \<times> u64) list \<Rightarrow> 'c tunnel \<Rightarrow> bool"
  for N :: "('h, 'c) noise" and str where
  run_refl: "run N str t [] t"
| run_step: "run N str t evs t' \<Longrightarrow> step N str t' evs' t'' \<Longrightarrow> run N str t (evs @ evs') t''"

definition slots :: "'c tunnel \<Rightarrow> nat list" where
  "slots t = List.map_filter id [tn_current t, tn_pending t, tn_previous t]"

definition engine_ok :: "'c tunnel \<Rightarrow> (nat \<times> u64) list \<Rightarrow> bool" where
  "engine_ok t evs \<longleftrightarrow>
     distinct (slots t) \<and> set (slots t) \<subseteq> dom (tn_store t) \<and> dom (tn_store t) \<subseteq> {..<tn_fresh_ref t} \<and>
     distinct evs \<and> fst ` set evs \<subseteq> {..<tn_fresh_ref t} \<and>
     (\<forall>r s. tn_store t r = Some s \<longrightarrow> seen_by (se_replay s) {c. (r, c) \<in> set evs})"

section \<open>Lemmas\<close>

text \<open>What the small operations leave alone.\<close>

lemma drop_packets_frame [simp]:
  "tn_store (drop_packets n t) = tn_store t" "tn_fresh_ref (drop_packets n t) = tn_fresh_ref t"
  "tn_current (drop_packets n t) = tn_current t" "tn_pending (drop_packets n t) = tn_pending t"
  "tn_previous (drop_packets n t) = tn_previous t" "tn_peer (drop_packets n t) = tn_peer t"
  "tn_dev (drop_packets n t) = tn_dev t" "tn_out (drop_packets n t) = tn_out t"
  "tn_unanswered (drop_packets n t) = tn_unanswered t" "tn_encap (drop_packets n t) = tn_encap t"
  by (simp_all add: drop_packets_def)

lemma write_out_frame [simp]:
  "tn_store (write_out d a t) = tn_store t" "tn_fresh_ref (write_out d a t) = tn_fresh_ref t"
  "tn_current (write_out d a t) = tn_current t" "tn_pending (write_out d a t) = tn_pending t"
  "tn_previous (write_out d a t) = tn_previous t" "tn_peer (write_out d a t) = tn_peer t"
  "tn_dev (write_out d a t) = tn_dev t" "tn_out (write_out d a t) = tn_out t @ [(d, a)]"
  "tn_unanswered (write_out d a t) = tn_unanswered t"
  by (simp_all add: write_out_def)

lemma publishPeer_frame [simp]:
  "tn_store (publishPeer t) = tn_store t" "tn_fresh_ref (publishPeer t) = tn_fresh_ref t"
  "tn_current (publishPeer t) = tn_current t" "tn_pending (publishPeer t) = tn_pending t"
  "tn_previous (publishPeer t) = tn_previous t" "tn_peer (publishPeer t) = tn_peer t"
  "tn_dev (publishPeer t) = tn_dev t" "tn_out (publishPeer t) = tn_out t"
  "tn_unanswered (publishPeer t) = tn_unanswered t" "tn_encap (publishPeer t) = tn_encap t"
  by (simp_all add: publishPeer_def split: option.splits)

lemma count_handshake_frame [simp]:
  "tn_store (count_handshake t) = tn_store t" "tn_fresh_ref (count_handshake t) = tn_fresh_ref t"
  "tn_current (count_handshake t) = tn_current t" "tn_pending (count_handshake t) = tn_pending t"
  "tn_previous (count_handshake t) = tn_previous t" "tn_peer (count_handshake t) = tn_peer t"
  "tn_dev (count_handshake t) = tn_dev t" "tn_out (count_handshake t) = tn_out t"
  "tn_unanswered (count_handshake t) = tn_unanswered t" "tn_encap (count_handshake t) = tn_encap t"
  by (simp_all add: count_handshake_def)

lemma note_frame [simp]:
  "tn_store (noteSent now t) = tn_store t" "tn_fresh_ref (noteSent now t) = tn_fresh_ref t"
  "tn_current (noteSent now t) = tn_current t" "tn_pending (noteSent now t) = tn_pending t"
  "tn_previous (noteSent now t) = tn_previous t" "tn_out (noteSent now t) = tn_out t"
  "tn_store (noteAnswered t) = tn_store t" "tn_fresh_ref (noteAnswered t) = tn_fresh_ref t"
  "tn_current (noteAnswered t) = tn_current t" "tn_pending (noteAnswered t) = tn_pending t"
  "tn_previous (noteAnswered t) = tn_previous t" "tn_dev (noteAnswered t) = tn_dev t"
  "tn_encap (noteAnswered t) = tn_encap t"
  by (simp_all add: noteSent_def noteAnswered_def)

lemma notePeer_frame [simp]:
  "tn_store (notePeer str a t) = tn_store t" "tn_fresh_ref (notePeer str a t) = tn_fresh_ref t"
  "tn_current (notePeer str a t) = tn_current t" "tn_pending (notePeer str a t) = tn_pending t"
  "tn_previous (notePeer str a t) = tn_previous t" "tn_dev (notePeer str a t) = tn_dev t"
  "tn_unanswered (notePeer str a t) = tn_unanswered t" "tn_encap (notePeer str a t) = tn_encap t"
  by (simp_all add: notePeer_def)

lemma promote_frame [simp]:
  "tn_store (promote r now t) = tn_store t" "tn_fresh_ref (promote r now t) = tn_fresh_ref t"
  "tn_dev (promote r now t) = tn_dev t" "tn_unanswered (promote r now t) = tn_unanswered t"
  "tn_encap (promote r now t) = tn_encap t"
  by (simp_all add: promote_def)

text \<open>The invariant depends on the slots and the store alone.\<close>

definition same_core :: "'c tunnel \<Rightarrow> 'c tunnel \<Rightarrow> bool" where
  "same_core t t' \<longleftrightarrow> tn_store t' = tn_store t \<and> tn_fresh_ref t' = tn_fresh_ref t \<and> tn_current t' = tn_current t \<and>
     tn_pending t' = tn_pending t \<and> tn_previous t' = tn_previous t"

lemma engine_ok_same_core: "same_core t t' \<Longrightarrow> engine_ok t evs \<Longrightarrow> engine_ok t' evs"
  by (simp add: same_core_def engine_ok_def slots_def)

text \<open>Sealing under a session, allocating a session and shrinking the slots keep the invariant.\<close>

lemma engine_ok_update:
  assumes "engine_ok t evs" "tn_store t r = Some s" "se_replay s' = se_replay s"
  shows "engine_ok (t\<lparr>tn_store := (tn_store t)(r \<mapsto> s')\<rparr>) evs"
  using assms by (auto simp: engine_ok_def slots_def insert_absorb domI)

lemma engine_ok_alloc:
  assumes "engine_ok t evs" "alloc s t = (t', r)" "se_replay s = empty_window"
  shows "engine_ok t' evs" "tn_store t' r = Some s" "r \<notin> set (slots t)" "slots t' = slots t"
proof -
  have t': "t' = t\<lparr>tn_store := (tn_store t)(tn_fresh_ref t \<mapsto> s), tn_fresh_ref := Suc (tn_fresh_ref t)\<rparr>" "r = tn_fresh_ref t"
    using assms(2) by (auto simp: alloc_def)
  have new: "{c. (tn_fresh_ref t, c) \<in> set evs} = {}" using assms(1) by (force simp: engine_ok_def)
  show sl: "slots t' = slots t" by (simp add: t' slots_def)
  show "tn_store t' r = Some s" by (simp add: t')
  show "r \<notin> set (slots t)" using assms(1) t'(2) by (auto simp: engine_ok_def)
  show "engine_ok t' evs"
    using assms(1,3) new seen_by_empty unfolding engine_ok_def sl by (auto simp: t' less_Suc_eq)
qed

lemma engine_ok_slots:
  assumes "engine_ok t evs" "tn_store t' = tn_store t" "tn_fresh_ref t' = tn_fresh_ref t"
    and "distinct (slots t')" "set (slots t') \<subseteq> dom (tn_store t)"
  shows "engine_ok t' evs"
  using assms by (auto simp: engine_ok_def)

lemmas slots_simps = slots_def map_filter_simps

lemma promote_ok:
  assumes "engine_ok t evs"
  shows "engine_ok (promote r now t) evs"
  using assms
  by (intro engine_ok_slots[OF assms]) (auto simp: promote_def slots_simps engine_ok_def split: option.splits)

lemma retire_ok:
  assumes "engine_ok t evs"
  shows "engine_ok (retireSessions now t) evs"
  using assms
  by (intro engine_ok_slots[OF assms]) (auto simp: retireSessions_def Let_def slots_simps engine_ok_def split: option.splits if_splits)

lemma newSession_replay: "newSession i a b now = Inr s \<Longrightarrow> se_replay s = empty_window"
  by (auto simp: newSession_def split: option.splits)

lemma installDialed_ok:
  assumes "engine_ok t evs" "se_replay s = empty_window"
  shows "engine_ok (installDialed s now t) evs"
proof -
  obtain t1 r where a: "alloc s t = (t1, r)" by fastforce
  note al = engine_ok_alloc[OF assms(1) a assms(2)]
  have "tn_current t1 = tn_current t" using a by (auto simp: alloc_def)
  then have "engine_ok (t1\<lparr>tn_previous := tn_current t1, tn_prevFrom := now, tn_current := Some r, tn_pending := None\<rparr>) evs"
    using al by (intro engine_ok_slots[OF al(1)]) (auto simp: slots_simps engine_ok_def split: option.splits)
  then show ?thesis
    by (rule engine_ok_same_core[rotated]) (simp add: installDialed_def a same_core_def)
qed


text \<open>Sending keeps the invariant.\<close>

lemma sealKind_replay: "se_replay (fst (sealKind N s p k)) = se_replay s"
  by (simp add: sealKind_state)

lemma drop_ok: "engine_ok t evs \<Longrightarrow> engine_ok (drop_packets n t) evs"
  by (rule engine_ok_same_core) (simp_all add: same_core_def)

lemma seal_one_ok:
  assumes "engine_ok t evs"
  shows "engine_ok (fst (seal_one N sess peer p t)) evs"
proof -
  have u: "engine_ok (t\<lparr>tn_store := (tn_store t)(r \<mapsto> fst (seal N s w))\<rparr>) evs" if "tn_store t r = Some s" for r s w
    using assms that by (rule engine_ok_update) (simp add: seal_def sealKind_replay)
  show ?thesis
    using assms u drop_ok[OF u] drop_ok[OF assms]
    by (simp add: seal_one_def Let_def case_prod_beta split: option.splits sum.splits)
qed

lemma seal_batch_ok: "engine_ok t evs \<Longrightarrow> engine_ok (fst (seal_batch N sess peer ps t)) evs"
  by (induction ps arbitrary: t) (simp_all add: case_prod_beta seal_one_ok)

lemma same_core_refl [simp]: "same_core t t"
  by (simp add: same_core_def)

lemma same_core_trans: "same_core t u \<Longrightarrow> same_core u v \<Longrightarrow> same_core t v"
  by (simp add: same_core_def)

lemma send_one_core: "send_one ok ended d peer t = Some t' \<Longrightarrow> same_core t t'"
  unfolding send_one_def by (auto simp: same_core_def Let_def split: if_splits)

lemma send_each_core: "same_core t (fst (send_each ok ended i ds peer t))"
proof (induction ds arbitrary: i t)
  case (Cons d ds)
  show ?case
  proof (cases "send_one (ok i) ended d peer t")
    case (Some t1)
    then show ?thesis using same_core_trans[OF send_one_core[OF Some] Cons.IH] by simp
  qed simp
qed simp

lemma account_core: "same_core t (account n k p t)"
  by (simp add: account_def same_core_def Let_def)

lemma drop_core: "same_core t (drop_packets n t)"
  by (simp add: same_core_def)

lemma send_core: "same_core t (fst (send writer ok ended ready peer t))"
  by (simp add: send_def send_each_core account_core drop_core split: option.splits batch_outcome.splits)

lemma pump_ok:
  assumes "engine_ok t evs"
  shows "engine_ok (fst (pumpFromTUN_round N writer ok ended now ps t)) evs"
proof -
  obtain t1 ready where s: "seal_batch N (sendSession t) (tn_peer t) ps t = (t1, ready)" by fastforce
  have ok1: "engine_ok t1 evs" using seal_batch_ok[OF assms] by (metis fst_conv s)
  have "same_core t1 (noteSent now t1)" by (simp add: same_core_def)
  then have "same_core t1 (fst (send writer ok ended ready (tn_peer t) (noteSent now t1)))"
    using send_core same_core_trans by blast
  then show ?thesis
    using engine_ok_same_core[OF _ ok1] ok1 s by (simp add: pumpFromTUN_round_def)
qed

text \<open>The dialler's handshake keeps the invariant.\<close>

lemma complete_replay: "snd (complete N h reply now) = Inr s \<Longrightarrow> se_replay s = empty_window"
  by (auto simp: complete_def Let_def split: option.splits sum.splits prod.splits if_splits dest: newSession_replay)

lemma write_core: "same_core t (write_out d a t)"
  by (simp add: same_core_def)

lemma attempts_core:
  "same_core t (fst (attempts N now hs peer evs k t)) \<and>
   (\<forall>s. snd (attempts N now hs peer evs k t) = Inr s \<longrightarrow> se_replay s = empty_window)"
proof (induction k arbitrary: evs t)
  case (Suc k)
  show ?case
  proof (cases evs)
    case (Cons e evs')
    obtain ok w where e: "e = (ok, w)" by fastforce
    have IH: "same_core t (fst (attempts N now hs peer evs' k (write_out (datagram hs) peer t)))"
      using same_core_trans[OF write_core] Suc.IH by blast
    then show ?thesis
      using Suc.IH[of "write_out (datagram hs) peer t" evs']
      by (cases w) (auto simp: Cons e Let_def write_core complete_replay split: sum.splits)
  qed simp
qed simp

lemma next_fresh_core: "same_core t (fst (next_fresh now t))"
  by (simp add: next_fresh_def same_core_def case_prod_beta)

lemma resolvePeer_core: "resolvePeer a t = Inr t1 \<Longrightarrow> same_core t t1"
  by (cases a) (auto simp: resolvePeer_def setPeer_def same_core_def split: if_splits)

lemma negotiate_round_ok:
  assumes "engine_ok t evs"
  shows "engine_ok (fst (negotiate_round N ri t)) evs"
proof (cases "resolvePeer (ri_resolved ri) t")
  case (Inl e)
  then show ?thesis using assms by (simp add: negotiate_round_def)
next
  case (Inr t1)
  obtain t2 fresh where f: "next_fresh (ri_now ri) t1 = (t2, fresh)" by fastforce
  have c1: "same_core t t1" by (rule resolvePeer_core[OF Inr])
  have c2: "same_core t t2" using same_core_trans[OF c1 next_fresh_core] by (metis f fst_conv)
  have c3: "same_core t (fst (attempts N now hs peer es k (drainReplies t2)))" for now hs peer es k
  proof -
    have "same_core t2 (drainReplies t2)" by (simp add: drainReplies_def same_core_def)
    from same_core_trans[OF same_core_trans[OF c2 this] attempts_core[THEN conjunct1]] show ?thesis .
  qed
  have legacy: "same_core u (u\<lparr>tn_legacyUntil := x\<rparr>)" for u :: "'a tunnel" and x by (simp add: same_core_def)
  have inst: "engine_ok (installDialed s now' (fst (attempts N now hs peer es k (drainReplies t2)))) evs"
    if "snd (attempts N now hs peer es k (drainReplies t2)) = Inr s" for now hs peer es k s now'
    using engine_ok_same_core[OF c3 assms] attempts_core that by (intro installDialed_ok) blast+
  show ?thesis
    using engine_ok_same_core[OF c1 assms] engine_ok_same_core[OF c2 assms] engine_ok_same_core[OF c3 assms]
      engine_ok_same_core[OF same_core_trans[OF c3 legacy] assms] inst
    by (auto simp: negotiate_round_def Inr f case_prod_beta split: sum.splits)
qed

lemma negotiate_ok: "engine_ok t evs \<Longrightarrow> engine_ok (fst (negotiate N rounds t)) evs"
proof (induction rounds arbitrary: t)
  case (Cons ri rounds)
  then show ?case
    using negotiate_round_ok[OF Cons.prems, of N ri] by (simp add: case_prod_beta split: round_result.splits)
qed simp

text \<open>The listener's answer to a first message.\<close>

lemma respondFresh_replay: "respondFresh N e tok i v msg encap now = (Some s, reply, f, err) \<Longrightarrow> se_replay s = empty_window"
  by (auto simp: respondFresh_def Let_def split: option.splits sum.splits prod.splits if_splits dest: newSession_replay)

text \<open>Everything \<open>handleInit\<close> may do: nothing to the slots but a new pending session, nothing to a known
  peer, nothing to existing sessions, nothing to the interface.\<close>

definition init_effect :: "addr option \<Rightarrow> 'c tunnel \<Rightarrow> 'c tunnel \<Rightarrow> bool" where
  "init_effect from t t' \<longleftrightarrow>
     tn_current t' = tn_current t \<and> tn_previous t' = tn_previous t \<and> tn_dev t' = tn_dev t \<and>
     (tn_peer t' = tn_peer t \<or> tn_current t = None \<and> tn_peer t = None \<and> tn_peer t' = from) \<and>
     (tn_store t' = tn_store t \<and> tn_fresh_ref t' = tn_fresh_ref t \<and> tn_pending t' = tn_pending t \<or>
      (\<exists>s. se_replay s = empty_window \<and> tn_store t' = (tn_store t)(tn_fresh_ref t \<mapsto> s) \<and>
           tn_fresh_ref t' = Suc (tn_fresh_ref t) \<and> tn_pending t' = Some (tn_fresh_ref t)))"

lemma handleInit_effect: "init_effect from t (handleInit N entropy now h body from t)"
proof -
  obtain b si where sn: "seen (tn_seenInits t) (hdr_session h) now = (b, si)" by fastforce
  obtain so reply fresh err where r: "respondFresh N entropy (tn_token t) (hdr_session h)
      (int_of_counter (hdr_counter h)) body (encapID (tn_encap t)) now = (so, reply, fresh, err)" by (metis prod_cases4)
  show ?thesis
  proof (cases "so \<noteq> None \<and> err = None")
    case True
    then obtain s where s: "so = Some s" "err = None" by auto
    then have "se_replay s = empty_window" using r respondFresh_replay by blast
    then show ?thesis
      using sn r s
      by (auto simp: handleInit_def init_effect_def alloc_def Let_def split: option.splits sum.splits if_splits bool.splits)
  next
    case False
    then show ?thesis
      using sn r
      by (auto simp: handleInit_def init_effect_def Let_def split: option.splits if_splits bool.splits)
  qed
qed

lemma init_effect_ok:
  assumes "engine_ok t evs" "init_effect from t t'"
  shows "engine_ok t' evs"
proof (cases "tn_store t' = tn_store t \<and> tn_fresh_ref t' = tn_fresh_ref t \<and> tn_pending t' = tn_pending t")
  case True
  then show ?thesis using assms engine_ok_same_core[of t t'] by (simp add: init_effect_def same_core_def)
next
  case False
  then obtain s where s: "se_replay s = empty_window" "tn_store t' = (tn_store t)(tn_fresh_ref t \<mapsto> s)"
    "tn_fresh_ref t' = Suc (tn_fresh_ref t)" "tn_pending t' = Some (tn_fresh_ref t)"
    "tn_current t' = tn_current t" "tn_previous t' = tn_previous t"
    using assms(2) by (auto simp: init_effect_def)
  obtain t1 r where a: "alloc s t = (t1, r)" by fastforce
  note al = engine_ok_alloc[OF assms(1) a s(1)]
  have t1: "tn_store t' = tn_store t1" "tn_fresh_ref t' = tn_fresh_ref t1" "r = tn_fresh_ref t"
    using a s by (auto simp: alloc_def)
  have "set (slots t') \<subseteq> insert r (set (slots t))" "distinct (slots t')"
    using s al(3) t1(3) assms(1) by (auto simp: slots_simps engine_ok_def split: option.splits)
  then show ?thesis
    using al t1 by (intro engine_ok_slots[OF al(1)]) (auto simp: engine_ok_def)
qed

text \<open>Receiving: the common front of the decrypting handlers.\<close>

lemma sessionFor_slot: "sessionFor t i = (Some r, b) \<Longrightarrow> r \<in> set (slots t)"
  by (auto simp: sessionFor_def slot_has_def slots_simps split: if_splits option.splits)

lemma open_from_cases:
  assumes "open_from N str now h body from t = Some x"
  obtains (refused) t' where "x = Inl t'" "tn_store t' = tn_store t" "tn_fresh_ref t' = tn_fresh_ref t"
      "tn_current t' = tn_current t" "tn_pending t' = tn_pending t" "tn_previous t' = tn_previous t"
      "tn_peer t' = tn_peer t" "tn_dev t' = tn_dev t" "tn_out t' = tn_out t" "tn_unanswered t' = tn_unanswered t"
      "\<And>r s p s'. fst (sessionFor t (hdr_session h)) = Some r \<Longrightarrow> tn_store t r = Some s \<Longrightarrow> open_msg N s h body \<noteq> Some (s', Inr p)"
  | (accepted) r s s' p b where "x = Inr (r, p, notePeer str from
        (if b then promote r now (t\<lparr>tn_store := (tn_store t)(r \<mapsto> s')\<rparr>) else t\<lparr>tn_store := (tn_store t)(r \<mapsto> s')\<rparr>))"
      "sessionFor t (hdr_session h) = (Some r, b)" "tn_store t r = Some s" "open_msg N s h body = Some (s', Inr p)"
proof -
  obtain ro b where sf: "sessionFor t (hdr_session h) = (ro, b)" by fastforce
  show thesis
  proof (cases ro)
    case None
    then show thesis using assms sf refused[of "drop_packets 1 t"] by (simp add: open_from_def)
  next
    case (Some r)
    show thesis
    proof (cases "tn_store t r")
      case None
      then show thesis using assms sf Some by (intro refused[of "drop_packets 1 t"]) (auto simp: open_from_def)
    next
      case s: (Some s)
      obtain s' y where o: "open_msg N s h body = Some (s', y)"
        using assms sf Some s by (cases "open_msg N s h body") (auto simp: open_from_def)
      show thesis
      proof (cases y)
        case (Inl e)
        then have "s' = s" using o open_refused_unchanged by blast
        then have st: "(tn_store t)(r \<mapsto> s') = tn_store t" using s by (simp add: fun_upd_idem)
        show thesis
          using assms sf Some s o Inl st
          by (intro refused[of "drop_packets 1 (t\<lparr>tn_store := (tn_store t)(r \<mapsto> s')\<rparr>)"]) (auto simp: open_from_def)
      next
        case (Inr p)
        then show thesis using assms sf Some s o accepted[of r p b s' s] by (simp add: open_from_def Let_def)
      qed
    qed
  qed
qed

lemma answerProbe_ok: "engine_ok t evs \<Longrightarrow> engine_ok (answerProbe N r body t) evs"
proof (cases "readProbe body")
  case (Some ip)
  assume ok: "engine_ok t evs"
  obtain i p where ip: "ip = (i, p)" by fastforce
  show ?thesis
  proof (cases "tn_store t r")
    case s: (Some s)
    obtain s' x where k: "sealKind N s (buildProbeAck i p) typeProbeAck = (s', x)" by fastforce
    have "engine_ok (t\<lparr>tn_store := (tn_store t)(r \<mapsto> s')\<rparr>) evs"
      using engine_ok_update[OF ok s] sealKind_replay[of N s "buildProbeAck i p" typeProbeAck] k by simp
    then show ?thesis
      using Some ip s k engine_ok_same_core[OF write_core]
      by (auto simp: answerProbe_def Let_def split: sum.splits option.splits)
  qed (use Some ip ok in \<open>simp add: answerProbe_def\<close>)
qed (simp add: answerProbe_def)

lemma handleProbeAck_core: "same_core t (handleProbeAck body t)"
  by (simp add: handleProbeAck_def same_core_def split: option.splits)

text \<open>Opening a datagram records its counter under its session.\<close>

lemma engine_ok_opened:
  assumes ok: "engine_ok t evs" and r: "tn_store t r = Some s" and o: "open_msg N s h body = Some (s', Inr p)"
  shows "engine_ok (t\<lparr>tn_store := (tn_store t)(r \<mapsto> s')\<rparr>) (evs @ [(r, hdr_counter h)])"
proof -
  note o' = open_Inr[OF o]
  have sb: "seen_by (se_replay s) {c. (r, c) \<in> set evs}" using ok r by (simp add: engine_ok_def)
  from o'(3) obtain w where w: "commit (se_replay s) (hdr_counter h) = Some w" "s' = s\<lparr>se_replay := w\<rparr>" by blast
  note ac = window.accept_then_commit[OF sb o'(1) w(1)]
  have new: "(r, hdr_counter h) \<notin> set evs" using ac by simp
  have "{c. (q, c) \<in> set (evs @ [(r, hdr_counter h)])} =
      (if q = r then insert (hdr_counter h) {c. (r, c) \<in> set evs} else {c. (q, c) \<in> set evs})" for q by auto
  then have seen': "seen_by (se_replay u) {c. (q, c) \<in> set (evs @ [(r, hdr_counter h)])}"
    if "((tn_store t)(r \<mapsto> s')) q = Some u" for q u
    using that ac ok w(2) by (auto simp: engine_ok_def split: if_splits)
  have "r < tn_fresh_ref t" using ok r by (auto simp: engine_ok_def)
  then show ?thesis
    using ok new seen' r unfolding engine_ok_def by (auto simp: slots_def)
qed

lemma open_from_ok:
  assumes ok: "engine_ok t evs" and o: "open_from N str now h body from t = Some x"
    and d: "parseHeader d = Inr (h, body)" "hdr_kind h \<in> {typeData, typeProbe, typeProbeAck}"
  shows "case x of Inl t' \<Rightarrow> opens N t d = [] \<and> engine_ok t' evs
    | Inr (r, p, t') \<Rightarrow> opens N t d = [(r, hdr_counter h)] \<and> engine_ok t' (evs @ opens N t d)"
  using o
proof (cases rule: open_from_cases)
  case (refused t')
  then have "opens N t d = []"
    using d by (auto simp: opens_def split: option.splits sum.splits)
  then show ?thesis using refused ok engine_ok_same_core[of t t'] by (simp add: same_core_def)
next
  case (accepted r s s' p b)
  have op: "opens N t d = [(r, hdr_counter h)]"
    using accepted d by (auto simp: opens_def)
  let ?t1 = "t\<lparr>tn_store := (tn_store t)(r \<mapsto> s')\<rparr>"
  have ok1: "engine_ok ?t1 (evs @ [(r, hdr_counter h)])" by (rule engine_ok_opened[OF ok accepted(3,4)])
  have "engine_ok (notePeer str from (if b then promote r now ?t1 else ?t1)) (evs @ [(r, hdr_counter h)])"
    by (rule engine_ok_same_core[of "if b then promote r now ?t1 else ?t1"])
       (simp_all add: same_core_def ok1 promote_ok)
  then show ?thesis using accepted(1) op by simp
qed

lemma route_ok:
  assumes ok: "engine_ok t evs" and r: "route N str entropy dev_ok now d from t = Some t'"
  shows "engine_ok t' (evs @ opens N t d)"
proof (cases "parseHeader d")
  case (Inl e)
  then show ?thesis using ok r by (auto simp: route_def opens_def drop_ok)
next
  case (Inr hb)
  obtain h body where hb: "hb = (h, body)" by fastforce
  note d = Inr[unfolded hb]
  show ?thesis
  proof (cases "hdr_kind h \<in> {typeData, typeProbe, typeProbeAck}")
    case False
    then have "opens N t d = []" by (simp add: opens_def d)
    then show ?thesis
      using r False d init_effect_ok[OF ok handleInit_effect] ok engine_ok_same_core[of t "handleResp h body t"]
      by (auto simp: route_def handleResp_def same_core_def split: if_splits)
  next
    case kind: True
    then have "hdr_kind h \<noteq> typeInit" "hdr_kind h \<noteq> typeResp" by (auto simp: kind_defs)
    then have rt: "(if hdr_kind h = typeData then handleData N str dev_ok now h body from t
        else handleProbeMessage N str now h body from t) = Some t'"
      using r d kind by (auto simp: route_def)
    then obtain x where x: "open_from N str now h body from t = Some x"
      by (cases "open_from N str now h body from t") (auto simp: handleData_def handleProbeMessage_def split: if_splits)
    note f = open_from_ok[OF ok x d kind]
    show ?thesis
    proof (cases x)
      case (Inl u)
      then show ?thesis using f rt x by (auto simp: handleData_def handleProbeMessage_def split: if_splits)
    next
      case (Inr y)
      obtain q p u where y: "y = (q, p, u)" by (metis prod_cases3)
      have ok': "engine_ok u (evs @ opens N t d)" using f Inr y by auto
      have "engine_ok (noteAnswered u) (evs @ opens N t d)"
        by (rule engine_ok_same_core[OF _ ok']) (simp add: same_core_def)
      then have "engine_ok v (evs @ opens N t d)" if "same_core (noteAnswered u) v" for v
        using that engine_ok_same_core by blast
      then show ?thesis
        using rt x Inr y ok' answerProbe_ok[OF ok'] engine_ok_same_core[OF handleProbeAck_core ok']
        by (auto simp: handleData_def handleProbeMessage_def Let_def same_core_def split: if_splits sum.splits)
    qed
  qed
qed

lemma turn_core: "same_core t (fst (handshake_turn now t))"
  by (simp add: handshake_turn_def peerSilent_def same_core_def Let_def case_prod_beta)

lemma step_ok: "step N str t evs' t' \<Longrightarrow> engine_ok t evs \<Longrightarrow> engine_ok t' (evs @ evs')"
proof (induction rule: step.induct)
  case (step_receive entropy dev_ok now d "from" t t')
  then show ?case by (metis route_ok)
next
  case (step_send writer ok ended now ps t t' b)
  then show ?case using pump_ok[of t evs N writer ok ended now ps] by simp
next
  case (step_retire t now)
  then show ?case by (simp add: retire_ok)
next
  case (step_turn now t t' b)
  then show ?case using engine_ok_same_core[OF turn_core, of t evs now] by simp
next
  case (step_negotiate rounds t t' res)
  then show ?case using negotiate_ok[of t evs N rounds] by simp
qed

lemma run_ok: "run N str t evs t' \<Longrightarrow> engine_ok t [] \<Longrightarrow> engine_ok t' evs"
  by (induction rule: run.induct) (auto simp: step_ok)

lemma New_ok: "engine_ok (New m tok e) []"
  by (simp add: engine_ok_def New_def slots_simps)

lemma answerProbe_frame [simp]:
  "tn_unanswered (answerProbe N r body t) = tn_unanswered t"
  by (simp add: answerProbe_def Let_def case_prod_beta split: option.splits sum.splits)

lemma handleProbeAck_frame [simp]: "tn_unanswered (handleProbeAck body t) = tn_unanswered t"
  by (simp add: handleProbeAck_def split: option.splits)

text \<open>The number of packets a round accounts for.\<close>

definition tally :: "'c tunnel \<Rightarrow> u64" where
  "tally t = st_dropped (tn_stats t) + st_packetsOut (tn_stats t)"

lemma tally_drop: "tally (drop_packets n t) = tally t + word_of_nat n"
  by (simp add: tally_def drop_packets_def)

lemma send_one_tally: "send_one ok ended d peer t = Some t' \<Longrightarrow> tally t' = tally t + 1"
  unfolding send_one_def
  by (auto simp: tally_def drop_packets_def write_out_def Let_def split: if_splits)

lemma send_each_tally:
  "snd (send_each ok ended i ds peer t) \<Longrightarrow> tally (fst (send_each ok ended i ds peer t)) = tally t + word_of_nat (length ds)"
proof (induction ds arbitrary: i t)
  case (Cons d ds)
  then show ?case
  proof (cases "send_one (ok i) ended d peer t")
    case (Some t1)
    then show ?thesis using Cons send_one_tally[OF Some] by (simp add: algebra_simps)
  qed simp
qed simp

lemma account_tally:
  assumes "n \<le> k"
  shows "tally (account k (int n) p t) = tally t + word_of_nat k"
proof -
  have "int k - int n = int (k - n)" using assms by simp
  then show ?thesis
    using assms by (auto simp: account_def tally_def drop_packets_def Let_def of_nat_diff algebra_simps)
qed

text \<open>A round that sends no timestamp cannot find an older listener.\<close>

lemma complete_legacy: "ih_fresh h = 0 \<Longrightarrow> snd (complete N h reply now) \<noteq> Inl ErrPeerLegacy"
  by (auto simp: complete_def newSession_def Let_def split: option.splits sum.splits prod.splits if_splits)

lemma attempts_legacy: "ih_fresh hs = 0 \<Longrightarrow> snd (attempts N now hs peer evs k t) \<noteq> Inl (NegSession ErrPeerLegacy)"
proof (induction k arbitrary: evs t)
  case (Suc k)
  show ?case
  proof (cases evs)
    case (Cons e evs')
    obtain ok w where "e = (ok, w)" by fastforce
    then show ?thesis
      using Suc complete_legacy[of hs N _ now] Cons by (cases w) (auto simp: Let_def split: sum.splits)
  qed simp
qed simp

lemma no_second_legacy:
  assumes "ri_now ri \<le> tn_legacyUntil t"
  shows "snd (negotiate_round N ri t) \<noteq> RoundLegacy"
proof (cases "resolvePeer (ri_resolved ri) t")
  case (Inr t1)
  have "tn_legacyUntil t1 = tn_legacyUntil t"
    using Inr by (cases "ri_resolved ri") (auto simp: resolvePeer_def setPeer_def split: if_splits)
  then have f: "next_fresh (ri_now ri) t1 = (t1, 0)" using assms by (simp add: next_fresh_def)
  have "snd (attempts N now hs peer es k u) \<noteq> Inl (NegSession ErrPeerLegacy)"
    if "beginHandshakeFresh N a b c d e 0 = Inr hs" for a b c d e hs now peer es k u
    using begin_Inr[OF that] attempts_legacy by blast
  then show ?thesis by (auto simp: negotiate_round_def Inr f case_prod_beta split: sum.splits)
qed (simp add: negotiate_round_def)

text \<open>A tunnel with one established session, for the witnesses.\<close>

definition demo_session :: "(bytes \<times> nat) session" where
  "demo_session = \<lparr>se_id = 5, se_created = 0, se_send = ([1], 0), se_recv = ([1], 1), se_counter = 0, se_replay = empty_window\<rparr>"

definition demo_header :: header where
  "demo_header = \<lparr>hdr_kind = typeData, hdr_session = 5, hdr_counter = 4\<rparr>"

definition demo_tunnel :: "(bytes \<times> nat) tunnel" where
  "demo_tunnel = (New ModeDial ''key'' \<lparr>gre_key = 0, gre_keyed = False\<rparr>)
     \<lparr>tn_store := [0 \<mapsto> demo_session], tn_fresh_ref := 1, tn_current := Some 0, tn_peer := Some (OtherAddr ''peer'')\<rparr>"

lemmas demo_defs = demo_session_def demo_header_def demo_tunnel_def

lemma demo_tunnel_ok: "engine_ok demo_tunnel []"
  by (simp add: engine_ok_def demo_tunnel_def New_def slots_simps demo_session_def seen_by_empty)

lemma demo_open:
  assumes "se_replay s = empty_window"
  shows "\<exists>s'. open_msg demo_noise s h (put64 (hdr_counter h) @ put64 (hdr_counter h) @ p) = Some (s', Inr p)"
  using assms by (simp add: open_msg_def accept_def commit_def empty_window_def demo_noise_def)

section \<open>Properties\<close>





text \<open>(C2) End to end: a packet the kernel routes into one tunnel, sealed under its sending session, is
  injected unchanged by the other end's interface when that end holds the mirror session, uses the same
  encapsulation and has not seen the counter.\<close>
theorem packet_crosses_tunnel:
  assumes "aead_correct N" "tn_encap a = tn_encap b" "ip_packet p"
    and "sendSession a = Some r" "tn_store a r = Some sa" "tn_peer a = Some pa" "se_counter sa < rejectAfterMessages"
    and "sessionFor b (se_id sa) = (Some q, pend)" "tn_store b q = Some sb" "mirrored sa sb"
    and "seen_by (se_replay sb) S" "window_accepts S (se_counter sa)"
  shows "\<exists>d a' b'. pumpFromTUN_round N None (\<lambda>_. True) False now [p] a = (a', True) \<and>
    tn_out a' = tn_out a @ [(d, Some pa)] \<and> route N str e True now' d from b = Some b' \<and> tn_dev b' = tn_dev b @ [p]"
proof -
  have "p \<noteq> []" using assms(3) by (auto simp: ip_packet_def)
  obtain w where w: "Wrap (tn_encap a) [] p = Inr w" using assms(3) by (auto simp: Wrap_eq)
  then have uw: "Unwrap (tn_encap b) w = Inr p" using assms(2) by (simp add: Unwrap_Wrap)
  obtain sa' d where sl: "sealKind N sa w typeData = (sa', Inr d)"
    using assms(7) by (simp add: sealKind_def Let_def not_le)
  have kd: "known_kind typeData" by (simp add: known_kind_def)
  from seal_open_roundtrip_lemma[OF assms(1,10) kd sl assms(11,12)] obtain h body sb' where o:
    "parseHeader d = Inr (h, body)" "hdr_session h = se_id sb" "hdr_kind h = typeData"
    "open_msg N sb h body = Some (sb', Inr w)" by blast
  let ?a1 = "a\<lparr>tn_store := (tn_store a)(r \<mapsto> sa')\<rparr>"
  have b: "seal_batch N (Some r) (Some pa) [p] a = (?a1, [(d, length p)])"
    using \<open>p \<noteq> []\<close> w assms(5) sl by (simp add: seal_one_def seal_def)
  obtain a' where a': "pumpFromTUN_round N None (\<lambda>_. True) False now [p] a = (a', True)"
    "tn_out a' = tn_out a @ [(d, Some pa)]"
    using b assms(4,6) by (simp add: pumpFromTUN_round_def send_def send_one_def Let_def)
  let ?b1 = "b\<lparr>tn_store := (tn_store b)(q \<mapsto> sb')\<rparr>"
  let ?b2 = "notePeer str from (if pend then promote q now' ?b1 else ?b1)"
  have "se_id sb = se_id sa" using assms(10) by (simp add: mirrored_def)
  then have f: "open_from N str now' h body from b = Some (Inr (q, w, ?b2))"
    using assms(8,9) o by (simp add: open_from_def Let_def)
  have enc: "Unwrap (tn_encap (noteAnswered ?b2)) w = Inr p" using uw by (cases pend) simp_all
  have dev: "tn_dev (noteAnswered ?b2) = tn_dev b" by (cases pend) simp_all
  have "route N str e True now' d from b = handleData N str True now' h body from b"
    using o(1,3) by (simp add: route_def kind_defs)
  moreover have "\<exists>b'. handleData N str True now' h body from b = Some b' \<and> tn_dev b' = tn_dev b @ [p]"
    unfolding handleData_def f Let_def using enc dev by simp
  ultimately show ?thesis using a' by metis
qed

theorem packet_crosses_tunnel_witness:
  "\<exists>d a' b'. pumpFromTUN_round demo_noise None (\<lambda>_. True) False 0 [[0x45, 9]] demo_tunnel = (a', True) \<and>
     tn_out a' = [(d, Some (OtherAddr ''peer''))] \<and>
     route demo_noise (\<lambda>_. []) [] True 0 d None
       (demo_tunnel\<lparr>tn_store := [0 \<mapsto> demo_session\<lparr>se_send := ([1], 1), se_recv := ([1], 0)\<rparr>]\<rparr>) = Some b' \<and>
     tn_dev b' = [[0x45, 9]]"
proof -
  let ?b = "demo_tunnel\<lparr>tn_store := [0 \<mapsto> demo_session\<lparr>se_send := ([1], 1), se_recv := ([1], 0)\<rparr>]\<rparr>"
  have h: "tn_encap demo_tunnel = tn_encap ?b" "ip_packet [0x45, 9]" "sendSession demo_tunnel = Some 0"
    "tn_store demo_tunnel 0 = Some demo_session" "tn_peer demo_tunnel = Some (OtherAddr ''peer'')"
    "se_counter demo_session < rejectAfterMessages" "sessionFor ?b (se_id demo_session) = (Some 0, False)"
    "tn_store ?b 0 = Some (demo_session\<lparr>se_send := ([1], 1), se_recv := ([1], 0)\<rparr>)"
    "mirrored demo_session (demo_session\<lparr>se_send := ([1], 1), se_recv := ([1], 0)\<rparr>)"
    "seen_by (se_replay (demo_session\<lparr>se_send := ([1], 1), se_recv := ([1], 0)\<rparr>)) {}" "window_accepts {} (se_counter demo_session)"
    by (simp_all add: demo_defs New_def ip_packet_def sendSession_def rejectAfterMessages_def sessionFor_def slot_has_def
        mirrored_def seen_by_empty window_accepts_def)
  from packet_crosses_tunnel[OF demo_noise_correct(1) h, of 0 "\<lambda>_. []" "[]" 0 None]
  show ?thesis by (simp add: demo_tunnel_def New_def)
qed

text \<open>Retiring leaves no dead session behind: afterwards no slot holds an expired session, the previous
  one is gone once its grace is over, a session that is neither is kept, and the published peer is
  withdrawn when nothing is left that could carry a packet.\<close>
theorem retired_sessions:
  "(let t' = retireSessions now t in
     tn_current t' = (if slot_expired t (tn_current t) now then None else tn_current t) \<and>
     tn_pending t' = (if slot_expired t (tn_pending t) now then None else tn_pending t) \<and>
     tn_previous t' = (if now - tn_prevFrom t > previousGrace \<or> slot_expired t (tn_previous t) now then None else tn_previous t) \<and>
     tn_published t' = (if tn_current t' = None \<and> tn_pending t' = None then None else tn_published t) \<and>
     tn_store t' = tn_store t \<and> tn_peer t' = tn_peer t)"
  by (auto simp: retireSessions_def slot_expired_def Let_def split: option.splits)

text \<open>Falling back to the older handshake happens at most once per negotiation: after the round that met
  an older listener, a second round within the retry interval cannot ask for another, so the
  recursion always returns.\<close>
theorem negotiate_returns:
  assumes "ri_now r2 \<le> ri_now r1 + legacyRetry"
  shows "snd (negotiate N [r1, r2] t) \<noteq> None"
proof -
  have leg: "tn_legacyUntil t1 = ri_now r1 + legacyRetry" if "negotiate_round N r1 t = (t1, RoundLegacy)" for t1
    using that by (auto simp: negotiate_round_def case_prod_beta split: sum.splits if_splits)
  have no: "snd (negotiate_round N r2 t1) \<noteq> RoundLegacy" if "tn_legacyUntil t1 = ri_now r1 + legacyRetry" for t1
    using no_second_legacy[of r2 t1 N] assms that by simp
  obtain t1 x where r: "negotiate_round N r1 t = (t1, x)" by fastforce
  show ?thesis
  proof (cases x)
    case RoundLegacy
    then have "snd (negotiate_round N r2 t1) \<noteq> RoundLegacy" using no leg r by blast
    then show ?thesis using r RoundLegacy by (simp add: case_prod_beta split: round_result.splits)
  qed (simp_all add: r)
qed

theorem negotiate_returns_witness:
  "snd (negotiate demo_noise
     [\<lparr>ri_resolved = None, ri_entropy = [], ri_draw = (\<lambda>_. None), ri_now = 5, ri_waits = []\<rparr>,
      \<lparr>ri_resolved = None, ri_entropy = [], ri_draw = (\<lambda>_. None), ri_now = 6, ri_waits = []\<rparr>] demo_tunnel) \<noteq> None"
  by (rule negotiate_returns) (simp add: legacyRetry_def minute_def)

text \<open>A round's packets are all accounted for: whatever the carrier does with them, each sealed packet
  is counted exactly once, as sent or as dropped, provided a batch write reports no more than it was
  given.\<close>
theorem round_accounted:
  assumes "snd (send writer ok ended ready peer t)"
    and "\<And>wb n. writer = Some wb \<Longrightarrow> wb (map fst ready) = BatchSent n \<Longrightarrow> n \<le> length ready"
  shows "st_dropped (tn_stats (fst (send writer ok ended ready peer t))) +
         st_packetsOut (tn_stats (fst (send writer ok ended ready peer t))) =
         st_dropped (tn_stats t) + st_packetsOut (tn_stats t) + word_of_nat (length ready)"
proof -
  have "tally (fst (send writer ok ended ready peer t)) = tally t + word_of_nat (length ready)"
    using assms
    by (auto simp: send_def send_each_tally account_tally tally_drop split: option.splits if_splits batch_outcome.splits)
  then show ?thesis by (simp add: tally_def)
qed

theorem round_accounted_witness:
  "st_dropped (tn_stats (fst (send (Some (\<lambda>_. BatchSent 1)) (\<lambda>_. True) False [([1], 5), ([2], 6)] None demo_tunnel))) = 1 \<and>
   st_packetsOut (tn_stats (fst (send (Some (\<lambda>_. BatchSent 1)) (\<lambda>_. True) False [([1], 5), ([2], 6)] None demo_tunnel))) = 1"
  using round_accounted[of "Some (\<lambda>_. BatchSent 1)" "\<lambda>_. True" False "[([1], 5), ([2], 6)]" None demo_tunnel]
  by (simp add: send_def account_def drop_packets_def demo_tunnel_def New_def zero_stats_def)

text \<open>A probe that authenticates does not count as an answer: only data clears the moment since which
  the dialler waits for one, so a tunnel on which nothing but probes come back still reads as silent.\<close>
theorem probe_keeps_silence:
  assumes "handleProbeMessage N str now h body from t = Some t'"
  shows "tn_unanswered t' = tn_unanswered t"
proof -
  obtain x where x: "open_from N str now h body from t = Some x"
    using assms by (cases "open_from N str now h body from t") (auto simp: handleProbeMessage_def)
  from x show ?thesis
  proof (cases rule: open_from_cases)
    case (refused u)
    then show ?thesis using assms x by (auto simp: handleProbeMessage_def)
  next
    case (accepted r s s' p b)
    then show ?thesis using assms x by (auto simp: handleProbeMessage_def split: if_splits)
  qed
qed

theorem probe_keeps_silence_witness:
  "\<exists>t'. handleProbeMessage demo_noise (\<lambda>_. []) 9 (demo_header\<lparr>hdr_kind := typeProbeAck\<rparr>) (put64 4 @ put64 4 @ [1]) None
     (demo_tunnel\<lparr>tn_unanswered := 3\<rparr>) = Some t' \<and> tn_unanswered t' = 3"
proof -
  let ?h = "demo_header\<lparr>hdr_kind := typeProbeAck\<rparr>" and ?t = "demo_tunnel\<lparr>tn_unanswered := 3\<rparr>"
  obtain t' where r: "handleProbeMessage demo_noise (\<lambda>_. []) 9 ?h (put64 4 @ put64 4 @ [1]) None ?t = Some t'"
    using demo_open[of demo_session ?h "[1]"]
    by (auto simp: handleProbeMessage_def open_from_def demo_defs sessionFor_def slot_has_def New_def Let_def)
  from probe_keeps_silence[OF r] show ?thesis using r by (simp add: demo_tunnel_def)
qed

end
