(* ===== verification/Fec.thy ===== *)
theory Fec
  imports Wire "HOL-Library.Multiset"
begin

text \<open>
  Forward error correction, \<open>src/internal/tunnel/l3/fec.go\<close>: a carrier that sends, for every group
  of data packets, a few parity packets, and rebuilds what a group lost.

  Reed-Solomon (\<open>github.com/klauspost/reedsolomon\<close>) is not part of the repository: it is a record of
  two functions, and \<open>rs_correct\<close> states what the code relies on. The carrier below is what it was
  handed (the list of datagrams an operation returns) and what arrives from it (a list). A panic is
  \<open>None\<close>; the only one is the index of \<open>g.delivered\<close> in \<open>absorb\<close>.

  \<open>append([]byte(nil), body...)\<close> of an empty body is Go's \<open>nil\<close>, so an empty shard is stored as if it
  had not arrived; the model keeps that.
\<close>

section \<open>Definitions: the wire format\<close>

definition fecHeaderLen :: nat where "fecHeaderLen = 6"
definition fecLenPrefix :: nat where "fecLenPrefix = 2"
definition fecKindData :: byte where "fecKindData = 0"
definition fecKindParity :: byte where "fecKindParity = 1"
definition fecOverhead :: nat where "fecOverhead = fecHeaderLen + fecLenPrefix"
definition fecWindow :: nat where "fecWindow = 16"

lemmas fec_consts = fecHeaderLen_def fecLenPrefix_def fecKindData_def fecKindParity_def fecOverhead_def

definition putFECHeader :: "byte \<Rightarrow> u32 \<Rightarrow> byte \<Rightarrow> bytes" where
  "putFECHeader kind grp index = [kind] @ put32 grp @ [index]"

definition parseFECHeader :: "bytes \<Rightarrow> (byte \<times> u32 \<times> byte \<times> bytes) option" where
  "parseFECHeader buf =
     (if length buf < fecHeaderLen then None
      else let kind = buf ! 0 in
        if kind \<noteq> fecKindData \<and> kind \<noteq> fecKindParity then None
        else Some (kind, get32 (drop 1 buf), buf ! 5, drop fecHeaderLen buf))"

definition mkShard :: "bytes \<Rightarrow> bytes" where
  "mkShard p = put16 (word_of_nat (length p)) @ p"

definition trimShard :: "bytes \<Rightarrow> bytes option" where
  "trimShard shard =
     (if length shard < fecLenPrefix then None
      else let n = unat (get16 shard) in
        if n > length shard - fecLenPrefix then None
        else Some (take n (drop fecLenPrefix shard)))"

section \<open>Definitions: configuration\<close>

record FECConfig =
  fec_Data :: int
  fec_Parity :: int

definition fecEnabled :: "FECConfig \<Rightarrow> bool" where
  "fecEnabled f \<longleftrightarrow> fec_Data f > 0 \<and> fec_Parity f > 0"

datatype fec_error = FecHalf int int | FecTooMany int | FecParityTooBig int int | FecLibrary

definition fecValidate :: "FECConfig \<Rightarrow> fec_error option" where
  "fecValidate f =
     (if \<not> fecEnabled f
      then if fec_Data f \<noteq> 0 \<or> fec_Parity f \<noteq> 0 then Some (FecHalf (fec_Data f) (fec_Parity f)) else None
      else if fec_Data f + fec_Parity f > 256 then Some (FecTooMany (fec_Data f + fec_Parity f))
      else if fec_Parity f \<ge> fec_Data f then Some (FecParityTooBig (fec_Parity f) (fec_Data f))
      else None)"

section \<open>Definitions: the carrier\<close>

record rs =
  rs_Encode :: "bytes list \<Rightarrow> bytes list option"
  rs_Reconstruct :: "bytes option list \<Rightarrow> bytes option list option"

record 'a fecReady =
  fr_data :: bytes
  fr_addr :: 'a

record 'a fecGroup =
  fg_shards :: "bytes option list"
  fg_haveData :: nat
  fg_haveTotal :: nat
  fg_size :: nat
  fg_delivered :: "bool list"
  fg_done :: bool
  fg_addr :: 'a

record 'a fecCarrier =
  fc_cfg :: FECConfig
  fc_sendGrp :: u32
  fc_sendIdx :: nat
  fc_sendPad :: "bytes list option"
  fc_sendMax :: nat
  fc_sendPeer :: "'a option"
  fc_groups :: "u32 \<rightharpoonup> 'a fecGroup"
  fc_order :: "u32 list"
  fc_pending :: "'a fecReady list"

definition fecD :: "'a fecCarrier \<Rightarrow> nat" where "fecD c = nat (fec_Data (fc_cfg c))"
definition fecP :: "'a fecCarrier \<Rightarrow> nat" where "fecP c = nat (fec_Parity (fc_cfg c))"

text \<open>\<open>newFECCarrier\<close>: \<open>Inr None\<close> is the carrier below, unwrapped.\<close>

definition newFECCarrier :: "(int \<Rightarrow> int \<Rightarrow> rs option) \<Rightarrow> FECConfig \<Rightarrow> fec_error + (rs \<times> 'a fecCarrier) option" where
  "newFECCarrier reedsolomon_New cfg =
     (if \<not> fecEnabled cfg then Inr None
      else case fecValidate cfg of
        Some e \<Rightarrow> Inl e
      | None \<Rightarrow>
          (case reedsolomon_New (fec_Data cfg) (fec_Parity cfg) of
             None \<Rightarrow> Inl FecLibrary
           | Some enc \<Rightarrow> Inr (Some (enc,
               \<lparr>fc_cfg = cfg, fc_sendGrp = 0, fc_sendIdx = 0, fc_sendPad = None, fc_sendMax = 0, fc_sendPeer = None,
                fc_groups = Map.empty, fc_order = [], fc_pending = []\<rparr>))))"

definition pad_to :: "nat \<Rightarrow> bytes \<Rightarrow> bytes" where
  "pad_to sz s = take sz s @ replicate (sz - length s) 0"

definition flushParity :: "rs \<Rightarrow> 'a fecCarrier \<Rightarrow> 'a fecCarrier \<times> (bytes \<times> 'a option) list" where
  "flushParity enc c =
     (let c' = c\<lparr>fc_sendGrp := fc_sendGrp c + 1, fc_sendIdx := 0, fc_sendMax := 0, fc_sendPad := None\<rparr>;
          sz = fc_sendMax c;
          pad = (case fc_sendPad c of None \<Rightarrow> [] | Some p \<Rightarrow> p)
      in if sz = 0 then (c', [])
         else case rs_Encode enc (map (pad_to sz) (take (fecD c) pad) @ replicate (fecP c) (replicate sz 0)) of
           None \<Rightarrow> (c', [])
         | Some shards \<Rightarrow>
             (c', map (\<lambda>i. (putFECHeader fecKindParity (fc_sendGrp c) (word_of_nat i) @ shards ! i, fc_sendPeer c))
                    [fecD c ..< fecD c + fecP c]))"

text \<open>\<open>WriteTo\<close>: the datagrams handed to the carrier below, in order, with their destination; \<open>fails\<close> is whether
  the data packet's write failed there.\<close>

definition fecWriteTo ::
  "rs \<Rightarrow> 'a fecCarrier \<Rightarrow> bytes \<Rightarrow> 'a \<Rightarrow> bool \<Rightarrow> 'a fecCarrier \<times> (bytes \<times> 'a option) list \<times> nat option" where
  "fecWriteTo enc c p addr fails =
     (let pad = (case fc_sendPad c of None \<Rightarrow> replicate (fecD c + fecP c) [] | Some q \<Rightarrow> q);
          shard = mkShard p;
          c1 = c\<lparr>fc_sendPad := Some (pad[fc_sendIdx c := shard]),
                 fc_sendMax := (if length shard > fc_sendMax c then length shard else fc_sendMax c),
                 fc_sendPeer := Some addr\<rparr>;
          out = putFECHeader fecKindData (fc_sendGrp c) (word_of_nat (fc_sendIdx c)) @ shard;
          c2 = c1\<lparr>fc_sendIdx := fc_sendIdx c + 1\<rparr>;
          (c3, parity) = (if fc_sendIdx c2 = fecD c then flushParity enc c2 else (c2, []))
      in (c3, (out, Some addr) # parity, if fails then None else Some (length p)))"

fun deliver_missing :: "nat list \<Rightarrow> bytes option list \<Rightarrow> 'a \<Rightarrow> bool list \<Rightarrow> bool list \<times> 'a fecReady list" where
  "deliver_missing [] work a del = (del, [])"
| "deliver_missing (i # is) work a del =
     (if del ! i then deliver_missing is work a del
      else case work ! i of
        None \<Rightarrow> deliver_missing is work a del
      | Some s \<Rightarrow>
          (case trimShard s of
             None \<Rightarrow> deliver_missing is work a del
           | Some payload \<Rightarrow>
               (case deliver_missing is work a (del[i := True]) of
                  (del', q) \<Rightarrow> (del', \<lparr>fr_data = payload, fr_addr = a\<rparr> # q))))"

definition rebuild :: "rs \<Rightarrow> nat \<Rightarrow> 'a fecGroup \<Rightarrow> 'a fecGroup \<times> 'a fecReady list" where
  "rebuild enc D g =
     (if fg_done g \<or> fg_haveData g = D \<or> fg_haveTotal g < D \<or> fg_size g = 0 then (g, [])
      else if \<exists>s \<in> set (fg_shards g). (case s of None \<Rightarrow> False | Some b \<Rightarrow> length b > fg_size g) then (g, [])
      else case rs_Reconstruct enc (map (map_option (pad_to (fg_size g))) (fg_shards g)) of
        None \<Rightarrow> (g, [])
      | Some work \<Rightarrow>
          (case deliver_missing [0..<D] work (fg_addr g) (fg_delivered g) of
             (del, q) \<Rightarrow> (g\<lparr>fg_done := True, fg_delivered := del\<rparr>, q)))"

definition evict :: "'a fecCarrier \<Rightarrow> 'a fecCarrier" where
  "evict c =
     (let k = length (fc_order c) - fecWindow
      in c\<lparr>fc_order := drop k (fc_order c),
           fc_groups := fc_groups c |` (- set (take k (fc_order c)))\<rparr>)"

definition fecAbsorb ::
  "rs \<Rightarrow> 'a fecCarrier \<Rightarrow> byte \<Rightarrow> u32 \<Rightarrow> byte \<Rightarrow> bytes \<Rightarrow> 'a \<Rightarrow> ('a fecCarrier \<times> bytes option) option" where
  "fecAbsorb enc c kind grp index body addr =
     (let total = fecD c + fecP c; i = unat index in
      if i \<ge> total then Some (c, None)
      else
        let (g, c1) = (case fc_groups c grp of
              Some g \<Rightarrow> (g, c)
            | None \<Rightarrow>
                let g = \<lparr>fg_shards = replicate total None, fg_haveData = 0, fg_haveTotal = 0, fg_size = 0,
                         fg_delivered = replicate (fecD c) False, fg_done = False, fg_addr = addr\<rparr>
                in (g, evict (c\<lparr>fc_groups := (fc_groups c)(grp \<mapsto> g), fc_order := fc_order c @ [grp]\<rparr>)));
            g1 = (if fg_shards g ! i = None
                  then g\<lparr>fg_shards := (fg_shards g)[i := (if body = [] then None else Some body)],
                         fg_haveTotal := fg_haveTotal g + 1,
                         fg_haveData := (if i < fecD c then fg_haveData g + 1 else fg_haveData g),
                         fg_size := (if kind = fecKindParity \<and> fg_size g = 0 then length body else fg_size g)\<rparr>
                  else g)
        in if kind = fecKindData \<and> i \<ge> length (fg_delivered g1) then None
           else
             let (g2, out) = (if kind = fecKindData \<and> \<not> fg_delivered g1 ! i
                              then (g1\<lparr>fg_delivered := (fg_delivered g1)[i := True]\<rparr>, trimShard body)
                              else (g1, None));
                 (g3, q) = rebuild enc (fecD c) g2
             in Some (c1\<lparr>fc_groups := (fc_groups c1)(grp := map_option (\<lambda>_. g3) (fc_groups c1 grp)),
                         fc_pending := fc_pending c1 @ q\<rparr>, out))"

definition takePending :: "'a fecCarrier \<Rightarrow> nat \<Rightarrow> ('a fecCarrier \<times> bytes \<times> 'a) option" where
  "takePending c cap =
     (case fc_pending c of
        [] \<Rightarrow> None
      | r # rs \<Rightarrow> Some (c\<lparr>fc_pending := rs\<rparr>, take cap (fr_data r), fr_addr r))"

text \<open>\<open>ReadFrom\<close> into a buffer of \<open>cap\<close> bytes, over the datagrams that arrive from below: it returns a
  datagram, panics, or is still waiting when the arrivals are used up.\<close>

datatype 'r read_result = Got 'r | Waiting | Panicked

fun fecRead_loop ::
  "rs \<Rightarrow> 'a fecCarrier \<Rightarrow> nat \<Rightarrow> (bytes \<times> 'a) list \<Rightarrow> 'a fecCarrier \<times> (bytes \<times> 'a) list \<times> (bytes \<times> 'a) read_result" where
  "fecRead_loop enc c cap [] = (c, [], Waiting)"
| "fecRead_loop enc c cap ((dg, addr) # later) =
     (case parseFECHeader (take (cap + fecHeaderLen + fecLenPrefix) dg) of
        None \<Rightarrow> fecRead_loop enc c cap later
      | Some (kind, grp, index, body) \<Rightarrow>
          (case fecAbsorb enc c kind grp index body addr of
             None \<Rightarrow> (c, later, Panicked)
           | Some (c', Some payload) \<Rightarrow> (c', later, Got (take cap payload, addr))
           | Some (c', None) \<Rightarrow>
               (case takePending c' cap of
                  Some (c'', d, a) \<Rightarrow> (c'', later, Got (d, a))
                | None \<Rightarrow> fecRead_loop enc c' cap later)))"

definition fecReadFrom ::
  "rs \<Rightarrow> 'a fecCarrier \<Rightarrow> nat \<Rightarrow> (bytes \<times> 'a) list \<Rightarrow> 'a fecCarrier \<times> (bytes \<times> 'a) list \<times> (bytes \<times> 'a) read_result" where
  "fecReadFrom enc c cap arrivals =
     (case takePending c cap of
        Some (c', d, a) \<Rightarrow> (c', arrivals, Got (d, a))
      | None \<Rightarrow> fecRead_loop enc c cap arrivals)"

section \<open>What the code relies on, and runs\<close>

text \<open>Reed-Solomon with \<open>D\<close> data and \<open>P\<close> parity shards of one size: encoding keeps the data and fills
  the parity, and any \<open>D\<close> of the shards determine all of them.\<close>

definition rs_correct :: "nat \<Rightarrow> nat \<Rightarrow> rs \<Rightarrow> bool" where
  "rs_correct D P enc \<longleftrightarrow>
     (\<forall>n > 0. \<forall>data. length data = D \<and> (\<forall>s \<in> set data. length s = n) \<longrightarrow>
        (\<exists>parity. rs_Encode enc (data @ replicate P (replicate n 0)) = Some (data @ parity) \<and>
           length parity = P \<and> (\<forall>s \<in> set parity. length s = n) \<and>
           (\<forall>work. length work = D + P \<and> D \<le> card {i. i < D + P \<and> work ! i \<noteq> None} \<and>
              (\<forall>i < D + P. work ! i = None \<or> work ! i = Some ((data @ parity) ! i)) \<longrightarrow>
              rs_Reconstruct enc work = Some (map Some (data @ parity)))))"

fun fec_write_run :: "rs \<Rightarrow> 'a fecCarrier \<Rightarrow> 'a \<Rightarrow> bytes list \<Rightarrow> 'a fecCarrier \<times> (bytes \<times> 'a option) list" where
  "fec_write_run enc c a [] = (c, [])"
| "fec_write_run enc c a (p # ps) =
     (case fecWriteTo enc c p a False of
        (c', outs, _) \<Rightarrow> (case fec_write_run enc c' a ps of (c'', outs') \<Rightarrow> (c'', outs @ outs')))"

text \<open>The datagrams that arrive, and everything handed up for them: what \<open>absorb\<close> delivers at once and,
  at the end, what waits in the queue.\<close>

fun fec_absorb_run :: "rs \<Rightarrow> 'a fecCarrier \<Rightarrow> 'a \<Rightarrow> bytes list \<Rightarrow> ('a fecCarrier \<times> bytes list) option" where
  "fec_absorb_run enc c a [] = Some (c, [])"
| "fec_absorb_run enc c a (d # ds) =
     (case parseFECHeader d of
        None \<Rightarrow> fec_absorb_run enc c a ds
      | Some (kind, grp, index, body) \<Rightarrow>
          (case fecAbsorb enc c kind grp index body a of
             None \<Rightarrow> None
           | Some (c', out) \<Rightarrow>
               map_option (\<lambda>(c'', outs). (c'', (case out of None \<Rightarrow> [] | Some p \<Rightarrow> [p]) @ outs))
                 (fec_absorb_run enc c' a ds)))"

section \<open>Lemmas\<close>

lemma parse_putFECHeader [simp, roundtrips]:
  "kind = fecKindData \<or> kind = fecKindParity \<Longrightarrow>
   parseFECHeader (putFECHeader kind grp index @ body) = Some (kind, grp, index, body)"
  by (auto simp: parseFECHeader_def putFECHeader_def fec_consts nth_append Let_def)

lemma length_mkShard [simp]: "length (mkShard p) = Suc (Suc (length p))"
  by (simp add: mkShard_def)

lemma mkShard_not_Nil [simp]: "mkShard p \<noteq> []"
  by (metis length_mkShard list.size(3) nat.distinct(1))

lemma trimShard_padded:
  assumes "length p < 2 ^ 16"
  shows "trimShard (mkShard p @ z) = Some p"
  using assms by (simp add: trimShard_def mkShard_def fec_consts unat_of_nat take_bit_nat_eq_self)

lemma trimShard_mkShard: "length p < 2 ^ 16 \<Longrightarrow> trimShard (mkShard p) = Some p"
  using trimShard_padded[of p "[]"] by simp

lemma pad_to_fits: "length s \<le> n \<Longrightarrow> pad_to n s = s @ replicate (n - length s) 0"
  by (simp add: pad_to_def)

lemma length_pad_to [simp]: "length (pad_to n s) = n"
  by (simp add: pad_to_def)


text \<open>A group on the wire: shard \<open>i\<close> of packets \<open>ps\<close> with parity shards \<open>parity\<close>.\<close>

lemma deliver_missing_all:
  assumes "distinct is" "\<forall>i \<in> set is. i < length del \<and> (\<exists>z. work ! i = Some (mkShard (ps ! i) @ z)) \<and> length (ps ! i) < 2 ^ 16"
  shows "\<exists>del'. deliver_missing is work a del =
      (del', map (\<lambda>i. \<lparr>fr_data = ps ! i, fr_addr = a\<rparr>) (filter (\<lambda>i. \<not> del ! i) is)) \<and>
    length del' = length del \<and> (\<forall>j < length del. del' ! j \<longleftrightarrow> del ! j \<or> j \<in> set is)"
  using assms
proof (induction "is" arbitrary: del)
  case (Cons i "is")
  have i: "i < length del" "i \<notin> set is" "distinct is" using Cons.prems by auto
  obtain z where z: "work ! i = Some (mkShard (ps ! i) @ z)" "length (ps ! i) < 2 ^ 16"
    using Cons.prems by auto
  show ?case
  proof (cases "del ! i")
    case True
    with Cons.IH[OF i(3), of del] Cons.prems show ?thesis by auto
  next
    case False
    from Cons.IH[OF i(3), of "del[i := True]"] Cons.prems obtain del' where d:
      "deliver_missing is work a (del[i := True]) =
         (del', map (\<lambda>i. \<lparr>fr_data = ps ! i, fr_addr = a\<rparr>) (filter (\<lambda>j. \<not> del[i := True] ! j) is))"
      "length del' = length del" "\<forall>j < length del. del' ! j \<longleftrightarrow> del[i := True] ! j \<or> j \<in> set is"
      by auto
    have "filter (\<lambda>j. \<not> del[i := True] ! j) is = filter (\<lambda>j. \<not> del ! j) is"
      using i(2) by (intro filter_cong) (metis nth_list_update_neq)+
    then show ?thesis using d z False i by (auto simp: trimShard_padded nth_list_update)
  qed
qed simp

text \<open>What a receiver knows of one group after the shards \<open>S\<close> arrived.\<close>

definition ginv :: "nat \<Rightarrow> nat \<Rightarrow> (nat \<Rightarrow> bytes) \<Rightarrow> nat \<Rightarrow> nat set \<Rightarrow> 'a fecGroup \<Rightarrow> bool" where
  "ginv D P W n S g \<longleftrightarrow>
     S \<subseteq> {..<D + P} \<and> length (fg_shards g) = D + P \<and>
     (\<forall>i < D + P. fg_shards g ! i = (if i \<in> S then Some (W i) else None)) \<and>
     fg_haveTotal g = card S \<and> fg_haveData g = card (S \<inter> {..<D}) \<and>
     fg_size g = (if S \<subseteq> {..<D} then 0 else n) \<and> length (fg_delivered g) = D \<and>
     (\<forall>i < D. fg_delivered g ! i \<longleftrightarrow> i \<in> S \<or> fg_done g) \<and>
     (fg_done g \<longrightarrow> D \<le> card S)"

definition handed :: "bytes list \<Rightarrow> bool list \<Rightarrow> bytes multiset" where
  "handed ps del = image_mset ((!) ps) (mset_set {i. i < length ps \<and> del ! i})"

lemma handed_update:
  assumes "i < length ps" "length del = length ps" "\<not> del ! i"
  shows "handed ps (del[i := True]) = add_mset (ps ! i) (handed ps del)"
proof -
  have "{j. j < length ps \<and> del[i := True] ! j} = insert i {j. j < length ps \<and> del ! j}"
    using assms by (auto simp: nth_list_update split: if_splits)
  then show ?thesis using assms by (simp add: handed_def)
qed

lemma handed_all: "\<forall>i < length ps. del ! i \<Longrightarrow> handed ps del = mset ps"
proof -
  assume "\<forall>i < length ps. del ! i"
  then have "{i. i < length ps \<and> del ! i} = {..<length ps}" by auto
  then show ?thesis
    by (metis handed_def lessThan_atLeast0 map_nth mset_map mset_set_upto_eq_mset_upto)
qed

lemma handed_sub: "handed ps del \<subseteq># mset ps"
proof -
  have "mset ps = image_mset ((!) ps) (mset_set {..<length ps})"
    by (metis lessThan_atLeast0 map_nth mset_map mset_set_upto_eq_mset_upto)
  moreover have "mset_set {i. i < length ps \<and> del ! i} \<subseteq># mset_set {..<length ps}"
    by (intro subset_imp_msubset_mset_set) auto
  ultimately show ?thesis by (simp add: handed_def image_mset_subseteq_mono)
qed

lemma handed_split:
  assumes "\<forall>i < length ps. del' ! i"
  shows "mset (map ((!) ps) (filter (\<lambda>i. \<not> del ! i) [0..<length ps])) + handed ps del = handed ps del'"
proof -
  let ?A = "{i. i < length ps \<and> \<not> del ! i}" and ?B = "{i. i < length ps \<and> del ! i}"
  have f: "mset (filter Q [0..<length ps]) = mset_set {i. i < length ps \<and> Q i}" for Q
    by (simp add: mset_filter flip: mset_set_upto_eq_mset_upto)
  have "?A \<union> ?B = {i. i < length ps \<and> del' ! i}" using assms by auto
  moreover have "mset_set (?A \<union> ?B) = mset_set ?A + mset_set ?B"
    by (intro mset_set_Union) auto
  ultimately show ?thesis by (simp only: mset_map f handed_def flip: image_mset_union)
qed

text \<open>One group: the packets, the parity the encoder computed over them, and the code's guarantee.\<close>

definition coded :: "rs \<Rightarrow> nat \<Rightarrow> nat \<Rightarrow> nat \<Rightarrow> bytes list \<Rightarrow> bytes list \<Rightarrow> bool" where
  "coded enc D P n ps parity \<longleftrightarrow>
     length ps = D \<and> length parity = P \<and> 2 \<le> n \<and> (\<forall>s \<in> set parity. length s = n) \<and>
     (\<forall>p \<in> set ps. length p < 2 ^ 16 \<and> length p + 2 \<le> n) \<and>
     (\<forall>work. length work = D + P \<and> D \<le> card {i. i < D + P \<and> work ! i \<noteq> None} \<and>
        (\<forall>i < D + P. work ! i = None \<or> work ! i = Some ((map (pad_to n \<circ> mkShard) ps @ parity) ! i)) \<longrightarrow>
        rs_Reconstruct enc work = Some (map Some (map (pad_to n \<circ> mkShard) ps @ parity)))"

definition shard_at :: "bytes list \<Rightarrow> bytes list \<Rightarrow> nat \<Rightarrow> bytes" where
  "shard_at ps parity i = (if i < length ps then mkShard (ps ! i) else parity ! (i - length ps))"

lemma codedD:
  assumes "coded enc D P n ps parity"
  shows "length ps = D" "length parity = P" "2 \<le> n" "\<And>s. s \<in> set parity \<Longrightarrow> length s = n"
    "\<And>i. i < D \<Longrightarrow> length (ps ! i) < 2 ^ 16 \<and> length (ps ! i) + 2 \<le> n"
  using assms unfolding coded_def by (blast, blast, blast, blast, metis nth_mem)

lemma ginvD:
  assumes "ginv D P W n S g"
  shows "S \<subseteq> {..<D + P}" "length (fg_shards g) = D + P"
    "\<And>i. i < D + P \<Longrightarrow> fg_shards g ! i = (if i \<in> S then Some (W i) else None)"
    "fg_haveTotal g = card S" "fg_haveData g = card (S \<inter> {..<D})"
    "fg_size g = (if S \<subseteq> {..<D} then 0 else n)" "length (fg_delivered g) = D"
    "\<And>i. i < D \<Longrightarrow> fg_delivered g ! i \<longleftrightarrow> i \<in> S \<or> fg_done g" "fg_done g \<Longrightarrow> D \<le> card S"
  using assms unfolding ginv_def by blast+

lemma shard_at_props:
  assumes "coded enc D P n ps parity" "i < D + P"
  shows "length (shard_at ps parity i) \<le> n" "shard_at ps parity i \<noteq> []"
    "pad_to n (shard_at ps parity i) = (map (pad_to n \<circ> mkShard) ps @ parity) ! i"
proof -
  note c = codedD[OF assms(1)]
  have par: "length (parity ! (i - D)) = n" if "\<not> i < D"
    using that assms(2) c(2) by (intro c(4) nth_mem) linarith
  then have "parity ! (i - D) \<noteq> []" if "\<not> i < D" using that c(3) by force
  then show "length (shard_at ps parity i) \<le> n" "shard_at ps parity i \<noteq> []"
    using par c(1) c(5)[of i] by (auto simp: shard_at_def)
  show "pad_to n (shard_at ps parity i) = (map (pad_to n \<circ> mkShard) ps @ parity) ! i"
    using par c(1) by (auto simp: shard_at_def nth_append pad_to_fits)
qed

lemma coded_reconstruct:
  assumes c: "coded enc D P n ps parity" and g: "ginv D P (shard_at ps parity) n S g" and "D \<le> card S" "fg_size g = n"
  shows "rs_Reconstruct enc (map (map_option (pad_to (fg_size g))) (fg_shards g)) =
    Some (map Some (map (pad_to n \<circ> mkShard) ps @ parity))"
proof -
  let ?w = "map (map_option (pad_to (fg_size g))) (fg_shards g)"
  have w: "length ?w = D + P" "\<And>i. i < D + P \<Longrightarrow> ?w ! i = (if i \<in> S then Some (pad_to n (shard_at ps parity i)) else None)"
    using ginvD(2,3)[OF g] assms(4) by simp_all
  have "{i. i < D + P \<and> ?w ! i \<noteq> None} = S"
    using ginvD(1)[OF g] by (auto simp: w(2) simp del: nth_map split: if_splits)
  moreover have "\<forall>i < D + P. ?w ! i = None \<or> ?w ! i = Some ((map (pad_to n \<circ> mkShard) ps @ parity) ! i)"
    using w(2) shard_at_props(3)[OF c] by simp
  ultimately show ?thesis using c w(1) assms(3) unfolding coded_def by blast
qed

lemma rebuild_group:
  assumes c: "coded enc D P n ps parity" and g: "ginv D P (shard_at ps parity) n S g"
  shows "\<exists>g' q. rebuild enc D g = (g', q) \<and> ginv D P (shard_at ps parity) n S g' \<and>
    (D \<le> card S \<longrightarrow> (\<forall>i < D. fg_delivered g' ! i)) \<and>
    mset (map fr_data q) + handed ps (fg_delivered g) = handed ps (fg_delivered g')"
proof (cases "fg_done g \<or> fg_haveData g = D \<or> fg_haveTotal g < D \<or> fg_size g = 0")
  case True
  have fin: "finite S" using g by (auto simp: ginv_def intro: finite_subset)
  have "\<forall>i < D. fg_delivered g ! i" if "D \<le> card S"
  proof (cases "fg_done g")
    case False
    have "S \<inter> {..<D} = {..<D}"
    proof (cases "fg_haveData g = D")
      case True
      then show ?thesis using ginvD(5)[OF g] by (intro card_subset_eq) auto
    next
      case nd: False
      with True False that have "fg_size g = 0" using ginvD(4)[OF g] by linarith
      then have "S \<subseteq> {..<D}" using ginvD(6)[OF g] codedD(3)[OF c] by (auto split: if_splits)
      with that fin show ?thesis by (metis card_lessThan card_seteq finite_lessThan inf.absorb_iff1)
    qed
    then show ?thesis using ginvD(8)[OF g] by blast
  qed (use ginvD(8)[OF g] in blast)
  then show ?thesis using True g by (auto simp: rebuild_def)
next
  case False
  have n: "fg_size g = n" "D \<le> card S" using False ginvD(4,6)[OF g] by (auto split: if_splits)
  have narrow: "\<not> (\<exists>s \<in> set (fg_shards g). case s of None \<Rightarrow> False | Some b \<Rightarrow> length b > fg_size g)"
  proof -
    have "length b \<le> fg_size g" if "Some b \<in> set (fg_shards g)" for b
    proof -
      from that obtain i where i: "i < D + P" "fg_shards g ! i = Some b"
        using ginvD(2)[OF g] by (auto simp: in_set_conv_nth)
      then show ?thesis using ginvD(3)[OF g i(1)] shard_at_props(1)[OF c i(1)] n(1) by (auto split: if_splits)
    qed
    then show ?thesis by (auto split: option.splits simp: not_less)
  qed
  let ?work = "map Some (map (pad_to n \<circ> mkShard) ps @ parity)"
  have work: "rs_Reconstruct enc (map (map_option (pad_to (fg_size g))) (fg_shards g)) = Some ?work"
    using coded_reconstruct[OF c g n(2,1)] .
  have ps: "length ps = D" "length (fg_delivered g) = D"
    and fit: "\<forall>i < D. length (ps ! i) < 2 ^ 16 \<and> length (ps ! i) + 2 \<le> n"
    using codedD(1,5)[OF c] ginvD(7)[OF g] by auto
  have "\<exists>z. ?work ! i = Some (mkShard (ps ! i) @ z)" if "i < D" for i
    using that ps fit by (simp add: nth_append pad_to_fits)
  with deliver_missing_all[of "[0..<D]" "fg_delivered g" ?work ps "fg_addr g"] ps fit
  obtain del where del: "deliver_missing [0..<D] ?work (fg_addr g) (fg_delivered g) =
      (del, map (\<lambda>i. \<lparr>fr_data = ps ! i, fr_addr = fg_addr g\<rparr>) (filter (\<lambda>i. \<not> fg_delivered g ! i) [0..<D]))"
    "length del = D" "\<forall>j < D. del ! j" by auto
  let ?q = "map (\<lambda>i. \<lparr>fr_data = ps ! i, fr_addr = fg_addr g\<rparr>) (filter (\<lambda>i. \<not> fg_delivered g ! i) [0..<D])"
  let ?g = "g\<lparr>fg_done := True, fg_delivered := del\<rparr>"
  have "rebuild enc D g = (?g, ?q)" using False narrow work del(1) by (simp add: rebuild_def)
  moreover have "ginv D P (shard_at ps parity) n S ?g" using g del n by (auto simp: ginv_def)
  moreover have "map fr_data ?q = map ((!) ps) (filter (\<lambda>i. \<not> fg_delivered g ! i) [0..<length ps])"
    by (simp add: o_def ps)
  then have "mset (map fr_data ?q) + handed ps (fg_delivered g) = handed ps (fg_delivered ?g)"
    using handed_split[of ps del "fg_delivered g"] del(3) ps(1) by (simp add: o_def)
  moreover have "\<forall>i < D. fg_delivered ?g ! i" using del(3) by simp
  ultimately show ?thesis by blast
qed

text \<open>Absorbing one shard of the group.\<close>

definition kind_at :: "nat \<Rightarrow> nat \<Rightarrow> byte" where
  "kind_at D i = (if i < D then fecKindData else fecKindParity)"

definition store_shard :: "nat \<Rightarrow> nat \<Rightarrow> byte \<Rightarrow> bytes \<Rightarrow> 'a fecGroup \<Rightarrow> 'a fecGroup" where
  "store_shard D i kind body g =
     (if fg_shards g ! i = None
      then g\<lparr>fg_shards := (fg_shards g)[i := (if body = [] then None else Some body)],
             fg_haveTotal := fg_haveTotal g + 1,
             fg_haveData := (if i < D then fg_haveData g + 1 else fg_haveData g),
             fg_size := (if kind = fecKindParity \<and> fg_size g = 0 then length body else fg_size g)\<rparr>
      else g)"

lemma store_ginv:
  assumes c: "coded enc D P n ps parity" and g: "ginv D P (shard_at ps parity) n S g" and i: "i < D + P"
  defines "g1 \<equiv> store_shard D i (kind_at D i) (shard_at ps parity i) g"
  shows "ginv D P (shard_at ps parity) n (insert i S)
      (if i < D then g1\<lparr>fg_delivered := (fg_delivered g1)[i := True]\<rparr> else g1)"
    "fg_delivered g1 = fg_delivered g"
proof -
  note gd = ginvD[OF g]
  have fin: "finite S" using gd(1) finite_subset by blast
  show del: "fg_delivered g1 = fg_delivered g" by (simp add: g1_def store_shard_def)
  have fin_done: "fg_done g1 = fg_done g" by (simp add: g1_def store_shard_def)
  have new: "fg_shards g ! i = None \<longleftrightarrow> i \<notin> S" using gd(3)[OF i] by simp
  have "card S \<le> card (insert i S)" by (simp add: card_insert_le)
  then have dn: "fg_done g \<Longrightarrow> D \<le> card (insert i S)" using gd(9) by linarith
  have shards: "length (fg_shards g1) = D + P" using gd(2) by (simp add: g1_def store_shard_def)
  have at: "fg_shards g1 ! j = (if j \<in> insert i S then Some (shard_at ps parity j) else None)" if "j < D + P" for j
  proof (cases "j = i")
    case True
    then show ?thesis using gd(2) gd(3)[OF i] i shard_at_props(2)[OF c i] by (auto simp: g1_def store_shard_def)
  next
    case False
    then show ?thesis using gd(3)[OF that] by (simp add: g1_def store_shard_def)
  qed
  have tot: "fg_haveTotal g1 = card (insert i S)" using gd(4) new fin by (auto simp: g1_def store_shard_def insert_absorb)
  have dat: "fg_haveData g1 = card (insert i S \<inter> {..<D})"
    using gd(5) new fin by (auto simp: g1_def store_shard_def insert_absorb Int_insert_left)
  have len: "length (shard_at ps parity i) = n" if "\<not> i < D"
    using that i codedD(1,2,4)[OF c] by (simp add: shard_at_def)
  have size: "fg_size g1 = (if insert i S \<subseteq> {..<D} then 0 else n)"
    using gd(6) new len codedD(3)[OF c]
    by (auto simp: g1_def store_shard_def kind_at_def fec_consts insert_absorb)
  show "ginv D P (shard_at ps parity) n (insert i S)
      (if i < D then g1\<lparr>fg_delivered := (fg_delivered g1)[i := True]\<rparr> else g1)"
    using gd(1,7,8) i shards at tot dat size dn fin_done del by (auto simp: ginv_def nth_list_update)
qed

lemma delivered_same: "g\<lparr>fg_delivered := fg_delivered g\<rparr> = g"
  by (cases g) simp

lemma absorb_group:
  assumes c: "coded enc D P n ps parity" and g: "ginv D P (shard_at ps parity) n S g"
    and i: "i < D + P" "D + P \<le> 256" and fc: "fecD c = D" "fecP c = P" "fc_groups c grp = Some g"
  shows "\<exists>out g' q. fecAbsorb enc c (kind_at D i) grp (word_of_nat i) (shard_at ps parity i) a =
      Some (c\<lparr>fc_groups := (fc_groups c)(grp \<mapsto> g'), fc_pending := fc_pending c @ q\<rparr>, out) \<and>
    ginv D P (shard_at ps parity) n (insert i S) g' \<and>
    (D \<le> card (insert i S) \<longrightarrow> (\<forall>j < D. fg_delivered g' ! j)) \<and>
    mset (case out of None \<Rightarrow> [] | Some p \<Rightarrow> [p]) + mset (map fr_data q) + handed ps (fg_delivered g) =
      handed ps (fg_delivered g')"
proof -
  let ?g1 = "store_shard D i (kind_at D i) (shard_at ps parity i) g"
  let ?g2 = "if i < D then ?g1\<lparr>fg_delivered := (fg_delivered ?g1)[i := True]\<rparr> else ?g1"
  let ?out = "if i < D \<and> \<not> fg_delivered g ! i then Some (ps ! i) else None"
  note st = store_ginv[OF c g i(1)]
  from rebuild_group[OF c st(1)] obtain g' q where r: "rebuild enc D ?g2 = (g', q)"
    "ginv D P (shard_at ps parity) n (insert i S) g'"
    "D \<le> card (insert i S) \<longrightarrow> (\<forall>j < D. fg_delivered g' ! j)"
    "mset (map fr_data q) + handed ps (fg_delivered ?g2) = handed ps (fg_delivered g')" by blast
  have u: "unat (word_of_nat i :: byte) = i" using i by (simp add: unat_of_nat take_bit_nat_eq_self)
  have len: "length (fg_delivered g) = D" "length ps = D" using ginvD(7)[OF g] codedD(1)[OF c] by auto
  have upd: "(fg_delivered g)[i := True] = fg_delivered g" if "fg_delivered g ! i"
    using that by (metis (full_types) list_update_id)
  have same: "?g1\<lparr>fg_delivered := (fg_delivered ?g1)[i := True]\<rparr> = ?g1" if "fg_delivered g ! i"
    using that st(2) upd delivered_same[of ?g1] by simp
  have trim: "i < D \<Longrightarrow> trimShard (shard_at ps parity i) = Some (ps ! i)"
    using codedD(5)[OF c] len by (simp add: shard_at_def trimShard_mkShard)
  have "fecAbsorb enc c (kind_at D i) grp (word_of_nat i) (shard_at ps parity i) a =
      Some (c\<lparr>fc_groups := (fc_groups c)(grp \<mapsto> g'), fc_pending := fc_pending c @ q\<rparr>, ?out)"
    using i fc r(1) st(2) len trim same unfolding fecAbsorb_def Let_def u store_shard_def[symmetric]
    by (auto simp: kind_at_def fec_consts)
  moreover have "mset (case ?out of None \<Rightarrow> [] | Some p \<Rightarrow> [p]) + mset (map fr_data q) + handed ps (fg_delivered g) =
      handed ps (fg_delivered g')"
  proof -
    have "handed ps (fg_delivered ?g2) = mset (case ?out of None \<Rightarrow> [] | Some p \<Rightarrow> [p]) + handed ps (fg_delivered g)"
      using st(2) len handed_update[of i ps "fg_delivered g"] upd by auto
    then show ?thesis using r(4) by (metis (no_types, lifting) add.assoc add.commute)
  qed
  ultimately show ?thesis using r(2,3) by blast
qed

text \<open>The first shard of a group opens it: nothing else of the receiver changes but its window.\<close>

definition fresh_group :: "nat \<Rightarrow> nat \<Rightarrow> 'a \<Rightarrow> 'a fecGroup" where
  "fresh_group D P a =
     \<lparr>fg_shards = replicate (D + P) None, fg_haveData = 0, fg_haveTotal = 0, fg_size = 0,
      fg_delivered = replicate D False, fg_done = False, fg_addr = a\<rparr>"

definition opened :: "'a fecCarrier \<Rightarrow> u32 \<Rightarrow> 'a \<Rightarrow> 'a fecCarrier" where
  "opened c grp a =
     evict (c\<lparr>fc_groups := (fc_groups c)(grp \<mapsto> fresh_group (fecD c) (fecP c) a), fc_order := fc_order c @ [grp]\<rparr>)"

lemma opened_simps [simp]:
  "fecD (opened c grp a) = fecD c" "fecP (opened c grp a) = fecP c" "fc_pending (opened c grp a) = fc_pending c"
  by (simp_all add: opened_def evict_def fecD_def fecP_def Let_def)

lemma fresh_group_inv: "ginv D P W n {} (fresh_group D P a)" "length ps = D \<Longrightarrow> handed ps (fg_delivered (fresh_group D P a)) = {#}"
proof -
  show "ginv D P W n {} (fresh_group D P a)" by (simp add: ginv_def fresh_group_def)
  show "length ps = D \<Longrightarrow> handed ps (fg_delivered (fresh_group D P a)) = {#}"
    by (auto simp: handed_def fresh_group_def mset_set_empty_iff)
qed

lemma opened_group:
  assumes "grp \<notin> set (fc_order c)"
  shows "fc_groups (opened c grp a) grp = Some (fresh_group (fecD c) (fecP c) a)"
proof -
  have "grp \<notin> set (take (Suc (length (fc_order c)) - fecWindow) (fc_order c @ [grp]))"
    using assms by (auto simp: fecWindow_def dest: in_set_takeD)
  then show ?thesis by (simp add: opened_def evict_def Let_def)
qed

lemma absorb_opens:
  assumes "fc_groups c grp = None" "grp \<notin> set (fc_order c)" "unat index < fecD c + fecP c"
  shows "fecAbsorb enc c kind grp index body a = fecAbsorb enc (opened c grp a) kind grp index body a"
  using assms(1) assms(3)[folded not_le] opened_group[OF assms(2), of a]
  unfolding fecAbsorb_def Let_def opened_simps
  by (simp only: option.case prod.case fresh_group_def[symmetric] opened_def[symmetric] if_False)

text \<open>A whole group of arrivals, in any order, with any repetitions.\<close>

definition dgram :: "u32 \<Rightarrow> bytes list \<Rightarrow> bytes list \<Rightarrow> nat \<Rightarrow> bytes" where
  "dgram grp ps parity i = putFECHeader (kind_at (length ps) i) grp (word_of_nat i) @ shard_at ps parity i"

lemma parse_dgram:
  "parseFECHeader (dgram grp ps parity i) = Some (kind_at (length ps) i, grp, word_of_nat i, shard_at ps parity i)"
  by (simp add: dgram_def kind_at_def)

lemma absorb_run_open_group:
  assumes c: "coded enc D P n ps parity" and fits: "D + P \<le> 256" and "is": "set is \<subseteq> {..<D + P}"
    and fc: "fecD c = D" "fecP c = P" "fc_groups c grp = Some g"
    and g: "ginv D P (shard_at ps parity) n S g" "D \<le> card S \<longrightarrow> (\<forall>j < D. fg_delivered g ! j)"
  shows "\<exists>c' got g'. fec_absorb_run enc c a (map (dgram grp ps parity) is) = Some (c', got) \<and>
    fc_groups c' grp = Some g' \<and> ginv D P (shard_at ps parity) n (S \<union> set is) g' \<and>
    (D \<le> card (S \<union> set is) \<longrightarrow> (\<forall>j < D. fg_delivered g' ! j)) \<and>
    mset got + mset (map fr_data (fc_pending c')) + handed ps (fg_delivered g) =
      mset (map fr_data (fc_pending c)) + handed ps (fg_delivered g')"
  using "is" fc g
proof (induction "is" arbitrary: c S g)
  case (Cons i "is")
  have i: "i < D + P" using Cons.prems by simp
  from absorb_group[OF c Cons.prems(5) i fits Cons.prems(2-4), of a] obtain out g1 q where
    a: "fecAbsorb enc c (kind_at D i) grp (word_of_nat i) (shard_at ps parity i) a =
        Some (c\<lparr>fc_groups := (fc_groups c)(grp \<mapsto> g1), fc_pending := fc_pending c @ q\<rparr>, out)"
      "ginv D P (shard_at ps parity) n (insert i S) g1"
      "D \<le> card (insert i S) \<longrightarrow> (\<forall>j < D. fg_delivered g1 ! j)"
      "mset (case out of None \<Rightarrow> [] | Some p \<Rightarrow> [p]) + mset (map fr_data q) + handed ps (fg_delivered g) =
        handed ps (fg_delivered g1)" by blast
  let ?c1 = "c\<lparr>fc_groups := (fc_groups c)(grp \<mapsto> g1), fc_pending := fc_pending c @ q\<rparr>"
  have "set is \<subseteq> {..<D + P}" "fecD ?c1 = D" "fecP ?c1 = P" "fc_groups ?c1 grp = Some g1"
    using Cons.prems by (auto simp: fecD_def fecP_def)
  from Cons.IH[OF this a(2,3)] obtain c' got g' where r:
    "fec_absorb_run enc ?c1 a (map (dgram grp ps parity) is) = Some (c', got)" "fc_groups c' grp = Some g'"
    "ginv D P (shard_at ps parity) n (insert i S \<union> set is) g'"
    "D \<le> card (insert i S \<union> set is) \<longrightarrow> (\<forall>j < D. fg_delivered g' ! j)"
    "mset got + mset (map fr_data (fc_pending c')) + handed ps (fg_delivered g1) =
      mset (map fr_data (fc_pending ?c1)) + handed ps (fg_delivered g')" by blast
  let ?got = "(case out of None \<Rightarrow> [] | Some p \<Rightarrow> [p]) @ got"
  have "fec_absorb_run enc c a (map (dgram grp ps parity) (i # is)) = Some (c', ?got)"
    using a(1) r(1) codedD(1)[OF c] by (simp add: parse_dgram)
  moreover have "mset ?got + mset (map fr_data (fc_pending c')) + handed ps (fg_delivered g) =
      mset (map fr_data (fc_pending c)) + handed ps (fg_delivered g')"
    using r(5) unfolding a(4)[symmetric] by (simp add: ac_simps)
  moreover have "insert i S \<union> set is = S \<union> set (i # is)" by simp
  ultimately show ?case using r(2-4) by metis
qed simp

lemma absorb_run_group:
  assumes c: "coded enc D P n ps parity" and fits: "D + P \<le> 256" "0 < D" and "is": "set is \<subseteq> {..<D + P}" "is \<noteq> []"
    and fc: "fecD c = D" "fecP c = P" "fc_groups c grp = None" "grp \<notin> set (fc_order c)" "fc_pending c = []"
  shows "\<exists>c' got. fec_absorb_run enc c a (map (dgram grp ps parity) is) = Some (c', got) \<and>
    mset got + mset (map fr_data (fc_pending c')) \<subseteq># mset ps \<and>
    (D \<le> card (set is) \<longrightarrow> mset got + mset (map fr_data (fc_pending c')) = mset ps)"
proof -
  let ?c = "opened c grp a" and ?g = "fresh_group D P a"
  have len: "length ps = D" using codedD(1)[OF c] .
  have o: "fecD ?c = D" "fecP ?c = P" "fc_groups ?c grp = Some ?g" "fc_pending ?c = []"
    using fc opened_group[OF fc(4), of a] by simp_all
  have "D \<le> card {} \<longrightarrow> (\<forall>j < D. fg_delivered ?g ! j)" using fits(2) by simp
  from absorb_run_open_group[OF c fits(1) "is"(1) o(1-3) fresh_group_inv(1) this, of a] obtain c' got g' where
    r0: "fec_absorb_run enc ?c a (map (dgram grp ps parity) is) = Some (c', got)"
       "fc_groups c' grp = Some g'" "D \<le> card ({} \<union> set is) \<longrightarrow> (\<forall>j < D. fg_delivered g' ! j)"
       "mset got + mset (map fr_data (fc_pending c')) + handed ps (fg_delivered ?g) =
        mset (map fr_data (fc_pending ?c)) + handed ps (fg_delivered g')" by blast
  have r: "fec_absorb_run enc ?c a (map (dgram grp ps parity) is) = Some (c', got)"
       "D \<le> card (set is) \<longrightarrow> (\<forall>j < D. fg_delivered g' ! j)"
       "mset got + mset (map fr_data (fc_pending c')) = handed ps (fg_delivered g')"
    using r0 o(4) fresh_group_inv(2)[OF len, of P a] by simp_all
  obtain i js where i: "is = i # js" "i < D + P" using "is" by (cases "is") auto
  have "unat (word_of_nat i :: byte) = i" using i fits by (simp add: unat_of_nat take_bit_nat_eq_self)
  then have "fec_absorb_run enc c a (map (dgram grp ps parity) is) = Some (c', got)"
    using r(1) absorb_opens[OF fc(3,4)] i fc(1,2) by (simp add: parse_dgram)
  then show ?thesis
    using r(2,3) handed_sub[of ps "fg_delivered g'"] handed_all[of ps "fg_delivered g'"] len by auto
qed

text \<open>The sender's side of a group.\<close>

definition parity_out :: "rs \<Rightarrow> nat \<Rightarrow> nat \<Rightarrow> u32 \<Rightarrow> bytes list \<Rightarrow> nat \<Rightarrow> bytes list" where
  "parity_out enc D P grp shards n =
     (case rs_Encode enc (map (pad_to n) shards @ replicate P (replicate n 0)) of
        None \<Rightarrow> []
      | Some sh \<Rightarrow> map (\<lambda>i. putFECHeader fecKindParity grp (word_of_nat i) @ sh ! i) [D ..< D + P])"

lemma write_run_outs:
  assumes "fc_sendIdx c + length ps = fecD c" "ps \<noteq> []"
    and "pad = (case fc_sendPad c of None \<Rightarrow> replicate (fecD c + fecP c) [] | Some q \<Rightarrow> q)"
    and "length pad = fecD c + fecP c"
  shows "map fst (snd (fec_write_run enc c a ps)) =
    map (\<lambda>(i, p). putFECHeader fecKindData (fc_sendGrp c) (word_of_nat i) @ mkShard p) (enumerate (fc_sendIdx c) ps) @
    parity_out enc (fecD c) (fecP c) (fc_sendGrp c) (take (fc_sendIdx c) pad @ map mkShard ps)
      (foldl max (fc_sendMax c) (map (length \<circ> mkShard) ps))"
  using assms
proof (induction ps arbitrary: c pad)
  case (Cons p ps)
  let ?k = "fc_sendIdx c"
  let ?pad = "pad[?k := mkShard p]"
  let ?m = "max (fc_sendMax c) (length (mkShard p))"
  let ?c2 = "c\<lparr>fc_sendPad := Some ?pad, fc_sendMax := ?m, fc_sendPeer := Some a, fc_sendIdx := ?k + 1\<rparr>"
  have k: "?k < length pad" "take (Suc ?k) ?pad = take ?k pad @ [mkShard p]"
    using Cons.prems by (auto simp: take_Suc_conv_app_nth)
  have m: "(if length (mkShard p) > fc_sendMax c then length (mkShard p) else fc_sendMax c) = ?m" by simp
  show ?case
  proof (cases "ps = []")
    case True
    then have w: "fecWriteTo enc c p a False = (case flushParity enc ?c2 of (c3, outs) \<Rightarrow>
       (c3, (putFECHeader fecKindData (fc_sendGrp c) (word_of_nat ?k) @ mkShard p, Some a) # outs, Some (length p)))"
      using Cons.prems by (simp add: fecWriteTo_def Let_def m fecD_def fecP_def del: length_mkShard)
    have "map fst (snd (flushParity enc ?c2)) =
        parity_out enc (fecD c) (fecP c) (fc_sendGrp c) (take ?k pad @ [mkShard p]) ?m"
      using Cons.prems k True
      by (auto simp: flushParity_def parity_out_def Let_def fecD_def fecP_def o_def split: option.splits)
    then show ?thesis using True w by (simp add: case_prod_beta)
  next
    case False
    have ne: "Suc ?k \<noteq> fecD c" using Cons.prems(1) False by (cases ps) auto
    have "fecWriteTo enc c p a False =
       (?c2, [(putFECHeader fecKindData (fc_sendGrp c) (word_of_nat ?k) @ mkShard p, Some a)], Some (length p))"
      using Cons.prems ne by (simp add: fecWriteTo_def Let_def m fecD_def fecP_def del: length_mkShard)
    moreover note Cons.IH[of ?c2 ?pad]
    ultimately show ?thesis
      using Cons.prems False k by (simp add: case_prod_beta fecD_def fecP_def)
  qed
qed simp

lemma foldl_max_start: "(m :: nat) \<le> foldl max m xs"
  by (induction xs arbitrary: m) (auto intro: le_trans[OF max.cobounded1])

lemma foldl_max_ge: "(x :: nat) \<in> set xs \<Longrightarrow> x \<le> foldl max m xs"
proof (induction xs arbitrary: m)
  case (Cons y ys)
  then show ?case using foldl_max_start[of "max m y" ys] by auto
qed simp

text \<open>With the library's guarantee a full group of a fresh sender is a coded group on the wire.\<close>

lemma write_run_coded:
  assumes enc: "rs_correct (fecD c) (fecP c) enc" and idx: "fc_sendIdx c = 0" "fc_sendPad c = None"
    and ps: "length ps = fecD c" "0 < fecD c" "\<forall>p \<in> set ps. length p < 2 ^ 16"
  shows "\<exists>n parity. coded enc (fecD c) (fecP c) n ps parity \<and>
    map fst (snd (fec_write_run enc c a ps)) = map (dgram (fc_sendGrp c) ps parity) [0 ..< fecD c + fecP c]"
proof -
  let ?D = "fecD c" and ?P = "fecP c"
  let ?n = "foldl max (fc_sendMax c) (map (length \<circ> mkShard) ps)"
  let ?data = "map (pad_to ?n \<circ> mkShard) ps"
  have fit: "length p + 2 \<le> ?n" if "p \<in> set ps" for p
    using foldl_max_ge[of "length (mkShard p)" "map (length \<circ> mkShard) ps" "fc_sendMax c"] that by auto
  have "ps \<noteq> []" using ps by auto
  then have two: "2 \<le> ?n" using fit[of "hd ps"] by simp
  then have "0 < ?n" by linarith
  moreover have "length ?data = ?D \<and> (\<forall>s \<in> set ?data. length s = ?n)" using ps(1) by auto
  ultimately have "\<exists>parity. rs_Encode enc (?data @ replicate ?P (replicate ?n 0)) = Some (?data @ parity) \<and>
    length parity = ?P \<and> (\<forall>s \<in> set parity. length s = ?n) \<and>
    (\<forall>work. length work = ?D + ?P \<and> ?D \<le> card {i. i < ?D + ?P \<and> work ! i \<noteq> None} \<and>
        (\<forall>i < ?D + ?P. work ! i = None \<or> work ! i = Some ((?data @ parity) ! i)) \<longrightarrow>
        rs_Reconstruct enc work = Some (map Some (?data @ parity)))"
    using enc[unfolded rs_correct_def, THEN spec, of ?n, THEN mp, THEN spec, of ?data, THEN mp] by blast
  then obtain parity where par:
    "rs_Encode enc (?data @ replicate ?P (replicate ?n 0)) = Some (?data @ parity)"
    "length parity = ?P" "\<forall>s \<in> set parity. length s = ?n"
    "\<forall>work. length work = ?D + ?P \<and> ?D \<le> card {i. i < ?D + ?P \<and> work ! i \<noteq> None} \<and>
        (\<forall>i < ?D + ?P. work ! i = None \<or> work ! i = Some ((?data @ parity) ! i)) \<longrightarrow>
        rs_Reconstruct enc work = Some (map Some (?data @ parity))"
    by (elim exE conjE) (rule that)
  have "coded enc ?D ?P ?n ps parity"
    unfolding coded_def using ps par(2-4) fit two by blast
  moreover have "map fst (snd (fec_write_run enc c a ps)) = map (dgram (fc_sendGrp c) ps parity) [0 ..< ?D + ?P]"
  proof -
    have "parity_out enc ?D ?P (fc_sendGrp c) (map mkShard ps) ?n =
        map (dgram (fc_sendGrp c) ps parity) [?D ..< ?D + ?P]"
      using par(1) ps(1) by (auto simp: parity_out_def dgram_def kind_at_def shard_at_def nth_append)
    moreover have "map (\<lambda>(i, p). putFECHeader fecKindData (fc_sendGrp c) (word_of_nat i) @ mkShard p) (enumerate 0 ps) =
        map (dgram (fc_sendGrp c) ps parity) [0 ..< ?D]"
      using ps(1) by (intro nth_equalityI) (auto simp: nth_enumerate_eq dgram_def kind_at_def shard_at_def)
    moreover have "map fst (snd (fec_write_run enc c a ps)) =
        map (\<lambda>(i, p). putFECHeader fecKindData (fc_sendGrp c) (word_of_nat i) @ mkShard p) (enumerate 0 ps) @
        parity_out enc ?D ?P (fc_sendGrp c) (map mkShard ps) ?n"
      using write_run_outs[of c ps "replicate (?D + ?P) []" enc a] idx ps(1) \<open>ps \<noteq> []\<close> by simp
    moreover have "[0 ..< ?D + ?P] = [0 ..< ?D] @ [?D ..< ?D + ?P]"
      by (rule upt_add_eq_append) simp
    ultimately show ?thesis by (simp only: map_append)
  qed
  ultimately show ?thesis by blast
qed

lemma subset_image_list: "set ds \<subseteq> f ` A \<Longrightarrow> \<exists>js. ds = map f js \<and> set js \<subseteq> A"
proof (induction ds)
  case (Cons d ds)
  then obtain js j where "ds = map f js" "set js \<subseteq> A" "d = f j" "j \<in> A" by auto
  then show ?case by (intro exI[of _ "j # js"]) simp
qed simp

text \<open>A concrete code for a scheme of two data shards and one parity shard: their exclusive or.\<close>

definition xor_bytes :: "bytes \<Rightarrow> bytes \<Rightarrow> bytes" where "xor_bytes a b = map2 (XOR) a b"

definition demo_rs :: rs where
  "demo_rs = \<lparr>
     rs_Encode = (\<lambda>s. case s of [a, b, _] \<Rightarrow> Some [a, b, xor_bytes a b] | _ \<Rightarrow> None),
     rs_Reconstruct = (\<lambda>w. case w of
         [Some a, Some b, _] \<Rightarrow> Some [Some a, Some b, Some (xor_bytes a b)]
       | [Some a, None, Some c] \<Rightarrow> Some [Some a, Some (xor_bytes a c), Some c]
       | [None, Some b, Some c] \<Rightarrow> Some [Some (xor_bytes c b), Some b, Some c]
       | _ \<Rightarrow> None)\<rparr>"

definition demo_carrier :: "FECConfig \<Rightarrow> 'a fecCarrier" where
  "demo_carrier cfg =
     \<lparr>fc_cfg = cfg, fc_sendGrp = 0, fc_sendIdx = 0, fc_sendPad = None, fc_sendMax = 0, fc_sendPeer = None,
      fc_groups = Map.empty, fc_order = [], fc_pending = []\<rparr>"

lemma xor_bytes_inv:
  "length a = length b \<Longrightarrow> xor_bytes a (xor_bytes a b) = b"
  "length a = length b \<Longrightarrow> xor_bytes (xor_bytes a b) b = a"
  by (induction a b rule: list_induct2) (auto simp: xor_bytes_def xor.assoc xor.left_commute)

lemma demo_rs_correct: "rs_correct 2 1 demo_rs"
  unfolding rs_correct_def
proof (intro allI impI, elim conjE)
  fix n :: nat and data :: "bytes list"
  assume "0 < n" "length data = 2" and n: "\<forall>s \<in> set data. length s = n"
  then obtain a b where data: "data = [a, b]" by (auto simp: numeral_2_eq_2 length_Suc_conv)
  let ?c = "xor_bytes a b"
  have len: "length a = length b" "length ?c = n" using n by (auto simp: data xor_bytes_def)
  have "rs_Reconstruct demo_rs work = Some (map Some (data @ [?c]))"
    if w: "length work = 2 + 1" "2 \<le> card {i. i < 2 + 1 \<and> work ! i \<noteq> None}"
      "\<forall>i < 2 + 1. work ! i = None \<or> work ! i = Some ((data @ [?c]) ! i)" for work
  proof -
    obtain x y z where work: "work = [x, y, z]" using w(1) by (auto simp: numeral_2_eq_2 length_Suc_conv)
    have i3: "i < 2 + 1 \<Longrightarrow> i = 0 \<or> i = 1 \<or> i = 2" for i :: nat by linarith
    have few: "\<not> {i. i < 2 + 1 \<and> work ! i \<noteq> None} \<subseteq> {k}" for k
      using w(2) card_mono[of "{k}" "{i. i < 2 + 1 \<and> work ! i \<noteq> None}"] by auto
    have "\<not> (x = None \<and> y = None) \<and> \<not> (x = None \<and> z = None) \<and> \<not> (y = None \<and> z = None)"
    proof -
      have "\<exists>i. (i = 0 \<or> i = 1 \<or> i = 2) \<and> i \<noteq> k \<and> work ! i \<noteq> None" for k
        using few[of k] i3 by blast
      from this[of 0] this[of 1] this[of 2] show ?thesis by (auto simp: work)
    qed
    moreover have "x = None \<or> x = Some a" "y = None \<or> y = Some b" "z = None \<or> z = Some ?c"
      using w(3)[rule_format, of 0] w(3)[rule_format, of 1] w(3)[rule_format, of 2] by (auto simp: work data)
    ultimately show ?thesis
      using xor_bytes_inv[OF len(1)] by (auto simp: work data demo_rs_def)
  qed
  then show "\<exists>parity. rs_Encode demo_rs (data @ replicate 1 (replicate n 0)) = Some (data @ parity) \<and>
           length parity = 1 \<and> (\<forall>s \<in> set parity. length s = n) \<and>
           (\<forall>work. length work = 2 + 1 \<and> 2 \<le> card {i. i < 2 + 1 \<and> work ! i \<noteq> None} \<and>
              (\<forall>i < 2 + 1. work ! i = None \<or> work ! i = Some ((data @ parity) ! i)) \<longrightarrow>
              rs_Reconstruct demo_rs work = Some (map Some (data @ parity)))"
    using len by (intro exI[of _ "[?c]"]) (simp add: demo_rs_def data)
qed

text \<open>The receiver's invariant.\<close>

definition fec_ok :: "'a fecCarrier \<Rightarrow> bool" where
  "fec_ok c \<longleftrightarrow> distinct (fc_order c) \<and> dom (fc_groups c) = set (fc_order c) \<and> length (fc_order c) \<le> fecWindow \<and>
     (\<forall>grp g. fc_groups c grp = Some g \<longrightarrow> length (fg_shards g) = fecD c + fecP c \<and> length (fg_delivered g) = fecD c)"

lemma deliver_missing_length: "deliver_missing is work a del = (del', q) \<Longrightarrow> length del' = length del"
  by (induction "is" work a del arbitrary: del' q rule: deliver_missing.induct)
    (auto split: if_splits option.splits prod.splits)

lemma rebuild_lengths:
  "rebuild enc D g = (g', q) \<Longrightarrow> length (fg_shards g') = length (fg_shards g) \<and> length (fg_delivered g') = length (fg_delivered g)"
  by (auto simp: rebuild_def split: if_splits option.splits prod.splits dest: deliver_missing_length)

lemma opened_fec_ok:
  assumes "fec_ok c" "fc_groups c grp = None"
  shows "fec_ok (opened c grp a)" "fc_groups (opened c grp a) grp = Some (fresh_group (fecD c) (fecP c) a)"
proof -
  have new: "grp \<notin> set (fc_order c)" using assms domIff[of grp "fc_groups c"] by (auto simp: fec_ok_def)
  then show "fc_groups (opened c grp a) grp = Some (fresh_group (fecD c) (fecP c) a)" by (rule opened_group)
  let ?o = "fc_order c @ [grp]" and ?k = "Suc (length (fc_order c)) - fecWindow"
  have "distinct ?o" using assms new by (simp add: fec_ok_def)
  then have "set (take ?k ?o) \<inter> set (drop ?k ?o) = {}" "set (take ?k ?o) \<union> set (drop ?k ?o) = set ?o"
    by (metis append_take_drop_id distinct_append, metis append_take_drop_id set_append)
  then have dom: "(insert grp (set (fc_order c))) \<inter> - set (take ?k ?o) = set (drop ?k ?o)" by auto
  let ?f = "fresh_group (fecD c) (fecP c) a"
  have order: "fc_order (opened c grp a) = drop ?k ?o"
    and groups: "fc_groups (opened c grp a) = ((fc_groups c)(grp \<mapsto> ?f)) |` (- set (take ?k ?o))"
    by (simp_all add: opened_def evict_def Let_def)
  have "dom (fc_groups (opened c grp a)) = set (drop ?k ?o)"
    unfolding groups dom_restrict dom[symmetric] using assms(1) by (auto simp: fec_ok_def)
  moreover have "length (fg_shards g) = fecD c + fecP c \<and> length (fg_delivered g) = fecD c"
    if "fc_groups (opened c grp a) h = Some g" for h g
    using that assms(1) unfolding groups
    by (auto simp: fec_ok_def restrict_map_def fresh_group_def split: if_splits)
  ultimately show "fec_ok (opened c grp a)"
    using \<open>distinct ?o\<close> unfolding fec_ok_def order opened_simps by (auto simp del: drop_append)
qed

lemma absorb_group_known:
  assumes "fc_groups c grp = Some g" "unat index < fecD c + fecP c" "length (fg_delivered g) = fecD c"
  shows "fecAbsorb enc c kind grp index body a = None \<longleftrightarrow> kind = fecKindData \<and> fecD c \<le> unat index"
    "fecAbsorb enc c kind grp index body a = Some (c', out) \<Longrightarrow>
     \<exists>g' q. c' = c\<lparr>fc_groups := (fc_groups c)(grp \<mapsto> g'), fc_pending := fc_pending c @ q\<rparr> \<and>
       length (fg_shards g') = length (fg_shards g) \<and> length (fg_delivered g') = fecD c"
  using assms
  by (auto simp: fecAbsorb_def Let_def split: if_splits prod.splits dest!: rebuild_lengths)

lemma absorb_known_or_opened:
  assumes "fec_ok c" "unat index < fecD c + fecP c"
  obtains d g where "fec_ok d" "fc_groups d grp = Some g" "fecD d = fecD c" "fecP d = fecP c"
    "fecAbsorb enc c kind grp index body a = fecAbsorb enc d kind grp index body a"
proof (cases "fc_groups c grp")
  case (Some g)
  then show ?thesis using assms that by blast
next
  case None
  have "grp \<notin> set (fc_order c)" using assms None domIff[of grp "fc_groups c"] by (auto simp: fec_ok_def)
  then show ?thesis
    using that[of "opened c grp a"] opened_fec_ok[OF assms(1) None, of a] absorb_opens[OF None _ assms(2)] by auto
qed

lemma absorb_fec_ok:
  assumes ok: "fec_ok c" and a: "fecAbsorb enc c kind grp index body a = Some (c', out)"
  shows "fec_ok c'"
proof (cases "unat index < fecD c + fecP c")
  case False
  then show ?thesis using a ok by (simp add: fecAbsorb_def Let_def not_less)
next
  case True
  obtain d g where d: "fec_ok d" "fc_groups d grp = Some g" "fecD d = fecD c" "fecP d = fecP c"
    "fecAbsorb enc c kind grp index body a = fecAbsorb enc d kind grp index body a"
    using absorb_known_or_opened[OF ok True] by metis
  then have len: "length (fg_delivered g) = fecD d" "length (fg_shards g) = fecD d + fecP d" by (auto simp: fec_ok_def)
  have "unat index < fecD d + fecP d" using True d by simp
  from absorb_group_known(2)[OF d(2) this len(1), of enc kind body a c' out] a d(5) obtain g' q where
    c': "c' = d\<lparr>fc_groups := (fc_groups d)(grp \<mapsto> g'), fc_pending := fc_pending d @ q\<rparr>"
      "length (fg_shards g') = length (fg_shards g)" "length (fg_delivered g') = fecD d" by auto
  have "insert grp (dom (fc_groups d)) = dom (fc_groups d)" using d(2) by auto
  then show ?thesis using d(1) c' len by (auto simp: fec_ok_def fecD_def fecP_def)
qed

lemma absorb_panics:
  assumes ok: "fec_ok c"
  shows "fecAbsorb enc c kind grp index body a = None \<longleftrightarrow>
    kind = fecKindData \<and> fecD c \<le> unat index \<and> unat index < fecD c + fecP c"
proof (cases "unat index < fecD c + fecP c")
  case False
  then show ?thesis by (simp add: fecAbsorb_def Let_def not_less)
next
  case True
  obtain d g where d: "fec_ok d" "fc_groups d grp = Some g" "fecD d = fecD c" "fecP d = fecP c"
    "fecAbsorb enc c kind grp index body a = fecAbsorb enc d kind grp index body a"
    using absorb_known_or_opened[OF ok True] by metis
  then have "length (fg_delivered g) = fecD d" by (auto simp: fec_ok_def)
  then show ?thesis using absorb_group_known(1)[OF d(2)] d(3-5) True by simp
qed

interpretation fecwire: exact_framing
  "\<lambda>(kind, grp, index, body). putFECHeader kind grp index @ body" parseFECHeader
  "\<lambda>(kind, grp, index, body). kind = fecKindData \<or> kind = fecKindParity"
proof unfold_locales
  show "parseFECHeader (case x of (kind, grp, index, body) \<Rightarrow> putFECHeader kind grp index @ body) = Some x"
    if "case x of (kind, grp, index, body) \<Rightarrow> kind = fecKindData \<or> kind = fecKindParity" for x
    using that by auto
  show "(case x of (kind, grp, index, body) \<Rightarrow> kind = fecKindData \<or> kind = fecKindParity) \<and>
      (case x of (kind, grp, index, body) \<Rightarrow> putFECHeader kind grp index @ body) = b"
    if p: "parseFECHeader b = Some x" for b x
  proof -
    have len: "6 \<le> length b" using p by (auto simp: parseFECHeader_def fec_consts not_less split: if_splits)
    have "b = take 1 b @ take 4 (drop 1 b) @ take 1 (drop 5 b) @ drop 6 b"
      using drop_split[of 0 b 1] drop_split[of 1 b 4] drop_split[of 5 b 1] by simp
    moreover have "take 1 b = [b ! 0]" "take 1 (drop 5 b) = [b ! 5]"
    proof -
      have "b \<noteq> []" "drop 5 b \<noteq> []" using len by auto
      then show "take 1 b = [b ! 0]" "take 1 (drop 5 b) = [b ! 5]"
        using len take1_nth[of b] take1_nth[of "drop 5 b"] by simp_all
    qed
    ultimately show ?thesis
      using p len by (auto simp: parseFECHeader_def putFECHeader_def fec_consts Let_def split: if_splits)
  qed
qed

section \<open>Properties\<close>



text \<open>The receiver's memory is bounded: absorbing any datagram, whatever it carries, keeps at most
  16 groups, each with room for exactly its shards, and remembers each group it keeps once.\<close>
theorem fec_window_bounded:
  assumes "fec_ok c" "fecAbsorb enc c kind grp index body a = Some (c', out)"
  shows "fec_ok c' \<and> card (dom (fc_groups c')) \<le> 16"
  using absorb_fec_ok[OF assms] by (auto simp: fec_ok_def fecWindow_def distinct_card[symmetric])

theorem fec_window_bounded_witness:
  "\<exists>c' out. fecAbsorb demo_rs (demo_carrier \<lparr>fec_Data = 2, fec_Parity = 1\<rparr>) fecKindParity 5 2 [1, 2] () = Some (c', out) \<and>
     fec_ok c'"
proof -
  have ok: "fec_ok (demo_carrier \<lparr>fec_Data = 2, fec_Parity = 1\<rparr> :: unit fecCarrier)"
    by (simp add: fec_ok_def demo_carrier_def)
  obtain c' out where a: "fecAbsorb demo_rs (demo_carrier \<lparr>fec_Data = 2, fec_Parity = 1\<rparr>) fecKindParity 5 2 [1, 2] () = Some (c', out)"
    using absorb_panics[OF ok, of demo_rs fecKindParity 5 2 "[1, 2]" "()"] by (auto simp: fec_consts)
  then show ?thesis using fec_window_bounded[OF ok a] by blast
qed

text \<open>(C20) A received datagram makes \<open>absorb\<close> panic in exactly one case: a data shard whose index names
  a parity position, for which \<open>g.delivered\<close> has no element. Nothing before it authenticates the
  datagram.\<close>
theorem fec_absorb_panics_iff:
  assumes "fec_ok c"
  shows "fecAbsorb enc c kind grp index body a = None \<longleftrightarrow>
    kind = fecKindData \<and> fecD c \<le> unat index \<and> unat index < fecD c + fecP c"
  using assms by (rule absorb_panics)

theorem fec_absorb_panics_iff_witness:
  "fecAbsorb demo_rs (demo_carrier \<lparr>fec_Data = 2, fec_Parity = 1\<rparr>) fecKindData 0 2 [] () = None"
proof -
  have ok: "fec_ok (demo_carrier \<lparr>fec_Data = 2, fec_Parity = 1\<rparr> :: unit fecCarrier)"
    by (simp add: fec_ok_def demo_carrier_def)
  show ?thesis
    unfolding fec_absorb_panics_iff[OF ok] by (simp add: demo_carrier_def fecD_def fecP_def)
qed

end
