(* ===== verification/Multipath.thy ===== *)
theory Multipath
  imports Prelude
begin

text \<open>
  The multipath carrier, \<open>src/internal/tunnel/l3/multipath.go\<close>: its configuration, the round robin of
  its writes (a wrapping 32-bit counter), the shared queue its paths are pumped into, the one address
  it reports upward, and the ports the two ends derive for the paths.

  The queue is Go's buffered channel: a pump's send is dropped when the queue is full. A read takes
  the next packet, or waits (\<open>None\<close>) when there is none.
\<close>

section \<open>Definitions\<close>

definition maxPaths :: int where "maxPaths = 8"
definition pathQueue :: nat where "pathQueue = 1024"

record MultipathConfig =
  mc_Paths :: int

datatype mp_error = MpNegative int | MpTooMany int | MpNeedsPort addr_error | MpNotAPort | MpPastEnd int int

definition mpEnabled :: "MultipathConfig \<Rightarrow> bool" where "mpEnabled m \<longleftrightarrow> mc_Paths m > 1"

definition mpValidate :: "MultipathConfig \<Rightarrow> mp_error option" where
  "mpValidate m =
     (if mc_Paths m < 0 then Some (MpNegative (mc_Paths m))
      else if mc_Paths m > maxPaths then Some (MpTooMany (mc_Paths m)) else None)"

record 'a multipathCarrier =
  mp_paths :: nat
  mp_next :: u32
  mp_reported :: "'a option"
  mp_in :: "(bytes \<times> 'a option) list"
  mp_closed :: bool

text \<open>\<open>newMultipathCarrier\<close>: \<open>None\<close> is the single path, returned untouched.\<close>

definition newMultipathCarrier :: "nat \<Rightarrow> 'a option \<Rightarrow> 'a multipathCarrier option" where
  "newMultipathCarrier paths reported =
     (if paths = 1 then None
      else Some \<lparr>mp_paths = paths, mp_next = 0, mp_reported = reported, mp_in = [], mp_closed = False\<rparr>)"

text \<open>One datagram a path's pump read; \<open>False\<close> when the carrier is closed and the pump ends.\<close>

definition pump_step :: "'a multipathCarrier \<Rightarrow> bytes \<Rightarrow> 'a option \<Rightarrow> 'a multipathCarrier" where
  "pump_step c data addr =
     (if length (mp_in c) < pathQueue then c\<lparr>mp_in := mp_in c @ [(data, addr)]\<rparr> else c)"

text \<open>\<open>WriteTo\<close>: the path the datagram is written to.\<close>

definition mpWriteTo :: "'a multipathCarrier \<Rightarrow> 'a multipathCarrier \<times> nat" where
  "mpWriteTo c =
     (let c' = c\<lparr>mp_next := mp_next c + 1\<rparr>
      in (c', unat (mp_next c' - 1) mod mp_paths c))"

definition stableAddr :: "'a multipathCarrier \<Rightarrow> 'a option \<Rightarrow> 'a multipathCarrier \<times> 'a option" where
  "stableAddr c seen_addr =
     (let c' = (if mp_reported c = None then c\<lparr>mp_reported := seen_addr\<rparr> else c)
      in (c', mp_reported c'))"

definition mpReadFrom :: "'a multipathCarrier \<Rightarrow> nat \<Rightarrow> ('a multipathCarrier \<times> bytes \<times> 'a option) option" where
  "mpReadFrom c cap =
     (case mp_in c of
        [] \<Rightarrow> None
      | (data, addr) # rest \<Rightarrow>
          (case stableAddr (c\<lparr>mp_in := rest\<rparr>) addr of (c', a) \<Rightarrow> Some (c', take cap data, a)))"

definition pathAddr :: "string \<Rightarrow> int \<Rightarrow> mp_error + string" where
  "pathAddr base i =
     (case SplitHostPort base of
        Inl e \<Rightarrow> Inl (MpNeedsPort e)
      | Inr (host, portStr) \<Rightarrow>
          (case atoi portStr of
             None \<Rightarrow> Inl MpNotAPort
           | Some port \<Rightarrow>
               if port + i > 65535 then Inl (MpPastEnd (i + 1) port)
               else Inr (JoinHostPort host (itoa (port + i)))))"

section \<open>Runs\<close>

fun mp_writes :: "'a multipathCarrier \<Rightarrow> nat \<Rightarrow> nat list" where
  "mp_writes c 0 = []"
| "mp_writes c (Suc n) = (case mpWriteTo c of (c', p) \<Rightarrow> p # mp_writes c' n)"

datatype 'a mp_event = Arrives bytes "'a option" | Reads nat

fun mp_run :: "'a multipathCarrier \<Rightarrow> 'a mp_event list \<Rightarrow> 'a multipathCarrier \<times> 'a option list" where
  "mp_run c [] = (c, [])"
| "mp_run c (Arrives d a # es) = mp_run (pump_step c d a) es"
| "mp_run c (Reads cap # es) =
     (case mpReadFrom c cap of
        None \<Rightarrow> mp_run c es
      | Some (c', d, a) \<Rightarrow> (case mp_run c' es of (c'', as) \<Rightarrow> (c'', a # as)))"

section \<open>Lemmas\<close>

lemma mp_writes_nth:
  assumes "unat (mp_next c) + n \<le> 2 ^ 32" "0 < mp_paths c"
  shows "mp_writes c n = map (\<lambda>i. (unat (mp_next c) + i) mod mp_paths c) [0..<n]"
  using assms
proof (induction n arbitrary: c)
  case (Suc n)
  let ?c = "c\<lparr>mp_next := mp_next c + 1\<rparr>"
  have "n = 0 \<or> unat (mp_next ?c) = Suc (unat (mp_next c))"
    using Suc.prems(1) unat_inc_below[of "mp_next c"] by (cases n) auto
  moreover have "mp_writes ?c n = map (\<lambda>i. (unat (mp_next ?c) + i) mod mp_paths c) [0..<n]"
    if "unat (mp_next ?c) = Suc (unat (mp_next c))"
    using Suc.IH[of ?c] Suc.prems that by simp
  ultimately have "mp_writes ?c n = map (\<lambda>i. (unat (mp_next c) + i) mod mp_paths c) [1..<Suc n]"
    by (auto simp: map_Suc_upt[symmetric] simp del: map_Suc_upt upt_Suc)
  then show ?case by (simp add: mpWriteTo_def upt_conv_Cons del: upt_Suc)
qed simp

lemma window_of_residues:
  fixes a m :: nat
  assumes "0 < m"
  shows "set (map (\<lambda>i. (a + i) mod m) [0..<m]) = {..<m}"
proof -
  have le: "x = y" if "x \<le> y" "y < m" "(a + x) mod m = (a + y) mod m" for x y
  proof -
    have "m dvd (a + y) - (a + x)" using that by (metis add_le_cancel_left mod_eq_dvd_iff_nat)
    then show ?thesis using that(1,2) by (auto dest: dvd_imp_le)
  qed
  have "inj_on (\<lambda>i. (a + i) mod m) {..<m}"
  proof (rule inj_onI)
    fix x y assume "x \<in> {..<m}" "y \<in> {..<m}" "(a + x) mod m = (a + y) mod m"
    then show "x = y" using le[of x y] le[of y x] by (cases "x \<le> y") auto
  qed
  then have "(\<lambda>i. (a + i) mod m) ` {..<m} = {..<m}"
    using assms by (intro card_subset_eq) (auto simp: card_image)
  then show ?thesis by (auto simp: atLeast0LessThan)
qed

lemma pump_queue: "length (mp_in c) \<le> pathQueue \<Longrightarrow> length (mp_in (pump_step c d a)) \<le> pathQueue"
  by (simp add: pump_step_def)

lemma mpReadFrom_pinned:
  "mp_reported c = Some r \<Longrightarrow> mpReadFrom c cap = Some (c', d, a) \<Longrightarrow> a = Some r \<and> mp_reported c' = Some r"
  by (auto simp: mpReadFrom_def stableAddr_def Let_def split: list.splits)

lemma mp_run_pinned:
  assumes "mp_reported c = Some r" "mp_run c es = (c', as)"
  shows "set as \<subseteq> {Some r} \<and> mp_reported c' = Some r"
  using assms
proof (induction c es arbitrary: c' as rule: mp_run.induct)
  case (3 c cap es)
  show ?case
  proof (cases "mpReadFrom c cap")
    case None
    then show ?thesis using 3 by simp
  next
    case (Some x)
    obtain c1 d a where x: "x = (c1, d, a)" by (metis prod_cases3)
    obtain c2 bs where r: "mp_run c1 es = (c2, bs)" by fastforce
    note p = mpReadFrom_pinned[OF 3(3) Some[unfolded x]]
    have "set bs \<subseteq> {Some r} \<and> mp_reported c2 = Some r"
      using 3(2)[OF Some x[symmetric] refl] p r by blast
    then show ?thesis using 3(4) Some x r p by auto
  qed
next
  case (2 c d a es)
  have "mp_reported (pump_step c d a) = Some r" using 2(2) by (simp add: pump_step_def)
  then show ?case using 2(1,3) by simp
qed simp

lemma mp_run_queue:
  assumes "length (mp_in c) \<le> pathQueue" "mp_run c es = (c', as)"
  shows "length (mp_in c') \<le> pathQueue"
  using assms
proof (induction c es arbitrary: c' as rule: mp_run.induct)
  case (3 c cap es)
  then show ?case
    by (fastforce simp: mpReadFrom_def stableAddr_def Let_def split: list.splits prod.splits if_splits)
qed (auto simp: pump_queue)

section \<open>Properties\<close>

text \<open>Writes go round the paths evenly: any run of as many writes as there are paths, short of the
  counter's wrap, uses every path exactly once.\<close>
theorem multipath_even:
  assumes "0 < mp_paths c" "unat (mp_next c) + mp_paths c \<le> 2 ^ 32"
  shows "distinct (mp_writes c (mp_paths c)) \<and> set (mp_writes c (mp_paths c)) = {..<mp_paths c}"
proof -
  have w: "mp_writes c (mp_paths c) = map (\<lambda>i. (unat (mp_next c) + i) mod mp_paths c) [0..<mp_paths c]"
    using mp_writes_nth[OF assms(2,1)] .
  have s: "set (mp_writes c (mp_paths c)) = {..<mp_paths c}"
    unfolding w by (rule window_of_residues[OF assms(1)])
  moreover have "length (mp_writes c (mp_paths c)) = mp_paths c" by (simp add: w)
  ultimately show ?thesis by (metis card_distinct card_lessThan)
qed

theorem multipath_even_witness:
  "set (mp_writes \<lparr>mp_paths = 3, mp_next = 7, mp_reported = None :: nat option, mp_in = [], mp_closed = False\<rparr> 3) = {..<3}"
  using multipath_even[of "\<lparr>mp_paths = 3, mp_next = 7, mp_reported = None :: nat option, mp_in = [], mp_closed = False\<rparr>"]
  by simp

text \<open>One peer is reported for the life of the carrier: whatever the paths deliver, every read after
  an address is pinned reports that address, and at most 1024 datagrams ever wait.\<close>
theorem multipath_peer_pinned:
  assumes "mp_reported c = Some r" "length (mp_in c) \<le> pathQueue" "mp_run c es = (c', as)"
  shows "set as \<subseteq> {Some r} \<and> mp_reported c' = Some r \<and> length (mp_in c') \<le> 1024"
  using mp_run_pinned[OF assms(1,3)] mp_run_queue[OF assms(2,3)] by (simp add: pathQueue_def)

theorem multipath_peer_pinned_witness:
  "(let c = \<lparr>mp_paths = 3, mp_next = 0, mp_reported = Some (5 :: nat), mp_in = [], mp_closed = False\<rparr>;
        es = [Arrives [1] (Some 7), Reads 9, Arrives [2] (Some 8), Reads 9]
    in snd (mp_run c es) = [Some 5, Some 5])"
proof -
  let ?c = "\<lparr>mp_paths = 3, mp_next = 0, mp_reported = Some (5 :: nat), mp_in = [], mp_closed = False\<rparr>"
  have r: "mp_run ?c [Arrives [1] (Some 7), Reads 9, Arrives [2] (Some 8), Reads 9] = (?c, [Some 5, Some 5])"
    by (simp add: pump_step_def pathQueue_def mpReadFrom_def stableAddr_def)
  show ?thesis using multipath_peer_pinned[OF _ _ r] unfolding Let_def r by simp
qed

text \<open>Both ends derive the same ports: path \<open>i\<close> of an address is the same host with the port moved on
  by \<open>i\<close>, and it is refused exactly when that runs past 65535.\<close>
theorem path_ports:
  assumes "CHR ''['' \<notin> set host" "CHR '']'' \<notin> set host" "0 \<le> port" "port \<le> 65535" "0 \<le> i"
  shows "(if port + i \<le> 65535
          then \<exists>a. pathAddr (JoinHostPort host (itoa port)) i = Inr a \<and> SplitHostPort a = Inr (host, itoa (port + i))
          else pathAddr (JoinHostPort host (itoa port)) i = Inl (MpPastEnd (i + 1) port))"
proof -
  have sp: "SplitHostPort (JoinHostPort host (itoa p)) = Inr (host, itoa p)" if "0 \<le> p" for p
    using that assms(1,2) format_nat_plain[of "nat p"] by (intro SplitHostPort_JoinHostPort) (auto simp: itoa_def)
  then show ?thesis using assms(3-5) sp[of "port + i"] by (auto simp: pathAddr_def)
qed

theorem path_ports_witness:
  "\<exists>a. pathAddr (JoinHostPort ''::1'' (itoa 9000)) 3 = Inr a \<and> SplitHostPort a = Inr (''::1'', itoa 9003)"
  using path_ports[of "''::1''" 9000 3] by simp

end
