(* ===== verification/Portmap.thy ===== *)
theory Portmap
  imports Prelude
begin

text \<open>
  The forwarded-port syntax, \<open>src/internal/tunnel/portmap/portmap.go\<close>: parsing of one endpoint, and the
  expansion of the configured mappings into listeners and targets. Strings are lists of bytes, as
  in the source; every error the code returns is a value.
\<close>

section \<open>Definitions\<close>

definition MaxPortsPerMapping :: int where "MaxPortsPerMapping = 1024"
definition MaxExpandedPorts :: nat where "MaxExpandedPorts = 4096"

record Mapping =
  mp_Listen :: string
  mp_Targets :: "string list"

record portRange =
  pr_host :: string
  pr_lo :: int
  pr_hi :: int
  pr_hasHost :: bool
  pr_explicit :: bool

datatype portmap_error = EmptyEndpoint | NotBracketed string | LooksIPv6 string | NotAPort string
  | EndsBeforeStart string | RangeTooLong string | RangeWithBackends string | BackendIsRange string
  | CountMismatch string int int | NoHost | TooManyExpanded | InMapping string portmap_error

definition rangeCount :: "portRange \<Rightarrow> int" where "rangeCount r = pr_hi r - pr_lo r + 1"

definition parsePort :: "string \<Rightarrow> portmap_error + int" where
  "parsePort s =
     (case atoi (TrimSpace s) of
        None \<Rightarrow> Inl (NotAPort s)
      | Some n \<Rightarrow> if n < 1 \<or> n > 65535 then Inl (NotAPort s) else Inr n)"

definition parsePortSpan :: "string \<Rightarrow> portmap_error + int \<times> int" where
  "parsePortSpan text =
     (case cut ''-'' text of
        None \<Rightarrow>
          (case parsePort text of Inl e \<Rightarrow> Inl e | Inr start \<Rightarrow> Inr (start, start))
      | Some (lo, hi) \<Rightarrow>
          (case parsePort lo of
             Inl e \<Rightarrow> Inl e
           | Inr start \<Rightarrow>
               (case parsePort hi of
                  Inl e \<Rightarrow> Inl e
                | Inr e \<Rightarrow>
                    if e < start then Inl (EndsBeforeStart text)
                    else if e - start + 1 > MaxPortsPerMapping then Inl (RangeTooLong text)
                    else Inr (start, e))))"

text \<open>Where the host ends: the bracketed form, then the single colon, then no host.\<close>

definition splitEndpoint :: "string \<Rightarrow> portmap_error + string \<times> string" where
  "splitEndpoint text =
     (if prefix ''['' text then
        (case index_of (CHR '']'') text of
           None \<Rightarrow> Inl (NotBracketed text)
         | Some e \<Rightarrow>
             if e + 1 \<ge> length text then Inl (NotBracketed text)
             else if text ! (e + 1) \<noteq> CHR '':'' then Inl (NotBracketed text)
             else Inr (take (e - 1) (drop 1 text), drop (e + 2) text))
      else
        (case last_index_of (CHR '':'') text of
           None \<Rightarrow> Inr ([], text)
         | Some i \<Rightarrow>
             if length (filter (\<lambda>c. c = CHR '':'') text) > 1 then Inl (LooksIPv6 text)
             else Inr (take i text, drop (i + 1) text)))"

definition parsePortRange :: "string \<Rightarrow> portmap_error + portRange" where
  "parsePortRange text0 =
     (let text = TrimSpace text0 in
      if text = [] then Inl EmptyEndpoint
      else case splitEndpoint text of
             Inl e \<Rightarrow> Inl e
           | Inr (host, ports) \<Rightarrow>
               (case parsePortSpan ports of
                  Inl e \<Rightarrow> Inl e
                | Inr (lo, hi) \<Rightarrow>
                    Inr \<lparr>pr_host = host, pr_lo = lo, pr_hi = hi, pr_hasHost = (host \<noteq> []),
                         pr_explicit = (host \<noteq> [] \<or> CHR '':'' \<in> set text)\<rparr>))"

definition listenAddr :: "portRange \<Rightarrow> int \<Rightarrow> string" where
  "listenAddr r port = (if pr_hasHost r then JoinHostPort (pr_host r) (itoa port) else '':'' @ itoa port)"

definition targetAddr :: "portRange \<Rightarrow> int \<Rightarrow> string \<Rightarrow> portmap_error + string" where
  "targetAddr r port defaultHost =
     (if pr_host r = [] then
        if defaultHost = [] then Inl NoHost else Inr (JoinHostPort defaultHost (itoa port))
      else Inr (JoinHostPort (pr_host r) (itoa port)))"

text \<open>The backends of a mapping that has several.\<close>

fun expand_backends :: "string \<Rightarrow> string \<Rightarrow> string list \<Rightarrow> portmap_error + string list" where
  "expand_backends spec defaultHost [] = Inr []"
| "expand_backends spec defaultHost (alt # alts) =
     (case parsePortRange alt of
        Inl e \<Rightarrow> Inl (InMapping spec e)
      | Inr r \<Rightarrow>
          if rangeCount r > 1 then Inl (BackendIsRange spec)
          else case targetAddr r (pr_lo r) defaultHost of
                 Inl e \<Rightarrow> Inl (InMapping spec e)
               | Inr addr \<Rightarrow>
                   (case expand_backends spec defaultHost alts of
                      Inl e \<Rightarrow> Inl e
                    | Inr rest \<Rightarrow> Inr (addr # rest)))"

text \<open>The loop over a range, from offset \<open>i\<close> with \<open>n\<close> ports to go.\<close>

fun expand_range :: "string \<Rightarrow> string \<Rightarrow> portRange \<Rightarrow> portRange \<Rightarrow> int \<Rightarrow> nat \<Rightarrow> portmap_error + Mapping list" where
  "expand_range spec defaultHost listen to i 0 = Inr []"
| "expand_range spec defaultHost listen to i (Suc n) =
     (let port = (if rangeCount to > 1 then pr_lo to + i else pr_lo to) in
      case targetAddr to port defaultHost of
        Inl e \<Rightarrow> Inl (InMapping spec e)
      | Inr addr \<Rightarrow>
          (case expand_range spec defaultHost listen to (i + 1) n of
             Inl e \<Rightarrow> Inl e
           | Inr rest \<Rightarrow> Inr (\<lparr>mp_Listen = listenAddr listen (pr_lo listen + i), mp_Targets = [addr]\<rparr> # rest)))"

definition expandOne :: "string \<Rightarrow> portRange \<Rightarrow> string \<Rightarrow> string \<Rightarrow> portmap_error + Mapping list" where
  "expandOne spec listen target defaultHost =
     (let alternatives = split_on (CHR ''|'') target in
      if length alternatives > 1 \<and> rangeCount listen > 1 then Inl (RangeWithBackends spec)
      else if length alternatives > 1 then
        (case expand_backends spec defaultHost alternatives of
           Inl e \<Rightarrow> Inl e
         | Inr targets \<Rightarrow> Inr [\<lparr>mp_Listen = listenAddr listen (pr_lo listen), mp_Targets = targets\<rparr>])
      else
        (case parsePortRange target of
           Inl e \<Rightarrow> Inl (InMapping spec e)
         | Inr to \<Rightarrow>
             if rangeCount to > 1 \<and> rangeCount to \<noteq> rangeCount listen then Inl (CountMismatch spec (rangeCount listen) (rangeCount to))
             else expand_range spec defaultHost listen to 0 (nat (rangeCount listen))))"

definition expand_spec :: "string \<Rightarrow> string \<Rightarrow> portmap_error + Mapping list" where
  "expand_spec defaultHost spec =
     (let (left, right) = (case cut ''='' spec of None \<Rightarrow> (spec, None) | Some (l, r) \<Rightarrow> (l, Some r)) in
      case parsePortRange left of
        Inl e \<Rightarrow> Inl (InMapping spec e)
      | Inr listen \<Rightarrow>
          expandOne spec listen
            (case right of
               Some r \<Rightarrow> r
             | None \<Rightarrow> if rangeCount listen > 1 then itoa (pr_lo listen) @ ''-'' @ itoa (pr_hi listen) else itoa (pr_lo listen))
            defaultHost)"

fun expand_from :: "string \<Rightarrow> string list \<Rightarrow> Mapping list \<Rightarrow> portmap_error + Mapping list" where
  "expand_from defaultHost [] out = Inr out"
| "expand_from defaultHost (spec0 # specs) out =
     (let spec = TrimSpace spec0 in
      if spec = [] then expand_from defaultHost specs out
      else case expand_spec defaultHost spec of
             Inl e \<Rightarrow> Inl e
           | Inr ms \<Rightarrow>
               if length (out @ ms) > MaxExpandedPorts then Inl TooManyExpanded
               else expand_from defaultHost specs (out @ ms))"

definition Expand :: "string list \<Rightarrow> string \<Rightarrow> portmap_error + Mapping list" where
  "Expand specs defaultHost = expand_from defaultHost specs []"

section \<open>Specification\<close>

text \<open>What an endpoint may denote: a span of ports, in range, of bounded length.\<close>

definition span_ok :: "int \<Rightarrow> int \<Rightarrow> bool" where
  "span_ok lo hi \<longleftrightarrow> 1 \<le> lo \<and> lo \<le> hi \<and> hi \<le> 65535 \<and> hi - lo + 1 \<le> MaxPortsPerMapping"

text \<open>An address somebody can bind or dial: a host, then a port that is one.\<close>

definition endpoint_ok :: "string \<Rightarrow> bool" where
  "endpoint_ok a \<longleftrightarrow> (\<exists>host port. 1 \<le> port \<and> port \<le> 65535 \<and> (a = JoinHostPort host (itoa port)))"

definition mapping_ok :: "Mapping \<Rightarrow> bool" where
  "mapping_ok m \<longleftrightarrow> endpoint_ok (mp_Listen m) \<and> mp_Targets m \<noteq> [] \<and>
     (\<forall>a \<in> set (mp_Targets m). \<exists>host port. host \<noteq> [] \<and> 1 \<le> port \<and> port \<le> 65535 \<and> a = JoinHostPort host (itoa port))"

section \<open>Lemmas\<close>

lemma parsePort_range: "parsePort s = Inr n \<Longrightarrow> 1 \<le> n \<and> n \<le> 65535"
  by (auto simp: parsePort_def split: option.splits if_splits)

lemma parsePortSpan_ok: "parsePortSpan text = Inr (lo, hi) \<Longrightarrow> span_ok lo hi"
  by (auto simp: parsePortSpan_def span_ok_def MaxPortsPerMapping_def dest: parsePort_range
      split: option.splits sum.splits if_splits)

lemma parsePortRange_ok:
  assumes "parsePortRange text = Inr r"
  shows "span_ok (pr_lo r) (pr_hi r)" "pr_hasHost r = (pr_host r \<noteq> [])"
proof -
  obtain ports lo hi where p: "parsePortSpan ports = Inr (lo, hi)" "pr_lo r = lo" "pr_hi r = hi"
    using assms by (auto simp: parsePortRange_def Let_def split: sum.splits if_splits)
  show "span_ok (pr_lo r) (pr_hi r)" using parsePortSpan_ok[OF p(1)] p(2,3) by simp
  show "pr_hasHost r = (pr_host r \<noteq> [])"
    using assms by (auto simp: parsePortRange_def Let_def split: sum.splits if_splits)
qed

lemma listenAddr_ok: "1 \<le> port \<Longrightarrow> port \<le> 65535 \<Longrightarrow> endpoint_ok (listenAddr r port)"
  unfolding endpoint_ok_def
  by (rule exI[of _ "if pr_hasHost r then pr_host r else []"], rule exI[of _ port])
    (simp add: listenAddr_def JoinHostPort_def)

lemma targetAddr_ok:
  assumes "targetAddr r port d = Inr a"
  shows "\<exists>host. host \<noteq> [] \<and> a = JoinHostPort host (itoa port)"
  using assms by (auto simp: targetAddr_def split: if_splits)

lemma expand_backends_ok:
  assumes "expand_backends spec d alts = Inr ts"
  shows "length ts = length alts \<and>
    (\<forall>a \<in> set ts. \<exists>host port. host \<noteq> [] \<and> 1 \<le> port \<and> port \<le> 65535 \<and> a = JoinHostPort host (itoa port))"
  using assms
proof (induction alts arbitrary: ts)
  case (Cons alt alts)
  then obtain r a rest where r: "parsePortRange alt = Inr r" "targetAddr r (pr_lo r) d = Inr a"
    "expand_backends spec d alts = Inr rest" "ts = a # rest"
    by (auto split: sum.splits if_splits)
  have "1 \<le> pr_lo r \<and> pr_lo r \<le> 65535" using parsePortRange_ok(1)[OF r(1)] by (simp add: span_ok_def)
  then show ?case using Cons.IH[OF r(3)] targetAddr_ok[OF r(2)] r(4) by fastforce
qed simp

text \<open>A range expands to one listener per port, in order, each with the target at its offset.\<close>

lemma expand_range_eq:
  assumes "\<And>port. targetAddr to port d = Inr (tgt port)"
  shows "expand_range spec d listen to i n =
    Inr (map (\<lambda>j. \<lparr>mp_Listen = listenAddr listen (pr_lo listen + i + int j),
                   mp_Targets = [tgt (if rangeCount to > 1 then pr_lo to + i + int j else pr_lo to)]\<rparr>) [0..<n])"
proof (induction n arbitrary: i)
  case (Suc n)
  have "[0..<Suc n] = 0 # map Suc [0..<n]" by (simp add: map_Suc_upt upt_conv_Cons del: upt_Suc)
  then show ?case using assms Suc.IH[of "i + 1"] by (simp add: Let_def algebra_simps del: upt_Suc)
qed simp

lemma targetAddr_cases:
  obtains (err) "\<And>port. targetAddr r port d = Inl NoHost"
  | (tgt) host where "host \<noteq> []" "\<And>port. targetAddr r port d = Inr (JoinHostPort host (itoa port))"
  by (cases "pr_host r = []"; cases "d = []") (auto simp: targetAddr_def)

lemma expandOne_ok:
  assumes "expandOne spec listen target d = Inr ms" "span_ok (pr_lo listen) (pr_hi listen)"
  shows "int (length ms) = rangeCount listen \<and> (\<forall>m \<in> set ms. mapping_ok m)"
proof (cases "length (split_on (CHR ''|'') target) > 1")
  case True
  then obtain ts where ts: "expand_backends spec d (split_on (CHR ''|'') target) = Inr ts"
    "ms = [\<lparr>mp_Listen = listenAddr listen (pr_lo listen), mp_Targets = ts\<rparr>]" "\<not> rangeCount listen > 1"
    using assms(1) by (auto simp: expandOne_def Let_def split: sum.splits if_splits)
  then show ?thesis
    using expand_backends_ok[OF ts(1)] True assms(2) by (auto simp: mapping_ok_def span_ok_def rangeCount_def intro: listenAddr_ok)
next
  case False
  then obtain to where to: "parsePortRange target = Inr to" "\<not> (rangeCount to > 1 \<and> rangeCount to \<noteq> rangeCount listen)"
    "expand_range spec d listen to 0 (nat (rangeCount listen)) = Inr ms"
    using assms(1) by (auto simp: expandOne_def Let_def split: sum.splits if_splits)
  have sp: "span_ok (pr_lo to) (pr_hi to)" by (rule parsePortRange_ok(1)[OF to(1)])
  have pos: "0 < nat (rangeCount listen)" using assms(2) by (simp add: span_ok_def rangeCount_def)
  show ?thesis
  proof (cases to d rule: targetAddr_cases)
    case err
    then show ?thesis using to(3) pos by (cases "nat (rangeCount listen)") (auto simp: Let_def)
  next
    case (tgt host)
    have "mapping_ok m" if m: "m \<in> set ms" for m
    proof -
      obtain j where j: "j < nat (rangeCount listen)" "mp_Listen m = listenAddr listen (pr_lo listen + int j)"
        "mp_Targets m = [JoinHostPort host (itoa (if rangeCount to > 1 then pr_lo to + int j else pr_lo to))]"
        using m to(3) by (auto simp: expand_range_eq[OF tgt(2)])
      have "endpoint_ok (mp_Listen m)" using j(1,2) assms(2) by (auto simp: span_ok_def rangeCount_def intro!: listenAddr_ok)
      moreover define p where "p = (if rangeCount to > 1 then pr_lo to + int j else pr_lo to)"
      moreover have "1 \<le> p" "p \<le> 65535" using sp to(2) j(1) by (auto simp: p_def span_ok_def rangeCount_def)
      ultimately show ?thesis using tgt(1) j(3) unfolding mapping_ok_def by (auto intro!: exI[of _ host] exI[of _ p])
    qed
    moreover have "length ms = nat (rangeCount listen)" using to(3) by (auto simp: expand_range_eq[OF tgt(2)])
    ultimately show ?thesis using pos by auto
  qed
qed

lemma expand_spec_ok:
  assumes "expand_spec d spec = Inr ms"
  shows "\<forall>m \<in> set ms. mapping_ok m"
proof -
  obtain left listen right where l: "parsePortRange left = Inr listen" "expandOne spec listen right d = Inr ms"
    using assms by (auto simp: expand_spec_def Let_def split: sum.splits prod.splits)
  show ?thesis using expandOne_ok[OF l(2) parsePortRange_ok(1)[OF l(1)]] by blast
qed

lemma expand_from_ok:
  assumes "expand_from d specs out = Inr ms" "length out \<le> MaxExpandedPorts" "\<forall>m \<in> set out. mapping_ok m"
  shows "length ms \<le> MaxExpandedPorts \<and> (\<forall>m \<in> set ms. mapping_ok m)"
  using assms
proof (induction specs arbitrary: out)
  case (Cons spec specs)
  show ?case
  proof (cases "TrimSpace spec = []")
    case False
    then obtain ms' where e: "expand_spec d (TrimSpace spec) = Inr ms'" "length (out @ ms') \<le> MaxExpandedPorts"
      "expand_from d specs (out @ ms') = Inr ms"
      using Cons.prems(1) by (auto simp: Let_def not_less split: if_splits sum.splits)
    then show ?thesis using Cons.IH[OF e(3,2)] expand_spec_ok[OF e(1)] Cons.prems(3) by auto
  qed (use Cons in simp)
qed simp

text \<open>Parsing the decimal form of a range.\<close>

lemma itoa_nonneg: "0 \<le> i \<Longrightarrow> itoa i = format_nat (nat i)"
  by (simp add: itoa_def)

lemma format_nat_no: "\<not> is_digit c \<Longrightarrow> c \<notin> set (format_nat n)"
  using format_nat_digits[of n] by (auto simp: list_all_iff)

lemma parsePort_itoa: "1 \<le> n \<Longrightarrow> n \<le> 65535 \<Longrightarrow> parsePort (itoa n) = Inr n"
  using atoi_itoa[of n] format_nat_visible[of "nat n"] by (simp add: parsePort_def itoa_nonneg)

lemma parsePortRange_digits:
  assumes "text \<noteq> []" "list_all (\<lambda>c. is_digit c \<or> c = CHR ''-'') text" "parsePortSpan text = Inr (lo, hi)"
  shows "parsePortRange text = Inr \<lparr>pr_host = [], pr_lo = lo, pr_hi = hi, pr_hasHost = False, pr_explicit = False\<rparr>"
proof -
  have "list_all visible text" using assms(2) by (auto simp: list_all_iff is_digit_def visible_def)
  moreover have "CHR '':'' \<notin> set text" "\<not> prefix ''['' text"
    using assms(2) by (cases "text"; auto simp: list_all_iff is_digit_def)+
  moreover have "index_of x xs = None" if "x \<notin> set xs" for x xs using that by (induction xs) auto
  ultimately show ?thesis
    using assms(1,3) by (simp add: parsePortRange_def splitEndpoint_def last_index_of_def)
qed

lemma parsePortRange_span:
  assumes "span_ok lo hi" "lo < hi"
  shows "parsePortRange (itoa lo @ ''-'' @ itoa hi) =
    Inr \<lparr>pr_host = [], pr_lo = lo, pr_hi = hi, pr_hasHost = False, pr_explicit = False\<rparr>"
proof (rule parsePortRange_digits)
  have p: "1 \<le> lo" "hi \<le> 65535" "lo \<le> 65535" "1 \<le> hi" using assms by (auto simp: span_ok_def)
  then have d: "list_all is_digit (itoa lo)" "list_all is_digit (itoa hi)" by (simp_all add: itoa_nonneg)
  then show "list_all (\<lambda>c. is_digit c \<or> c = CHR ''-'') (itoa lo @ ''-'' @ itoa hi)" by (auto simp: list_all_iff)
  have "CHR ''-'' \<notin> set (itoa lo)" using d(1) by (auto simp: list_all_iff is_digit_def)
  then have "cut ''-'' (itoa lo @ ''-'' @ itoa hi) = Some (itoa lo, itoa hi)" using cut_append[of "CHR ''-''" _ "[]"] by simp
  then show "parsePortSpan (itoa lo @ ''-'' @ itoa hi) = Inr (lo, hi)"
    unfolding parsePortSpan_def using p assms by (simp add: parsePort_itoa span_ok_def)
qed simp

section \<open>Properties\<close>

text \<open>Whatever the configured mappings say, an expansion that succeeds is bounded and usable: at most
  \<open>MaxExpandedPorts\<close> listeners, each bound to a port between 1 and 65535 and with at least one target,
  every target a non-empty host with a port between 1 and 65535.\<close>
theorem portmap_expansion_ok:
  assumes "Expand specs defaultHost = Inr ms"
  shows "length ms \<le> MaxExpandedPorts \<and> (\<forall>m \<in> set ms. mapping_ok m)"
  using expand_from_ok[of defaultHost specs "[]"] assms by (simp add: Expand_def)

theorem portmap_expansion_ok_witness:
  "Expand [''7=9|b:8''] ''peer'' = Inr [\<lparr>mp_Listen = '':7'', mp_Targets = [''peer:9'', ''b:8'']\<rparr>] \<and>
   mapping_ok \<lparr>mp_Listen = '':7'', mp_Targets = [''peer:9'', ''b:8'']\<rparr>"
proof -
  have e: "Expand [''7=9|b:8''] ''peer'' =
    Inr [\<lparr>mp_Listen = '':7'', mp_Targets = [''peer:9'', ''b:8'']\<rparr>]" by code_simp
  show ?thesis using portmap_expansion_ok[OF e] e by simp
qed

text \<open>A range mapped to a range preserves the offset: the mapping written \<open>lo-hi=lo'-hi'\<close> with two spans
  of the same length expands to one listener per port on the left, in order, each forwarding to the
  port at the same offset on the right, on the default host.\<close>
theorem portmap_range_offset:
  assumes "span_ok lo hi" "lo < hi" "span_ok lo' (lo' + (hi - lo))" "defaultHost \<noteq> []"
  shows "Expand [itoa lo @ ''-'' @ itoa hi @ ''='' @ itoa lo' @ ''-'' @ itoa (lo' + (hi - lo))] defaultHost =
    Inr (map (\<lambda>j. \<lparr>mp_Listen = '':'' @ itoa (lo + int j), mp_Targets = [JoinHostPort defaultHost (itoa (lo' + int j))]\<rparr>)
           [0..<nat (hi - lo + 1)])"
proof -
  let ?hi' = "lo' + (hi - lo)"
  let ?l = "itoa lo @ ''-'' @ itoa hi" and ?r = "itoa lo' @ ''-'' @ itoa ?hi'"
  let ?L = "\<lparr>pr_host = [], pr_lo = lo, pr_hi = hi, pr_hasHost = False, pr_explicit = False\<rparr>"
  let ?R = "\<lparr>pr_host = [], pr_lo = lo', pr_hi = ?hi', pr_hasHost = False, pr_explicit = False\<rparr>"
  have pos: "0 \<le> lo" "0 \<le> hi" "0 \<le> lo'" "0 \<le> ?hi'" using assms by (auto simp: span_ok_def)
  have nd: "\<not> is_digit (CHR ''='')" "\<not> is_digit (CHR ''|'')" by (simp_all add: is_digit_def)
  have l: "parsePortRange ?l = Inr ?L" and r: "parsePortRange ?r = Inr ?R"
    using parsePortRange_span assms by (simp_all add: span_ok_def)
  have "CHR ''='' \<notin> set ?l" using pos nd by (simp add: itoa_nonneg format_nat_no)
  then have c: "cut ''='' (?l @ ''='' @ ?r) = Some (?l, ?r)" using cut_append[of "CHR ''=''" ?l "[]"] by simp
  have "CHR ''|'' \<notin> set ?r" using pos nd by (simp add: itoa_nonneg format_nat_no)
  then have b: "split_on (CHR ''|'') ?r = [?r]" by (rule split_on_none)
  have vis: "list_all visible (?l @ ''='' @ ?r)" using pos by (simp add: itoa_nonneg visible_def)
  have t: "\<And>port. targetAddr ?R port defaultHost = Inr (JoinHostPort defaultHost (itoa port))"
    using assms(4) by (simp add: targetAddr_def)
  have "expand_spec defaultHost (?l @ ''='' @ ?r) = expandOne (?l @ ''='' @ ?r) ?L ?r defaultHost"
    unfolding expand_spec_def c by (simp only: Let_def l prod.case option.case sum.case)
  also have "\<dots> = expand_range (?l @ ''='' @ ?r) defaultHost ?L ?R 0 (nat (rangeCount ?L))"
    unfolding expandOne_def Let_def b r using assms(2) by (simp add: rangeCount_def)
  also have "\<dots> = Inr (map (\<lambda>j. \<lparr>mp_Listen = '':'' @ itoa (lo + int j), mp_Targets = [JoinHostPort defaultHost (itoa (lo' + int j))]\<rparr>)
           [0..<nat (hi - lo + 1)])"
    unfolding expand_range_eq[OF t] using assms(2) by (simp add: rangeCount_def listenAddr_def)
  finally have "expand_spec defaultHost (TrimSpace (?l @ ''='' @ ?r)) = \<dots>" using TrimSpace_visible[OF vis] by simp
  moreover have "TrimSpace (?l @ ''='' @ ?r) \<noteq> []" using TrimSpace_visible[OF vis] by simp
  moreover have "\<not> 4096 < nat (hi - lo + 1)" using assms(1) by (simp add: span_ok_def MaxPortsPerMapping_def) linarith
  ultimately show ?thesis
    using assms(1) by (simp add: Expand_def Let_def span_ok_def MaxPortsPerMapping_def MaxExpandedPorts_def)
qed

theorem portmap_range_offset_witness:
  "Expand [itoa 10000 @ ''-'' @ itoa 10001 @ ''='' @ itoa 20000 @ ''-'' @ itoa (20000 + (10001 - 10000))] ''peer'' =
    Inr [\<lparr>mp_Listen = '':'' @ itoa 10000, mp_Targets = [JoinHostPort ''peer'' (itoa 20000)]\<rparr>,
         \<lparr>mp_Listen = '':'' @ itoa 10001, mp_Targets = [JoinHostPort ''peer'' (itoa 20001)]\<rparr>]"
  using portmap_range_offset[of 10000 10001 20000 "''peer''"]
  by (simp add: span_ok_def MaxPortsPerMapping_def upt_rec)

end
