(* ===== verification/MssClamp.thy ===== *)
theory MssClamp
  imports Prelude
begin

text \<open>
  The clamp on TCP segment sizes, \<open>src/internal/tunnel/mssclamp\<close>: the value, the rules, their command
  lines (\<open>mssclamp.go\<close>), and installing and removing them (\<open>apply_linux.go\<close>).

  The firewall is the \<open>iptables\<close> program, which the sources only run. It is an argument, \<open>run\<close>: the
  state it leaves and whether it exited successfully. What the code relies on is its documented
  behaviour, \<open>iptables_like\<close>: \<open>-A\<close> adds one copy of a rule or fails without effect, \<open>-D\<close> removes one copy
  and fails when there is none.
\<close>

section \<open>Definitions\<close>

definition mss_Off :: int where "mss_Off = - 1"
definition OverheadV4 :: int where "OverheadV4 = 40"
definition OverheadV6 :: int where "OverheadV6 = 60"

definition mss_For :: "int \<Rightarrow> int \<Rightarrow> int \<Rightarrow> int" where
  "mss_For configured mtu overhead = (if configured > 0 then configured else mtu - overhead)"

record Rule =
  ru_Cmd :: string
  ru_Table :: string
  ru_Chain :: string
  ru_Label :: string
  ru_MSS :: int
  ru_Spec :: "string list"

definition Args :: "Rule \<Rightarrow> string \<Rightarrow> string list" where
  "Args r verb = [''-t'', ru_Table r, verb, ru_Chain r] @ ru_Spec r"

definition mss_spec :: "string \<Rightarrow> string \<Rightarrow> int \<Rightarrow> string list" where
  "mss_spec kind iface mss =
     [''-o'', iface, ''-p'', ''tcp'', ''--tcp-flags'', ''SYN,RST'', ''SYN'',
      ''-m'', ''comment'', ''--comment'', ''backpack-'' @ kind @ ''-mss-'' @ iface,
      ''-j'', ''TCPMSS'', ''--set-mss'', itoa mss]"

definition families :: "(string \<times> string \<times> int) list" where
  "families = [(''iptables'', ''IPv4'', OverheadV4), (''ip6tables'', ''IPv6'', OverheadV6)]"

definition Rules :: "string \<Rightarrow> string \<Rightarrow> int \<Rightarrow> int \<Rightarrow> Rule list" where
  "Rules kind iface mtu configured =
     concat (map (\<lambda>(cmd, label, overhead).
       let mss = mss_For configured mtu overhead in
       if mss \<le> 0 then []
       else map (\<lambda>chain. \<lparr>ru_Cmd = cmd, ru_Table = ''mangle'', ru_Chain = chain, ru_Label = label,
                          ru_MSS = mss, ru_Spec = mss_spec kind iface mss\<rparr>) [''FORWARD'', ''OUTPUT'']) families)"

type_synonym 'f firewall = "'f \<Rightarrow> string \<Rightarrow> string list \<Rightarrow> 'f \<times> bool"

text \<open>\<open>sweep\<close>, with what is left of its bound.\<close>

fun sweep_from :: "'f firewall \<Rightarrow> Rule \<Rightarrow> nat \<Rightarrow> 'f \<Rightarrow> 'f" where
  "sweep_from run r 0 f = f"
| "sweep_from run r (Suc n) f =
     (case run f (ru_Cmd r) (Args r ''-D'') of
        (f', True) \<Rightarrow> sweep_from run r n f'
      | (f', False) \<Rightarrow> f')"

definition sweep :: "'f firewall \<Rightarrow> Rule \<Rightarrow> 'f \<Rightarrow> 'f" where
  "sweep run r f = sweep_from run r 1024 f"

definition apply_rule :: "'f firewall \<Rightarrow> Rule \<Rightarrow> 'f \<Rightarrow> 'f" where
  "apply_rule run r f = fst (run (sweep run r f) (ru_Cmd r) (Args r ''-A''))"

definition mss_Apply :: "'f firewall \<Rightarrow> string \<Rightarrow> string \<Rightarrow> int \<Rightarrow> int \<Rightarrow> 'f \<Rightarrow> 'f" where
  "mss_Apply run kind iface mtu configured f =
     (if configured = mss_Off then f
      else fold (apply_rule run) (Rules kind iface mtu configured) f)"

definition mss_Remove :: "'f firewall \<Rightarrow> string \<Rightarrow> string \<Rightarrow> int \<Rightarrow> int \<Rightarrow> 'f \<Rightarrow> 'f" where
  "mss_Remove run kind iface mtu configured f =
     (if configured = mss_Off then f
      else fold (sweep run) (Rules kind iface mtu configured) f)"

section \<open>Specification\<close>

type_synonym rule_key = "string \<times> string \<times> string \<times> string list"

definition key_of :: "Rule \<Rightarrow> rule_key" where
  "key_of r = (ru_Cmd r, ru_Table r, ru_Chain r, ru_Spec r)"

text \<open>\<open>copies f k\<close> is how often the rule is installed. \<open>adds\<close> says which rules the kernel supports.\<close>

definition iptables_like :: "'f firewall \<Rightarrow> ('f \<Rightarrow> rule_key \<Rightarrow> nat) \<Rightarrow> (rule_key \<Rightarrow> bool) \<Rightarrow> bool" where
  "iptables_like run copies adds \<longleftrightarrow>
     (\<forall>f cmd t c sp f' ok. run f cmd ([''-t'', t, ''-D'', c] @ sp) = (f', ok) \<longrightarrow>
        ok = (copies f (cmd, t, c, sp) > 0) \<and>
        copies f' = (copies f)((cmd, t, c, sp) := copies f (cmd, t, c, sp) - 1)) \<and>
     (\<forall>f cmd t c sp f' ok. run f cmd ([''-t'', t, ''-A'', c] @ sp) = (f', ok) \<longrightarrow>
        ok = adds (cmd, t, c, sp) \<and>
        copies f' = (if ok then (copies f)((cmd, t, c, sp) := Suc (copies f (cmd, t, c, sp))) else copies f))"

text \<open>A firewall that is a list of rules, for the witnesses.\<close>

fun demo_firewall :: "rule_key list firewall" where
  "demo_firewall f cmd (t # table # verb # chain # sp) =
     (if verb = ''-A'' then (f @ [(cmd, table, chain, sp)], True)
      else if verb = ''-D'' then (remove1 (cmd, table, chain, sp) f, (cmd, table, chain, sp) \<in> set f)
      else (f, False))"
| "demo_firewall f cmd _ = (f, False)"

section \<open>Lemmas\<close>

lemma demo_firewall_like: "iptables_like demo_firewall count_list (\<lambda>_. True)"
proof -
  have "count_list (remove1 k f) = (count_list f)(k := count_list f k - 1)" for k :: rule_key and f
    by (induction f) (auto simp: fun_eq_iff count_list_0_iff)
  moreover have "(k \<in> set f) = (0 < count_list f k)" for k :: rule_key and f
    by (simp add: count_list_0_iff flip: neq0_conv)
  ultimately show ?thesis by (auto simp: iptables_like_def fun_eq_iff)
qed

lemma delete_one:
  assumes "iptables_like run copies adds" "run f (ru_Cmd r) (Args r ''-D'') = (f', ok)"
  shows "ok = (copies f (key_of r) > 0)" "copies f' = (copies f)(key_of r := copies f (key_of r) - 1)"
  using assms unfolding iptables_like_def key_of_def Args_def by blast+

lemma add_one:
  assumes "iptables_like run copies adds" "run f (ru_Cmd r) (Args r ''-A'') = (f', ok)"
  shows "copies f' = (if adds (key_of r) then (copies f)(key_of r := Suc (copies f (key_of r))) else copies f)"
proof -
  have "ok = adds (key_of r) \<and> copies f' = (if ok then (copies f)(key_of r := Suc (copies f (key_of r))) else copies f)"
    using assms unfolding iptables_like_def key_of_def Args_def by blast
  then show ?thesis by simp
qed

lemma sweep_from_copies:
  assumes "iptables_like run copies adds"
  shows "copies (sweep_from run r n f) = (copies f)(key_of r := copies f (key_of r) - n)"
proof (induction n arbitrary: f)
  case (Suc n)
  obtain f' ok where r: "run f (ru_Cmd r) (Args r ''-D'') = (f', ok)" by fastforce
  show ?case
  proof (rule ext)
    fix k
    show "copies (sweep_from run r (Suc n) f) k = ((copies f)(key_of r := copies f (key_of r) - Suc n)) k"
      using delete_one[OF assms r] r Suc.IH[of f'] by (cases ok) auto
  qed
qed simp

lemma apply_rule_copies:
  assumes "iptables_like run copies adds" "copies f (key_of r) \<le> 1024"
  shows "copies (apply_rule run r f) = (copies f)(key_of r := if adds (key_of r) then 1 else 0)"
proof -
  obtain f' ok where r: "run (sweep run r f) (ru_Cmd r) (Args r ''-A'') = (f', ok)" by fastforce
  show ?thesis
    using add_one[OF assms(1) r] sweep_from_copies[OF assms(1), of r 1024 f] assms(2) r
    by (auto simp: apply_rule_def sweep_def)
qed

text \<open>Steps that each fix the count of one rule: afterwards every rule of the list has its count and no
  other rule has changed.\<close>

lemma fold_copies:
  assumes "\<And>r f. r \<in> set rs \<Longrightarrow> copies f (key_of r) \<le> (1024 :: nat) \<Longrightarrow> copies (g r f) = (copies f)(key_of r := v (key_of r))"
    and "\<And>r. r \<in> set rs \<Longrightarrow> copies f (key_of r) \<le> 1024" "\<And>k. v k \<le> 1024"
  shows "copies (fold g rs f) k = (if k \<in> key_of ` set rs then v k else copies f k)"
  using assms
proof (induction rs arbitrary: f)
  case (Cons r rs)
  have s: "copies (g r f) = (copies f)(key_of r := v (key_of r))" by (rule Cons.prems(1)) (simp_all add: Cons.prems(2))
  then have "copies (fold g rs (g r f)) k = (if k \<in> key_of ` set rs then v k else copies (g r f) k)"
    using Cons.prems by (intro Cons.IH) auto
  then show ?case using s by auto
qed simp

lemma Rules_MSS:
  assumes "r \<in> set (Rules kind iface mtu configured)"
  shows "0 < ru_MSS r" "ru_MSS r = mss_For configured mtu (if ru_Label r = ''IPv6'' then OverheadV6 else OverheadV4)"
  using assms by (auto simp: Rules_def families_def Let_def split: if_splits)

section \<open>Properties\<close>

text \<open>(C18) Installing the clamp leaves exactly one copy of each of its rules, however many copies (up to the
  sweep's bound) earlier processes left behind, and removing it leaves none; neither touches any other
  rule of the firewall. A rule the kernel does not support is left out.\<close>
theorem mss_apply_exact:
  assumes "iptables_like run copies adds" "configured \<noteq> mss_Off"
    and "\<And>r. r \<in> set (Rules kind iface mtu configured) \<Longrightarrow> copies f (key_of r) \<le> 1024"
  shows "copies (mss_Apply run kind iface mtu configured f) k =
      (if k \<in> key_of ` set (Rules kind iface mtu configured) then (if adds k then 1 else 0) else copies f k) \<and>
    copies (mss_Remove run kind iface mtu configured f) k =
      (if k \<in> key_of ` set (Rules kind iface mtu configured) then 0 else copies f k)"
proof (rule conjI)
  show "copies (mss_Apply run kind iface mtu configured f) k =
      (if k \<in> key_of ` set (Rules kind iface mtu configured) then (if adds k then 1 else 0) else copies f k)"
    using fold_copies[of "Rules kind iface mtu configured" copies "apply_rule run" "\<lambda>k. if adds k then 1 else 0" f k]
      apply_rule_copies[OF assms(1)] assms(2,3) by (simp add: mss_Apply_def)
  show "copies (mss_Remove run kind iface mtu configured f) k =
      (if k \<in> key_of ` set (Rules kind iface mtu configured) then 0 else copies f k)"
    using fold_copies[of "Rules kind iface mtu configured" copies "sweep run" "\<lambda>k. 0" f k]
      sweep_from_copies[OF assms(1), of _ 1024] assms(2,3) by (simp add: mss_Remove_def sweep_def)
qed

theorem mss_apply_exact_witness:
  "(let k = (''iptables'', ''mangle'', ''OUTPUT'', mss_spec ''l3'' ''bp0'' 1360)
    in count_list (mss_Apply demo_firewall ''l3'' ''bp0'' 1400 0 [k, k, k]) k = 1)"
proof -
  let ?k = "(''iptables'', ''mangle'', ''OUTPUT'', mss_spec ''l3'' ''bp0'' 1360)"
  have "?k \<in> key_of ` set (Rules ''l3'' ''bp0'' 1400 0)"
    by (simp add: Rules_def families_def mss_For_def OverheadV4_def OverheadV6_def key_of_def)
  moreover have "count_list [?k, ?k, ?k] q \<le> 1024" for q by simp
  ultimately show ?thesis
    using mss_apply_exact[OF demo_firewall_like, of 0 "''l3''" "''bp0''" 1400 "[?k, ?k, ?k]" ?k]
    unfolding Let_def by (simp add: mss_Off_def)
qed

end
