(* ===== verification/L3Config.thy ===== *)
theory L3Config
  imports Encap Fec Multipath Portmap MssClamp NetAddr
begin

text \<open>
  The layer-3 tunnel's configuration, \<open>src/internal/tunnel/l3/config.go\<close>, with the carrier names of
  \<open>carrier.go\<close>: the record, what \<open>Validate\<close> fills in and refuses, in its order, and \<open>MTUFor\<close>. Of the carrier
  settings only \<open>SpoofPeerIP\<close> is here; \<open>Validate\<close> reads no other. Error texts are not modelled, only
  which check refused.
\<close>

section \<open>Definitions\<close>

definition minMTU :: int where "minMTU = 576"
definition maxMTU :: int where "maxMTU = 9000"
definition defaultMTU :: int where "defaultMTU = 1400"
definition defaultTxQueueLen :: int where "defaultTxQueueLen = 4096"
definition defaultQdisc :: string where "defaultQdisc = ''fq_codel''"
definition defaultIfaceName :: string where "defaultIfaceName = ''bp0''"

definition MTUFor :: "int \<Rightarrow> int \<Rightarrow> int \<Rightarrow> int" where
  "MTUFor pathMTU carrierOverhead encapOverhead = pathMTU - carrierOverhead - int dataOverhead - encapOverhead"

definition CarrierUDP :: string where "CarrierUDP = ''udp''"
definition CarrierPck :: string where "CarrierPck = ''pck''"
definition CarrierXdi :: string where "CarrierXdi = ''xdi''"
definition CarrierSpoof :: string where "CarrierSpoof = ''spoof''"
definition CarrierQuic :: string where "CarrierQuic = ''quic''"
definition CarrierSNI :: string where "CarrierSNI = ''sni''"

definition knownCarrier :: "string \<Rightarrow> bool" where
  "knownCarrier name \<longleftrightarrow> name \<in> set [CarrierUDP, CarrierPck, CarrierXdi, CarrierSpoof, CarrierQuic, CarrierSNI]"

record Config =
  cfg_Mode :: string
  cfg_Addr :: string
  cfg_Token :: string
  cfg_Carrier :: string
  cfg_Encap :: string
  cfg_GREKey :: u32
  cfg_Iface :: string
  cfg_LocalIP :: string
  cfg_PeerIP :: string
  cfg_MTU :: int
  cfg_SockBuf :: int
  cfg_FEC :: FECConfig
  cfg_Multipath :: MultipathConfig
  cfg_TxQueueLen :: int
  cfg_Qdisc :: string
  cfg_AutoMTU :: bool
  cfg_MSSClamp :: int
  cfg_Ports :: "string list"
  cfg_AcceptUDP :: bool
  cfg_MaxConnections :: int
  cfg_BandwidthMbps :: int
  cfg_SpoofPeerIP :: string

datatype config_error = ModeRequired | UnknownMode string | AddrRequired | AddrNotHostPort addr_error | TokenRequired
  | BadEncap encap_error | UnknownCarrier string | SpoofNeedsPeer | BadFEC fec_error | BadMultipath mp_error
  | PathsNeedUDP string | AddrMissing string | AddrHasPrefix string | BadCIDR string | BadIP string
  | NoPrefixNoPeer string | TxQueueAbsurd int | MTUOutside int | MSSTooLarge int | MSSNotASize int | BadPorts portmap_error

definition validateTunnelAddr :: "string \<Rightarrow> string \<Rightarrow> bool \<Rightarrow> config_error option" where
  "validateTunnelAddr field value0 allowPrefix =
     (let value = TrimSpace value0 in
      if value = [] then Some (AddrMissing field)
      else if CHR ''/'' \<in> set value then
        if \<not> allowPrefix then Some (AddrHasPrefix field)
        else if ParseCIDR value = None then Some (BadCIDR field)
        else None
      else if ParseIP value = None then Some (BadIP field)
      else None)"

definition validate_endpoint :: "Config \<Rightarrow> config_error + Config" where
  "validate_endpoint c0 =
     (let c = c0\<lparr>cfg_Mode := ToLower (TrimSpace (cfg_Mode c0))\<rparr> in
      if cfg_Mode c = [] then Inl ModeRequired
      else if cfg_Mode c \<noteq> ''dial'' \<and> cfg_Mode c \<noteq> ''listen'' then Inl (UnknownMode (cfg_Mode c))
      else if TrimSpace (cfg_Addr c) = [] then Inl AddrRequired
      else case SplitHostPort (cfg_Addr c) of
             Inl e \<Rightarrow> Inl (AddrNotHostPort e)
           | Inr _ \<Rightarrow> refuse_if (TrimSpace (cfg_Token c) = []) TokenRequired c)"

definition validate_carrier :: "Config \<Rightarrow> config_error + Config" where
  "validate_carrier c0 =
     (case NewEncap (cfg_Encap c0) (cfg_GREKey c0) of
        Inl e \<Rightarrow> Inl (BadEncap e)
      | Inr _ \<Rightarrow>
          let carrier = ToLower (TrimSpace (cfg_Carrier c0));
              c = c0\<lparr>cfg_Encap := ''gre'', cfg_Carrier := (if carrier = [] then CarrierUDP else carrier)\<rparr>
          in if \<not> knownCarrier (cfg_Carrier c) then Inl (UnknownCarrier (cfg_Carrier c))
             else refuse_if (cfg_Carrier c = CarrierSpoof \<and> cfg_Mode c = ''listen'' \<and> cfg_SpoofPeerIP c = []) SpoofNeedsPeer c)"

definition validate_layers :: "Config \<Rightarrow> config_error + Config" where
  "validate_layers c =
     and_then (refuse_on (fecValidate (cfg_FEC c)) BadFEC c) (\<lambda>c.
     and_then (refuse_on (mpValidate (cfg_Multipath c)) BadMultipath c) (\<lambda>c.
     refuse_if (mpEnabled (cfg_Multipath c) \<and> cfg_Carrier c \<noteq> CarrierUDP) (PathsNeedUDP (cfg_Carrier c)) c))"

definition validate_addresses :: "Config \<Rightarrow> config_error + Config" where
  "validate_addresses c0 =
     (let c = c0\<lparr>cfg_Iface := (if cfg_Iface c0 = [] then defaultIfaceName else cfg_Iface c0)\<rparr> in
     and_then (refuse_on (validateTunnelAddr ''local_ip'' (cfg_LocalIP c) True) id c) (\<lambda>c.
     and_then (if cfg_PeerIP c \<noteq> [] then refuse_on (validateTunnelAddr ''peer_ip'' (cfg_PeerIP c) False) id c else Inr c) (\<lambda>c.
     refuse_if (CHR ''/'' \<notin> set (cfg_LocalIP c) \<and> cfg_PeerIP c = []) (NoPrefixNoPeer (cfg_LocalIP c)) c)))"

definition validate_sizes :: "Config \<Rightarrow> config_error + Config" where
  "validate_sizes c0 =
     (let c1 = c0\<lparr>cfg_TxQueueLen := (if cfg_TxQueueLen c0 \<le> 0 then defaultTxQueueLen else cfg_TxQueueLen c0)\<rparr> in
      if cfg_TxQueueLen c1 > 2 ^ 20 then Inl (TxQueueAbsurd (cfg_TxQueueLen c1))
      else
        let c2 = c1\<lparr>cfg_Qdisc := (if cfg_Qdisc c1 = [] then defaultQdisc else cfg_Qdisc c1),
                     cfg_MTU := (if cfg_MTU c1 = 0 then defaultMTU else cfg_MTU c1)\<rparr>
        in if cfg_MTU c2 < minMTU \<or> cfg_MTU c2 > maxMTU then Inl (MTUOutside (cfg_MTU c2))
           else if cfg_MSSClamp c2 > 0 \<and> cfg_MSSClamp c2 > cfg_MTU c2 - OverheadV4 then Inl (MSSTooLarge (cfg_MSSClamp c2))
           else refuse_if (cfg_MSSClamp c2 < 0 \<and> cfg_MSSClamp c2 \<noteq> mss_Off) (MSSNotASize (cfg_MSSClamp c2)) c2)"

definition validate_ports :: "Config \<Rightarrow> config_error + Config" where
  "validate_ports c =
     (if cfg_Ports c = [] then Inr c
      else refuse_on (error_of (Expand (cfg_Ports c) (cfg_PeerIP c))) BadPorts c)"

definition Validate :: "Config \<Rightarrow> config_error + Config" where
  "Validate c =
     and_then (validate_endpoint c) (\<lambda>c. and_then (validate_carrier c) (\<lambda>c. and_then (validate_layers c) (\<lambda>c.
     and_then (validate_addresses c) (\<lambda>c. and_then (validate_sizes c) validate_ports))))"

section \<open>Specification\<close>

text \<open>What everything downstream of \<open>Validate\<close> relies on.\<close>

definition config_ok :: "Config \<Rightarrow> bool" where
  "config_ok c \<longleftrightarrow>
     cfg_Mode c \<in> {''dial'', ''listen''} \<and> TrimSpace (cfg_Addr c) \<noteq> [] \<and> (\<exists>hp. SplitHostPort (cfg_Addr c) = Inr hp) \<and> TrimSpace (cfg_Token c) \<noteq> [] \<and>
     cfg_Encap c = ''gre'' \<and> knownCarrier (cfg_Carrier c) \<and>
     (cfg_Carrier c = CarrierSpoof \<and> cfg_Mode c = ''listen'' \<longrightarrow> cfg_SpoofPeerIP c \<noteq> []) \<and>
     fecValidate (cfg_FEC c) = None \<and> mpValidate (cfg_Multipath c) = None \<and>
     (mpEnabled (cfg_Multipath c) \<longrightarrow> cfg_Carrier c = CarrierUDP) \<and> cfg_Iface c \<noteq> [] \<and>
     validateTunnelAddr ''local_ip'' (cfg_LocalIP c) True = None \<and>
     (cfg_PeerIP c \<noteq> [] \<longrightarrow> validateTunnelAddr ''peer_ip'' (cfg_PeerIP c) False = None) \<and>
     (CHR ''/'' \<in> set (cfg_LocalIP c) \<or> cfg_PeerIP c \<noteq> []) \<and>
     0 < cfg_TxQueueLen c \<and> cfg_TxQueueLen c \<le> 2 ^ 20 \<and> cfg_Qdisc c \<noteq> [] \<and>
     minMTU \<le> cfg_MTU c \<and> cfg_MTU c \<le> maxMTU \<and>
     (cfg_MSSClamp c = mss_Off \<or> 0 \<le> cfg_MSSClamp c \<and> cfg_MSSClamp c \<le> cfg_MTU c - OverheadV4) \<and>
     (cfg_Ports c = [] \<or> (\<exists>ms. Expand (cfg_Ports c) (cfg_PeerIP c) = Inr ms))"

section \<open>Lemmas\<close>

lemma knownCarrier_normal: "knownCarrier name \<Longrightarrow> ToLower (TrimSpace name) = name \<and> name \<noteq> []"
  by (auto simp: knownCarrier_def CarrierUDP_def CarrierPck_def CarrierXdi_def CarrierSpoof_def CarrierQuic_def CarrierSNI_def
      visible_def lower_char_def)

text \<open>What each group of checks establishes, and what it leaves alone.\<close>

lemma endpoint_effect:
  assumes "validate_endpoint c = Inr c'"
  shows "\<exists>m. c' = c\<lparr>cfg_Mode := m\<rparr> \<and> m \<in> {''dial'', ''listen''}" "\<exists>hp. SplitHostPort (cfg_Addr c) = Inr hp"
    "TrimSpace (cfg_Token c) \<noteq> []" "TrimSpace (cfg_Addr c) \<noteq> []"
  using assms by (auto simp: validate_endpoint_def Let_def check_simps split: if_splits sum.splits)

lemma carrier_effect:
  assumes "validate_carrier c = Inr c'"
  shows "\<exists>k. c' = c\<lparr>cfg_Encap := ''gre'', cfg_Carrier := k\<rparr> \<and> knownCarrier k \<and>
    \<not> (k = CarrierSpoof \<and> cfg_Mode c = ''listen'' \<and> cfg_SpoofPeerIP c = [])"
  using assms by (auto simp: validate_carrier_def Let_def check_simps split: if_splits sum.splits)

lemma layers_effect:
  "validate_layers c = Inr c' \<longleftrightarrow> c' = c \<and> fecValidate (cfg_FEC c) = None \<and> mpValidate (cfg_Multipath c) = None \<and>
     (mpEnabled (cfg_Multipath c) \<longrightarrow> cfg_Carrier c = CarrierUDP)"
  by (auto simp: validate_layers_def check_simps)

lemma addresses_effect:
  "validate_addresses c = Inr c' \<longleftrightarrow> c' = c\<lparr>cfg_Iface := if cfg_Iface c = [] then defaultIfaceName else cfg_Iface c\<rparr> \<and>
     validateTunnelAddr ''local_ip'' (cfg_LocalIP c) True = None \<and>
     (cfg_PeerIP c \<noteq> [] \<longrightarrow> validateTunnelAddr ''peer_ip'' (cfg_PeerIP c) False = None) \<and>
     (CHR ''/'' \<in> set (cfg_LocalIP c) \<or> cfg_PeerIP c \<noteq> [])"
  by (auto simp: validate_addresses_def Let_def check_simps split: if_splits)

lemma sizes_eq:
  assumes "q = (if cfg_TxQueueLen c \<le> 0 then defaultTxQueueLen else cfg_TxQueueLen c)"
    and "d = (if cfg_Qdisc c = [] then defaultQdisc else cfg_Qdisc c)"
    and "m = (if cfg_MTU c = 0 then defaultMTU else cfg_MTU c)"
  shows "validate_sizes c =
    (if q > 2 ^ 20 then Inl (TxQueueAbsurd q)
     else if m < minMTU \<or> m > maxMTU then Inl (MTUOutside m)
     else if cfg_MSSClamp c > 0 \<and> cfg_MSSClamp c > m - OverheadV4 then Inl (MSSTooLarge (cfg_MSSClamp c))
     else refuse_if (cfg_MSSClamp c < 0 \<and> cfg_MSSClamp c \<noteq> mss_Off) (MSSNotASize (cfg_MSSClamp c))
       (c\<lparr>cfg_TxQueueLen := q, cfg_Qdisc := d, cfg_MTU := m\<rparr>))"
  unfolding validate_sizes_def Let_def assms by simp

lemma sizes_effect:
  assumes "validate_sizes c = Inr c'"
  shows "\<exists>q d m. c' = c\<lparr>cfg_TxQueueLen := q, cfg_Qdisc := d, cfg_MTU := m\<rparr> \<and> 0 < q \<and> q \<le> 2 ^ 20 \<and> d \<noteq> [] \<and>
    minMTU \<le> m \<and> m \<le> maxMTU \<and> (cfg_MSSClamp c = mss_Off \<or> 0 \<le> cfg_MSSClamp c \<and> cfg_MSSClamp c \<le> m - OverheadV4)"
proof -
  define q where "q = (if cfg_TxQueueLen c \<le> 0 then defaultTxQueueLen else cfg_TxQueueLen c)"
  define d where "d = (if cfg_Qdisc c = [] then defaultQdisc else cfg_Qdisc c)"
  define m where "m = (if cfg_MTU c = 0 then defaultMTU else cfg_MTU c)"
  define r where "r = c\<lparr>cfg_TxQueueLen := q, cfg_Qdisc := d, cfg_MTU := m\<rparr>"
  note eq = sizes_eq[OF q_def d_def m_def, folded r_def]
  have v: "c' = r" "q \<le> 2 ^ 20" "minMTU \<le> m" "m \<le> maxMTU"
    "\<not> (cfg_MSSClamp c > 0 \<and> cfg_MSSClamp c > m - OverheadV4)" "\<not> (cfg_MSSClamp c < 0 \<and> cfg_MSSClamp c \<noteq> mss_Off)"
    using assms unfolding eq by (auto simp: refuse_if_def split: if_splits)
  have q: "0 < q" "d \<noteq> []" by (auto simp: q_def d_def defaultTxQueueLen_def defaultQdisc_def)
  have "0 \<le> m - OverheadV4" using v(3) by (simp add: minMTU_def OverheadV4_def)
  then have "cfg_MSSClamp c = mss_Off \<or> 0 \<le> cfg_MSSClamp c \<and> cfg_MSSClamp c \<le> m - OverheadV4"
    using v(5,6) by linarith
  then show ?thesis using v(1-4) q unfolding r_def by blast
qed

lemma ports_effect:
  "validate_ports c = Inr c' \<longleftrightarrow> c' = c \<and> (cfg_Ports c = [] \<or> (\<exists>ms. Expand (cfg_Ports c) (cfg_PeerIP c) = Inr ms))"
  by (auto simp: validate_ports_def check_simps split: if_splits)

lemma Validate_ok:
  assumes "Validate c = Inr c'"
  shows "config_ok c'"
proof -
  from assms obtain c1 c2 c3 c4 c5 where v: "validate_endpoint c = Inr c1" "validate_carrier c1 = Inr c2"
    "validate_layers c2 = Inr c3" "validate_addresses c3 = Inr c4" "validate_sizes c4 = Inr c5" "validate_ports c5 = Inr c'"
    unfolding Validate_def and_then_Inr by blast
  note e = endpoint_effect[OF v(1)]
  obtain m where c1: "c1 = c\<lparr>cfg_Mode := m\<rparr>" "m \<in> {''dial'', ''listen''}" using e(1) by blast
  obtain k where c2: "c2 = c1\<lparr>cfg_Encap := ''gre'', cfg_Carrier := k\<rparr>" "knownCarrier k"
    "\<not> (k = CarrierSpoof \<and> cfg_Mode c1 = ''listen'' \<and> cfg_SpoofPeerIP c1 = [])" using carrier_effect[OF v(2)] by blast
  have c3: "c3 = c2" "fecValidate (cfg_FEC c2) = None" "mpValidate (cfg_Multipath c2) = None"
    "mpEnabled (cfg_Multipath c2) \<longrightarrow> cfg_Carrier c2 = CarrierUDP"
    using v(3) unfolding layers_effect by blast+
  define i where "i = (if cfg_Iface c3 = [] then defaultIfaceName else cfg_Iface c3)"
  have i: "i \<noteq> []" by (simp add: i_def defaultIfaceName_def)
  have c4: "c4 = c3\<lparr>cfg_Iface := i\<rparr>" "validateTunnelAddr ''local_ip'' (cfg_LocalIP c3) True = None"
    "cfg_PeerIP c3 \<noteq> [] \<longrightarrow> validateTunnelAddr ''peer_ip'' (cfg_PeerIP c3) False = None"
    "CHR ''/'' \<in> set (cfg_LocalIP c3) \<or> cfg_PeerIP c3 \<noteq> []"
    using v(4) unfolding addresses_effect i_def by blast+
  obtain q d m' where c5: "c5 = c4\<lparr>cfg_TxQueueLen := q, cfg_Qdisc := d, cfg_MTU := m'\<rparr>" "0 < q" "q \<le> 2 ^ 20" "d \<noteq> []"
    "minMTU \<le> m'" "m' \<le> maxMTU" "cfg_MSSClamp c4 = mss_Off \<or> 0 \<le> cfg_MSSClamp c4 \<and> cfg_MSSClamp c4 \<le> m' - OverheadV4"
    using sizes_effect[OF v(5)] by blast
  have c6: "c' = c5" "cfg_Ports c5 = [] \<or> (\<exists>ms. Expand (cfg_Ports c5) (cfg_PeerIP c5) = Inr ms)"
    using v(6) unfolding ports_effect by blast+
  have s4: "cfg_MSSClamp c4 = cfg_MSSClamp c" by (simp add: c4(1) c3(1) c2(1) c1(1))
  have p5: "cfg_Ports c5 = cfg_Ports c" "cfg_PeerIP c5 = cfg_PeerIP c" by (simp_all add: c5(1) c4(1) c3(1) c2(1) c1(1))
  have c': "c' = c\<lparr>cfg_Mode := m, cfg_Encap := ''gre'', cfg_Carrier := k, cfg_Iface := i, cfg_TxQueueLen := q, cfg_Qdisc := d, cfg_MTU := m'\<rparr>"
    by (simp add: c6(1) c5(1) c4(1) c3(1) c2(1) c1(1))
  show ?thesis
    unfolding config_ok_def c'
    using e(2-4) c1(2) c2(2,3) c3(2-4) c4(2-4) c5(2-7) c6(2) i unfolding s4 p5 c3(1) c2(1) c1(1)
    by (intro conjI) simp_all
qed

lemma config_self:
  "c\<lparr>cfg_Mode := cfg_Mode c\<rparr> = c" "c\<lparr>cfg_Iface := cfg_Iface c\<rparr> = c" "c\<lparr>cfg_Encap := cfg_Encap c, cfg_Carrier := cfg_Carrier c\<rparr> = c"
  "c\<lparr>cfg_TxQueueLen := cfg_TxQueueLen c\<rparr> = c" "c\<lparr>cfg_Qdisc := cfg_Qdisc c, cfg_MTU := cfg_MTU c\<rparr> = c"
  by simp_all

text \<open>The conjuncts of \<open>config_ok\<close>, each as a rule.\<close>

lemma config_okD:
  assumes "config_ok c"
  shows "cfg_Mode c = ''dial'' \<or> cfg_Mode c = ''listen''" "TrimSpace (cfg_Addr c) \<noteq> []"
    "\<exists>hp. SplitHostPort (cfg_Addr c) = Inr hp" "TrimSpace (cfg_Token c) \<noteq> []"
    "cfg_Encap c = ''gre''" "knownCarrier (cfg_Carrier c)"
    "\<not> (cfg_Carrier c = CarrierSpoof \<and> cfg_Mode c = ''listen'' \<and> cfg_SpoofPeerIP c = [])"
    "fecValidate (cfg_FEC c) = None" "mpValidate (cfg_Multipath c) = None"
    "mpEnabled (cfg_Multipath c) \<longrightarrow> cfg_Carrier c = CarrierUDP" "cfg_Iface c \<noteq> []"
    "validateTunnelAddr ''local_ip'' (cfg_LocalIP c) True = None"
    "cfg_PeerIP c \<noteq> [] \<longrightarrow> validateTunnelAddr ''peer_ip'' (cfg_PeerIP c) False = None"
    "CHR ''/'' \<in> set (cfg_LocalIP c) \<or> cfg_PeerIP c \<noteq> []"
    "0 < cfg_TxQueueLen c" "cfg_TxQueueLen c \<le> 2 ^ 20" "cfg_Qdisc c \<noteq> []" "minMTU \<le> cfg_MTU c" "cfg_MTU c \<le> maxMTU"
    "cfg_MSSClamp c = mss_Off \<or> 0 \<le> cfg_MSSClamp c \<and> cfg_MSSClamp c \<le> cfg_MTU c - OverheadV4"
    "cfg_Ports c = [] \<or> (\<exists>ms. Expand (cfg_Ports c) (cfg_PeerIP c) = Inr ms)"
  using assms unfolding config_ok_def by blast+

lemma mode_normal: "m = ''dial'' \<or> m = ''listen'' \<Longrightarrow> ToLower (TrimSpace m) = m"
  by (auto simp: visible_def lower_char_def)

lemma endpoint_fixed:
  assumes "config_ok c"
  shows "validate_endpoint c = Inr c"
proof -
  note d = config_okD[OF assms]
  obtain hp where "SplitHostPort (cfg_Addr c) = Inr hp" using d(3) ..
  moreover have "cfg_Mode c \<noteq> []" "\<not> (cfg_Mode c \<noteq> ''dial'' \<and> cfg_Mode c \<noteq> ''listen'')" using d(1) by auto
  ultimately show ?thesis
    unfolding validate_endpoint_def Let_def mode_normal[OF d(1)] config_self(1) refuse_if_def
    using d(2,4) by (simp only: if_False sum.case)
qed

lemma carrier_fixed:
  assumes "config_ok c"
  shows "validate_carrier c = Inr c"
proof -
  note d = config_okD[OF assms]
  have k: "ToLower (TrimSpace (cfg_Carrier c)) = cfg_Carrier c" "cfg_Carrier c \<noteq> []" using knownCarrier_normal[OF d(6)] by auto
  have n: "NewEncap (cfg_Encap c) (cfg_GREKey c) = Inr \<lparr>gre_key = cfg_GREKey c, gre_keyed = (cfg_GREKey c \<noteq> 0)\<rparr>"
    by (simp add: d(5) NewEncap_def visible_def lower_char_def)
  have "c\<lparr>cfg_Encap := ''gre'', cfg_Carrier := cfg_Carrier c\<rparr> = c" using config_self(3)[of c] unfolding d(5) .
  then show ?thesis unfolding validate_carrier_def n Let_def using k d(6,7) by (simp only: sum.case if_False refuse_if_def simp_thms)
qed

lemma sizes_fixed:
  assumes "config_ok c"
  shows "validate_sizes c = Inr c"
proof -
  note d = config_okD[OF assms]
  have "\<not> cfg_TxQueueLen c \<le> 0" "\<not> cfg_TxQueueLen c > 2 ^ 20" "cfg_MTU c \<noteq> 0"
    "\<not> (cfg_MTU c < minMTU \<or> cfg_MTU c > maxMTU)" "\<not> (cfg_MSSClamp c > 0 \<and> cfg_MSSClamp c > cfg_MTU c - OverheadV4)"
    "\<not> (cfg_MSSClamp c < 0 \<and> cfg_MSSClamp c \<noteq> mss_Off)"
    using d(15,16,18-20) by (auto simp: minMTU_def mss_Off_def)
  then show ?thesis using d(17) by (simp only: validate_sizes_def Let_def if_False config_self refuse_if_def)
qed

lemma Validate_fixed:
  assumes "config_ok c"
  shows "Validate c = Inr c"
proof -
  note d = config_okD[OF assms]
  have "validate_layers c = Inr c" unfolding layers_effect using d(8-10) by blast
  moreover have "validate_addresses c = Inr c"
    unfolding addresses_effect using d(11-14) config_self(2)[of c] by (simp only: if_False)
  moreover have "validate_ports c = Inr c" unfolding ports_effect using d(21) by blast
  ultimately show ?thesis
    by (simp only: Validate_def and_then_def endpoint_fixed[OF assms] carrier_fixed[OF assms] sizes_fixed[OF assms] sum.case)
qed

lemma Rules_label:
  assumes "r \<in> set (Rules kind iface mtu configured)"
  shows "ru_Label r = ''IPv4'' \<or> ru_Label r = ''IPv6''"
  using assms by (auto simp: Rules_def families_def Let_def split: if_splits)

text \<open>A configuration, for the witnesses.\<close>

definition demo_config :: "int \<Rightarrow> Config" where
  "demo_config mss =
     \<lparr>cfg_Mode = ''Dial'', cfg_Addr = ''h:1'', cfg_Token = ''t'', cfg_Carrier = '''', cfg_Encap = ''ipip'', cfg_GREKey = 0,
      cfg_Iface = '''', cfg_LocalIP = ''10.9.0.1/30'', cfg_PeerIP = ''10.9.0.2'', cfg_MTU = 0, cfg_SockBuf = 0,
      cfg_FEC = \<lparr>fec_Data = 0, fec_Parity = 0\<rparr>, cfg_Multipath = \<lparr>mc_Paths = 0\<rparr>, cfg_TxQueueLen = 0, cfg_Qdisc = '''',
      cfg_AutoMTU = False, cfg_MSSClamp = mss, cfg_Ports = [''7''], cfg_AcceptUDP = False, cfg_MaxConnections = 0,
      cfg_BandwidthMbps = 0, cfg_SpoofPeerIP = ''''\<rparr>"

definition demo_valid :: "int \<Rightarrow> Config" where
  "demo_valid mss = (demo_config mss)\<lparr>cfg_Mode := ''dial'', cfg_Carrier := CarrierUDP, cfg_Encap := ''gre'',
     cfg_Iface := defaultIfaceName, cfg_MTU := defaultMTU, cfg_TxQueueLen := defaultTxQueueLen, cfg_Qdisc := defaultQdisc\<rparr>"

lemma demo_validates: "Validate (demo_config 1360) = Inr (demo_valid 1360)"
  by code_simp

section \<open>Properties\<close>



text \<open>What the clamp of an accepted configuration does to a full-sized segment: over IPv4 it always
  fits the interface; over IPv6 it fits exactly when the configured value leaves room for the larger
  header, which \<open>Validate\<close> does not check. The automatic value fits both.\<close>
theorem mss_clamp_fits:
  assumes "Validate c = Inr c'" "cfg_MSSClamp c' \<noteq> mss_Off"
    and "r \<in> set (Rules kind (cfg_Iface c') (cfg_MTU c') (cfg_MSSClamp c'))"
  shows "if ru_Label r = ''IPv4'' then ru_MSS r + OverheadV4 \<le> cfg_MTU c'
    else (ru_MSS r + OverheadV6 \<le> cfg_MTU c') = (cfg_MSSClamp c' \<le> cfg_MTU c' - OverheadV6)"
proof -
  have m: "0 \<le> cfg_MSSClamp c'" "cfg_MSSClamp c' \<le> cfg_MTU c' - OverheadV4" "minMTU \<le> cfg_MTU c'"
    using Validate_ok[OF assms(1)] assms(2) unfolding config_ok_def by blast+
  then show ?thesis
    using Rules_MSS(2)[OF assms(3)] Rules_label[OF assms(3)]
    by (auto simp: mss_For_def OverheadV4_def OverheadV6_def minMTU_def)
qed

theorem mss_clamp_fits_witness:
  "\<exists>r \<in> set (Rules ''l3'' defaultIfaceName 1400 1360). Validate (demo_config 1360) = Inr (demo_valid 1360) \<and>
     ru_Label r = ''IPv6'' \<and> \<not> ru_MSS r + OverheadV6 \<le> cfg_MTU (demo_valid 1360)"
proof -
  let ?r = "\<lparr>ru_Cmd = ''ip6tables'', ru_Table = ''mangle'', ru_Chain = ''OUTPUT'', ru_Label = ''IPv6'', ru_MSS = 1360,
    ru_Spec = mss_spec ''l3'' defaultIfaceName 1360\<rparr>"
  have d: "cfg_MSSClamp (demo_valid 1360) = 1360" "cfg_Iface (demo_valid 1360) = defaultIfaceName" "cfg_MTU (demo_valid 1360) = 1400"
    by (simp_all add: demo_valid_def demo_config_def defaultMTU_def)
  have r: "?r \<in> set (Rules ''l3'' defaultIfaceName 1400 1360)" by (simp add: Rules_def families_def mss_For_def)
  have "cfg_MSSClamp (demo_valid 1360) \<noteq> mss_Off" by (simp add: d mss_Off_def)
  from mss_clamp_fits[OF demo_validates this, of ?r "''l3''"] r
  show ?thesis unfolding d by (intro bexI[of _ ?r]) (simp_all add: demo_validates OverheadV6_def)
qed

end
