(* ===== verification/MtuProbe.thy ===== *)
theory MtuProbe
  imports Engine L3Config
begin

text \<open>
  Measuring the path, the rest of \<open>src/internal/tunnel/l3/mtuprobe.go\<close>: one
  probe, its retries, the binary search over sizes and what is done with the answer. The messages
  themselves and the handlers that answer them are in \<open>Engine\<close>.

  What happens while a probe waits belongs to other goroutines and to the path. It is an argument:
  a \<open>probe_env\<close> per attempt says what was drawn, whether the write succeeded, what the rest of the
  process did to the shared state meanwhile and which arm of the \<open>select\<close> was taken. Where building
  a probe panics the result is \<open>None\<close>.
\<close>

section \<open>Definitions\<close>

definition probeTimeout :: duration where "probeTimeout = 2 * second"
definition probeAttempts :: nat where "probeAttempts = 3"
definition probeSettle :: duration where "probeSettle = 2 * second"
definition probeEvery :: duration where "probeEvery = 30 * minute"

record probeTiming =
  pt_timeout :: duration
  pt_attempts :: nat
  pt_settle :: duration
  pt_every :: duration

definition defaultProbeTiming :: probeTiming where
  "defaultProbeTiming = \<lparr>pt_timeout = probeTimeout, pt_attempts = probeAttempts, pt_settle = probeSettle, pt_every = probeEvery\<rparr>"

datatype probe_wake = WokeDone | WokeAnswer | WokeTimeout

record 'c probe_env =
  pe_ended :: bool
  pe_id :: u32
  pe_write_ok :: bool
  pe_during :: "'c tunnel \<Rightarrow> 'c tunnel \<times> probe_wake"

definition drop_waiter :: "u32 \<Rightarrow> 'c tunnel \<Rightarrow> 'c tunnel" where
  "drop_waiter i t = t\<lparr>tn_waiters := (tn_waiters t)(i := None)\<rparr>"

text \<open>The arm that receives can be taken only when the channel holds something.\<close>

definition has_answer :: "u32 \<Rightarrow> 'c tunnel \<Rightarrow> bool" where
  "has_answer i t = (case tn_waiters t i of Some (_ # _) \<Rightarrow> True | _ \<Rightarrow> False)"

definition sendProbe :: "('h, 'c) noise \<Rightarrow> 'c probe_env \<Rightarrow> int \<Rightarrow> 'c tunnel \<Rightarrow> ('c tunnel \<times> bool) option" where
  "sendProbe N e p t =
     (case (sendSession t, tn_peer t) of
        (Some r, Some peer) \<Rightarrow>
          (case tn_store t r of
             None \<Rightarrow> Some (t, False)
           | Some s \<Rightarrow>
               (case buildProbe (pe_id e) p (Overhead (tn_encap t)) of
                  None \<Rightarrow> None
                | Some body \<Rightarrow>
                    (case sealKind N s body typeProbe of
                       (s', Inl _) \<Rightarrow> Some (t\<lparr>tn_store := (tn_store t)(r \<mapsto> s')\<rparr>, False)
                     | (s', Inr sealed) \<Rightarrow>
                         let t1 = t\<lparr>tn_store := (tn_store t)(r \<mapsto> s'), tn_waiters := (tn_waiters t)(pe_id e \<mapsto> [])\<rparr> in
                         if \<not> pe_write_ok e then Some (drop_waiter (pe_id e) t1, False)
                         else (case pe_during e (write_out sealed (Some peer) t1) of
                                 (t2, w) \<Rightarrow> Some (drop_waiter (pe_id e) t2, w = WokeAnswer \<and> has_answer (pe_id e) t2)))))
      | _ \<Rightarrow> Some (t, False))"

text \<open>The retries; the state is threaded with the number of attempts made so far in the whole search.\<close>

fun probe_tries ::
  "('h, 'c) noise \<Rightarrow> (nat \<Rightarrow> 'c probe_env) \<Rightarrow> nat \<Rightarrow> int \<Rightarrow> 'c tunnel \<times> nat \<Rightarrow> (bool \<times> 'c tunnel \<times> nat) option" where
  "probe_tries N env 0 p st = Some (False, st)"
| "probe_tries N env (Suc n) p (t, k) =
     (if pe_ended (env k) then Some (False, t, k)
      else case sendProbe N (env k) p t of
             None \<Rightarrow> None
           | Some (t', True) \<Rightarrow> Some (True, t', Suc k)
           | Some (t', False) \<Rightarrow> probe_tries N env n p (t', Suc k))"

definition probeOnce ::
  "('h, 'c) noise \<Rightarrow> (nat \<Rightarrow> 'c probe_env) \<Rightarrow> probeTiming \<Rightarrow> int \<Rightarrow> 'c tunnel \<times> nat \<Rightarrow> (bool \<times> 'c tunnel \<times> nat) option" where
  "probeOnce N env tm p st = probe_tries N env (pt_attempts tm) p st"

datatype probe_error = ErrProbeUnanswered | ErrProbeEnded

text \<open>The loop of \<open>searchMTU\<close>. The bounds stay positive, so Go's division is \<open>div\<close>.\<close>

function search_loop ::
  "(int \<Rightarrow> 's \<Rightarrow> (bool \<times> 's) option) \<Rightarrow> ('s \<Rightarrow> bool) \<Rightarrow> int \<Rightarrow> int \<Rightarrow> int \<Rightarrow> 's \<Rightarrow> ((probe_error + int) \<times> 's) option" where
  "search_loop probe ended lo hi best s =
     (if lo \<le> hi then
        if ended s then Some (Inl ErrProbeEnded, s)
        else let mid = (lo + hi) div 2
             in case probe mid s of
                  None \<Rightarrow> None
                | Some (True, s') \<Rightarrow> search_loop probe ended (mid + 1) hi mid s'
                | Some (False, s') \<Rightarrow> search_loop probe ended lo (mid - 1) best s'
      else Some (Inr best, s))"
  by pat_completeness auto
termination by (relation "measure (\<lambda>(_, _, lo, hi, _, _). nat (hi - lo + 1))") auto

definition search_sizes ::
  "(int \<Rightarrow> 's \<Rightarrow> (bool \<times> 's) option) \<Rightarrow> ('s \<Rightarrow> bool) \<Rightarrow> int \<Rightarrow> int \<Rightarrow> 's \<Rightarrow> ((probe_error + int) \<times> 's) option" where
  "search_sizes probe ended ceiling floor s =
     (case probe ceiling s of
        None \<Rightarrow> None
      | Some (True, s1) \<Rightarrow> Some (Inr ceiling, s1)
      | Some (False, s1) \<Rightarrow>
          (case probe floor s1 of
             None \<Rightarrow> None
           | Some (False, s2) \<Rightarrow> Some (Inl ErrProbeUnanswered, s2)
           | Some (True, s2) \<Rightarrow> search_loop probe ended (floor + 1) (ceiling - 1) floor s2))"

definition search_ceiling :: "int \<Rightarrow> greEncap \<Rightarrow> int" where
  "search_ceiling carrierOverhead g =
     (let c = MTUFor 1500 carrierOverhead (int (Overhead g)) in if c > maxMTU then maxMTU else c)"

definition searchMTU ::
  "('h, 'c) noise \<Rightarrow> (nat \<Rightarrow> 'c probe_env) \<Rightarrow> probeTiming \<Rightarrow> int \<Rightarrow> 'c tunnel \<times> nat \<Rightarrow>
   ((probe_error + int) \<times> 'c tunnel \<times> nat) option" where
  "searchMTU N env tm carrierOverhead st =
     search_sizes (probeOnce N env tm) (\<lambda>(t, k). pe_ended (env k))
       (search_ceiling carrierOverhead (tn_encap (fst st))) minMTU st"

text \<open>The interface: what it was set to, and what the engine believes (\<open>currentMTU\<close>).\<close>

record mtu_state =
  ms_current :: int
  ms_device :: int

definition measureAndApply :: "(int \<Rightarrow> bool) \<Rightarrow> probe_error + int \<Rightarrow> mtu_state \<Rightarrow> mtu_state" where
  "measureAndApply set_ok result m =
     (case result of
        Inl _ \<Rightarrow> m
      | Inr found \<Rightarrow>
          if found = ms_current m then m
          else if \<not> set_ok found then m
          else m\<lparr>ms_device := found, ms_current := found\<rparr>)"

section \<open>Specification\<close>

text \<open>
  What a search needs of a probe: as long as \<open>ready\<close> has budget left, it returns, says whether the size
  is within the limit, and uses up one unit.
\<close>

locale size_probe =
  fixes probe :: "int \<Rightarrow> 's \<Rightarrow> (bool \<times> 's) option"
    and ended :: "'s \<Rightarrow> bool"
    and ready :: "nat \<Rightarrow> 's \<Rightarrow> bool"
    and limit :: int
    and smallest :: int
  assumes probe_exact: "ready (Suc b) s \<Longrightarrow> smallest \<le> p \<Longrightarrow> \<exists>s'. probe p s = Some (p \<le> limit, s') \<and> ready b s'"
    and not_ended: "ready b s \<Longrightarrow> \<not> ended s"
    and ready_less: "ready (Suc b) s \<Longrightarrow> ready b s"
begin

lemma search_loop_exact:
  assumes "ready (nat (hi - lo + 1)) s" "smallest \<le> lo" "best = lo - 1" "best \<le> limit" "limit \<le> hi"
  shows "\<exists>s'. search_loop probe ended lo hi best s = Some (Inr limit, s')"
  using assms
proof (induction "nat (hi - lo + 1)" arbitrary: lo hi best s rule: less_induct)
  case less
  show ?case
  proof (cases "lo \<le> hi")
    case True
    let ?mid = "(lo + hi) div 2"
    have m: "lo \<le> ?mid" "?mid \<le> hi" using True by auto
    obtain b where b: "nat (hi - lo + 1) = Suc b" using True by (cases "nat (hi - lo + 1)") auto
    then obtain s' where s': "probe ?mid s = Some (?mid \<le> limit, s')" "ready b s'"
      using probe_exact[of b s ?mid] less.prems(1,2) m by auto
    have down: "ready n s'" if "n \<le> b" for n using that s'(2) by (induction rule: inc_induct) (auto intro: ready_less)
    have ne: "\<not> ended s" using not_ended less.prems(1) by blast
    show ?thesis
    proof (cases "?mid \<le> limit")
      case True
      have "\<exists>s''. search_loop probe ended (?mid + 1) hi ?mid s' = Some (Inr limit, s'')"
        using less.hyps[of hi "?mid + 1" s' ?mid] less.prems True m b down[of "nat (hi - (?mid + 1) + 1)"] by auto
      then show ?thesis using \<open>lo \<le> hi\<close> ne s' True by (subst search_loop.simps) (simp add: Let_def)
    next
      case False
      have "\<exists>s''. search_loop probe ended lo (?mid - 1) best s' = Some (Inr limit, s'')"
        using less.hyps[of "?mid - 1" lo s' best] less.prems False m b down[of "nat (?mid - 1 - lo + 1)"] by auto
      then show ?thesis using \<open>lo \<le> hi\<close> ne s' False by (subst search_loop.simps) (simp add: Let_def)
    qed
  next
    case False
    then have "best = limit" using less.prems by simp
    then show ?thesis using False by (subst search_loop.simps) simp
  qed
qed

lemma search_sizes_exact:
  assumes "ready (2 + nat (ceiling - floor)) s" "smallest \<le> floor" "smallest \<le> ceiling"
  shows "\<exists>s'. search_sizes probe ended ceiling floor s =
    Some (if ceiling \<le> limit then Inr ceiling else if limit < floor then Inl ErrProbeUnanswered else Inr limit, s')"
proof -
  obtain s1 where s1: "probe ceiling s = Some (ceiling \<le> limit, s1)" "ready (Suc (nat (ceiling - floor))) s1"
    using probe_exact[of "Suc (nat (ceiling - floor))" s ceiling] assms by auto
  obtain s2 where s2: "probe floor s1 = Some (floor \<le> limit, s2)" "ready (nat (ceiling - floor)) s2"
    using probe_exact[of "nat (ceiling - floor)" s1 floor] assms s1(2) by auto
  have down: "ready n s2" if "n \<le> nat (ceiling - floor)" for n
    using that s2(2) by (induction rule: inc_induct) (auto intro: ready_less)
  show ?thesis
  proof (cases "limit < ceiling \<and> floor \<le> limit")
    case True
    then have "\<exists>s'. search_loop probe ended (floor + 1) (ceiling - 1) floor s2 = Some (Inr limit, s')"
      using search_loop_exact[of "ceiling - 1" "floor + 1" s2 floor] down assms(2) by simp
    then show ?thesis using True s1 s2 by (auto simp: search_sizes_def)
  qed (use s1 s2 in \<open>auto simp: search_sizes_def split: bool.splits\<close>)
qed

end

text \<open>
  A path that carries datagrams of up to \<open>W\<close> bytes on the wire, with a peer that answers: a probe's answer
  arrives in time exactly when the sealed datagram, with the carrier's own overhead, fits. What else the
  process does meanwhile leaves the sending side alone.
\<close>

definition path_carries :: "int \<Rightarrow> int \<Rightarrow> 'c probe_env \<Rightarrow> bool" where
  "path_carries co W e \<longleftrightarrow> \<not> pe_ended e \<and> pe_write_ok e \<and>
     (\<forall>t out d a t' w. tn_out t = out @ [(d, a)] \<longrightarrow> tn_waiters t (pe_id e) = Some [] \<longrightarrow> pe_during e t = (t', w) \<longrightarrow>
        sendSession t' = sendSession t \<and> tn_peer t' = tn_peer t \<and> tn_encap t' = tn_encap t \<and>
        (\<forall>r s. tn_store t r = Some s \<longrightarrow> (\<exists>s'. tn_store t' r = Some s' \<and> se_counter s' = se_counter s)) \<and>
        ((w = WokeAnswer \<and> has_answer (pe_id e) t') \<longleftrightarrow> co + int (length d) \<le> W))"

text \<open>A tunnel that can still seal \<open>c\<close> messages.\<close>

definition can_send :: "greEncap \<Rightarrow> nat \<Rightarrow> 'c tunnel \<Rightarrow> bool" where
  "can_send g c t \<longleftrightarrow> tn_encap t = g \<and> tn_peer t \<noteq> None \<and>
     (\<exists>r s. sendSession t = Some r \<and> tn_store t r = Some s \<and> unat (se_counter s) + c \<le> unat rejectAfterMessages)"

definition probe_ready ::
  "('h, 'c) noise \<Rightarrow> (nat \<Rightarrow> 'c probe_env) \<Rightarrow> probeTiming \<Rightarrow> int \<Rightarrow> int \<Rightarrow> greEncap \<Rightarrow> nat \<Rightarrow> 'c tunnel \<times> nat \<Rightarrow> bool" where
  "probe_ready N env tm co W g b st \<longleftrightarrow> aead_correct N \<and> 0 < pt_attempts tm \<and> (\<forall>k. path_carries co W (env k)) \<and>
     can_send g (pt_attempts tm * b) (fst st)"

section \<open>Lemmas\<close>

lemma can_send_less: "can_send g c t \<Longrightarrow> c' \<le> c \<Longrightarrow> can_send g c' t"
  unfolding can_send_def by (meson add_le_cancel_left le_trans)

lemma rejectAfterMessages_unat: "unat rejectAfterMessages = 2 ^ 60"
  by (simp add: rejectAfterMessages_def)

text \<open>The sealed probe has the size of a sealed data packet of that inner size.\<close>

lemma sealed_length:
  assumes "aead_correct N" "sealKind N s body k = (s', Inr d)"
  shows "length d = dataOverhead + length body"
  using sealKind_Inr(3)[OF assms(2)] assms(1) by (simp add: Let_def aead_correct_def dataOverhead_def headerLen_def)

lemma buildProbe_length:
  assumes "6 \<le> p"
  shows "\<exists>body. buildProbe i p ov = Some body \<and> int (length body) = int ov + p"
  using assms by (simp add: buildProbe_def probeHeaderLen_def)

lemma sendProbe_exact:
  assumes N: "aead_correct N" and e: "path_carries co W e" and c: "can_send g (Suc c) t" and p: "6 \<le> p"
  shows "\<exists>t'. sendProbe N e p t = Some (t', p \<le> MTUFor W co (int (Overhead g))) \<and> can_send g c t'"
proof -
  from c obtain r s pa where t: "sendSession t = Some r" "tn_store t r = Some s" "tn_peer t = Some pa" "tn_encap t = g"
    "unat (se_counter s) + Suc c \<le> unat rejectAfterMessages" by (auto simp: can_send_def)
  obtain body where body: "buildProbe (pe_id e) p (Overhead g) = Some body" "int (length body) = int (Overhead g) + p"
    using buildProbe_length[OF p] by blast
  have lt: "se_counter s < rejectAfterMessages" using t(5) by (simp add: word_less_nat_alt)
  then obtain s' d where sl: "sealKind N s body typeProbe = (s', Inr d)" by (simp add: sealKind_def Let_def not_le)
  have s': "unat (se_counter s') = Suc (unat (se_counter s))"
    using sealKind_Inr(1)[OF sl] t(5) rejectAfterMessages_unat by (simp add: unat_inc_below)
  let ?t1 = "write_out d (Some pa) (t\<lparr>tn_store := (tn_store t)(r \<mapsto> s'), tn_waiters := (tn_waiters t)(pe_id e \<mapsto> [])\<rparr>)"
  obtain t2 w where d: "pe_during e ?t1 = (t2, w)" by fastforce
  have e': "pe_write_ok e" using e by (simp add: path_carries_def)
  have out: "tn_out ?t1 = tn_out t @ [(d, Some pa)]" "tn_waiters ?t1 (pe_id e) = Some []"
    "sendSession ?t1 = Some r" "tn_peer ?t1 = Some pa" "tn_encap ?t1 = g" "tn_store ?t1 r = Some s'"
    using t by (auto simp: write_out_def sendSession_def split: if_splits)
  have k: "sendSession t2 = Some r" "tn_peer t2 = Some pa" "tn_encap t2 = g"
    "\<exists>s2. tn_store t2 r = Some s2 \<and> se_counter s2 = se_counter s'"
    "(w = WokeAnswer \<and> has_answer (pe_id e) t2) = (co + int (length d) \<le> W)"
    using e d out unfolding path_carries_def by metis+
  have "(co + int (length d) \<le> W) = (p \<le> MTUFor W co (int (Overhead g)))"
    using sealed_length[OF N sl] body(2) by (auto simp: MTUFor_def)
  then have "sendProbe N e p t = Some (drop_waiter (pe_id e) t2, p \<le> MTUFor W co (int (Overhead g)))"
    unfolding sendProbe_def using t body sl e' d k(5) by (simp add: Let_def)
  moreover have "can_send g c (drop_waiter (pe_id e) t2)"
    using k(1-4) s' t(5) by (auto simp: can_send_def drop_waiter_def sendSession_def)
  ultimately show ?thesis by blast
qed

lemma probe_tries_exact:
  assumes "aead_correct N" "\<forall>k. path_carries co W (env k)" "can_send g (n + c) t" "6 \<le> p" "0 < n"
  shows "\<exists>t' k'. probe_tries N env n p (t, k) = Some (p \<le> MTUFor W co (int (Overhead g)), t', k') \<and> can_send g c t'"
  using assms
proof (induction n arbitrary: t k)
  case (Suc n)
  let ?ok = "p \<le> MTUFor W co (int (Overhead g))"
  have e: "path_carries co W (env k)" "\<not> pe_ended (env k)" using Suc.prems(2) by (auto simp: path_carries_def)
  obtain t1 where t1: "sendProbe N (env k) p t = Some (t1, ?ok)" "can_send g (n + c) t1"
    using sendProbe_exact[OF Suc.prems(1) e(1)] Suc.prems(3,4) by (metis add_Suc)
  show ?case
  proof (cases "?ok \<or> n = 0")
    case True
    then show ?thesis using t1 e(2) can_send_less[OF t1(2), of c] by (cases ?ok) auto
  next
    case False
    then show ?thesis using Suc.IH[of t1 "Suc k"] Suc.prems t1 e(2) by auto
  qed
qed simp

interpretation probing: size_probe "probeOnce N env tm" "\<lambda>(t, k). pe_ended (env k)" "probe_ready N env tm co W g"
    "MTUFor W co (int (Overhead g))" 6
  for N env tm co W g
proof
  fix b st and p :: int
  assume "probe_ready N env tm co W g (Suc b) st" "6 \<le> p"
  moreover obtain t k where "st = (t, k)" by fastforce
  ultimately show "\<exists>s'. probeOnce N env tm p st = Some (p \<le> MTUFor W co (int (Overhead g)), s') \<and> probe_ready N env tm co W g b s'"
    using probe_tries_exact[of N co W env g "pt_attempts tm" "pt_attempts tm * b" t p k]
    by (auto simp: probe_ready_def probeOnce_def)
qed (auto simp: probe_ready_def path_carries_def intro: can_send_less split: prod.splits)

text \<open>A path of any width, for the witnesses: the answer is put in the channel when the datagram fits.\<close>

definition demo_path :: "int \<Rightarrow> int \<Rightarrow> nat \<Rightarrow> 'c probe_env" where
  "demo_path co W k = \<lparr>pe_ended = False, pe_id = word_of_nat k, pe_write_ok = True,
     pe_during = (\<lambda>t. if co + int (length (fst (last (tn_out t)))) \<le> W
                      then (handleProbeAck (buildProbeAck (word_of_nat k) 0) t, WokeAnswer) else (t, WokeTimeout))\<rparr>"

lemma demo_path_carries: "path_carries co W (demo_path co W k :: 'c probe_env)"
proof -
  have "has_answer i (handleProbeAck (buildProbeAck i 0) t)" if "tn_waiters t i = Some []" for i and t :: "'c tunnel"
    using that by (simp add: handleProbeAck_def readProbe_def buildProbeAck_def probeHeaderLen_def has_answer_def)
  moreover have "sendSession (handleProbeAck b t) = sendSession t" "tn_peer (handleProbeAck b t) = tn_peer t"
    "tn_encap (handleProbeAck b t) = tn_encap t" "tn_store (handleProbeAck b t) = tn_store t" for b and t :: "'c tunnel"
    by (auto simp: handleProbeAck_def sendSession_def split: option.splits list.splits)
  ultimately show ?thesis by (auto simp: path_carries_def demo_path_def split: if_splits)
qed

section \<open>Properties\<close>

text \<open>(C9) The search measures the path exactly. On a path that carries \<open>W\<close> bytes and a peer that answers
  probes, it ends, and what it finds is the largest inner packet whose sealed, encapsulated datagram
  fits: \<open>MTUFor W\<close>, capped by the search's ceiling, and an error when even the floor does not fit.\<close>
theorem mtu_search_exact:
  assumes "aead_correct N" "\<And>k. path_carries co W (env k)" "0 < pt_attempts tm" "co \<le> 1400"
    and "can_send (tn_encap t) (pt_attempts tm * (2 + nat (1500 - co))) t"
  shows "\<exists>st'. searchMTU N env tm co (t, k) =
    Some (let limit = MTUFor W co (int (Overhead (tn_encap t))); ceiling = search_ceiling co (tn_encap t)
          in if ceiling \<le> limit then Inr ceiling else if limit < minMTU then Inl ErrProbeUnanswered else Inr limit, st')"
proof -
  let ?c = "search_ceiling co (tn_encap t)"
  have "Overhead (tn_encap t) \<le> 8" by (simp add: Overhead_def)
  then have c: "6 \<le> ?c" "nat (?c - minMTU) \<le> nat (1500 - co)"
    using assms(4) by (auto simp: search_ceiling_def MTUFor_def maxMTU_def minMTU_def dataOverhead_def headerLen_def tagLen_def Let_def)
  have "probe_ready N env tm co W (tn_encap t) (2 + nat (?c - minMTU)) (t, k)"
    using assms c(2) by (auto simp: probe_ready_def intro: can_send_less)
  from probing.search_sizes_exact[OF this _ c(1)] show ?thesis
    by (simp add: searchMTU_def Let_def minMTU_def)
qed

theorem mtu_search_exact_witness:
  "\<exists>st'. searchMTU demo_noise (demo_path 28 1428) defaultProbeTiming 28 (demo_tunnel, 0) = Some (Inr 1367, st')"
  using mtu_search_exact[OF demo_noise_correct(1) demo_path_carries, of defaultProbeTiming 28 demo_tunnel 1428 "\<lambda>k. k" 0]
  by (simp add: can_send_def demo_defs New_def sendSession_def defaultProbeTiming_def probeAttempts_def rejectAfterMessages_def
      MTUFor_def search_ceiling_def Overhead_def dataOverhead_def headerLen_def tagLen_def maxMTU_def minMTU_def Let_def)

end
