(* ===== verification/TunnelLimits.thy ===== *)
theory TunnelLimits
  imports Prelude
begin

text \<open>
  The caps on one tunnel, \<open>src/internal/tunnel/limits/limits.go\<close>. The counter is the source's
  \<open>atomic.Int32\<close>, a 32-bit word read as signed. \<open>Acquire\<close> is two atomic steps when it refuses, and other
  goroutines run in between: the interleavings are the step relation \<open>slot_step\<close>.

  The token bucket is \<open>golang.org/x/time/rate\<close>: of it the model uses only its burst and, as an argument,
  whether each \<open>WaitN\<close> succeeded. A nil \<open>*Limiter\<close> is \<open>None\<close>. The rate is computed by the source in
  \<open>float64\<close>, which is exact up to nine billion Mbit/s.
\<close>

section \<open>Definitions\<close>

record LimitConfig =
  lc_MaxConnections :: int
  lc_BandwidthMbps :: int

record Limiter =
  li_maxConns :: "32 word"
  li_active :: "32 word"
  li_burst :: "int option"

definition limits_New :: "LimitConfig \<Rightarrow> Limiter option" where
  "limits_New c =
     (if lc_MaxConnections c \<le> 0 \<and> lc_BandwidthMbps c \<le> 0 then None
      else Some \<lparr>li_maxConns = word_of_int (lc_MaxConnections c), li_active = 0,
                 li_burst = (if lc_BandwidthMbps c > 0 then Some (lc_BandwidthMbps c * 1000000 div 8) else None)\<rparr>)"

text \<open>The two atomic steps of \<open>Acquire\<close>: adding, with the comparison, and taking it back.\<close>

definition acquire_add :: "Limiter \<Rightarrow> Limiter \<times> bool" where
  "acquire_add l =
     (let l' = l\<lparr>li_active := li_active l + 1\<rparr>
      in (l', \<not> sint (li_active l') > sint (li_maxConns l')))"

definition acquire_undo :: "Limiter \<Rightarrow> Limiter" where
  "acquire_undo l = l\<lparr>li_active := li_active l - 1\<rparr>"

text \<open>The same on the limiter the methods are called on, which may be nil or without a cap.\<close>

definition acquire_begin :: "Limiter option \<Rightarrow> Limiter option \<times> bool" where
  "acquire_begin lo =
     (case lo of
        None \<Rightarrow> (lo, True)
      | Some l \<Rightarrow> if sint (li_maxConns l) \<le> 0 then (lo, True) else map_prod Some id (acquire_add l))"

definition acquire_backout :: "Limiter option \<Rightarrow> Limiter option" where
  "acquire_backout lo = map_option acquire_undo lo"

definition Acquire :: "Limiter option \<Rightarrow> Limiter option \<times> bool" where
  "Acquire lo =
     (case acquire_begin lo of
        (lo', True) \<Rightarrow> (lo', True)
      | (lo', False) \<Rightarrow> (acquire_backout lo', False))"

definition Release :: "Limiter option \<Rightarrow> Limiter option" where
  "Release lo =
     (case lo of
        None \<Rightarrow> None
      | Some l \<Rightarrow> if sint (li_maxConns l) \<le> 0 then Some l else Some (l\<lparr>li_active := li_active l - 1\<rparr>))"

definition Active :: "Limiter option \<Rightarrow> int" where
  "Active lo = (case lo of None \<Rightarrow> 0 | Some l \<Rightarrow> sint (li_active l))"

text \<open>\<open>wait\<close>: the pieces it charges for, in order. \<open>ok\<close> says of each \<open>WaitN\<close> whether it succeeded.\<close>

function wait_pieces :: "int \<Rightarrow> (nat \<Rightarrow> bool) \<Rightarrow> int \<Rightarrow> nat \<Rightarrow> int list" where
  "wait_pieces burst ok n i =
     (if n > 0 then
        let chunk = (if burst > 0 \<and> n > burst then burst else n)
        in if ok i then chunk # wait_pieces burst ok (n - chunk) (Suc i) else [chunk]
      else [])"
  by pat_completeness auto
termination by (relation "measure (\<lambda>(burst, ok, n, i). nat n)") auto

declare wait_pieces.simps [simp del]

definition wait :: "int \<Rightarrow> (nat \<Rightarrow> bool) \<Rightarrow> int \<Rightarrow> int list" where
  "wait burst ok n = wait_pieces burst ok n 0"

text \<open>Goroutines around one limiter: \<open>held\<close> of them own a slot, \<open>backing\<close> of them were refused and have
  not yet taken their increment back. There are never two billion of them.\<close>

record slots_state =
  ss_limiter :: "Limiter option"
  ss_held :: nat
  ss_backing :: nat

inductive slot_step :: "slots_state \<Rightarrow> slots_state \<Rightarrow> bool" where
  admitted: "ss_held s + ss_backing s < 2 ^ 31 - 1 \<Longrightarrow> acquire_begin (ss_limiter s) = (l, True) \<Longrightarrow>
     slot_step s (s\<lparr>ss_limiter := l, ss_held := Suc (ss_held s)\<rparr>)"
| turned_away: "ss_held s + ss_backing s < 2 ^ 31 - 1 \<Longrightarrow> acquire_begin (ss_limiter s) = (l, False) \<Longrightarrow>
     slot_step s (s\<lparr>ss_limiter := l, ss_backing := Suc (ss_backing s)\<rparr>)"
| backed_out: "ss_backing s = Suc b \<Longrightarrow>
     slot_step s (s\<lparr>ss_limiter := acquire_backout (ss_limiter s), ss_backing := b\<rparr>)"
| released: "ss_held s = Suc n \<Longrightarrow>
     slot_step s (s\<lparr>ss_limiter := Release (ss_limiter s), ss_held := n\<rparr>)"

inductive_cases slot_step_elim: "slot_step s s'"

section \<open>Specification\<close>

text \<open>
  The contract of a pool of slots between goroutines: \<open>held n b p\<close> relates a pool to the \<open>n\<close> slots out and
  the \<open>b\<close> refusals under way. A client that pairs every admission with a release and every refusal with a
  backing out keeps \<open>held\<close>, and with it the cap.
\<close>

locale slot_pool =
  fixes start :: "'p \<Rightarrow> 'p \<times> bool"
    and backout :: "'p \<Rightarrow> 'p"
    and release :: "'p \<Rightarrow> 'p"
    and held :: "nat \<Rightarrow> nat \<Rightarrow> 'p \<Rightarrow> bool"
    and cap :: "'p \<Rightarrow> nat option"
  assumes start_yes: "held n b p \<Longrightarrow> n + b < 2 ^ 31 - 1 \<Longrightarrow> start p = (p', True) \<Longrightarrow> held (Suc n) b p'"
    and start_no: "held n b p \<Longrightarrow> n + b < 2 ^ 31 - 1 \<Longrightarrow> start p = (p', False) \<Longrightarrow> held n (Suc b) p'"
    and backout_one: "held n (Suc b) p \<Longrightarrow> held n b (backout p)"
    and release_one: "held (Suc n) b p \<Longrightarrow> held n b (release p)"
    and held_cap: "held n b p \<Longrightarrow> cap p = Some m \<Longrightarrow> n \<le> m"
    and cap_kept: "cap (fst (start p)) = cap p" "cap (backout p) = cap p" "cap (release p) = cap p"
begin

lemma refusal_costs_nothing:
  assumes "held n b p" "n + b < 2 ^ 31 - 1" "start p = (p', False)"
  shows "held n b (backout p')"
  using start_no[OF assms] by (rule backout_one)

lemma admission_paid_back:
  assumes "held n b p" "n + b < 2 ^ 31 - 1" "start p = (p', True)"
  shows "held n b (release p')"
  using start_yes[OF assms] by (rule release_one)

end

text \<open>A limiter with \<open>n\<close> slots out and \<open>b\<close> refusals under way; without a cap the counter is not touched.\<close>

definition limiter_held :: "nat \<Rightarrow> nat \<Rightarrow> Limiter option \<Rightarrow> bool" where
  "limiter_held n b lo \<longleftrightarrow> (\<forall>l. lo = Some l \<and> sint (li_maxConns l) > 0 \<longrightarrow>
     n + b < 2 ^ 31 \<and> sint (li_active l) = int (n + b) \<and> int n \<le> sint (li_maxConns l))"

definition limiter_cap_of :: "Limiter option \<Rightarrow> nat option" where
  "limiter_cap_of lo =
     (case lo of None \<Rightarrow> None | Some l \<Rightarrow> if sint (li_maxConns l) > 0 then Some (nat (sint (li_maxConns l))) else None)"

section \<open>Lemmas\<close>

lemma sint_range32: "- (2 ^ 31) \<le> sint (w :: 32 word)" "sint (w :: 32 word) < 2 ^ 31"
  using sint_range_size[of w] by (simp_all add: word_size)

lemma sint_inc: "sint (w :: 32 word) < 2 ^ 31 - 1 \<Longrightarrow> sint (w + 1) = sint w + 1"
  using sint_range32[of w] by (subst signed_take_bit_int_eq_self[symmetric, of 31 "sint w + 1"])
    (auto simp: sint_word_ariths)

lemma sint_dec: "- (2 ^ 31) < sint (w :: 32 word) \<Longrightarrow> sint (w - 1) = sint w - 1"
  using sint_range32[of w] by (subst signed_take_bit_int_eq_self[symmetric, of 31 "sint w - 1"])
    (auto simp: sint_word_ariths)

lemma limiter_begin:
  assumes "limiter_held n b lo" "n + b < 2 ^ 31 - 1" "acquire_begin lo = (lo', ok)"
  shows "limiter_held (if ok then Suc n else n) (if ok then b else Suc b) lo'"
proof (cases "\<exists>l. lo = Some l \<and> sint (li_maxConns l) > 0")
  case True
  then obtain l where l: "lo = Some l" "sint (li_maxConns l) > 0" by blast
  then have a: "sint (li_active l) = int (n + b)" "int n \<le> sint (li_maxConns l)" using assms(1) by (auto simp: limiter_held_def)
  then have "sint (li_active l + 1) = int (n + b) + 1" using sint_inc[of "li_active l"] assms(2) by simp
  moreover have "lo' = Some (l\<lparr>li_active := li_active l + 1\<rparr>)" "ok = (\<not> sint (li_active l + 1) > sint (li_maxConns l))"
    using assms(3) l by (auto simp: acquire_begin_def acquire_add_def Let_def)
  ultimately show ?thesis using a assms(2) by (auto simp: limiter_held_def)
next
  case False
  then have "lo' = lo \<and> ok" using assms(3) by (auto simp: acquire_begin_def split: option.splits if_splits)
  then show ?thesis using False by (auto simp: limiter_held_def)
qed

lemma limiter_down:
  assumes "limiter_held n b lo" "n + b = Suc k"
  shows "lo = Some l \<Longrightarrow> sint (li_maxConns l) > 0 \<Longrightarrow> sint (li_active l - 1) = int k"
  using assms sint_dec[of "li_active l"] by (auto simp: limiter_held_def)

lemma limiter_backout: "limiter_held n (Suc b) lo \<Longrightarrow> limiter_held n b (acquire_backout lo)"
  using limiter_down[of n "Suc b" lo "n + b"]
  by (cases lo) (auto simp: limiter_held_def acquire_backout_def acquire_undo_def)

lemma limiter_release: "limiter_held (Suc n) b lo \<Longrightarrow> limiter_held n b (Release lo)"
  using limiter_down[of "Suc n" b lo "n + b"]
  by (cases lo) (auto simp: limiter_held_def Release_def)

interpretation pool: slot_pool acquire_begin acquire_backout Release limiter_held limiter_cap_of
proof
  show "limiter_held (Suc n) b lo'" if "limiter_held n b lo" "n + b < 2 ^ 31 - 1" "acquire_begin lo = (lo', True)" for n b lo lo'
    using limiter_begin[OF that] by simp
  show "limiter_held n (Suc b) lo'" if "limiter_held n b lo" "n + b < 2 ^ 31 - 1" "acquire_begin lo = (lo', False)" for n b lo lo'
    using limiter_begin[OF that] by simp
  show "limiter_held n b (acquire_backout lo)" if "limiter_held n (Suc b) lo" for n b lo using limiter_backout[OF that] .
  show "limiter_held n b (Release lo)" if "limiter_held (Suc n) b lo" for n b lo using limiter_release[OF that] .
qed (auto simp: limiter_cap_of_def limiter_held_def acquire_begin_def acquire_add_def acquire_backout_def acquire_undo_def
    Release_def Let_def split: option.splits if_splits)

text \<open>Every step of the goroutines keeps the contract's relation and the cap.\<close>

lemma slots_step_held:
  assumes "slot_step s s'" "limiter_held (ss_held s) (ss_backing s) (ss_limiter s)"
  shows "limiter_held (ss_held s') (ss_backing s') (ss_limiter s') \<and> limiter_cap_of (ss_limiter s') = limiter_cap_of (ss_limiter s)"
  using assms(1)
proof (cases rule: slot_step.cases)
  case (admitted l)
  then show ?thesis using pool.start_yes[OF assms(2)] pool.cap_kept(1)[of "ss_limiter s"] by simp
next
  case (turned_away l)
  then show ?thesis using pool.start_no[OF assms(2)] pool.cap_kept(1)[of "ss_limiter s"] by simp
next
  case (backed_out b)
  then show ?thesis using pool.backout_one[of "ss_held s" b] assms(2) by (simp add: pool.cap_kept)
next
  case (released n)
  then show ?thesis using pool.release_one[of n "ss_backing s"] assms(2) by (simp add: pool.cap_kept)
qed

lemma slots_run_held:
  assumes "slot_step\<^sup>*\<^sup>* s s'" "limiter_held (ss_held s) (ss_backing s) (ss_limiter s)"
  shows "limiter_held (ss_held s') (ss_backing s') (ss_limiter s') \<and> limiter_cap_of (ss_limiter s') = limiter_cap_of (ss_limiter s)"
  using assms by (induction rule: rtranclp_induct) (auto dest: slots_step_held)

lemma limits_New_cap:
  assumes "0 < lc_MaxConnections c" "lc_MaxConnections c < 2 ^ 31"
  shows "limiter_cap_of (limits_New c) = Some (nat (lc_MaxConnections c))" "limiter_held 0 0 (limits_New c)"
  using assms by (auto simp: limits_New_def limiter_cap_of_def limiter_held_def sint_sbintrunc' signed_take_bit_int_eq_self)

lemma limiter_held_active:
  assumes "limiter_held n b lo" "limiter_cap_of lo = Some m"
  shows "Active lo = int n + int b" "n \<le> m"
  using assms by (auto simp: limiter_held_def limiter_cap_of_def Active_def split: option.splits if_splits)

lemma wait_pieces_sum: "0 \<le> n \<Longrightarrow> sum_list (wait_pieces burst (\<lambda>_. True) n i) = n"
proof (induction burst "\<lambda>_ :: nat. True" n i rule: wait_pieces.induct)
  case (1 burst n i)
  then show ?case by (subst wait_pieces.simps) (auto simp: Let_def)
qed

lemma wait_pieces_burst: "0 < burst \<Longrightarrow> c \<in> set (wait_pieces burst ok n i) \<Longrightarrow> 0 < c \<and> c \<le> burst"
proof (induction burst ok n i rule: wait_pieces.induct)
  case (1 burst ok n i)
  show ?case
    using 1(2,3) 1(1)[OF _ refl] unfolding wait_pieces.simps[of burst ok n i]
    by (auto simp: Let_def split: if_splits)
qed

section \<open>Properties\<close>

text \<open>The connection cap holds under every interleaving of goroutines that acquire, are refused, back out
  and release: never more slots are out than \<open>MaxConnections\<close>, and the counter is exactly the slots out
  plus the refusals not yet backed out, so a refusal never costs a slot.\<close>
theorem limiter_cap:
  assumes "0 < lc_MaxConnections c" "lc_MaxConnections c < 2 ^ 31"
    and "slot_step\<^sup>*\<^sup>* \<lparr>ss_limiter = limits_New c, ss_held = 0, ss_backing = 0\<rparr> s"
  shows "int (ss_held s) \<le> lc_MaxConnections c \<and> Active (ss_limiter s) = int (ss_held s) + int (ss_backing s)"
proof -
  from slots_run_held[OF assms(3)] limits_New_cap[OF assms(1,2)]
  have h: "limiter_held (ss_held s) (ss_backing s) (ss_limiter s)" "limiter_cap_of (ss_limiter s) = Some (nat (lc_MaxConnections c))"
    by simp_all
  show ?thesis using limiter_held_active[OF h] assms(1) by auto
qed

theorem limiter_cap_witness:
  "\<exists>s. slot_step\<^sup>*\<^sup>* \<lparr>ss_limiter = limits_New \<lparr>lc_MaxConnections = 1, lc_BandwidthMbps = 0\<rparr>, ss_held = 0, ss_backing = 0\<rparr> s \<and>
     ss_held s = 1 \<and> ss_backing s = 1 \<and> Active (ss_limiter s) = 2"
proof -
  let ?s = "\<lambda>a h b. \<lparr>ss_limiter = Some \<lparr>li_maxConns = 1, li_active = a, li_burst = None\<rparr>, ss_held = h, ss_backing = b\<rparr>"
  have n: "limits_New \<lparr>lc_MaxConnections = 1, lc_BandwidthMbps = 0\<rparr> = Some \<lparr>li_maxConns = 1, li_active = 0, li_burst = None\<rparr>"
    by (simp add: limits_New_def)
  have "slot_step (?s 0 0 0) (?s 1 1 0)"
    using slot_step.admitted[of "?s 0 0 0" "ss_limiter (?s 1 1 0)"] by (simp add: acquire_begin_def acquire_add_def Let_def)
  moreover have "slot_step (?s 1 1 0) (?s 2 1 1)"
    using slot_step.turned_away[of "?s 1 1 0" "ss_limiter (?s 2 1 1)"] by (simp add: acquire_begin_def acquire_add_def Let_def)
  ultimately have r: "slot_step\<^sup>*\<^sup>* (?s 0 0 0) (?s 2 1 1)" by simp
  show ?thesis
    using limiter_cap[of "\<lparr>lc_MaxConnections = 1, lc_BandwidthMbps = 0\<rparr>" "?s 2 1 1"] r unfolding n
    by (intro exI[of _ "?s 2 1 1"]) simp
qed

text \<open>Pacing charges for every byte and never asks the bucket for more than it can hold: the pieces a
  read or write of \<open>n\<close> bytes is charged in are all within the burst, and, unless the tunnel is being
  torn down, they add up to \<open>n\<close>; so an oversize write is slow and not refused for ever.\<close>
theorem wait_charges_exactly:
  assumes "0 \<le> n" "0 < burst"
  shows "(\<forall>c \<in> set (wait burst ok n). 0 < c \<and> c \<le> burst) \<and> ((\<forall>i. ok i) \<longrightarrow> sum_list (wait burst ok n) = n)"
proof -
  have "ok = (\<lambda>_. True)" if "\<forall>i. ok i" using that by auto
  then show ?thesis using wait_pieces_burst[OF assms(2)] wait_pieces_sum[OF assms(1)] by (auto simp: wait_def)
qed

theorem wait_charges_exactly_witness: "wait 4 (\<lambda>_. True) 10 = [4, 4, 2] \<and> sum_list (wait 4 (\<lambda>_. True) 10) = 10"
  using wait_charges_exactly[of 10 4 "\<lambda>_. True"] by (simp add: wait_def wait_pieces.simps)

end
