(* ===== verification/Chain.thy ===== *)
theory Chain
  imports Prelude "HOL-Library.Signed_Division"
begin

text \<open>
  The fallback chain, \<open>src/internal/tunnel/chain/chain.go\<close>, with \<open>Dwell\<close> and the check of the list from
  \<open>src/config/fallback.go\<close>: the candidates, how long each is given, and the supervisor that walks them. The
  supervisor is a state machine over the events its \<open>select\<close> statements wait for; an event carries the
  time it was handled at. Log lines are not modelled; what is handed to \<open>OnSettled\<close> is.
\<close>

section \<open>Definitions\<close>

record Chain =
  ch_candidates :: "string list"
  ch_dwell :: duration
  ch_regrace :: duration
  ch_teardown :: duration
  ch_poll :: duration
  ch_windowFloor :: duration

fun keep_candidates :: "string list \<Rightarrow> string list \<Rightarrow> string list" where
  "keep_candidates seen [] = []"
| "keep_candidates seen (name # names) =
     (if name = [] \<or> name \<in> set seen then keep_candidates seen names
      else name # keep_candidates (name # seen) names)"

definition chain_New :: "string \<Rightarrow> string list \<Rightarrow> duration \<Rightarrow> Chain" where
  "chain_New primary fallbacks dwell =
     \<lparr>ch_candidates = keep_candidates [] (primary # fallbacks), ch_dwell = dwell, ch_regrace = 5 * minute,
      ch_teardown = 3 * second, ch_poll = 250 * millisecond, ch_windowFloor = 5 * second\<rparr>"

definition Single :: "Chain \<Rightarrow> bool" where "Single c \<longleftrightarrow> length (ch_candidates c) \<le> 1"

definition attemptWindow :: "Chain \<Rightarrow> bool \<Rightarrow> duration" where
  "attemptWindow c sweep =
     (if \<not> sweep \<or> length (ch_candidates c) < 2 then ch_dwell c
      else let w = ch_dwell c sdiv int (length (ch_candidates c))
           in if w < ch_windowFloor c then ch_windowFloor c else w)"

definition DefaultFallbackDwell :: duration where "DefaultFallbackDwell = 60 * second"

definition Dwell :: "int \<Rightarrow> duration" where
  "Dwell seconds = (if seconds \<le> 0 then DefaultFallbackDwell else seconds * second)"

definition fallbackCapable :: "string list" where
  "fallbackCapable = [''tcp'', ''tcpmux'', ''stealth'', ''ws'', ''wss'', ''wsmux'', ''wssmux'', ''kcp'', ''quic'', ''udp'', ''xdi'', ''pck'']"

datatype fallback_error = PrimaryIncapable string | NotReverse string | ListedTwice string

fun check_fallbacks :: "string list \<Rightarrow> string list \<Rightarrow> fallback_error option" where
  "check_fallbacks seen [] = None"
| "check_fallbacks seen (t # ts) =
     (if t \<notin> set fallbackCapable then Some (NotReverse t)
      else if t \<in> set seen then Some (ListedTwice t)
      else check_fallbacks (t # seen) ts)"

definition ValidateFallbackTransports :: "string \<Rightarrow> string list \<Rightarrow> fallback_error option" where
  "ValidateFallbackTransports primary list =
     (if list = [] then None
      else if primary \<notin> set fallbackCapable then Some (PrimaryIncapable primary)
      else check_fallbacks [] list)"

text \<open>One tick of \<open>hold\<close>: where \<open>downSince\<close> ends up, or that the candidate is given up.\<close>

definition hold_tick :: "duration \<Rightarrow> instant \<Rightarrow> instant \<times> bool \<Rightarrow> instant option" where
  "hold_tick regrace downSince tick =
     (case tick of
        (now, settled) \<Rightarrow>
          if settled then Some zero_time
          else if is_zero_time downSince then Some now
          else if now - downSince \<ge> regrace then None
          else Some downSince)"

text \<open>Where \<open>Run\<close> is: in \<open>attempt\<close> waiting for a candidate to settle, parked on a candidate for good, in
  \<open>hold\<close>, in the deferred teardown wait, or returned.\<close>

datatype chain_phase = Trying | Parked | Holding instant | Teardown | Returned

record chain_state =
  cs_i :: nat
  cs_phase :: chain_phase
  cs_remembered :: "string list"

datatype chain_event = CtxDone | DeadlineFired | Tick instant bool | TeardownOver

definition candidate :: "Chain \<Rightarrow> nat \<Rightarrow> string" where
  "candidate c i = ch_candidates c ! (i mod length (ch_candidates c))"

text \<open>The first thing \<open>attempt\<close> does: start the candidate; one without \<open>Settled\<close> owns the tunnel.\<close>

definition begin_attempt :: "(string \<Rightarrow> bool) \<Rightarrow> Chain \<Rightarrow> nat \<Rightarrow> string list \<Rightarrow> chain_state" where
  "begin_attempt watched c i rem =
     \<lparr>cs_i = i, cs_phase = (if watched (candidate c i) then Trying else Parked), cs_remembered = rem\<rparr>"

definition leave_attempt :: "(string \<Rightarrow> bool) \<Rightarrow> Chain \<Rightarrow> chain_state \<Rightarrow> chain_state" where
  "leave_attempt watched c s =
     (if length (ch_candidates c) > 1 then s\<lparr>cs_phase := Teardown\<rparr>
      else begin_attempt watched c (Suc (cs_i s)) (cs_remembered s))"

definition run_start :: "(string \<Rightarrow> bool) \<Rightarrow> Chain \<Rightarrow> chain_state" where
  "run_start watched c =
     (if ch_candidates c = [] then \<lparr>cs_i = 0, cs_phase = Parked, cs_remembered = []\<rparr>
      else begin_attempt watched c 0 [])"

definition chain_step :: "(string \<Rightarrow> bool) \<Rightarrow> Chain \<Rightarrow> chain_state \<Rightarrow> chain_event \<Rightarrow> chain_state" where
  "chain_step watched c s e =
     (case e of
        CtxDone \<Rightarrow> s\<lparr>cs_phase := Returned\<rparr>
      | DeadlineFired \<Rightarrow>
          (if cs_phase s = Trying then
             if length (ch_candidates c) = 1 then s\<lparr>cs_phase := Parked\<rparr> else leave_attempt watched c s
           else s)
      | Tick now settled \<Rightarrow>
          (case cs_phase s of
             Trying \<Rightarrow>
               if \<not> settled then s
               else s\<lparr>cs_phase := Holding zero_time, cs_remembered := cs_remembered s @ [candidate c (cs_i s)]\<rparr>
           | Holding downSince \<Rightarrow>
               (case hold_tick (ch_regrace c) downSince (now, settled) of
                  Some d \<Rightarrow> s\<lparr>cs_phase := Holding d\<rparr>
                | None \<Rightarrow> leave_attempt watched c s)
           | _ \<Rightarrow> s)
      | TeardownOver \<Rightarrow>
          (if cs_phase s = Teardown then begin_attempt watched c (Suc (cs_i s)) (cs_remembered s) else s))"

section \<open>Specification\<close>

text \<open>Ticks handled while holding; \<open>None\<close> once the candidate is given up.\<close>

fun hold_run :: "duration \<Rightarrow> instant \<Rightarrow> (instant \<times> bool) list \<Rightarrow> instant option" where
  "hold_run regrace d [] = Some d"
| "hold_run regrace d (x # xs) =
     (case hold_tick regrace d x of None \<Rightarrow> None | Some d' \<Rightarrow> hold_run regrace d' xs)"

text \<open>When a sweep in which nothing comes up makes its \<open>k\<close>-th attempt: every attempt takes its window and
  then the teardown.\<close>

definition attempt_start :: "Chain \<Rightarrow> bool \<Rightarrow> instant \<Rightarrow> nat \<Rightarrow> instant" where
  "attempt_start c sweep t0 k = t0 + int k * (attemptWindow c sweep + ch_teardown c)"

definition attempting :: "Chain \<Rightarrow> bool \<Rightarrow> instant \<Rightarrow> nat \<Rightarrow> instant \<Rightarrow> bool" where
  "attempting c sweep t0 k t \<longleftrightarrow>
     attempt_start c sweep t0 k \<le> t \<and> t \<le> attempt_start c sweep t0 k + attemptWindow c sweep"

section \<open>Lemmas\<close>

lemma keep_candidates_props:
  "distinct (keep_candidates seen names) \<and> set (keep_candidates seen names) = set names - set seen - {[]}"
  by (induction seen names rule: keep_candidates.induct) auto

text \<open>While a tick list is held through, \<open>downSince\<close> is the first of the unsettled ticks at its end.\<close>

lemma hold_run_down:
  assumes "hold_run regrace d xs = Some d'" "\<not> is_zero_time d'" "\<And>x. x \<in> set xs \<Longrightarrow> \<not> is_zero_time (fst x)"
  shows "(d' = d \<and> (\<forall>x \<in> set xs. \<not> snd x)) \<or>
    (\<exists>ys zs. xs = ys @ (d', False) # zs \<and> (\<forall>x \<in> set zs. \<not> snd x))"
  using assms
proof (induction xs arbitrary: d)
  case (Cons x xs)
  obtain now st where x: "x = (now, st)" by fastforce
  obtain e where e: "hold_tick regrace d x = Some e" "hold_run regrace e xs = Some d'"
    using Cons.prems(1) by (auto split: option.splits)
  consider "d' = e" "\<forall>y \<in> set xs. \<not> snd y" | ys zs where "xs = ys @ (d', False) # zs" "\<forall>y \<in> set zs. \<not> snd y"
    using Cons.IH[OF e(2)] Cons.prems by auto
  then show ?case
  proof cases
    case 1
    have "st = False" "e = now \<or> e = d"
      using e(1) 1(1) Cons.prems(2) by (auto simp: hold_tick_def x is_zero_time_def split: if_splits)
    then show ?thesis using 1 x by force
  next
    case 2
    then show ?thesis by (metis append_Cons)
  qed
qed simp

lemma hold_patient:
  assumes "hold_run regrace zero_time xs = Some d" "hold_tick regrace d (now, st) = None"
    and "\<And>x. x \<in> set xs \<Longrightarrow> \<not> is_zero_time (fst x)"
  shows "\<not> st \<and> now - d \<ge> regrace \<and> (\<exists>ys zs. xs = ys @ (d, False) # zs \<and> (\<forall>x \<in> set zs. \<not> snd x))"
proof -
  have t: "\<not> st" "\<not> is_zero_time d" "now - d \<ge> regrace"
    using assms(2) by (auto simp: hold_tick_def split: if_splits)
  moreover have "d \<noteq> zero_time" using t(2) by (auto simp: is_zero_time_def)
  ultimately show ?thesis using hold_run_down[OF assms(1) t(2) assms(3)] by auto
qed

abbreviation ticks :: "(instant \<times> bool) list \<Rightarrow> chain_event list" where
  "ticks xs \<equiv> map (\<lambda>(now, settled). Tick now settled) xs"

lemma ticks_in_teardown: "cs_phase s = Teardown \<Longrightarrow> foldl (chain_step watched c) s (ticks xs) = s"
  by (induction xs) (auto simp: chain_step_def)

lemma ticks_holding:
  assumes "cs_phase s = Holding d0" "length (ch_candidates c) > 1"
    and "cs_phase (foldl (chain_step watched c) s (ticks xs)) = Holding d"
  shows "hold_run (ch_regrace c) d0 xs = Some d"
  using assms
proof (induction xs arbitrary: s d0)
  case (Cons x xs)
  obtain now st where x: "x = (now, st)" by fastforce
  show ?case
  proof (cases "hold_tick (ch_regrace c) d0 x")
    case None
    then have "cs_phase (chain_step watched c s (Tick now st)) = Teardown"
      using Cons.prems(1,2) by (simp add: chain_step_def leave_attempt_def x)
    then show ?thesis using Cons.prems(3) by (simp add: x ticks_in_teardown)
  next
    case (Some e)
    then have "cs_phase (chain_step watched c s (Tick now st)) = Holding e"
      using Cons.prems(1) by (simp add: chain_step_def x)
    then show ?thesis using Cons.IH[OF _ Cons.prems(2)] Cons.prems(3) Some by (simp add: x)
  qed
qed simp

lemma attempt_start_add:
  "attempt_start c sweep t0 (q * n + j) =
   t0 + int q * (int n * (attemptWindow c sweep + ch_teardown c)) + int j * (attemptWindow c sweep + ch_teardown c)"
  by (simp add: attempt_start_def algebra_simps)

text \<open>The least \<open>q\<close> with \<open>a \<le> b + q * P\<close> overshoots by less than \<open>P\<close>.\<close>

lemma least_multiple:
  assumes "0 < (P :: int)"
  shows "\<exists>q :: nat. a \<le> b + int q * P \<and> (q = 0 \<or> b + int q * P < a + P)"
proof (cases "a \<le> b")
  case False
  define x where "x = a - b + P - 1"
  have "x div P * P + x mod P = x" "0 \<le> x mod P" "x mod P < P" using assms by simp_all
  then have "x div P * P \<le> x" "x < x div P * P + P" by linarith+
  moreover have "0 \<le> x div P" using False assms by (simp add: x_def pos_imp_zdiv_nonneg_iff)
  ultimately show ?thesis by (intro exI[of _ "nat (x div P)"]) (auto simp: x_def)
qed (auto intro: exI[of _ 0])

lemma window_positive:
  assumes "0 < dwell"
  shows "0 < attemptWindow (chain_New primary fallbacks dwell) sweep"
  using assms by (auto simp: attemptWindow_def chain_New_def Let_def second_def millisecond_def nanosecond_def)

section \<open>Properties\<close>

text \<open>A carrier that came up is left only for a long outage: in a chain with somewhere else to go, if the
  supervisor gives up a candidate it was holding, then every check since some instant \<open>d\<close> found it down,
  and that instant lies at least \<open>regrace\<close> back. A recovery in between starts the count again.\<close>
theorem chain_hold_patience:
  assumes "length (ch_candidates c) > 1" "cs_phase s = Holding zero_time"
    and "\<And>x. x \<in> set xs \<Longrightarrow> \<not> is_zero_time (fst x)"
    and "foldl (chain_step watched c) s (ticks xs) = s1" "cs_phase s1 = Holding d"
    and "cs_phase (chain_step watched c s1 (Tick now st)) = Teardown"
  shows "\<not> st \<and> now - d \<ge> ch_regrace c \<and> (\<exists>ys zs. xs = ys @ (d, False) # zs \<and> (\<forall>x \<in> set zs. \<not> snd x))"
proof -
  have r: "hold_run (ch_regrace c) zero_time xs = Some d" using ticks_holding[OF assms(2,1)] assms(4,5) by blast
  have "hold_tick (ch_regrace c) d (now, st) = None"
    using assms(5,6) by (auto simp: chain_step_def split: option.splits)
  from hold_patient[OF r this assms(3)] show ?thesis .
qed

theorem chain_hold_patience_witness:
  "(let c = chain_New ''tcp'' [''ws''] DefaultFallbackDwell;
        s = \<lparr>cs_i = 0, cs_phase = Holding zero_time, cs_remembered = [''tcp'']\<rparr>;
        s1 = foldl (chain_step (\<lambda>_. True) c) s (ticks [(5, True), (7 * second, False)])
    in cs_phase s1 = Holding (7 * second) \<and>
       cs_phase (chain_step (\<lambda>_. True) c s1 (Tick (400 * second) False)) = Teardown \<and>
       400 * second - 7 * second \<ge> ch_regrace c)"
proof -
  let ?c = "chain_New ''tcp'' [''ws''] DefaultFallbackDwell"
  let ?s = "\<lparr>cs_i = 0, cs_phase = Holding zero_time, cs_remembered = [''tcp'']\<rparr>"
  have l: "length (ch_candidates ?c) > 1" by (simp add: chain_New_def)
  have z: "\<not> is_zero_time (fst x)" if "x \<in> set [(5, True), (7 * second, False)]" for x
    using that by (auto simp: is_zero_time_def zero_time_def second_def millisecond_def nanosecond_def)
  have h: "cs_phase (foldl (chain_step (\<lambda>_. True) ?c) ?s (ticks [(5, True), (7 * second, False)])) = Holding (7 * second)"
    by (simp add: chain_step_def hold_tick_def is_zero_time_def zero_time_def)
  have t: "cs_phase (chain_step (\<lambda>_. True) ?c (foldl (chain_step (\<lambda>_. True) ?c) ?s (ticks [(5, True), (7 * second, False)]))
      (Tick (400 * second) False)) = Teardown"
    using h l by (simp add: chain_step_def hold_tick_def is_zero_time_def zero_time_def leave_attempt_def chain_New_def
        second_def millisecond_def nanosecond_def minute_def)
  show ?thesis using chain_hold_patience[OF l _ z refl h t] h t by (simp only: Let_def) simp
qed



text \<open>The margin is not always there. With the default dwell and five candidates the client is away from
  a candidate for longer than the server dwells on it: there is a dwell during which the client makes
  no attempt on that candidate at all, although its five windows add up to no more than the dwell.\<close>
theorem chain_can_miss:
  assumes "c = chain_New ''tcp'' [''ws'', ''kcp'', ''quic'', ''udp''] (Dwell 0)"
  shows "5 * attemptWindow c True \<le> ch_dwell c \<and>
    (\<exists>s \<ge> t0. \<forall>k t. candidate c k = ''tcp'' \<longrightarrow> s \<le> t \<longrightarrow> t \<le> s + ch_dwell c \<longrightarrow> \<not> attempting c True t0 k t)"
proof -
  have w: "attemptWindow c True = 12 * second" "ch_teardown c = 3 * second" "ch_dwell c = 60 * second"
    "ch_candidates c = [''tcp'', ''ws'', ''kcp'', ''quic'', ''udp'']"
    using assms by (simp_all add: chain_New_def attemptWindow_def Dwell_def DefaultFallbackDwell_def second_def millisecond_def
        nanosecond_def Let_def signed_divide_int_def)
  have "\<not> attempting c True t0 k t"
    if "candidate c k = ''tcp''" "t0 + 12 * second + 1 \<le> t" "t \<le> t0 + 12 * second + 1 + 60 * second" for k t
  proof (cases "k = 0")
    case False
    have "k mod 5 = 0 \<or> k mod 5 = 1 \<or> k mod 5 = 2 \<or> k mod 5 = 3 \<or> k mod 5 = 4" by presburger
    then have "k mod 5 = 0" using that(1) by (elim disjE) (simp_all add: candidate_def w(4))
    then have "5 \<le> k" using False by auto
    then have "5 * (15 * second) \<le> int k * (15 * second)" by (intro mult_right_mono) (auto simp: second_def millisecond_def nanosecond_def)
    then show ?thesis using that(3) by (simp add: attempting_def attempt_start_def w second_def millisecond_def nanosecond_def)
  qed (use that in \<open>simp add: attempting_def attempt_start_def w\<close>)
  then show ?thesis by (auto simp: w intro!: exI[of _ "t0 + 12 * second + 1"]) (simp_all add: second_def millisecond_def nanosecond_def)
qed

theorem chain_can_miss_witness:
  "\<exists>s \<ge> 0. \<forall>k t. candidate (chain_New ''tcp'' [''ws'', ''kcp'', ''quic'', ''udp''] (Dwell 0)) k = ''tcp'' \<longrightarrow> s \<le> t \<longrightarrow>
     t \<le> s + Dwell 0 \<longrightarrow> \<not> attempting (chain_New ''tcp'' [''ws'', ''kcp'', ''quic'', ''udp''] (Dwell 0)) True 0 k t"
  using chain_can_miss[OF refl, of 0] by (simp add: chain_New_def)

end
