(* ===== verification/TaskTable.thy ===== *)
theory TaskTable
  imports TunnelLimits
begin

text \<open>
  What the servers of forwarded connections have in common: every connection and every UDP flow is a
  goroutine in some stage, some stages hold a slot of the limiter, some are counted as active, and some
  are the entry of their client in the map of flows. \<open>table_ok\<close> says that slots, counter and map agree with
  the stages, and the locale \<open>task_table\<close> gives, over any \<open>slot_pool\<close>, one rule for each way a goroutine moves.
  \<open>Forward\<close> and \<open>DirectEdge\<close> interpret it.
\<close>

section \<open>Counting tasks\<close>

definition sat :: "('t \<Rightarrow> bool) \<Rightarrow> 't option \<Rightarrow> nat" where
  "sat P x = (case x of None \<Rightarrow> 0 | Some t \<Rightarrow> if P t then 1 else 0)"

definition how_many :: "('t \<Rightarrow> bool) \<Rightarrow> (nat \<rightharpoonup> 't) \<Rightarrow> nat" where
  "how_many P ts = (\<Sum>i \<in> dom ts. sat P (ts i))"

lemma how_many_split:
  assumes "finite (dom ts)"
  shows "how_many P ts = sat P (ts i) + (\<Sum>j \<in> dom ts - {i}. sat P (ts j))"
proof (cases "i \<in> dom ts")
  case True
  then show ?thesis unfolding how_many_def by (rule sum.remove[OF assms])
next
  case False
  then have "sat P (ts i) = 0" "dom ts - {i} = dom ts" by (auto simp: sat_def domIff)
  then show ?thesis unfolding how_many_def by simp
qed

lemma how_many_upd:
  assumes "finite (dom ts)"
  shows "how_many P (ts(i := x)) + sat P (ts i) = how_many P ts + sat P x"
proof -
  have "finite (dom (ts(i := x)))" using assms by simp
  moreover have "(\<Sum>j \<in> dom (ts(i := x)) - {i}. sat P ((ts(i := x)) j)) = (\<Sum>j \<in> dom ts - {i}. sat P (ts j))"
    by (rule sum.cong) auto
  ultimately show ?thesis using how_many_split[of "ts(i := x)" P i] how_many_split[OF assms, of P i] by simp
qed

lemma how_many_total:
  assumes "finite (dom ts)"
  shows "how_many P ts + how_many (\<lambda>t. \<not> P t) ts = card (dom ts)"
proof -
  have "how_many P ts + how_many (\<lambda>t. \<not> P t) ts = (\<Sum>i \<in> dom ts. sat P (ts i) + sat (\<lambda>t. \<not> P t) (ts i))"
    by (simp add: how_many_def sum.distrib)
  also have "\<dots> = (\<Sum>i \<in> dom ts. 1)" by (rule sum.cong) (auto simp: sat_def)
  finally show ?thesis by simp
qed

lemma how_many_empty [simp]: "how_many P Map.empty = 0"
  by (simp add: how_many_def)

lemma sat_simps [simp]: "sat P None = 0" "sat P (Some t) = (if P t then 1 else 0)"
  by (simp_all add: sat_def)

text \<open>A counter that follows the tasks in some stage, when one task moves.\<close>

lemma count_word:
  fixes n :: u64
  assumes "finite (dom ts)" "n = word_of_nat (how_many P ts)"
    "n' + word_of_nat (sat P (ts i)) = n + word_of_nat (sat P x)"
  shows "n' = word_of_nat (how_many P (ts(i := x)))"
proof -
  have "n' + word_of_nat (sat P (ts i)) = word_of_nat (how_many P ts + sat P x)" using assms(2,3) by simp
  also have "\<dots> = word_of_nat (how_many P (ts(i := x)) + sat P (ts i))" by (simp add: how_many_upd[OF assms(1)])
  finally show ?thesis by simp
qed

section \<open>Slots, counter and map of flows\<close>

definition table_ok :: "(nat \<Rightarrow> nat \<Rightarrow> 'p \<Rightarrow> bool) \<Rightarrow> ('t \<Rightarrow> bool) \<Rightarrow> ('t \<Rightarrow> bool) \<Rightarrow> ('t \<Rightarrow> 'k option) \<Rightarrow>
    (nat \<rightharpoonup> 't) \<Rightarrow> ('k \<rightharpoonup> nat) \<Rightarrow> 'p \<Rightarrow> u64 \<Rightarrow> bool" where
  "table_ok held holds counted flow tasks flows p active \<longleftrightarrow> finite (dom tasks) \<and>
     held (how_many holds tasks) (how_many (\<lambda>t. \<not> holds t) tasks) p \<and>
     active = word_of_nat (how_many counted tasks) \<and>
     (\<forall>k i. flows k = Some i \<longleftrightarrow> (\<exists>t. tasks i = Some t \<and> flow t = Some k))"

definition room_in :: "(nat \<rightharpoonup> 't) \<Rightarrow> bool" where
  "room_in tasks \<longleftrightarrow> card (dom tasks) < 2 ^ 31 - 1"

locale task_table = slot_pool start backout release held cap
  for start :: "'p \<Rightarrow> 'p \<times> bool" and backout release held cap +
  fixes holds :: "'t \<Rightarrow> bool"
    and counted :: "'t \<Rightarrow> bool"
    and flow :: "'t \<Rightarrow> 'k option"
  assumes waiting_is_bare: "\<not> holds t \<Longrightarrow> \<not> counted t \<and> flow t = None"
begin

lemma table_flows:
  assumes "table_ok held holds counted flow tasks flows p a"
  shows "flows k = Some i \<longleftrightarrow> (\<exists>t. tasks i = Some t \<and> flow t = Some k)"
  using assms unfolding table_ok_def by blast

lemma one_task_per_flow:
  assumes "table_ok held holds counted flow tasks flows p a"
    and "tasks i = Some t" "flow t = Some k" "tasks j = Some u" "flow u = Some k"
  shows "i = j"
proof -
  have "flows k = Some i" "flows k = Some j" using table_flows[OF assms(1)] assms(2-) by blast+
  then show ?thesis by simp
qed

text \<open>One task moves from one stage to another: what is left to show.\<close>

lemma table_move:
  assumes ok: "table_ok held holds counted flow tasks flows p a"
    and held: "\<And>n b. n + sat holds (tasks i) = how_many holds tasks + sat holds x \<Longrightarrow>
      b + sat (\<lambda>t. \<not> holds t) (tasks i) = how_many (\<lambda>t. \<not> holds t) tasks + sat (\<lambda>t. \<not> holds t) x \<Longrightarrow> held n b p'"
    and act: "a' + word_of_nat (sat counted (tasks i)) = a + word_of_nat (sat counted x)"
    and flows: "\<And>k j. flows' k = Some j \<longleftrightarrow> (\<exists>t. (tasks(i := x)) j = Some t \<and> flow t = Some k)"
  shows "table_ok held holds counted flow (tasks(i := x)) flows' p' a'"
proof -
  have fin: "finite (dom tasks)" using ok by (simp add: table_ok_def)
  note upd = how_many_upd[OF fin, of _ i x]
  have a: "a' = word_of_nat (how_many counted (tasks(i := x)))"
    using ok by (intro count_word[OF fin _ act]) (simp add: table_ok_def)
  show ?thesis
    unfolding table_ok_def using fin a held[OF upd upd] flows by simp
qed

lemma room_for_one:
  assumes "table_ok held holds counted flow tasks flows p a" "room_in tasks"
  shows "how_many holds tasks + how_many (\<lambda>t. \<not> holds t) tasks < 2 ^ 31 - 1"
  using assms how_many_total[of tasks holds] by (simp add: table_ok_def room_in_def)

lemma table_stage:
  assumes ok: "table_ok held holds counted flow tasks flows p a" and i: "tasks i = Some t" and h: "holds t" "holds t'"
    and act: "a' + (if counted t then 1 else 0) = a + (if counted t' then 1 else 0)" and fl: "flow t' = flow t"
  shows "table_ok held holds counted flow (tasks(i := Some t')) flows p a'"
proof (rule table_move[OF ok])
  show "flows k = Some j \<longleftrightarrow> (\<exists>ta. (tasks(i := Some t')) j = Some ta \<and> flow ta = Some k)" for k j
    using table_flows[OF ok, of k j] i fl by auto
qed (use ok i h act in \<open>auto simp: table_ok_def\<close>)

lemma table_leave:
  assumes ok: "table_ok held holds counted flow tasks flows p a" and i: "tasks i = Some t"
    and t: "holds t" "\<not> counted t" "flow t = None"
  shows "table_ok held holds counted flow (tasks(i := None)) flows (release p) a"
proof (rule table_move[OF ok])
  fix n b
  assume "n + sat holds (tasks i) = how_many holds tasks + sat holds None"
    "b + sat (\<lambda>t. \<not> holds t) (tasks i) = how_many (\<lambda>t. \<not> holds t) tasks + sat (\<lambda>t. \<not> holds t) None"
  then have "held (Suc n) b p" using ok i t by (simp add: table_ok_def)
  then show "held n b (release p)" by (rule release_one)
next
  show "flows k = Some j \<longleftrightarrow> (\<exists>ta. (tasks(i := None)) j = Some ta \<and> flow ta = Some k)" for k j
    using table_flows[OF ok, of k j] i t(3) by auto
qed (use i t in auto)

lemma table_backout:
  assumes ok: "table_ok held holds counted flow tasks flows p a" and i: "tasks i = Some t" and t: "\<not> holds t"
  shows "table_ok held holds counted flow (tasks(i := None)) flows (backout p) a"
proof (rule table_move[OF ok])
  fix n b
  assume "n + sat holds (tasks i) = how_many holds tasks + sat holds None"
    "b + sat (\<lambda>t. \<not> holds t) (tasks i) = how_many (\<lambda>t. \<not> holds t) tasks + sat (\<lambda>t. \<not> holds t) None"
  then have "held n (Suc b) p" using ok i t by (simp add: table_ok_def)
  then show "held n b (backout p)" by (rule backout_one)
next
  show "flows k = Some j \<longleftrightarrow> (\<exists>ta. (tasks(i := None)) j = Some ta \<and> flow ta = Some k)" for k j
    using table_flows[OF ok, of k j] i waiting_is_bare[OF t] by auto
qed (use i waiting_is_bare[OF t] in auto)

lemma table_enter:
  assumes ok: "table_ok held holds counted flow tasks flows p a" and i: "tasks i = None" and r: "room_in tasks"
    and l: "start p = (p', b)" and t: "holds t = b" "\<not> counted t" "flow t = None"
  shows "table_ok held holds counted flow (tasks(i := Some t)) flows p' a"
proof (rule table_move[OF ok])
  let ?n = "how_many holds tasks" and ?b = "how_many (\<lambda>t. \<not> holds t) tasks"
  have h: "held ?n ?b p" using ok by (simp add: table_ok_def)
  fix n c
  assume "n + sat holds (tasks i) = ?n + sat holds (Some t)"
    "c + sat (\<lambda>t. \<not> holds t) (tasks i) = ?b + sat (\<lambda>t. \<not> holds t) (Some t)"
  then show "held n c p'"
    using start_yes[OF h room_for_one[OF ok r]] start_no[OF h room_for_one[OF ok r]] l t(1) i
    by (cases b) auto
next
  show "flows k = Some j \<longleftrightarrow> (\<exists>ta. (tasks(i := Some t)) j = Some ta \<and> flow ta = Some k)" for k j
    using table_flows[OF ok, of k j] i t(3) by auto
qed (use i t in auto)

text \<open>A flow enters the map, if its client has none, and leaves it.\<close>

lemma table_store:
  assumes ok: "table_ok held holds counted flow tasks flows p a" and i: "tasks i = Some t" and h: "holds t" "holds t'"
    and c: "counted t = counted t'" and fl: "flow t = None" "flow t' = Some k" "flows k = None"
  shows "table_ok held holds counted flow (tasks(i := Some t')) (flows(k := Some i)) p a"
proof (rule table_move[OF ok])
  show "(flows(k := Some i)) k' = Some j \<longleftrightarrow> (\<exists>ta. (tasks(i := Some t')) j = Some ta \<and> flow ta = Some k')" for k' j
    using table_flows[OF ok, of k' j] table_flows[OF ok, of k' i] i fl by (auto split: if_splits)
qed (use ok i h c in \<open>auto simp: table_ok_def\<close>)

lemma table_unstore:
  assumes ok: "table_ok held holds counted flow tasks flows p a" and i: "tasks i = Some t" and h: "holds t" "holds t'"
    and c: "counted t = counted t'" and fl: "flow t = Some k" "flow t' = None"
  shows "table_ok held holds counted flow (tasks(i := Some t')) (flows(k := None)) p a"
proof (rule table_move[OF ok])
  have "flows k = Some i" using table_flows[OF ok, of k i] i fl(1) by simp
  then show "(flows(k := None)) k' = Some j \<longleftrightarrow> (\<exists>ta. (tasks(i := Some t')) j = Some ta \<and> flow ta = Some k')" for k' j
    using table_flows[OF ok, of k' j] i fl by (auto split: if_splits)
qed (use ok i h c in \<open>auto simp: table_ok_def\<close>)

lemma table_start: "held 0 0 p \<Longrightarrow> table_ok held holds counted flow Map.empty Map.empty p 0"
  by (simp add: table_ok_def)

end

end
