(* ===== verification/Forward.thy ===== *)
theory Forward
  imports Portmap TaskTable
begin

text \<open>
  The port forwarder, \<open>src/internal/tunnel/l3/forward.go\<close>: construction, choice of a backend, the report of
  unreachable backends, and the life of TCP connections and UDP flows with their slots and counters.

  Every accepted connection and every UDP flow is a goroutine of its own. Each is a \<open>task\<close> of the state, in
  the stage it has reached, and the step relation \<open>fwd_step\<close> interleaves their atomic actions: the two
  halves of \<open>Acquire\<close>, each counter, the map of flows. A dial, and how a read ended, are arguments. The
  copying of bytes and the listeners themselves are system calls and not modelled.
\<close>

section \<open>Definitions\<close>

definition deadBackendRepeat :: duration where "deadBackendRepeat = minute"
definition udpFlowIdle :: duration where "udpFlowIdle = 2 * minute"

record backendState =
  bs_down :: bool
  bs_said :: instant
  bs_failures :: u64

datatype reach_log = AnsweringAgain string u64 | NothingAnswers string | StillNotAnswering string u64

record Forwarder =
  fw_mappings :: "Mapping list"
  fw_acceptUDP :: bool
  fw_limiter :: "Limiter option"
  fw_accepted :: u64
  fw_refused :: u64
  fw_active :: u64
  fw_reach :: "string \<rightharpoonup> backendState"
  fw_log :: "reach_log list"

definition NewForwarder :: "string list \<Rightarrow> string \<Rightarrow> bool \<Rightarrow> LimitConfig \<Rightarrow> portmap_error + Forwarder option" where
  "NewForwarder ports peerIP acceptUDP limits =
     (if ports = [] then Inr None
      else case Expand ports peerIP of
             Inl e \<Rightarrow> Inl e
           | Inr mappings \<Rightarrow>
               if mappings = [] then Inr None
               else Inr (Some \<lparr>fw_mappings = mappings, fw_acceptUDP = acceptUDP, fw_limiter = limits_New limits,
                               fw_accepted = 0, fw_refused = 0, fw_active = 0, fw_reach = Map.empty, fw_log = []\<rparr>))"

definition noteBackend :: "instant \<Rightarrow> Mapping \<Rightarrow> bool \<Rightarrow> Forwarder \<Rightarrow> Forwarder" where
  "noteBackend now m failed f =
     (let listen = mp_Listen m;
          st = (case fw_reach f listen of None \<Rightarrow> \<lparr>bs_down = False, bs_said = zero_time, bs_failures = 0\<rparr> | Some st \<Rightarrow> st)
      in if \<not> failed then
           f\<lparr>fw_reach := (fw_reach f)(listen \<mapsto> st\<lparr>bs_down := False, bs_failures := 0\<rparr>),
             fw_log := (if bs_down st then fw_log f @ [AnsweringAgain listen (bs_failures st)] else fw_log f)\<rparr>
         else
           let st1 = st\<lparr>bs_failures := bs_failures st + 1\<rparr> in
           if bs_down st1 \<and> now - bs_said st1 < deadBackendRepeat then f\<lparr>fw_reach := (fw_reach f)(listen \<mapsto> st1)\<rparr>
           else f\<lparr>fw_reach := (fw_reach f)(listen \<mapsto> st1\<lparr>bs_down := True, bs_said := now\<rparr>),
                  fw_log := fw_log f @ [if bs_down st1 then StillNotAnswering listen (bs_failures st1) else NothingAnswers listen]\<rparr>)"

text \<open>\<open>dialBackend\<close>: the index is a signed remainder, so a cursor past \<open>2 ^ 63\<close> would index below zero.\<close>

datatype 'k dial_result = Dialled 'k | AllFailed | NoBackends | IndexPanic

fun dial_loop :: "(nat \<Rightarrow> 'a \<Rightarrow> 'k option) \<Rightarrow> 'a list \<Rightarrow> int \<Rightarrow> nat list \<Rightarrow> 'k dial_result" where
  "dial_loop dial targets start [] = AllFailed"
| "dial_loop dial targets start (i # is) =
     (let x = (start + int i) smod int (length targets) in
      if x < 0 then IndexPanic
      else case dial i (targets ! nat x) of
             Some k \<Rightarrow> Dialled k
           | None \<Rightarrow> dial_loop dial targets start is)"

definition dialBackend :: "(nat \<Rightarrow> string \<Rightarrow> 'k option) \<Rightarrow> string list \<Rightarrow> u64 \<Rightarrow> u64 \<times> 'k dial_result" where
  "dialBackend dial targets cursor =
     (if targets = [] then (cursor, NoBackends)
      else (cursor + 1, dial_loop dial targets (sint cursor smod int (length targets)) [0..<length targets]))"

text \<open>A UDP flow's last traffic, and what its reply pump does about a read that failed.\<close>

definition flow_idle :: "instant \<Rightarrow> instant \<Rightarrow> duration \<Rightarrow> bool" where
  "flow_idle lastSeen now limit \<longleftrightarrow> now - lastSeen > limit"

definition pump_goes_on :: "bool \<Rightarrow> bool \<Rightarrow> instant \<Rightarrow> instant \<Rightarrow> bool" where
  "pump_goes_on ended timeout lastSeen now \<longleftrightarrow> \<not> ended \<and> timeout \<and> \<not> flow_idle lastSeen now udpFlowIdle"

text \<open>
  The stages. \<open>Refusing\<close>: turned away, about to back out. \<open>TcpAdmitted\<close>: slot held, not counted as active
  yet; \<open>TcpDialling\<close>, \<open>TcpPiping\<close>: counted; \<open>TcpLeaving\<close>: no longer counted, slot still held. \<open>UdpOpening\<close>: slot
  held, dialling; \<open>UdpStored\<close>: in the map, not counted yet; \<open>UdpLive\<close>: counted, with the time of its last
  traffic; \<open>UdpEnding\<close>: out of the map, still counted; \<open>UdpLeaving\<close>: no longer counted, slot still held.
\<close>

type_synonym flow_key = "string \<times> string"

datatype task = Refusing | TcpAdmitted Mapping | TcpDialling Mapping | TcpPiping | TcpLeaving
  | UdpOpening flow_key | UdpStored flow_key instant | UdpLive flow_key instant | UdpEnding | UdpLeaving

record fwd_state =
  fs_fw :: Forwarder
  fs_tasks :: "nat \<rightharpoonup> task"
  fs_flows :: "flow_key \<rightharpoonup> nat"

definition set_limiter :: "Limiter option \<Rightarrow> Forwarder \<Rightarrow> Forwarder" where
  "set_limiter l f = f\<lparr>fw_limiter := l\<rparr>"

definition count_refused :: "Forwarder \<Rightarrow> Forwarder" where
  "count_refused f = f\<lparr>fw_refused := fw_refused f + 1\<rparr>"

definition count_accepted :: "Forwarder \<Rightarrow> Forwarder" where
  "count_accepted f = f\<lparr>fw_accepted := fw_accepted f + 1\<rparr>"

definition add_active :: "u64 \<Rightarrow> Forwarder \<Rightarrow> Forwarder" where
  "add_active d f = f\<lparr>fw_active := fw_active f + d\<rparr>"

definition go :: "(Forwarder \<Rightarrow> Forwarder) \<Rightarrow> nat \<Rightarrow> task option \<Rightarrow> fwd_state \<Rightarrow> fwd_state" where
  "go u i x s = s\<lparr>fs_fw := u (fs_fw s), fs_tasks := (fs_tasks s)(i := x)\<rparr>"

inductive fwd_step :: "fwd_state \<Rightarrow> fwd_state \<Rightarrow> bool" where
  turned_away: "fs_tasks s i = None \<Longrightarrow> room_in (fs_tasks s) \<Longrightarrow> acquire_begin (fw_limiter (fs_fw s)) = (l, False) \<Longrightarrow>
     fwd_step s (go (set_limiter l) i (Some Refusing) s)"
| backed_out: "fs_tasks s i = Some Refusing \<Longrightarrow>
     fwd_step s (go (\<lambda>f. count_refused (set_limiter (acquire_backout (fw_limiter f)) f)) i None s)"
| tcp_admitted: "fs_tasks s i = None \<Longrightarrow> room_in (fs_tasks s) \<Longrightarrow> acquire_begin (fw_limiter (fs_fw s)) = (l, True) \<Longrightarrow>
     fwd_step s (go (set_limiter l) i (Some (TcpAdmitted m)) s)"
| tcp_counted: "fs_tasks s i = Some (TcpAdmitted m) \<Longrightarrow>
     fwd_step s (go (add_active 1) i (Some (TcpDialling m)) s)"
| tcp_no_backend: "fs_tasks s i = Some (TcpDialling m) \<Longrightarrow>
     fwd_step s (go (\<lambda>f. add_active (- 1) (noteBackend now m True (count_refused f))) i (Some TcpLeaving) s)"
| tcp_connected: "fs_tasks s i = Some (TcpDialling m) \<Longrightarrow>
     fwd_step s (go (\<lambda>f. count_accepted (noteBackend now m False f)) i (Some TcpPiping) s)"
| tcp_done: "fs_tasks s i = Some TcpPiping \<Longrightarrow>
     fwd_step s (go (add_active (- 1)) i (Some TcpLeaving) s)"
| released: "fs_tasks s i = Some TcpLeaving \<or> fs_tasks s i = Some UdpLeaving \<Longrightarrow>
     fwd_step s (go (\<lambda>f. set_limiter (Release (fw_limiter f)) f) i None s)"
| udp_admitted: "fs_tasks s i = None \<Longrightarrow> room_in (fs_tasks s) \<Longrightarrow> fs_flows s k = None \<Longrightarrow>
     acquire_begin (fw_limiter (fs_fw s)) = (l, True) \<Longrightarrow>
     fwd_step s (go (set_limiter l) i (Some (UdpOpening k)) s)"
| udp_no_backend: "fs_tasks s i = Some (UdpOpening k) \<Longrightarrow>
     fwd_step s (go (\<lambda>f. count_refused (set_limiter (Release (fw_limiter f)) f)) i None s)"
| udp_raced: "fs_tasks s i = Some (UdpOpening k) \<Longrightarrow> fs_flows s k = Some j \<Longrightarrow>
     fwd_step s (go (\<lambda>f. set_limiter (Release (fw_limiter f)) f) i None s)"
| udp_stored: "fs_tasks s i = Some (UdpOpening k) \<Longrightarrow> fs_flows s k = None \<Longrightarrow>
     fwd_step s ((go id i (Some (UdpStored k now)) s)\<lparr>fs_flows := (fs_flows s)(k \<mapsto> i)\<rparr>)"
| udp_counted: "fs_tasks s i = Some (UdpStored k t) \<Longrightarrow>
     fwd_step s (go (\<lambda>f. add_active 1 (count_accepted f)) i (Some (UdpLive k t)) s)"
| udp_touched: "fs_tasks s i = Some (UdpLive k t) \<Longrightarrow>
     fwd_step s (go id i (Some (UdpLive k now)) s)"
| udp_ended: "fs_tasks s i = Some (UdpLive k t) \<Longrightarrow> \<not> pump_goes_on ended timeout t now \<Longrightarrow>
     fwd_step s ((go id i (Some UdpEnding) s)\<lparr>fs_flows := (fs_flows s)(k := None)\<rparr>)"
| udp_uncounted: "fs_tasks s i = Some UdpEnding \<Longrightarrow>
     fwd_step s (go (add_active (- 1)) i (Some UdpLeaving) s)"

inductive_cases fwd_step_elim: "fwd_step s s'"

definition fwd_start :: "Forwarder \<Rightarrow> fwd_state" where
  "fwd_start f = \<lparr>fs_fw = f, fs_tasks = Map.empty, fs_flows = Map.empty\<rparr>"

section \<open>Specification\<close>

fun holds_slot :: "task \<Rightarrow> bool" where
  "holds_slot Refusing = False" | "holds_slot _ = True"

fun is_counted :: "task \<Rightarrow> bool" where
  "is_counted (TcpDialling m) = True" | "is_counted TcpPiping = True"
| "is_counted (UdpLive k t) = True" | "is_counted UdpEnding = True" | "is_counted _ = False"

fun flow_of :: "task \<Rightarrow> flow_key option" where
  "flow_of (UdpStored k t) = Some k" | "flow_of (UdpLive k t) = Some k" | "flow_of _ = None"

definition fwd_ok :: "fwd_state \<Rightarrow> bool" where
  "fwd_ok s \<longleftrightarrow> table_ok limiter_held holds_slot is_counted flow_of (fs_tasks s) (fs_flows s)
     (fw_limiter (fs_fw s)) (fw_active (fs_fw s))"

section \<open>Lemmas\<close>

interpretation forwarded: task_table acquire_begin acquire_backout Release limiter_held limiter_cap_of
    holds_slot is_counted flow_of
proof
  show "\<not> holds_slot t \<Longrightarrow> \<not> is_counted t \<and> flow_of t = None" for t by (cases t) auto
qed

lemmas fwd_ops = set_limiter_def count_refused_def count_accepted_def add_active_def go_def fwd_ok_def

lemma noteBackend_keeps [simp]:
  "fw_limiter (noteBackend now m b f) = fw_limiter f" "fw_active (noteBackend now m b f) = fw_active f"
  by (auto simp: noteBackend_def Let_def)

lemma fwd_ok_step:
  assumes "fwd_step s s'" and "fwd_ok s"
  shows "fwd_ok s' \<and> limiter_cap_of (fw_limiter (fs_fw s')) = limiter_cap_of (fw_limiter (fs_fw s))"
proof -
  have ok: "table_ok limiter_held holds_slot is_counted flow_of (fs_tasks s) (fs_flows s)
      (fw_limiter (fs_fw s)) (fw_active (fs_fw s))"
    using assms(2) by (simp add: fwd_ok_def)
  note cap = pool.cap_kept(1)[of "fw_limiter (fs_fw s)"] pool.cap_kept(2,3)
  note enter = forwarded.table_enter[OF ok] and stage = forwarded.table_stage[OF ok]
    and leave = forwarded.table_leave[OF ok] and backout = forwarded.table_backout[OF ok]
    and store = forwarded.table_store[OF ok] and unstore = forwarded.table_unstore[OF ok]
  show ?thesis using assms(1)
  proof (cases rule: fwd_step.cases)
    case (turned_away i l)
    then show ?thesis using enter[of i l False Refusing] cap by (simp add: fwd_ops)
  next
    case (backed_out i)
    then show ?thesis using backout[of i Refusing] cap by (simp add: fwd_ops)
  next
    case (tcp_admitted i l m)
    then show ?thesis using enter[of i l True "TcpAdmitted m"] cap by (simp add: fwd_ops)
  next
    case (tcp_counted i m)
    then show ?thesis using stage[of i "TcpAdmitted m" "TcpDialling m"] by (simp add: fwd_ops)
  next
    case (tcp_no_backend i m now)
    then show ?thesis using stage[of i "TcpDialling m" TcpLeaving] by (simp add: fwd_ops)
  next
    case (tcp_connected i m now)
    then show ?thesis using stage[of i "TcpDialling m" TcpPiping] by (simp add: fwd_ops)
  next
    case (tcp_done i)
    then show ?thesis using stage[of i TcpPiping TcpLeaving] by (simp add: fwd_ops)
  next
    case (released i)
    then show ?thesis using leave[of i TcpLeaving] leave[of i UdpLeaving] cap by (auto simp: fwd_ops)
  next
    case (udp_admitted i k l)
    then show ?thesis using enter[of i l True "UdpOpening k"] cap by (simp add: fwd_ops)
  next
    case (udp_no_backend i k)
    then show ?thesis using leave[of i "UdpOpening k"] cap by (simp add: fwd_ops)
  next
    case (udp_raced i k j)
    then show ?thesis using leave[of i "UdpOpening k"] cap by (simp add: fwd_ops)
  next
    case (udp_stored i k now)
    then show ?thesis using store[of i "UdpOpening k" "UdpStored k now" k] by (simp add: fwd_ops)
  next
    case (udp_counted i k t)
    then show ?thesis using stage[of i "UdpStored k t" "UdpLive k t"] by (simp add: fwd_ops)
  next
    case (udp_touched i k t now)
    then show ?thesis using stage[of i "UdpLive k t" "UdpLive k now"] by (simp add: fwd_ops)
  next
    case (udp_ended i k t ended timeout now)
    then show ?thesis using unstore[of i "UdpLive k t" UdpEnding k] by (simp add: fwd_ops)
  next
    case (udp_uncounted i)
    then show ?thesis using stage[of i UdpEnding UdpLeaving] by (simp add: fwd_ops)
  qed
qed

lemma fwd_ok_run:
  assumes "fwd_step\<^sup>*\<^sup>* s s'" "fwd_ok s"
  shows "fwd_ok s' \<and> limiter_cap_of (fw_limiter (fs_fw s')) = limiter_cap_of (fw_limiter (fs_fw s))"
  using assms by (induction rule: rtranclp_induct) (auto dest: fwd_ok_step)

lemma fwd_start_ok:
  assumes "NewForwarder ports peerIP udp c = Inr (Some f)" "0 < lc_MaxConnections c" "lc_MaxConnections c < 2 ^ 31"
  shows "fwd_ok (fwd_start f)" "limiter_cap_of (fw_limiter f) = Some (nat (lc_MaxConnections c))"
  using assms limits_New_cap[OF assms(2,3)] forwarded.table_start[of "limits_New c"]
  by (auto simp: NewForwarder_def fwd_start_def fwd_ok_def split: if_splits sum.splits)

text \<open>The loop over the backends is a search along the list rotated by the cursor.\<close>

lemma dial_loop_find:
  assumes "targets \<noteq> []" "0 \<le> start"
  shows "dial_loop dial targets start ks =
    (case find (\<lambda>k. dial k (targets ! ((nat start + k) mod length targets)) \<noteq> None) ks of
       None \<Rightarrow> AllFailed | Some k \<Rightarrow> Dialled (the (dial k (targets ! ((nat start + k) mod length targets)))))"
proof (induction ks)
  case (Cons i ks)
  have "(start + int i) smod int (length targets) = int ((nat start + i) mod length targets)"
    using assms by (simp add: smod_nat zmod_int)
  then show ?case using Cons.IH by (auto simp: Let_def split: option.splits)
qed simp

section \<open>Properties\<close>

text \<open>Slots and counters stay in step over every interleaving of TCP connections and UDP flows: the
  connections and flows admitted never exceed \<open>MaxConnections\<close>, the reported number of active ones is
  exactly the number in the counted stages, a client address has at most one flow, and once nothing is
  running every slot is back and nothing is reported active.\<close>
theorem forwarder_slots:
  assumes "NewForwarder ports peerIP udp c = Inr (Some f)" "0 < lc_MaxConnections c" "lc_MaxConnections c < 2 ^ 31"
    and "fwd_step\<^sup>*\<^sup>* (fwd_start f) s"
  shows "int (how_many holds_slot (fs_tasks s)) \<le> lc_MaxConnections c \<and>
    fw_active (fs_fw s) = word_of_nat (how_many is_counted (fs_tasks s)) \<and>
    (\<forall>k i j t u. fs_tasks s i = Some t \<and> flow_of t = Some k \<and> fs_tasks s j = Some u \<and> flow_of u = Some k \<longrightarrow> i = j) \<and>
    (fs_tasks s = Map.empty \<longrightarrow> Active (fw_limiter (fs_fw s)) = 0 \<and> fw_active (fs_fw s) = 0)"
proof -
  note st = fwd_start_ok[OF assms(1-3)]
  have r: "fwd_ok s" "limiter_cap_of (fw_limiter (fs_fw s)) = Some (nat (lc_MaxConnections c))"
    using fwd_ok_run[OF assms(4) st(1)] st(2) by (simp_all add: fwd_start_def)
  note ok = r(1)[unfolded fwd_ok_def]
  have h: "limiter_held (how_many holds_slot (fs_tasks s)) (how_many (\<lambda>t. \<not> holds_slot t) (fs_tasks s)) (fw_limiter (fs_fw s))"
    "fw_active (fs_fw s) = word_of_nat (how_many is_counted (fs_tasks s))"
    using ok unfolding table_ok_def by blast+
  have "i = j" if "fs_tasks s i = Some t" "flow_of t = Some k" "fs_tasks s j = Some u" "flow_of u = Some k" for k i j t u
    by (rule forwarded.one_task_per_flow[OF ok that])
  then show ?thesis using limiter_held_active[OF h(1) r(2)] h(2) assms(2) by auto
qed

theorem forwarder_slots_witness:
  "\<exists>f s. NewForwarder [''7''] ''p'' True \<lparr>lc_MaxConnections = 1, lc_BandwidthMbps = 0\<rparr> = Inr (Some f) \<and>
     fwd_step\<^sup>*\<^sup>* (fwd_start f) s \<and> fs_tasks s 0 = Some (UdpOpening (''a'', ''b'')) \<and> fw_active (fs_fw s) = 0"
proof -
  let ?c = "\<lparr>lc_MaxConnections = 1, lc_BandwidthMbps = 0\<rparr>"
  have "Expand [''7''] ''p'' = Inr [\<lparr>mp_Listen = '':7'', mp_Targets = [''p:7'']\<rparr>]" by code_simp
  then obtain f where f: "NewForwarder [''7''] ''p'' True ?c = Inr (Some f)" "fw_limiter f = limits_New ?c"
    by (simp add: NewForwarder_def)
  obtain l where l: "acquire_begin (fw_limiter (fs_fw (fwd_start f))) = (l, True)"
    by (simp add: fwd_start_def f(2) limits_New_def acquire_begin_def acquire_add_def Let_def)
  let ?s = "go (set_limiter l) 0 (Some (UdpOpening (''a'', ''b''))) (fwd_start f)"
  have "fwd_step (fwd_start f) ?s"
    by (rule fwd_step.udp_admitted[OF _ _ _ l]) (simp_all add: fwd_start_def room_in_def)
  then have r: "fwd_step\<^sup>*\<^sup>* (fwd_start f) ?s" by simp
  have "how_many is_counted (fs_tasks ?s) = 0" by (simp add: go_def fwd_start_def how_many_def sat_def)
  then have a: "fw_active (fs_fw ?s) = 0" using forwarder_slots[OF f(1) _ _ r] by simp
  have "fs_tasks ?s 0 = Some (UdpOpening (''a'', ''b''))" by (simp add: go_def)
  then show ?thesis using f(1) r a by blast
qed

text \<open>The backends share the load and one that refuses is skipped: the connection with cursor \<open>c\<close> starts
  at backend \<open>c mod n\<close>, goes through all of them once in cyclic order, gets the first that answers, and
  fails only when every one of them refused.\<close>
theorem dial_backend_exact:
  assumes "targets \<noteq> []" "unat cursor < 2 ^ 63"
  shows "dialBackend dial targets cursor =
    (cursor + 1,
     case find (\<lambda>k. dial k (targets ! ((unat cursor + k) mod length targets)) \<noteq> None) [0..<length targets] of
       None \<Rightarrow> AllFailed | Some k \<Rightarrow> Dialled (the (dial k (targets ! ((unat cursor + k) mod length targets)))))"
proof -
  let ?n = "length targets"
  have "sint cursor smod int ?n = int (unat cursor mod ?n)"
    using assms(1) unfolding sint_small[OF assms(2)] by (simp add: smod_nat zmod_int)
  note sm = this
  note f = dial_loop_find[OF assms(1), of "int (unat cursor mod ?n)" dial "[0..<?n]", unfolded nat_int mod_add_left_eq]
  show ?thesis unfolding dialBackend_def sm by (simp only: f of_nat_0_le_iff assms(1) if_False)
qed

theorem dial_backend_exact_witness:
  "dialBackend (\<lambda>_ t. if t = ''b'' then None else Some t) [''a'', ''b'', ''c''] 4 = (5, Dialled ''c'')"
  using dial_backend_exact[of "[''a'', ''b'', ''c'']" 4 "\<lambda>_ t. if t = ''b'' then None else Some t"]
  by (simp add: upt_rec)

end
