(* ===== verification/ByteStream.thy ===== *)
theory ByteStream
  imports Prelude
begin

text \<open>
  Messages on a byte stream. A stream keeps the order and content of what is written and forgets where one
  write ended; the locale \<open>stream_codec\<close> states what a writer and a reader of length-prefixed messages owe
  each other so that the boundaries survive, and gives what follows for whole conversations, cut short
  anywhere. It is interpreted here on the framing of the reverse tunnels' control messages,
  \<open>src/internal/utils/binary.go\<close>, and in \<open>DirectWire\<close> on the requests and datagrams of the direct tunnel.

  A reader is a function of the bytes that will still arrive before the connection ends; \<open>io.ReadFull\<close> fails
  when they are fewer than asked for.
\<close>

section \<open>Definitions\<close>

definition ReadFull :: "nat \<Rightarrow> bytes \<Rightarrow> (bytes \<times> bytes) option" where
  "ReadFull n s = (if n \<le> length s then Some (take n s, drop n s) else None)"

text \<open>\<open>uint16(len(m))\<close> keeps the low sixteen bits of the length.\<close>

definition SendBinaryString :: "string \<Rightarrow> bytes" where
  "SendBinaryString message = put16 (word_of_nat (length message)) @ bytes_of message"

definition ReceiveBinaryString :: "bytes \<Rightarrow> (string \<times> bytes) option" where
  "ReceiveBinaryString s =
     Option.bind (ReadFull 2 s) (\<lambda>(lenBuf, s).
     Option.bind (ReadFull (unat (get16 lenBuf)) s) (\<lambda>(messageBuf, s).
     Some (string_of messageBuf, s)))"

definition SendBinaryTransportString :: "string \<Rightarrow> byte \<Rightarrow> bytes" where
  "SendBinaryTransportString message transport =
     put16 (word_of_nat (length message)) @ [transport] @ bytes_of message"

definition ReceiveBinaryTransportString :: "bytes \<Rightarrow> ((string \<times> byte) \<times> bytes) option" where
  "ReceiveBinaryTransportString s =
     Option.bind (ReadFull 3 s) (\<lambda>(lenBuf, s).
     Option.bind (ReadFull (unat (get16 lenBuf)) s) (\<lambda>(messageBuf, s).
     Some ((string_of messageBuf, lenBuf ! 2), s)))"

definition SendBinaryByte :: "byte \<Rightarrow> bytes" where "SendBinaryByte message = [message]"

definition ReceiveBinaryByte :: "bytes \<Rightarrow> (byte \<times> bytes) option" where
  "ReceiveBinaryByte s = Option.bind (ReadFull 1 s) (\<lambda>(messageBuf, s). Some (messageBuf ! 0, s))"

text \<open>Reading messages until a read fails, the loop of every receiver.\<close>

function read_all :: "(bytes \<Rightarrow> ('a \<times> bytes) option) \<Rightarrow> bytes \<Rightarrow> 'a list" where
  "read_all get s =
     (case get s of
        None \<Rightarrow> []
      | Some (x, rest) \<Rightarrow> x # (if length rest < length s then read_all get rest else []))"
  by pat_completeness auto
termination
  by (relation "measure (\<lambda>(get, s). length s)") auto

declare read_all.simps [simp del]

section \<open>Specification\<close>

text \<open>A message written whole is read back whole, leaving what follows it; and a message that was cut short
  is not read at all.\<close>

locale stream_codec =
  fixes put :: "'a \<Rightarrow> bytes"
    and get :: "bytes \<Rightarrow> ('a \<times> bytes) option"
    and valid :: "'a \<Rightarrow> bool"
  assumes get_put: "valid x \<Longrightarrow> get (put x @ rest) = Some (x, rest)"
    and get_short: "valid x \<Longrightarrow> strict_prefix b (put x) \<Longrightarrow> get b = None"
    and put_nonempty: "valid x \<Longrightarrow> put x \<noteq> []"
    and get_eof: "get [] = None"
begin

lemma read_all_put:
  assumes "valid x"
  shows "read_all get (put x @ rest) = x # read_all get rest"
  using get_put[OF assms, of rest] put_nonempty[OF assms] by (subst read_all.simps) simp

lemma read_all_eof [simp]: "read_all get [] = []"
  by (subst read_all.simps) (simp add: get_eof)

lemma read_all_puts: "list_all valid xs \<Longrightarrow> read_all get (concat (map put xs) @ rest) = xs @ read_all get rest"
  by (induction xs) (simp_all add: read_all_put)

text \<open>However much of the stream arrives, whole messages come out, in order, and as many as arrived whole.\<close>

lemma cut_stream:
  assumes "list_all valid xs" "prefix s (concat (map put xs))"
  shows "\<exists>k \<le> length xs. read_all get s = take k xs \<and> length (concat (map put (take k xs))) \<le> length s \<and>
    (k < length xs \<longrightarrow> length s < length (concat (map put (take (Suc k) xs))))"
  using assms
proof (induction xs arbitrary: s)
  case (Cons x xs)
  then have v: "valid x" "list_all valid xs" by simp_all
  show ?case
  proof (cases "prefix (put x) s")
    case True
    then obtain r where s: "s = put x @ r" by (auto simp: prefix_def)
    then have "prefix r (concat (map put xs))" using Cons.prems(2) by simp
    then obtain k where k: "k \<le> length xs" "read_all get r = take k xs" "length (concat (map put (take k xs))) \<le> length r"
      "k < length xs \<longrightarrow> length r < length (concat (map put (take (Suc k) xs)))"
      using Cons.IH[OF v(2)] by blast
    show ?thesis by (rule exI[of _ "Suc k"]) (use k in \<open>simp add: s read_all_put[OF v(1)]\<close>)
  next
    case False
    then have p: "strict_prefix s (put x)" using Cons.prems(2) by (auto simp: prefix_append strict_prefix_def)
    then have "read_all get s = []" using get_short[OF v(1)] by (subst read_all.simps) simp
    moreover have "length s < length (put x)" using p by (simp add: prefix_length_less)
    ultimately show ?thesis by (intro exI[of _ 0]) simp
  qed
qed simp

end

section \<open>Lemmas\<close>

lemma ReadFull_append: "length a = n \<Longrightarrow> ReadFull n (a @ s) = Some (a, s)"
  by (auto simp: ReadFull_def)

lemma ReadFull_None: "length s < n \<Longrightarrow> ReadFull n s = None"
  by (simp add: ReadFull_def)

lemma ReadFull_Some: "ReadFull n s = Some (a, r) \<longleftrightarrow> length a = n \<and> s = a @ r"
  by (auto simp: ReadFull_def)

text \<open>A reader that takes a head of known length and then as many bytes as the head says.\<close>

lemma short_message:
  assumes "strict_prefix b (h @ m)"
  shows "(length b < length h) \<or> (\<exists>m'. b = h @ m' \<and> length m' < length m)"
proof (cases "length b < length h")
  case False
  obtain z where z: "b @ z = h @ m" "z \<noteq> []" using assms by (auto simp: strict_prefix_def prefix_def)
  then obtain m' where "b = h @ m'" using False by (auto simp: append_eq_append_conv2)
  then show ?thesis using z by (auto simp: neq_Nil_conv)
qed simp

lemma unat_length16: "length m < 2 ^ 16 \<Longrightarrow> unat (word_of_nat (length m) :: u16) = length m"
  by (simp add: unat_of_nat)

interpretation binary_string: stream_codec SendBinaryString ReceiveBinaryString "\<lambda>m. length m < 2 ^ 16"
proof
  fix m :: string and rest b :: bytes
  assume m: "length m < 2 ^ 16"
  note l = unat_length16[OF m]
  show "ReceiveBinaryString (SendBinaryString m @ rest) = Some (m, rest)"
    by (simp add: ReceiveBinaryString_def SendBinaryString_def ReadFull_append l)
  show "ReceiveBinaryString b = None" if "strict_prefix b (SendBinaryString m)"
    using short_message[OF that[unfolded SendBinaryString_def]] l
    by (auto simp: ReceiveBinaryString_def ReadFull_append ReadFull_None)
  show "SendBinaryString m \<noteq> []" by (simp add: SendBinaryString_def flip: length_greater_0_conv)
qed (simp add: ReceiveBinaryString_def ReadFull_None)

interpretation transport_string: stream_codec "\<lambda>(m, t). SendBinaryTransportString m t" ReceiveBinaryTransportString
    "\<lambda>(m, t). length m < 2 ^ 16"
proof
  fix x :: "string \<times> byte" and rest b :: bytes
  assume "case x of (m, t) \<Rightarrow> length m < 2 ^ 16"
  then obtain m t where x: "x = (m, t)" and m: "length m < 2 ^ 16" by (cases x) auto
  note l = unat_length16[OF m]
  have head: "SendBinaryTransportString m t @ r = (put16 (word_of_nat (length m)) @ [t]) @ bytes_of m @ r" for r
    by (simp add: SendBinaryTransportString_def)
  note head' = head[of "[]", unfolded append_Nil2]
  have three: "length (put16 w @ [t]) = 3" for w by simp
  show "ReceiveBinaryTransportString ((case x of (m, t) \<Rightarrow> SendBinaryTransportString m t) @ rest) = Some (x, rest)"
    unfolding x prod.case head ReceiveBinaryTransportString_def ReadFull_append[OF three]
    by (simp add: ReadFull_append l nth_append)
  show "ReceiveBinaryTransportString b = None" if "strict_prefix b (case x of (m, t) \<Rightarrow> SendBinaryTransportString m t)"
    using short_message[of b "put16 (word_of_nat (length m)) @ [t]" "bytes_of m"] that l
    unfolding x prod.case head' ReceiveBinaryTransportString_def
    by (auto simp: ReadFull_append[OF three] ReadFull_None simp del: append_assoc)
  show "(case x of (m, t) \<Rightarrow> SendBinaryTransportString m t) \<noteq> []" by (simp add: x SendBinaryTransportString_def)
qed (simp add: ReceiveBinaryTransportString_def ReadFull_None)

interpretation binary_byte: stream_codec SendBinaryByte ReceiveBinaryByte "\<lambda>_. True"
  by unfold_locales (auto simp: SendBinaryByte_def ReceiveBinaryByte_def ReadFull_def dest: prefix_length_less)

section \<open>Properties\<close>

text \<open>The control messages of the reverse tunnels keep their boundaries: whatever messages of at most
  65535 bytes are sent, with whatever signals, and wherever the connection breaks, the receiver reads
  exactly the messages that arrived whole, in order, each as it was sent.\<close>
theorem control_messages_survive:
  assumes "list_all (\<lambda>(m, t). length m < 2 ^ 16) ms"
    and "prefix s (concat (map (\<lambda>(m, t). SendBinaryTransportString m t) ms))"
  shows "\<exists>k \<le> length ms. read_all ReceiveBinaryTransportString s = take k ms \<and>
    length (concat (map (\<lambda>(m, t). SendBinaryTransportString m t) (take k ms))) \<le> length s \<and>
    (k < length ms \<longrightarrow> length s < length (concat (map (\<lambda>(m, t). SendBinaryTransportString m t) (take (Suc k) ms))))"
  by (rule transport_string.cut_stream[OF assms])

theorem control_messages_survive_witness:
  "read_all ReceiveBinaryTransportString (take 9 (SendBinaryTransportString ''tok'' 1 @ SendBinaryTransportString ''tcp'' 2)) =
     [(''tok'', 1)]"
proof -
  let ?ms = "[(''tok'', 1 :: byte), (''tcp'', 2)]"
  let ?s = "take 9 (concat (map (\<lambda>(m, t). SendBinaryTransportString m t) ?ms))"
  have len: "length (SendBinaryTransportString m t) = 3 + length m" for m t by (simp add: SendBinaryTransportString_def)
  have v: "list_all (\<lambda>(m, t). length m < 2 ^ 16) ?ms" by simp
  have p: "prefix ?s (concat (map (\<lambda>(m, t). SendBinaryTransportString m t) ?ms))" by (rule take_is_prefix)
  obtain k where k: "k \<le> length ?ms" "read_all ReceiveBinaryTransportString ?s = take k ?ms"
    "k < length ?ms \<longrightarrow> length ?s < length (concat (map (\<lambda>(m, t). SendBinaryTransportString m t) (take (Suc k) ?ms)))"
    "length (concat (map (\<lambda>(m, t). SendBinaryTransportString m t) (take k ?ms))) \<le> length ?s"
    using control_messages_survive[OF v p] by (elim exE conjE) (rule that; assumption)
  then have "k = 0 \<or> k = 1 \<or> k = 2" by auto
  then have "k = 1" using k(3,4) by (elim disjE) (simp_all add: len)
  then show ?thesis using k(2) by simp
qed

text \<open>What becomes of a message of any length. The length field holds the length modulo 65536 and the
  whole message is written after it, so a message of 65536 bytes or more is read cut to the remainder, and
  the rest of it is left on the stream as if it were the next message.\<close>
theorem binary_string_wraps:
  "ReceiveBinaryString (SendBinaryString m @ rest) =
     Some (take (length m mod 65536) m, bytes_of (drop (length m mod 65536) m) @ rest)"
proof -
  let ?n = "length m mod 65536"
  have n: "unat (word_of_nat (length m) :: u16) = ?n" by (simp add: unat_of_nat)
  have "bytes_of m = bytes_of (take ?n m) @ bytes_of (drop ?n m)" by (simp add: bytes_of_def flip: map_append)
  then have "ReadFull ?n (bytes_of m @ rest) = Some (bytes_of (take ?n m), bytes_of (drop ?n m) @ rest)"
    by (simp add: ReadFull_append)
  then show ?thesis by (simp add: ReceiveBinaryString_def SendBinaryString_def ReadFull_append n)
qed

end
