(* ===== verification/DirectWire.thy ===== *)
theory DirectWire
  imports ByteStream
begin

text \<open>
  What the two ends of a direct tunnel say to each other, \<open>src/internal/tunnel/direct/handshake.go\<close>: the proof
  that both hold the token, the request that opens a stream, and the datagrams of a UDP stream.

  A half of the handshake is a function of the bytes that will arrive, and returns what it wrote and how it
  ended; \<open>HMAC-SHA256\<close> is the parameter \<open>mac\<close>, the nonces are arguments, and a write that fails is left out
  (the peer is gone and nothing more happens). A pair of runs is a conversation when each end's input is the
  other's output.
\<close>

section \<open>Definitions\<close>

definition nonceLen :: nat where "nonceLen = 32"
definition proofLen :: nat where "proofLen = 32"
definition protocolVersion :: byte where "protocolVersion = 1"

datatype direct_error = ErrBadProof | ErrBadVersion | ErrShortRead | ErrTargetLen nat | ErrStreamKind byte
  | ErrDatagramSize nat | ErrBuffer nat nat

type_synonym mac = "bytes \<Rightarrow> bytes \<Rightarrow> bytes"

definition proof_text :: "string \<Rightarrow> bytes \<Rightarrow> bytes \<Rightarrow> bytes" where
  "proof_text label nonceEdge nonceOrigin =
     bytes_of ''backpack-direct-v1|'' @ bytes_of label @ bytes_of ''|'' @ nonceEdge @ nonceOrigin"

definition tunnel_proof :: "mac \<Rightarrow> string \<Rightarrow> string \<Rightarrow> bytes \<Rightarrow> bytes \<Rightarrow> bytes" where
  "tunnel_proof mac token label nonceEdge nonceOrigin = mac (bytes_of token) (proof_text label nonceEdge nonceOrigin)"

definition edgeHandshake :: "mac \<Rightarrow> bytes \<Rightarrow> string \<Rightarrow> bytes \<Rightarrow> bytes \<times> (direct_error + unit)" where
  "edgeHandshake mac nonceEdge token input =
     (let opening = protocolVersion # nonceEdge in
      case ReadFull (nonceLen + proofLen) input of
        None \<Rightarrow> (opening, Inl ErrShortRead)
      | Some (reply, _) \<Rightarrow>
          let nonceOrigin = take nonceLen reply; given = drop nonceLen reply in
          if given \<noteq> tunnel_proof mac token ''origin'' nonceEdge nonceOrigin then (opening, Inl ErrBadProof)
          else (opening @ tunnel_proof mac token ''edge'' nonceEdge nonceOrigin, Inr ()))"

definition originHandshake :: "mac \<Rightarrow> bytes \<Rightarrow> string \<Rightarrow> bytes \<Rightarrow> bytes \<times> (direct_error + unit)" where
  "originHandshake mac nonceOrigin token input =
     (case ReadFull (1 + nonceLen) input of
        None \<Rightarrow> ([], Inl ErrShortRead)
      | Some (opening, input) \<Rightarrow>
          if opening ! 0 \<noteq> protocolVersion then ([], Inl ErrBadVersion)
          else
            let nonceEdge = drop 1 opening;
                reply = nonceOrigin @ tunnel_proof mac token ''origin'' nonceEdge nonceOrigin
            in case ReadFull proofLen input of
                 None \<Rightarrow> (reply, Inl ErrShortRead)
               | Some (given, _) \<Rightarrow>
                   if given \<noteq> tunnel_proof mac token ''edge'' nonceEdge nonceOrigin then (reply, Inl ErrBadProof)
                   else (reply, Inr ()))"

definition streamOK :: byte where "streamOK = 1"
definition streamFailed :: byte where "streamFailed = 2"
definition kindTCP :: byte where "kindTCP = 1"
definition kindUDP :: byte where "kindUDP = 2"
definition maxTargetLen :: nat where "maxTargetLen = 512"
definition maxDatagram :: nat where "maxDatagram = 65535"

definition writeRequest :: "byte \<Rightarrow> string \<Rightarrow> direct_error + bytes" where
  "writeRequest kind target =
     (if length target = 0 \<or> length target > maxTargetLen then Inl (ErrTargetLen (length target))
      else Inr (kind # put16 (word_of_nat (length target)) @ bytes_of target))"

definition readRequest :: "bytes \<Rightarrow> direct_error + (byte \<times> string) \<times> bytes" where
  "readRequest s =
     (case ReadFull 3 s of
        None \<Rightarrow> Inl ErrShortRead
      | Some (head, s) \<Rightarrow>
          let kind = head ! 0; n = get16 (drop 1 head) in
          if kind \<noteq> kindTCP \<and> kind \<noteq> kindUDP then Inl (ErrStreamKind kind)
          else if n = 0 \<or> unat n > maxTargetLen then Inl (ErrTargetLen (unat n))
          else case ReadFull (unat n) s of
                 None \<Rightarrow> Inl ErrShortRead
               | Some (target, s) \<Rightarrow> Inr ((kind, string_of target), s))"

definition writeDatagram :: "bytes \<Rightarrow> direct_error + bytes" where
  "writeDatagram payload =
     (if length payload > maxDatagram then Inl (ErrDatagramSize (length payload))
      else Inr (put16 (word_of_nat (length payload)) @ payload))"

definition readDatagram :: "nat \<Rightarrow> bytes \<Rightarrow> direct_error + bytes \<times> bytes" where
  "readDatagram bufsize s =
     (case ReadFull 2 s of
        None \<Rightarrow> Inl ErrShortRead
      | Some (len, s) \<Rightarrow>
          let n = unat (get16 len) in
          if n > bufsize then Inl (ErrBuffer n bufsize)
          else if n = 0 then Inr ([], s)
          else case ReadFull n s of
                 None \<Rightarrow> Inl ErrShortRead
               | Some (payload, s) \<Rightarrow> Inr (payload, s))"

section \<open>Specification\<close>

text \<open>What is relied on of HMAC-SHA256: its width. For the theorem on replays, also that it has no collision
  among the texts in play.\<close>

definition mac_width :: "mac \<Rightarrow> bool" where
  "mac_width mac \<longleftrightarrow> (\<forall>k m. length (mac k m) = proofLen)"

definition request_bytes :: "byte \<times> string \<Rightarrow> bytes" where
  "request_bytes x = (case writeRequest (fst x) (snd x) of Inl _ \<Rightarrow> [] | Inr b \<Rightarrow> b)"

definition request_ok :: "byte \<times> string \<Rightarrow> bool" where
  "request_ok x \<longleftrightarrow> (fst x = kindTCP \<or> fst x = kindUDP) \<and> snd x \<noteq> [] \<and> length (snd x) \<le> maxTargetLen"

definition request_read :: "bytes \<Rightarrow> ((byte \<times> string) \<times> bytes) option" where
  "request_read s = (case readRequest s of Inl _ \<Rightarrow> None | Inr r \<Rightarrow> Some r)"

definition datagram_bytes :: "bytes \<Rightarrow> bytes" where
  "datagram_bytes p = (case writeDatagram p of Inl _ \<Rightarrow> [] | Inr b \<Rightarrow> b)"

definition datagram_read :: "bytes \<Rightarrow> (bytes \<times> bytes) option" where
  "datagram_read s = (case readDatagram maxDatagram s of Inl _ \<Rightarrow> None | Inr r \<Rightarrow> Some r)"

section \<open>Lemmas\<close>

lemma ReadFull_exact: "length a = n \<Longrightarrow> ReadFull n a = Some (a, [])"
  using ReadFull_append[of a n "[]"] by simp

lemma ReadFull_head: "ReadFull 3 (k # put16 w @ r) = Some (k # put16 w, r)"
  using ReadFull_append[of "k # put16 w" 3 r] by simp

interpretation request: stream_codec request_bytes request_read request_ok
proof
  fix x :: "byte \<times> string" and rest b :: bytes
  assume ok: "request_ok x"
  obtain k t where x: "x = (k, t)" by (cases x)
  have t: "t \<noteq> []" "length t \<le> 512" "k = kindTCP \<or> k = kindUDP" using ok by (auto simp: request_ok_def x maxTargetLen_def)
  have l: "unat (word_of_nat (length t) :: u16) = length t" using t(2) by (intro unat_length16) simp
  have nz: "word_of_nat (length t) \<noteq> (0 :: u16)" using l t(1) by (metis length_0_conv unat_0)
  let ?h = "k # put16 (word_of_nat (length t))"
  have w: "request_bytes x = ?h @ bytes_of t" using t by (simp add: request_bytes_def x writeRequest_def maxTargetLen_def)
  show "request_read (request_bytes x @ rest) = Some (x, rest)"
    unfolding w using t nz by (auto simp: request_read_def readRequest_def ReadFull_head Let_def l ReadFull_append x maxTargetLen_def)
  show "request_read b = None" if "strict_prefix b (request_bytes x)"
    using short_message[OF that[unfolded w]] t nz l
    by (auto simp: request_read_def readRequest_def ReadFull_head ReadFull_None Let_def)
  show "request_bytes x \<noteq> []" by (simp add: w)
qed (simp add: request_read_def readRequest_def ReadFull_None)

interpretation datagram: stream_codec datagram_bytes datagram_read "\<lambda>p. length p \<le> maxDatagram"
proof
  fix p :: bytes and rest b :: bytes
  assume p: "length p \<le> maxDatagram"
  have l: "unat (word_of_nat (length p) :: u16) = length p" using p by (intro unat_length16) (simp add: maxDatagram_def)
  have w: "datagram_bytes p = put16 (word_of_nat (length p)) @ p" using p by (simp add: datagram_bytes_def writeDatagram_def)
  show "datagram_read (datagram_bytes p @ rest) = Some (p, rest)"
    using p by (simp add: w datagram_read_def readDatagram_def ReadFull_append l Let_def)
  show "datagram_read b = None" if "strict_prefix b (datagram_bytes p)"
    using short_message[OF that[unfolded w]] p l
    by (auto simp: datagram_read_def readDatagram_def ReadFull_append ReadFull_None Let_def)
  show "datagram_bytes p \<noteq> []" by (simp add: w flip: length_greater_0_conv)
qed (simp add: datagram_read_def readDatagram_def ReadFull_None)

text \<open>The text that is authenticated says which end speaks and for which pair of nonces.\<close>

lemma proof_text_inj:
  assumes "label \<in> {''origin'', ''edge''}" "label' \<in> {''origin'', ''edge''}"
    and "length e = nonceLen" "length e' = nonceLen" "length n = nonceLen" "length n' = nonceLen"
    and "proof_text label e n = proof_text label' e' n'"
  shows "label = label' \<and> e = e' \<and> n = n'"
proof -
  have "length (proof_text label e n) = length (proof_text label' e' n')" using assms(7) by simp
  then have "length label = length label'" using assms(3-6) by (simp add: proof_text_def)
  then have "label = label'" using assms(1,2) by auto
  then show ?thesis using assms(3-) by (simp add: proof_text_def)
qed

lemma edge_reply:
  assumes "mac_width mac" "length nE = nonceLen" "length nO = nonceLen" "length p = proofLen"
  shows "edgeHandshake mac nE token (nO @ p) =
    (if p = tunnel_proof mac token ''origin'' nE nO then (protocolVersion # nE @ tunnel_proof mac token ''edge'' nE nO, Inr ())
     else (protocolVersion # nE, Inl ErrBadProof))"
  using assms by (simp add: edgeHandshake_def ReadFull_exact Let_def)

lemma origin_opening:
  assumes "length nE = nonceLen"
  shows "originHandshake mac nO token (protocolVersion # nE @ input) =
    (nO @ tunnel_proof mac token ''origin'' nE nO,
     case ReadFull proofLen input of
       None \<Rightarrow> Inl ErrShortRead
     | Some (given, _) \<Rightarrow> if given = tunnel_proof mac token ''edge'' nE nO then Inr () else Inl ErrBadProof)"
proof -
  have "ReadFull (1 + nonceLen) ((protocolVersion # nE) @ input) = Some (protocolVersion # nE, input)"
    using assms by (intro ReadFull_append) simp
  then show ?thesis by (auto simp: originHandshake_def Let_def split: option.splits)
qed

lemma readRequest_Inr:
  assumes "readRequest s = Inr (x, rest)"
  shows "request_ok x \<and> s = request_bytes x @ rest"
proof -
  obtain k t where x: "x = (k, t)" by (cases x)
  obtain h b where r: "ReadFull 3 s = Some (h, b)" using assms by (auto simp: readRequest_def split: option.splits)
  then have s: "length h = 3" "s = h @ b" by (simp_all add: ReadFull_Some)
  then obtain c d e where h: "h = [c, d, e]" by (auto simp: length_Suc_conv numeral_3_eq_3)
  have k: "k = kindTCP \<or> k = kindUDP" "c = k" "get16 [d, e] \<noteq> 0" "unat (get16 [d, e]) \<le> maxTargetLen"
    "ReadFull (unat (get16 [d, e])) b = Some (bytes_of t, rest)"
    using assms unfolding readRequest_def r
    by (auto simp: h x Let_def split: if_splits option.splits)
  have t: "length t = unat (get16 [d, e])" "b = bytes_of t @ rest" using k(5) by (auto simp: ReadFull_Some)
  have "put16 (get16 [d, e]) = [d, e]" by simp
  then have "request_bytes x = k # [d, e] @ bytes_of t" using k t(1)
    by (simp add: request_bytes_def x writeRequest_def unat_eq_zero)
  then show ?thesis using k t s by (auto simp: request_ok_def x h unat_eq_zero)
qed

text \<open>What each end checked before it went on.\<close>

lemma origin_admits:
  assumes "snd (originHandshake mac nO token input) = Inr ()"
  shows "take proofLen (drop (1 + nonceLen) input) = tunnel_proof mac token ''edge'' (take nonceLen (drop 1 input)) nO"
    "length (take nonceLen (drop 1 input)) = nonceLen"
  using assms by (auto simp: originHandshake_def ReadFull_def Let_def drop_take split: if_splits)

lemma edge_goes_on:
  assumes "snd (edgeHandshake mac nE token input) = Inr () \<or> fst (edgeHandshake mac nE token input) \<noteq> protocolVersion # nE"
  shows "take proofLen (drop nonceLen input) = tunnel_proof mac token ''origin'' nE (take nonceLen input)"
    "length (take nonceLen input) = nonceLen"
  using assms by (auto simp: edgeHandshake_def ReadFull_def Let_def drop_take split: if_splits)

lemma proof_was_made:
  assumes wf: "\<forall>(label, e, n) \<in> made. label \<in> {''origin'', ''edge''} \<and> length e = nonceLen \<and> length n = nonceLen"
    and inj: "inj_on (mac (bytes_of token)) ((\<lambda>(label, e, n). proof_text label e n) ` (made \<union> mine))"
    and "(label, e, n) \<in> mine" "label \<in> {''origin'', ''edge''}" "length e = nonceLen \<and> length n = nonceLen"
    and "p \<in> (\<lambda>(label, e, n). tunnel_proof mac token label e n) ` made" "p = tunnel_proof mac token label e n"
  shows "(label, e, n) \<in> made"
proof -
  obtain l' e' n' where m: "(l', e', n') \<in> made" "p = tunnel_proof mac token l' e' n'" using assms(6) by auto
  have "mac (bytes_of token) (proof_text l' e' n') = mac (bytes_of token) (proof_text label e n)"
    using m(2) assms(7) by (simp add: tunnel_proof_def)
  moreover have "proof_text l' e' n' \<in> (\<lambda>(label, e, n). proof_text label e n) ` (made \<union> mine)"
    "proof_text label e n \<in> (\<lambda>(label, e, n). proof_text label e n) ` (made \<union> mine)"
    using m(1) assms(3) by force+
  ultimately have "proof_text l' e' n' = proof_text label e n" using inj by (meson inj_onD)
  then have "l' = label \<and> e' = e \<and> n' = n" using wf m(1) assms(4,5) by (intro proof_text_inj) auto
  then show ?thesis using m(1) by simp
qed

section \<open>Properties\<close>

text \<open>(C10) The handshake is mutual. In a conversation between an edge and an origin, the edge goes on exactly
  when the origin proved the token and the origin admits it exactly when both proofs are right; with the
  same token both do, and when the first proof is wrong the edge has sent nothing but its nonce.\<close>
theorem direct_handshake_mutual:
  assumes "mac_width mac" "length nE = nonceLen" "length nO = nonceLen"
    and e: "edgeHandshake mac nE tokenE fromOrigin = (fromEdge, edgeEnds)"
    and o: "originHandshake mac nO tokenO fromEdge = (fromOrigin, originEnds)"
  shows "(edgeEnds = Inr () \<longleftrightarrow> tunnel_proof mac tokenE ''origin'' nE nO = tunnel_proof mac tokenO ''origin'' nE nO) \<and>
    (originEnds = Inr () \<longleftrightarrow> (\<forall>label \<in> {''origin'', ''edge''}. tunnel_proof mac tokenE label nE nO = tunnel_proof mac tokenO label nE nO)) \<and>
    (tokenE = tokenO \<longrightarrow> edgeEnds = Inr () \<and> originEnds = Inr ()) \<and>
    (edgeEnds \<noteq> Inr () \<longrightarrow> fromEdge = protocolVersion # nE)"
proof -
  have w: "length (tunnel_proof mac t l nE nO) = proofLen" for t l using assms(1) by (simp add: mac_width_def tunnel_proof_def)
  obtain tail where tail: "fromEdge = protocolVersion # nE @ tail"
    using e by (auto simp: edgeHandshake_def Let_def split: option.splits if_splits)
  then have out: "fromOrigin = nO @ tunnel_proof mac tokenO ''origin'' nE nO"
    using o origin_opening[OF assms(2), of mac nO tokenO tail] by simp
  have e': "(fromEdge, edgeEnds) = (if tunnel_proof mac tokenO ''origin'' nE nO = tunnel_proof mac tokenE ''origin'' nE nO
      then (protocolVersion # nE @ tunnel_proof mac tokenE ''edge'' nE nO, Inr ()) else (protocolVersion # nE, Inl ErrBadProof))"
    using e edge_reply[OF assms(1-3) w] unfolding out by simp
  show ?thesis
  proof (cases "tunnel_proof mac tokenO ''origin'' nE nO = tunnel_proof mac tokenE ''origin'' nE nO")
    case True
    then have "originHandshake mac nO tokenO fromEdge = (fromOrigin, if tunnel_proof mac tokenE ''edge'' nE nO = tunnel_proof mac tokenO ''edge'' nE nO
        then Inr () else Inl ErrBadProof)"
      using e' origin_opening[OF assms(2), of mac nO tokenO "tunnel_proof mac tokenE ''edge'' nE nO"] ReadFull_exact[OF w] out by simp
    then show ?thesis using True e' o by (auto split: if_splits)
  next
    case False
    then have "originHandshake mac nO tokenO fromEdge = (fromOrigin, Inl ErrShortRead)"
      using e' origin_opening[OF assms(2), of mac nO tokenO "[]"] out by (simp add: ReadFull_None proofLen_def)
    then show ?thesis using False e' o by auto
  qed
qed

definition demo_mac :: mac where
  "demo_mac k m = take 32 (k @ [word_of_nat (length m)] @ replicate 32 0)"

theorem direct_handshake_mutual_witness:
  "\<exists>fromEdge fromOrigin. edgeHandshake demo_mac (replicate 32 7) ''t'' fromOrigin = (fromEdge, Inr ()) \<and>
     originHandshake demo_mac (replicate 32 9) ''t'' fromEdge = (fromOrigin, Inr ())"
proof -
  let ?e = "replicate 32 7 :: bytes" and ?o = "replicate 32 9 :: bytes"
  let ?fo = "?o @ tunnel_proof demo_mac ''t'' ''origin'' ?e ?o"
  let ?fe = "protocolVersion # ?e @ tunnel_proof demo_mac ''t'' ''edge'' ?e ?o"
  have w: "mac_width demo_mac" by (auto simp: mac_width_def demo_mac_def proofLen_def)
  have l: "length ?e = nonceLen" "length ?o = nonceLen" by (simp_all add: nonceLen_def)
  have p: "length (tunnel_proof demo_mac ''t'' l ?e ?o) = proofLen" for l using w by (simp add: mac_width_def tunnel_proof_def)
  obtain re where e: "edgeHandshake demo_mac ?e ''t'' ?fo = (?fe, re)" using edge_reply[OF w l p] by simp
  obtain ro where o: "originHandshake demo_mac ?o ''t'' ?fe = (?fo, ro)" using origin_opening[OF l(1)] by simp
  show ?thesis using direct_handshake_mutual[OF w l e o] e o by auto
qed

text \<open>Proofs cannot be replayed or turned round. Suppose whoever is at the other end can only hand over
  proofs that holders of the token made, each for a label and a pair of nonces, and the authentication code
  has no collision among those texts. Then the origin admits a session only if an edge made its proof for
  this very nonce of the origin, and the edge goes on, and sends its own proof, only if an origin made its
  proof for this very nonce of the edge.\<close>
theorem direct_proofs_bound:
  assumes wf: "\<forall>(label, e, n) \<in> made. label \<in> {''origin'', ''edge''} \<and> length e = nonceLen \<and> length n = nonceLen"
    and n: "length nE = nonceLen" "length nO = nonceLen"
    and inj: "inj_on (mac (bytes_of token)) ((\<lambda>(label, e, n). proof_text label e n) `
      (made \<union> {(''edge'', take nonceLen (drop 1 toOrigin), nO), (''origin'', nE, take nonceLen toEdge)}))"
    and given: "take proofLen (drop (1 + nonceLen) toOrigin) \<in> (\<lambda>(label, e, n). tunnel_proof mac token label e n) ` made"
      "take proofLen (drop nonceLen toEdge) \<in> (\<lambda>(label, e, n). tunnel_proof mac token label e n) ` made"
  shows "(snd (originHandshake mac nO token toOrigin) = Inr () \<longrightarrow> (''edge'', take nonceLen (drop 1 toOrigin), nO) \<in> made) \<and>
    (snd (edgeHandshake mac nE token toEdge) = Inr () \<or> fst (edgeHandshake mac nE token toEdge) \<noteq> protocolVersion # nE \<longrightarrow>
       (''origin'', nE, take nonceLen toEdge) \<in> made)"
proof -
  note made = proof_was_made[OF wf, where mac = mac and token = token, OF inj]
  have "(''edge'', take nonceLen (drop 1 toOrigin), nO) \<in> made" if "snd (originHandshake mac nO token toOrigin) = Inr ()"
    using made[OF _ _ _ given(1)] origin_admits[OF that] n by auto
  moreover have "(''origin'', nE, take nonceLen toEdge) \<in> made"
    if "snd (edgeHandshake mac nE token toEdge) = Inr () \<or> fst (edgeHandshake mac nE token toEdge) \<noteq> protocolVersion # nE"
    using made[OF _ _ _ given(2)] edge_goes_on[OF that] n by auto
  ultimately show ?thesis by blast
qed

definition demo_made :: "(string \<times> bytes \<times> bytes) set" where
  "demo_made = {(''edge'', replicate 32 7, replicate 32 9), (''origin'', replicate 32 7, replicate 32 9)}"

theorem direct_proofs_bound_witness:
  "snd (originHandshake demo_mac (replicate 32 9) ''t'' (1 # replicate 32 7 @ tunnel_proof demo_mac ''t'' ''edge'' (replicate 32 7) (replicate 32 9))) = Inr () \<and>
   (''edge'', replicate 32 7, replicate 32 9) \<in> demo_made"
proof -
  let ?e = "replicate 32 7 :: bytes" and ?o = "replicate 32 9 :: bytes"
  let ?pe = "tunnel_proof demo_mac ''t'' ''edge'' ?e ?o" and ?po = "tunnel_proof demo_mac ''t'' ''origin'' ?e ?o"
  have w: "length (tunnel_proof demo_mac ''t'' l ?e ?o) = proofLen" for l
    by (simp add: tunnel_proof_def demo_mac_def proofLen_def)
  have t: "take nonceLen (drop 1 (1 # ?e @ ?pe)) = ?e" "take proofLen (drop (1 + nonceLen) (1 # ?e @ ?pe)) = ?pe"
    "take nonceLen (?o @ ?po) = ?o" "take proofLen (drop nonceLen (?o @ ?po)) = ?po"
    using w by (simp_all add: nonceLen_def)
  have "inj_on (demo_mac (bytes_of ''t'')) {proof_text ''edge'' ?e ?o, proof_text ''origin'' ?e ?o}"
    by (auto simp: demo_mac_def proof_text_def)
  then have inj: "inj_on (demo_mac (bytes_of ''t'')) ((\<lambda>(label, e, n). proof_text label e n) `
      (demo_made \<union> {(''edge'', ?e, ?o), (''origin'', ?e, ?o)}))"
    by (simp add: demo_made_def insert_commute)
  have "originHandshake demo_mac ?o ''t'' (protocolVersion # ?e @ ?pe) = (?o @ ?po, Inr ())"
    using origin_opening[of ?e demo_mac ?o "''t''" ?pe] ReadFull_exact[OF w] by (simp add: nonceLen_def)
  then have a: "snd (originHandshake demo_mac ?o ''t'' (1 # ?e @ ?pe)) = Inr ()" by (simp add: protocolVersion_def)
  have "(''edge'', take nonceLen (drop 1 (1 # ?e @ ?pe)), ?o) \<in> demo_made"
    using direct_proofs_bound[of demo_made ?e ?o demo_mac "''t''" "1 # ?e @ ?pe" "?o @ ?po"] inj a
    unfolding t by (simp add: demo_made_def nonceLen_def)
  then show ?thesis using a by (simp only: t)
qed

text \<open>A request is read exactly as it was written, and nothing else is a request: the reader accepts a
  kind and a target precisely when the stream begins with what the writer writes for them, the kind is
  known and the target has between 1 and 512 bytes, so no length field makes it take more.\<close>
theorem direct_request_exact:
  "readRequest s = Inr (x, rest) \<longleftrightarrow>
     (fst x = kindTCP \<or> fst x = kindUDP) \<and> (\<exists>b. writeRequest (fst x) (snd x) = Inr b \<and> s = b @ rest)"
proof
  assume "readRequest s = Inr (x, rest)"
  then show "(fst x = kindTCP \<or> fst x = kindUDP) \<and> (\<exists>b. writeRequest (fst x) (snd x) = Inr b \<and> s = b @ rest)"
    using readRequest_Inr[of s x rest] by (auto simp: request_ok_def request_bytes_def writeRequest_def)
next
  assume r: "(fst x = kindTCP \<or> fst x = kindUDP) \<and> (\<exists>b. writeRequest (fst x) (snd x) = Inr b \<and> s = b @ rest)"
  then have "request_ok x" "s = request_bytes x @ rest"
    by (auto simp: request_ok_def request_bytes_def writeRequest_def split: if_splits)
  then have "request_read s = Some (x, rest)" using request.get_put by simp
  then show "readRequest s = Inr (x, rest)" by (simp add: request_read_def split: sum.splits)
qed

text \<open>UDP over a stream keeps the datagrams apart: whatever datagrams one end writes, empty ones included,
  and wherever the stream breaks off, the relay at the other end hands on exactly the datagrams that
  arrived whole, each unchanged and in order.\<close>
theorem direct_datagrams_survive:
  assumes "list_all (\<lambda>p. length p \<le> maxDatagram) ps"
    and "prefix s (concat (map datagram_bytes ps))"
  shows "\<exists>k \<le> length ps. read_all datagram_read s = take k ps \<and>
    length (concat (map datagram_bytes (take k ps))) \<le> length s \<and>
    (k < length ps \<longrightarrow> length s < length (concat (map datagram_bytes (take (Suc k) ps))))"
  by (rule datagram.cut_stream[OF assms])

theorem direct_datagrams_survive_witness:
  "read_all datagram_read (datagram_bytes [1, 2] @ datagram_bytes [] @ datagram_bytes [3]) = [[1, 2], [], [3]]"
proof -
  let ?ps = "[[1, 2], [], [3]] :: bytes list"
  have v: "list_all (\<lambda>p. length p \<le> maxDatagram) ?ps" by (simp add: maxDatagram_def)
  obtain k where k: "k \<le> length ?ps" "read_all datagram_read (concat (map datagram_bytes ?ps)) = take k ?ps"
    "length (concat (map datagram_bytes (take k ?ps))) \<le> length (concat (map datagram_bytes ?ps))"
    "k < length ?ps \<longrightarrow> length (concat (map datagram_bytes ?ps)) < length (concat (map datagram_bytes (take (Suc k) ?ps)))"
    using direct_datagrams_survive[OF v prefix_order.refl] by (elim exE conjE) (rule that; assumption)
  have "k = 0 \<or> k = 1 \<or> k = 2 \<or> k = 3" using k(1) by auto
  then have "k = 3" using k(4) by (elim disjE) (simp_all add: datagram_bytes_def writeDatagram_def maxDatagram_def)
  then show ?thesis using k(2) by simp
qed

end
