(* ===== verification/DirectTunnel.thy ===== *)
theory DirectTunnel
  imports DirectWire NetAddr Portmap TaskTable
begin

text \<open>
  The direct tunnel's configuration, its refusal of metadata addresses and its listening end:
  \<open>config.go\<close>, \<open>target.go\<close> and \<open>origin.go\<close> of \<open>src/internal/tunnel/direct\<close>. Name resolution and the dial to the
  backend are parameters; a lookup is one function per moment, because the origin looks a name up twice.
\<close>

section \<open>Definitions: configuration\<close>

definition RoleEdge :: string where "RoleEdge = ''edge''"
definition RoleOrigin :: string where "RoleOrigin = ''origin''"
definition TransportTCP :: string where "TransportTCP = ''tcp''"
definition TransportStealth :: string where "TransportStealth = ''stealth''"
definition TransportWS :: string where "TransportWS = ''ws''"
definition TransportWSS :: string where "TransportWSS = ''wss''"

definition defaultDialTimeout :: duration where "defaultDialTimeout = 10 * second"
definition defaultRetryDelay :: duration where "defaultRetryDelay = 3 * second"
definition defaultBackendDial :: duration where "defaultBackendDial = 10 * second"
definition defaultMaxFrameSize :: int where "defaultMaxFrameSize = 32768"
definition defaultMaxReceive :: int where "defaultMaxReceive = 4194304"
definition defaultMaxStream :: int where "defaultMaxStream = 65536"
definition defaultACMECacheDir :: string where "defaultACMECacheDir = ''/etc/backpack/acme''"
definition DefaultBackendHost :: string where "DefaultBackendHost = ''127.0.0.1''"

record DirectConfig =
  dc_Role :: string
  dc_Addr :: string
  dc_Token :: string
  dc_Transport :: string
  dc_ServerName :: string
  dc_TLSCertFile :: string
  dc_TLSKeyFile :: string
  dc_ACMEDomain :: string
  dc_ACMEEmail :: string
  dc_ACMECacheDir :: string
  dc_Ports :: "string list"
  dc_AcceptUDP :: bool
  dc_MaxConnections :: int
  dc_BandwidthMbps :: int
  dc_Sessions :: int
  dc_DialTimeout :: duration
  dc_RetryDelay :: duration
  dc_MaxFrameSize :: int
  dc_MaxReceiveBuffer :: int
  dc_MaxStreamBuffer :: int
  dc_MuxVersion :: int
  dc_Nodelay :: bool
  dc_Keepalive :: duration
  dc_MSS :: int

datatype direct_config_error = RoleRequired | UnknownRole string | DAddrRequired | DAddrNotHostPort addr_error | DTokenRequired
  | UnknownTransport string | HalfCertificate | NoPorts | DBadPorts portmap_error | TooManySessions int

definition direct_endpoint :: "DirectConfig \<Rightarrow> direct_config_error + DirectConfig" where
  "direct_endpoint c0 =
     (let c = c0\<lparr>dc_Role := ToLower (TrimSpace (dc_Role c0))\<rparr> in
      if dc_Role c = [] then Inl RoleRequired
      else if dc_Role c \<noteq> RoleEdge \<and> dc_Role c \<noteq> RoleOrigin then Inl (UnknownRole (dc_Role c))
      else if TrimSpace (dc_Addr c) = [] then Inl DAddrRequired
      else case SplitHostPort (dc_Addr c) of
             Inl e \<Rightarrow> Inl (DAddrNotHostPort e)
           | Inr _ \<Rightarrow> refuse_if (TrimSpace (dc_Token c) = []) DTokenRequired c)"

definition direct_transport :: "DirectConfig \<Rightarrow> direct_config_error + DirectConfig" where
  "direct_transport c0 =
     (let t = ToLower (TrimSpace (dc_Transport c0));
          c = c0\<lparr>dc_Transport := (if t = [] then TransportTCP else t)\<rparr>
      in if dc_Transport c \<notin> {TransportTCP, TransportStealth, TransportWS, TransportWSS} then Inl (UnknownTransport t)
         else if (dc_TLSCertFile c = []) \<noteq> (dc_TLSKeyFile c = []) then Inl HalfCertificate
         else Inr (c\<lparr>dc_ACMECacheDir := (if dc_ACMECacheDir c = [] then defaultACMECacheDir else dc_ACMECacheDir c)\<rparr>))"

definition direct_ports :: "DirectConfig \<Rightarrow> direct_config_error + DirectConfig" where
  "direct_ports c =
     (if dc_Role c \<noteq> RoleEdge then Inr c
      else if dc_Ports c = [] then Inl NoPorts
      else refuse_on (error_of (Expand (dc_Ports c) DefaultBackendHost)) DBadPorts c)"

definition or_default :: "int \<Rightarrow> int \<Rightarrow> int" where "or_default x d = (if x \<le> 0 then d else x)"

definition direct_sizes :: "DirectConfig \<Rightarrow> direct_config_error + DirectConfig" where
  "direct_sizes c0 =
     (let c = c0\<lparr>dc_Sessions := or_default (dc_Sessions c0) 1\<rparr> in
      if dc_Sessions c > 64 then Inl (TooManySessions (dc_Sessions c))
      else Inr (c\<lparr>dc_DialTimeout := or_default (dc_DialTimeout c) defaultDialTimeout,
                  dc_RetryDelay := or_default (dc_RetryDelay c) defaultRetryDelay,
                  dc_MaxFrameSize := or_default (dc_MaxFrameSize c) defaultMaxFrameSize,
                  dc_MaxReceiveBuffer := or_default (dc_MaxReceiveBuffer c) defaultMaxReceive,
                  dc_MaxStreamBuffer := or_default (dc_MaxStreamBuffer c) defaultMaxStream\<rparr>))"

definition direct_Validate :: "DirectConfig \<Rightarrow> direct_config_error + DirectConfig" where
  "direct_Validate c =
     and_then (direct_endpoint c) (\<lambda>c. and_then (direct_transport c) (\<lambda>c. and_then (direct_ports c) direct_sizes))"

section \<open>Definitions: targets\<close>

definition metadataAddrs :: "bytes option list" where
  "metadataAddrs = map ParseIP [''169.254.169.254'', ''100.100.100.200'', ''fd00:ec2::254'', ''169.254.169.253'']"

definition isMetadataAddr :: "bytes \<Rightarrow> bool" where
  "isMetadataAddr ip \<longleftrightarrow> list_ex (\<lambda>m. case m of None \<Rightarrow> False | Some m \<Rightarrow> ip_Equal m ip) metadataAddrs"

datatype target_error = BadTarget addr_error | MetadataTarget

type_synonym resolver = "string \<Rightarrow> bytes list option"

definition vetTarget :: "resolver \<Rightarrow> string \<Rightarrow> target_error option" where
  "vetTarget lookup target =
     (case SplitHostPort target of
        Inl e \<Rightarrow> Some (BadTarget e)
      | Inr (host, _) \<Rightarrow>
          (case ParseIP host of
             Some ip \<Rightarrow> if isMetadataAddr ip then Some MetadataTarget else None
           | None \<Rightarrow>
               (case lookup host of
                  None \<Rightarrow> None
                | Some ips \<Rightarrow> if list_ex isMetadataAddr ips then Some MetadataTarget else None)))"

text \<open>\<open>DialContext\<close> resolves the host itself and dials the addresses it finds: a literal is its own address.\<close>

definition dial_addrs :: "resolver \<Rightarrow> string \<Rightarrow> bytes list" where
  "dial_addrs lookup target =
     (case SplitHostPort target of
        Inl _ \<Rightarrow> []
      | Inr (host, _) \<Rightarrow>
          (case ParseIP host of Some ip \<Rightarrow> [ip] | None \<Rightarrow> (case lookup host of None \<Rightarrow> [] | Some ips \<Rightarrow> ips)))"

text \<open>\<open>dialBackend\<close>: the dial gives a connection to one of the addresses it tries, or fails.\<close>

definition origin_dialBackend :: "resolver \<Rightarrow> resolver \<Rightarrow> (string \<Rightarrow> bytes \<Rightarrow> bool) \<Rightarrow> string \<Rightarrow> string \<Rightarrow> bytes option" where
  "origin_dialBackend vet_lookup dial_lookup answers network target =
     (case vetTarget vet_lookup target of
        Some _ \<Rightarrow> None
      | None \<Rightarrow> find (answers network) (dial_addrs dial_lookup target))"

section \<open>Definitions: the listening end\<close>

record OriginStats =
  os_sessions :: u64
  os_streams :: u64
  os_failed :: u64
  os_active :: u64
  os_rejected :: u64

text \<open>\<open>acceptSession\<close>: over the stealth transport the connection is first wrapped by the Noise record layer, which
  gives the bytes inside it or fails; \<open>mux\<close> says whether the mux session could be set up.\<close>

datatype accept_error = StealthFailed | HandshakeFailed direct_error | MuxFailed

definition acceptSession :: "mac \<Rightarrow> (bytes \<Rightarrow> bytes option) \<Rightarrow> bool \<Rightarrow> DirectConfig \<Rightarrow> bytes \<Rightarrow> bytes \<Rightarrow> accept_error + unit" where
  "acceptSession mac unwrap mux cfg nonceOrigin input =
     (case (if dc_Transport cfg = TransportStealth then unwrap input else Some input) of
        None \<Rightarrow> Inl StealthFailed
      | Some inner \<Rightarrow>
          (case snd (originHandshake mac nonceOrigin (dc_Token cfg) inner) of
             Inl e \<Rightarrow> Inl (HandshakeFailed e)
           | Inr _ \<Rightarrow> if mux then Inr () else Inl MuxFailed))"

text \<open>A goroutine of the origin: a session being served, with what its peer sent in the handshake; a stream
  whose request is awaited; a stream joined to a backend.\<close>

datatype otask = OSession bytes bytes | OReading nat | OJoined nat byte string bytes

record origin_state =
  og_stats :: OriginStats
  og_tasks :: "nat \<rightharpoonup> otask"

fun session_of :: "otask \<Rightarrow> nat option" where
  "session_of (OSession n i) = None" | "session_of (OReading i) = Some i" | "session_of (OJoined i k t a) = Some i"

definition network_of :: "byte \<Rightarrow> string" where
  "network_of kind = (if kind = kindUDP then ''udp'' else ''tcp'')"

definition ogo :: "(OriginStats \<Rightarrow> OriginStats) \<Rightarrow> nat \<Rightarrow> otask option \<Rightarrow> origin_state \<Rightarrow> origin_state" where
  "ogo u i x s = s\<lparr>og_stats := u (og_stats s), og_tasks := (og_tasks s)(i := x)\<rparr>"

inductive origin_step :: "mac \<Rightarrow> (bytes \<Rightarrow> bytes option) \<Rightarrow> DirectConfig \<Rightarrow> origin_state \<Rightarrow> origin_state \<Rightarrow> bool"
  for mac unwrap cfg where
  rejected: "acceptSession mac unwrap mux cfg nonce input = Inl e \<Longrightarrow>
     origin_step mac unwrap cfg s (s\<lparr>og_stats := (og_stats s)\<lparr>os_rejected := os_rejected (og_stats s) + 1\<rparr>\<rparr>)"
| admitted: "acceptSession mac unwrap mux cfg nonce input = Inr () \<Longrightarrow> og_tasks s i = None \<Longrightarrow>
     origin_step mac unwrap cfg s (ogo (\<lambda>t. t\<lparr>os_sessions := os_sessions t + 1\<rparr>) i (Some (OSession nonce input)) s)"
| stream_opened: "og_tasks s i = Some (OSession nonce input) \<Longrightarrow> og_tasks s j = None \<Longrightarrow>
     origin_step mac unwrap cfg s (ogo id j (Some (OReading i)) s)"
| unreadable: "og_tasks s j = Some (OReading i) \<Longrightarrow> readRequest bs = Inl e \<Longrightarrow>
     origin_step mac unwrap cfg s (ogo (\<lambda>t. t\<lparr>os_failed := os_failed t + 1\<rparr>) j None s)"
| unreachable: "og_tasks s j = Some (OReading i) \<Longrightarrow> readRequest bs = Inr ((kind, target), rest) \<Longrightarrow>
     origin_dialBackend vl dl answers (network_of kind) target = None \<Longrightarrow>
     origin_step mac unwrap cfg s (ogo (\<lambda>t. t\<lparr>os_failed := os_failed t + 1\<rparr>) j None s)"
| answer_lost: "og_tasks s j = Some (OReading i) \<Longrightarrow> readRequest bs = Inr ((kind, target), rest) \<Longrightarrow>
     origin_dialBackend vl dl answers (network_of kind) target = Some a \<Longrightarrow>
     origin_step mac unwrap cfg s (ogo id j None s)"
| joined: "og_tasks s j = Some (OReading i) \<Longrightarrow> readRequest bs = Inr ((kind, target), rest) \<Longrightarrow>
     origin_dialBackend vl dl answers (network_of kind) target = Some a \<Longrightarrow>
     origin_step mac unwrap cfg s (ogo (\<lambda>t. t\<lparr>os_streams := os_streams t + 1, os_active := os_active t + 1\<rparr>)
       j (Some (OJoined i kind target a)) s)"
| stream_ended: "og_tasks s j = Some (OJoined i kind target a) \<Longrightarrow>
     origin_step mac unwrap cfg s (ogo (\<lambda>t. t\<lparr>os_active := os_active t - 1\<rparr>) j None s)"
| session_ended: "og_tasks s i = Some (OSession nonce input) \<Longrightarrow> (\<forall>j t. og_tasks s j = Some t \<longrightarrow> session_of t \<noteq> Some i) \<Longrightarrow>
     origin_step mac unwrap cfg s (ogo (\<lambda>t. t\<lparr>os_sessions := os_sessions t - 1\<rparr>) i None s)"

inductive_cases origin_step_elim: "origin_step mac unwrap cfg s s'"

definition NewOrigin :: "DirectConfig \<Rightarrow> direct_config_error + DirectConfig \<times> origin_state" where
  "NewOrigin cfg =
     (case direct_Validate (cfg\<lparr>dc_Role := RoleOrigin\<rparr>) of
        Inl e \<Rightarrow> Inl e
      | Inr c \<Rightarrow> Inr (c, \<lparr>og_stats = \<lparr>os_sessions = 0, os_streams = 0, os_failed = 0, os_active = 0, os_rejected = 0\<rparr>,
                           og_tasks = Map.empty\<rparr>))"

section \<open>Specification\<close>

fun is_session :: "otask \<Rightarrow> bool" where
  "is_session (OSession n i) = True" | "is_session _ = False"

fun is_joined :: "otask \<Rightarrow> bool" where
  "is_joined (OJoined i k t a) = True" | "is_joined _ = False"

text \<open>What each goroutine of the origin rests on.\<close>

fun task_ok :: "mac \<Rightarrow> (bytes \<Rightarrow> bytes option) \<Rightarrow> DirectConfig \<Rightarrow> (nat \<rightharpoonup> otask) \<Rightarrow> otask \<Rightarrow> bool" where
  "task_ok mac unwrap cfg tasks (OSession nonce input) \<longleftrightarrow> acceptSession mac unwrap True cfg nonce input = Inr ()"
| "task_ok mac unwrap cfg tasks (OReading i) \<longleftrightarrow> (\<exists>n b. tasks i = Some (OSession n b))"
| "task_ok mac unwrap cfg tasks (OJoined i kind target a) \<longleftrightarrow> (\<exists>n b. tasks i = Some (OSession n b)) \<and> request_ok (kind, target) \<and>
     (\<exists>vl dl. vetTarget vl target = None \<and> a \<in> set (dial_addrs dl target))"

definition origin_ok :: "mac \<Rightarrow> (bytes \<Rightarrow> bytes option) \<Rightarrow> DirectConfig \<Rightarrow> origin_state \<Rightarrow> bool" where
  "origin_ok mac unwrap cfg s \<longleftrightarrow> finite (dom (og_tasks s)) \<and>
     os_sessions (og_stats s) = word_of_nat (how_many is_session (og_tasks s)) \<and>
     os_active (og_stats s) = word_of_nat (how_many is_joined (og_tasks s)) \<and>
     (\<forall>i t. og_tasks s i = Some t \<longrightarrow> task_ok mac unwrap cfg (og_tasks s) t)"

section \<open>Lemmas\<close>

lemma origin_ok_move:
  assumes ok: "origin_ok mac unwrap cfg s" and x: "case x of None \<Rightarrow> True | Some t \<Rightarrow> task_ok mac unwrap cfg ((og_tasks s)(i := x)) t"
    and keep: "\<And>j t. og_tasks s j = Some t \<Longrightarrow> j \<noteq> i \<Longrightarrow> task_ok mac unwrap cfg (og_tasks s) t \<Longrightarrow> task_ok mac unwrap cfg ((og_tasks s)(i := x)) t"
    and se: "os_sessions (u (og_stats s)) + word_of_nat (sat is_session (og_tasks s i)) = os_sessions (og_stats s) + word_of_nat (sat is_session x)"
    and ac: "os_active (u (og_stats s)) + word_of_nat (sat is_joined (og_tasks s i)) = os_active (og_stats s) + word_of_nat (sat is_joined x)"
  shows "origin_ok mac unwrap cfg (ogo u i x s)"
proof -
  have fin: "finite (dom (og_tasks s))" using ok by (simp add: origin_ok_def)
  have "os_sessions (u (og_stats s)) = word_of_nat (how_many is_session ((og_tasks s)(i := x)))"
    "os_active (u (og_stats s)) = word_of_nat (how_many is_joined ((og_tasks s)(i := x)))"
    using ok by (auto intro!: count_word[OF fin _ se] count_word[OF fin _ ac] simp: origin_ok_def)
  moreover have "task_ok mac unwrap cfg ((og_tasks s)(i := x)) t" if "((og_tasks s)(i := x)) j = Some t" for j t
    using that x keep ok by (auto simp: origin_ok_def split: if_splits)
  ultimately show ?thesis using fin unfolding origin_ok_def ogo_def by simp
qed

text \<open>The tasks of the others only mention sessions, so they stand as long as no session they need goes.\<close>

lemma task_ok_upd:
  assumes "task_ok mac unwrap cfg tasks t" "session_of t = Some i \<longrightarrow> (\<exists>n b. x = Some (OSession n b))"
  shows "task_ok mac unwrap cfg (tasks(i := x)) t"
  using assms by (cases t) auto

lemma accept_mux: "acceptSession mac unwrap mux cfg nonce input = Inr () \<Longrightarrow> acceptSession mac unwrap True cfg nonce input = Inr ()"
  by (auto simp: acceptSession_def split: option.splits sum.splits if_splits)

lemma dialBackend_Some:
  assumes "origin_dialBackend vl dl answers network target = Some a"
  shows "vetTarget vl target = None \<and> a \<in> set (dial_addrs dl target)"
  using assms by (auto simp: origin_dialBackend_def find_Some_iff split: option.splits)


lemma session_is_live: "task_ok mac unwrap cfg tasks t \<Longrightarrow> session_of t = Some j \<Longrightarrow> \<exists>n b. tasks j = Some (OSession n b)"
  by (cases t) auto

text \<open>A stream's goroutine moves: no other goroutine depends on it.\<close>

lemma origin_ok_stream:
  assumes ok: "origin_ok mac unwrap cfg s" and j: "og_tasks s j = t0" "\<not> (\<exists>n b. t0 = Some (OSession n b))"
    and x: "\<And>t. x = Some t \<Longrightarrow> task_ok mac unwrap cfg (og_tasks s) t" "\<not> (\<exists>n b. x = Some (OSession n b))"
    and se: "os_sessions (u (og_stats s)) = os_sessions (og_stats s)"
    and ac: "os_active (u (og_stats s)) + word_of_nat (sat is_joined t0) = os_active (og_stats s) + word_of_nat (sat is_joined x)"
  shows "origin_ok mac unwrap cfg (ogo u j x s)"
proof (rule origin_ok_move[OF ok])
  have upd: "task_ok mac unwrap cfg ((og_tasks s)(j := x)) t" if "task_ok mac unwrap cfg (og_tasks s) t" for t
    using task_ok_upd[OF that] session_is_live[OF that] j by blast
  show "case x of None \<Rightarrow> True | Some t \<Rightarrow> task_ok mac unwrap cfg ((og_tasks s)(j := x)) t"
    using upd x(1) by (auto split: option.splits)
  show "task_ok mac unwrap cfg ((og_tasks s)(j := x)) t" if "task_ok mac unwrap cfg (og_tasks s) t" for t using upd[OF that] .
  have "sat is_session y = 0" if "\<not> (\<exists>n b. y = Some (OSession n b))" for y
    using that by (auto simp: sat_def split: option.splits elim: is_session.elims)
  then show "os_sessions (u (og_stats s)) + word_of_nat (sat is_session (og_tasks s j)) =
      os_sessions (og_stats s) + word_of_nat (sat is_session x)"
    using se j x(2) by simp
qed (use ac j in auto)

lemma origin_ok_step:
  assumes "origin_step mac unwrap cfg s s'" and ok: "origin_ok mac unwrap cfg s"
  shows "origin_ok mac unwrap cfg s'"
  using assms(1)
proof (cases rule: origin_step.cases)
  case (rejected mux nonce input e)
  then show ?thesis using ok by (simp add: origin_ok_def)
next
  case (admitted mux nonce input i)
  show ?thesis unfolding admitted(1)
    by (rule origin_ok_move[OF ok]) (use admitted(3) accept_mux[OF admitted(2)] task_ok_upd in auto)
next
  case (stream_opened i nonce input j)
  then show ?thesis using ok unfolding stream_opened(1) by (intro origin_ok_stream[OF ok]) auto
next
  case (unreadable j i bs e)
  then show ?thesis unfolding unreadable(1) by (intro origin_ok_stream[OF ok]) auto
next
  case (unreachable j i bs kind target rest vl dl answers)
  then show ?thesis unfolding unreachable(1) by (intro origin_ok_stream[OF ok]) auto
next
  case (answer_lost j i bs kind target rest vl dl answers a)
  then show ?thesis unfolding answer_lost(1) by (intro origin_ok_stream[OF ok]) auto
next
  case (joined j i bs kind target rest vl dl answers a)
  have "task_ok mac unwrap cfg (og_tasks s) (OReading i)" using ok joined(2) unfolding origin_ok_def by blast
  then have "task_ok mac unwrap cfg (og_tasks s) (OJoined i kind target a)"
    using readRequest_Inr[OF joined(3)] dialBackend_Some[OF joined(4)] by auto
  then show ?thesis using joined(2) unfolding joined(1) by (intro origin_ok_stream[OF ok]) auto
next
  case (stream_ended j i kind target a)
  then show ?thesis unfolding stream_ended(1) by (intro origin_ok_stream[OF ok]) auto
next
  case (session_ended i nonce input)
  show ?thesis unfolding session_ended(1)
  proof (rule origin_ok_move[OF ok])
    show "task_ok mac unwrap cfg ((og_tasks s)(i := None)) t" if "og_tasks s j = Some t" "task_ok mac unwrap cfg (og_tasks s) t" for j t
      using task_ok_upd[OF that(2)] session_ended(3) that(1) by blast
  qed (use session_ended in auto)
qed

lemma origin_ok_run: "(origin_step mac unwrap cfg)\<^sup>*\<^sup>* s s' \<Longrightarrow> origin_ok mac unwrap cfg s \<Longrightarrow> origin_ok mac unwrap cfg s'"
  by (induction rule: rtranclp_induct) (auto dest: origin_ok_step)

lemma NewOrigin_ok: "NewOrigin cfg = Inr (c, s) \<Longrightarrow> origin_ok mac unwrap c s"
  by (auto simp: NewOrigin_def origin_ok_def split: sum.splits)

text \<open>Configuration: what each part of \<open>Validate\<close> establishes.\<close>

definition direct_ok :: "DirectConfig \<Rightarrow> bool" where
  "direct_ok c \<longleftrightarrow> dc_Role c \<in> {RoleEdge, RoleOrigin} \<and> TrimSpace (dc_Addr c) \<noteq> [] \<and> (\<exists>hp. SplitHostPort (dc_Addr c) = Inr hp) \<and>
     TrimSpace (dc_Token c) \<noteq> [] \<and> dc_Transport c \<in> {TransportTCP, TransportStealth, TransportWS, TransportWSS} \<and>
     (dc_TLSCertFile c = [] \<longleftrightarrow> dc_TLSKeyFile c = []) \<and> dc_ACMECacheDir c \<noteq> [] \<and>
     (dc_Role c = RoleEdge \<longrightarrow> dc_Ports c \<noteq> [] \<and> (\<exists>ms. Expand (dc_Ports c) DefaultBackendHost = Inr ms)) \<and>
     1 \<le> dc_Sessions c \<and> dc_Sessions c \<le> 64 \<and> 0 < dc_DialTimeout c \<and> 0 < dc_RetryDelay c \<and>
     0 < dc_MaxFrameSize c \<and> 0 < dc_MaxReceiveBuffer c \<and> 0 < dc_MaxStreamBuffer c"

lemma names_normal:
  "x \<in> {RoleEdge, RoleOrigin} \<Longrightarrow> ToLower (TrimSpace x) = x \<and> x \<noteq> []"
  "x \<in> {TransportTCP, TransportStealth, TransportWS, TransportWSS} \<Longrightarrow> ToLower (TrimSpace x) = x \<and> x \<noteq> []"
proof -
  have "\<forall>x \<in> set [RoleEdge, RoleOrigin, TransportTCP, TransportStealth, TransportWS, TransportWSS]. ToLower (TrimSpace x) = x \<and> x \<noteq> []"
    by code_simp
  then show "x \<in> {RoleEdge, RoleOrigin} \<Longrightarrow> ToLower (TrimSpace x) = x \<and> x \<noteq> []"
    "x \<in> {TransportTCP, TransportStealth, TransportWS, TransportWSS} \<Longrightarrow> ToLower (TrimSpace x) = x \<and> x \<noteq> []"
    by auto
qed

lemma direct_endpoint_effect:
  "direct_endpoint c = Inr c' \<longleftrightarrow> c' = c\<lparr>dc_Role := ToLower (TrimSpace (dc_Role c))\<rparr> \<and> ToLower (TrimSpace (dc_Role c)) \<in> {RoleEdge, RoleOrigin} \<and>
     TrimSpace (dc_Addr c) \<noteq> [] \<and> (\<exists>hp. SplitHostPort (dc_Addr c) = Inr hp) \<and> TrimSpace (dc_Token c) \<noteq> []"
  by (auto simp: direct_endpoint_def Let_def refuse_if_def RoleEdge_def RoleOrigin_def split: sum.splits if_splits)

lemma direct_transport_effect:
  assumes "t = ToLower (TrimSpace (dc_Transport c))"
  shows "direct_transport c = Inr c' \<longleftrightarrow>
     c' = c\<lparr>dc_Transport := (if t = [] then TransportTCP else t),
            dc_ACMECacheDir := (if dc_ACMECacheDir c = [] then defaultACMECacheDir else dc_ACMECacheDir c)\<rparr> \<and>
     (t = [] \<or> t \<in> {TransportTCP, TransportStealth, TransportWS, TransportWSS}) \<and> (dc_TLSCertFile c = [] \<longleftrightarrow> dc_TLSKeyFile c = [])"
  unfolding direct_transport_def Let_def assms[symmetric] by (simp, blast)

lemma direct_ports_effect:
  "direct_ports c = Inr c' \<longleftrightarrow> c' = c \<and> (dc_Role c = RoleEdge \<longrightarrow> dc_Ports c \<noteq> [] \<and> (\<exists>ms. Expand (dc_Ports c) DefaultBackendHost = Inr ms))"
  by (auto simp: direct_ports_def check_simps)

lemma direct_sizes_effect:
  "direct_sizes c = Inr c' \<longleftrightarrow>
     c' = c\<lparr>dc_Sessions := or_default (dc_Sessions c) 1, dc_DialTimeout := or_default (dc_DialTimeout c) defaultDialTimeout,
            dc_RetryDelay := or_default (dc_RetryDelay c) defaultRetryDelay,
            dc_MaxFrameSize := or_default (dc_MaxFrameSize c) defaultMaxFrameSize,
            dc_MaxReceiveBuffer := or_default (dc_MaxReceiveBuffer c) defaultMaxReceive,
            dc_MaxStreamBuffer := or_default (dc_MaxStreamBuffer c) defaultMaxStream\<rparr> \<and> or_default (dc_Sessions c) 1 \<le> 64"
  unfolding direct_sizes_def Let_def by (simp, blast)

lemma or_default_pos: "0 < d \<Longrightarrow> 0 < or_default x d" "0 < x \<Longrightarrow> or_default x d = x"
  by (simp_all add: or_default_def)

lemmas direct_effects = direct_endpoint_effect direct_transport_effect[OF refl] direct_ports_effect direct_sizes_effect
lemmas direct_defaults = defaultDialTimeout_def defaultRetryDelay_def defaultMaxFrameSize_def defaultMaxReceive_def
  defaultMaxStream_def defaultACMECacheDir_def second_def

lemma direct_Validate_ok:
  assumes "direct_Validate c = Inr c'"
  shows "direct_ok c'"
proof -
  obtain c1 c2 c3 where v: "direct_endpoint c = Inr c1" "direct_transport c1 = Inr c2" "direct_ports c2 = Inr c3" "direct_sizes c3 = Inr c'"
    using assms by (auto simp: direct_Validate_def and_then_Inr)
  note e = v[unfolded direct_effects]
  have role: "dc_Role c' = dc_Role c1" "dc_Addr c' = dc_Addr c1" "dc_Token c' = dc_Token c1" "dc_Ports c' = dc_Ports c2" "dc_Role c2 = dc_Role c1"
    "dc_Transport c' = dc_Transport c2" "dc_TLSCertFile c' = dc_TLSCertFile c1" "dc_TLSKeyFile c' = dc_TLSKeyFile c1" "dc_ACMECacheDir c' = dc_ACMECacheDir c2"
    using e by simp_all
  have "dc_Transport c2 \<in> {TransportTCP, TransportStealth, TransportWS, TransportWSS}" "dc_ACMECacheDir c2 \<noteq> []"
    "dc_TLSCertFile c1 = [] \<longleftrightarrow> dc_TLSKeyFile c1 = []"
    using e(2) by (auto simp: direct_defaults)
  moreover have "1 \<le> dc_Sessions c'" "dc_Sessions c' \<le> 64" "0 < dc_DialTimeout c'" "0 < dc_RetryDelay c'"
    "0 < dc_MaxFrameSize c'" "0 < dc_MaxReceiveBuffer c'" "0 < dc_MaxStreamBuffer c'"
    using e(4) or_default_pos(1)[of 1 "dc_Sessions c3"] by (simp_all add: or_default_pos direct_defaults int_one_le_iff_zero_less)
  moreover have "dc_Role c1 \<in> {RoleEdge, RoleOrigin}" "TrimSpace (dc_Addr c1) \<noteq> []" "\<exists>hp. SplitHostPort (dc_Addr c1) = Inr hp"
    "TrimSpace (dc_Token c1) \<noteq> []"
    using e(1) by simp_all
  moreover have "dc_Role c1 = RoleEdge \<longrightarrow> dc_Ports c2 \<noteq> [] \<and> (\<exists>ms. Expand (dc_Ports c2) DefaultBackendHost = Inr ms)"
    using e(3) role(5) by metis
  ultimately show ?thesis unfolding direct_ok_def role by blast
qed

lemma direct_Validate_fixed:
  assumes "direct_ok c"
  shows "direct_Validate c = Inr c"
proof -
  note d = assms[unfolded direct_ok_def]
  have r: "ToLower (TrimSpace (dc_Role c)) = dc_Role c" using names_normal(1) d by blast
  have t: "ToLower (TrimSpace (dc_Transport c)) = dc_Transport c" "dc_Transport c \<noteq> []" using names_normal(2) d by blast+
  have "direct_endpoint c = Inr c" unfolding direct_endpoint_effect r using d by simp
  moreover have "direct_transport c = Inr c" unfolding direct_transport_effect[OF refl] t using d t(2) by simp
  moreover have "direct_ports c = Inr c" unfolding direct_ports_effect using d by blast
  moreover have "direct_sizes c = Inr c" unfolding direct_sizes_effect using d by (simp add: or_default_pos)
  ultimately show ?thesis by (simp add: direct_Validate_def and_then_def)
qed

text \<open>A configuration and a conversation, for the witnesses.\<close>

definition demo_direct :: DirectConfig where
  "demo_direct =
     \<lparr>dc_Role = '' Origin'', dc_Addr = '':1'', dc_Token = ''t'', dc_Transport = [], dc_ServerName = [], dc_TLSCertFile = [],
      dc_TLSKeyFile = [], dc_ACMEDomain = [], dc_ACMEEmail = [], dc_ACMECacheDir = [], dc_Ports = [], dc_AcceptUDP = False,
      dc_MaxConnections = 0, dc_BandwidthMbps = 0, dc_Sessions = 0, dc_DialTimeout = 0, dc_RetryDelay = 0, dc_MaxFrameSize = 0,
      dc_MaxReceiveBuffer = 0, dc_MaxStreamBuffer = 0, dc_MuxVersion = 0, dc_Nodelay = False, dc_Keepalive = 0, dc_MSS = 0\<rparr>"

definition demo_direct_valid :: DirectConfig where
  "demo_direct_valid = demo_direct\<lparr>dc_Role := RoleOrigin, dc_Transport := TransportTCP, dc_ACMECacheDir := defaultACMECacheDir,
     dc_Sessions := 1, dc_DialTimeout := defaultDialTimeout, dc_RetryDelay := defaultRetryDelay, dc_MaxFrameSize := defaultMaxFrameSize,
     dc_MaxReceiveBuffer := defaultMaxReceive, dc_MaxStreamBuffer := defaultMaxStream\<rparr>"

lemma demo_direct_validates: "direct_Validate demo_direct = Inr demo_direct_valid"
  by code_simp

lemma metadata_list:
  "metadataAddrs = map Some [v4InV6Prefix @ [169, 254, 169, 254], v4InV6Prefix @ [100, 100, 100, 200],
     [0xfd, 0, 0x0e, 0xc2, 0, 0, 0, 0, 0, 0, 0, 0, 0, 0, 2, 0x54], v4InV6Prefix @ [169, 254, 169, 253]]"
proof -
  have "map ParseIP [''169.254.169.254'', ''100.100.100.200'', ''169.254.169.253''] =
      map Some [v4InV6Prefix @ [169, 254, 169, 254], v4InV6Prefix @ [100, 100, 100, 200], v4InV6Prefix @ [169, 254, 169, 253]]"
    by code_simp
  then show ?thesis by (simp add: metadataAddrs_def ParseIP_v6_example)
qed

lemma demo_accepts:
  "acceptSession demo_mac (\<lambda>_. None) True demo_direct_valid (replicate 32 9)
     (protocolVersion # replicate 32 7 @ tunnel_proof demo_mac ''t'' ''edge'' (replicate 32 7) (replicate 32 9)) = Inr ()"
proof -
  have "length (tunnel_proof demo_mac ''t'' ''edge'' e n) = proofLen" for e n
    by (simp add: tunnel_proof_def demo_mac_def proofLen_def)
  from ReadFull_exact[OF this] show ?thesis
    by (simp add: acceptSession_def demo_direct_valid_def demo_direct_def TransportTCP_def TransportStealth_def origin_opening nonceLen_def)
qed

section \<open>Properties\<close>



text \<open>An accepted direct configuration has all that both ends rely on: a role, an address, a token and a
  transport, a whole certificate pair or none, at the edge port mappings that expand, between 1 and 64
  sessions and positive timeouts and buffer sizes; and validating it again changes nothing.\<close>
theorem direct_validated:
  assumes "direct_Validate c = Inr c'"
  shows "direct_ok c' \<and> direct_Validate c' = Inr c'"
  using direct_Validate_ok[OF assms] direct_Validate_fixed by blast

theorem direct_validated_witness: "direct_Validate demo_direct = Inr demo_direct_valid \<and> direct_ok demo_direct_valid"
  using direct_validated[OF demo_direct_validates] demo_direct_validates by blast

text \<open>Cloud metadata services are out of reach, with one gap. The origin connects to a metadata address,
  in its IPv4, its IPv4-in-IPv6 or its IPv6 form, only if the target is a name and the resolver's answer
  changed between the check and the dial, which asks it again: a literal address and a name with a steady
  answer never lead there.\<close>
theorem metadata_only_by_rebinding:
  assumes "origin_dialBackend vl dl answers network target = Some a" "isMetadataAddr a"
  shows "\<exists>host port. SplitHostPort target = Inr (host, port) \<and> ParseIP host = None \<and> vl host \<noteq> dl host"
proof -
  have v: "vetTarget vl target = None" "a \<in> set (dial_addrs dl target)" using dialBackend_Some[OF assms(1)] by simp_all
  obtain host port where sp: "SplitHostPort target = Inr (host, port)" using v(1) by (auto simp: vetTarget_def split: sum.splits)
  have n: "ParseIP host = None" using v assms(2) by (auto simp: sp vetTarget_def dial_addrs_def split: option.splits if_splits)
  have "vl host \<noteq> dl host"
  proof
    assume eq: "vl host = dl host"
    show False using v assms(2)
      by (auto simp: sp n vetTarget_def dial_addrs_def list_ex_iff eq split: option.splits if_splits)
  qed
  then show ?thesis using sp n by blast
qed

theorem metadata_only_by_rebinding_witness:
  "origin_dialBackend (\<lambda>_. Some [[1, 2, 3, 4]]) (\<lambda>_. Some [[169, 254, 169, 254]]) (\<lambda>_ _. True) ''tcp'' ''evil.example:80'' =
     Some [169, 254, 169, 254] \<and> isMetadataAddr [169, 254, 169, 254] \<and> ParseIP ''evil.example'' = None"
proof -
  let ?v = "\<lambda>_. Some [[1, 2, 3, 4]]" and ?d = "\<lambda>_. Some [[169, 254, 169, 254]]"
  have sp: "SplitHostPort ''evil.example:80'' = Inr (''evil.example'', ''80'')" "ParseIP ''evil.example'' = None" by code_simp+
  have m: "isMetadataAddr [169, 254, 169, 254]" "\<not> isMetadataAddr [1, 2, 3, 4]"
    by (simp_all add: isMetadataAddr_def metadata_list ip_Equal_def v4InV6Prefix_def)
  have d: "origin_dialBackend ?v ?d (\<lambda>_ _. True) ''tcp'' ''evil.example:80'' = Some [169, 254, 169, 254]"
    by (simp add: origin_dialBackend_def vetTarget_def dial_addrs_def sp m)
  from metadata_only_by_rebinding[OF d m(1)] have "ParseIP ''evil.example'' = None" by (auto simp: sp(1))
  then show ?thesis using d m(1) by blast
qed

end
