(* ===== verification/DirectEdge.thy ===== *)
theory DirectEdge
  imports DirectTunnel Forward
begin

text \<open>
  The dialling end of the direct tunnel, \<open>edge.go\<close> and \<open>openStream\<close> of \<open>session.go\<close> in
  \<open>src/internal/tunnel/direct\<close>: the list of live sessions and their rotation, the opening of a stream to one
  of a mapping's backends, and the life of user connections and UDP flows with their slots and counters.

  A session is a reference. Whether a session is usable is an argument, as is what the origin answers to a
  request. Connections, flows and the keepers of sessions are goroutines: \<open>edge_step\<close> interleaves their
  atomic actions, one rule each, the opening of a stream being one.
\<close>

section \<open>Definitions: sessions and streams\<close>

record Edge =
  ed_cfg :: DirectConfig
  ed_mappings :: "Mapping list"
  ed_limiter :: "Limiter option"
  ed_sessions :: "nat list"
  ed_cursor :: u64
  ed_nsessions :: u64
  ed_accepted :: u64
  ed_refused :: u64
  ed_active :: u64

datatype new_edge_error = EdgeConfig direct_config_error | EdgePorts portmap_error

definition NewEdge :: "DirectConfig \<Rightarrow> new_edge_error + Edge" where
  "NewEdge cfg0 =
     (case direct_Validate (cfg0\<lparr>dc_Role := RoleEdge\<rparr>) of
        Inl e \<Rightarrow> Inl (EdgeConfig e)
      | Inr cfg \<Rightarrow>
          (case Expand (dc_Ports cfg) DefaultBackendHost of
             Inl e \<Rightarrow> Inl (EdgePorts e)
           | Inr mappings \<Rightarrow>
               Inr \<lparr>ed_cfg = cfg, ed_mappings = mappings,
                    ed_limiter = limits_New \<lparr>lc_MaxConnections = dc_MaxConnections cfg, lc_BandwidthMbps = dc_BandwidthMbps cfg\<rparr>,
                    ed_sessions = [], ed_cursor = 0, ed_nsessions = 0, ed_accepted = 0, ed_refused = 0, ed_active = 0\<rparr>))"

definition addSession :: "nat \<Rightarrow> Edge \<Rightarrow> Edge" where
  "addSession session e = e\<lparr>ed_sessions := ed_sessions e @ [session]\<rparr>"

definition removeSession :: "nat \<Rightarrow> Edge \<Rightarrow> Edge \<times> bool" where
  "removeSession session e =
     (e\<lparr>ed_sessions := filter (\<lambda>s. s \<noteq> session) (ed_sessions e)\<rparr>, session \<in> set (ed_sessions e))"

definition count_sessions :: "u64 \<Rightarrow> Edge \<Rightarrow> Edge" where
  "count_sessions d e = e\<lparr>ed_nsessions := ed_nsessions e + d\<rparr>"

text \<open>\<open>pickSession\<close>: the loop is the search from a rotating start that \<open>dial_loop\<close> is.\<close>

definition pickSession :: "(nat \<Rightarrow> bool) \<Rightarrow> Edge \<Rightarrow> Edge \<times> nat dial_result" where
  "pickSession usable e =
     (let sessions = ed_sessions e in
      if sessions = [] then (e, AllFailed)
      else (e\<lparr>ed_cursor := ed_cursor e + 1\<rparr>,
            dial_loop (\<lambda>_ s. if usable s then Some s else None) sessions
              (sint (ed_cursor e) smod int (length sessions)) [0..<length sessions]))"

datatype open_error = OpenRequest direct_error | OpenBroken | OriginCouldNot string

text \<open>\<open>openStream\<close>: the peer is what answers a request, \<open>None\<close> when the stream cannot be opened or breaks.\<close>

definition openStream :: "(bytes \<Rightarrow> byte option) \<Rightarrow> byte \<Rightarrow> string \<Rightarrow> open_error + unit" where
  "openStream peer kind target =
     (case writeRequest kind target of
        Inl e \<Rightarrow> Inl (OpenRequest e)
      | Inr req \<Rightarrow>
          (case peer req of
             None \<Rightarrow> Inl OpenBroken
           | Some answer \<Rightarrow> if answer \<noteq> streamOK then Inl (OriginCouldNot target) else Inr ()))"

text \<open>What the origin of \<open>DirectTunnel\<close> answers on a fresh stream.\<close>

definition origin_answer :: "resolver \<Rightarrow> resolver \<Rightarrow> (string \<Rightarrow> bytes \<Rightarrow> bool) \<Rightarrow> bytes \<Rightarrow> byte option" where
  "origin_answer vl dl answers req =
     (case readRequest req of
        Inl _ \<Rightarrow> None
      | Inr ((kind, target), _) \<Rightarrow>
          (case origin_dialBackend vl dl answers (network_of kind) target of
             None \<Rightarrow> Some streamFailed
           | Some _ \<Rightarrow> Some streamOK))"

text \<open>\<open>openFor\<close>. A mapping without targets would divide by zero.\<close>

datatype open_result = Opened nat string | NoSession | NotOpened open_error | OpenPanic

fun open_loop :: "(string \<Rightarrow> open_error + unit) \<Rightarrow> nat \<Rightarrow> string list \<Rightarrow> int \<Rightarrow> nat list \<Rightarrow> open_error option \<Rightarrow> open_result" where
  "open_loop open_to session targets start [] lastErr = (case lastErr of None \<Rightarrow> OpenPanic | Some e \<Rightarrow> NotOpened e)"
| "open_loop open_to session targets start (i # is) lastErr =
     (let x = (start + int i) smod int (length targets) in
      if x < 0 then OpenPanic
      else case open_to (targets ! nat x) of
             Inr _ \<Rightarrow> Opened session (targets ! nat x)
           | Inl e \<Rightarrow> open_loop open_to session targets start is (Some e))"

definition openFor :: "(nat \<Rightarrow> bool) \<Rightarrow> (nat \<Rightarrow> byte \<Rightarrow> string \<Rightarrow> open_error + unit) \<Rightarrow> byte \<Rightarrow> Mapping \<Rightarrow> Edge \<Rightarrow> Edge \<times> open_result" where
  "openFor usable open_on kind m e =
     (case pickSession usable e of
        (e, Dialled session) \<Rightarrow>
          if mp_Targets m = [] then (e\<lparr>ed_cursor := ed_cursor e + 1\<rparr>, OpenPanic)
          else (e\<lparr>ed_cursor := ed_cursor e + 1\<rparr>,
                open_loop (open_on session kind) session (mp_Targets m)
                  (sint (ed_cursor e) smod int (length (mp_Targets m))) [0..<length (mp_Targets m)] None)
      | (e, IndexPanic) \<Rightarrow> (e, OpenPanic)
      | (e, _) \<Rightarrow> (e, NoSession))"

section \<open>Definitions: connections, flows and keepers\<close>

definition edge_udpFlowIdle :: duration where "edge_udpFlowIdle = 2 * minute"

text \<open>The reaper closes the stream of an idle flow, which ends its pump: for the pump a read that fails.\<close>

definition reaped :: "instant \<Rightarrow> instant \<Rightarrow> bool" where
  "reaped lastSeen now \<longleftrightarrow> now - lastSeen > edge_udpFlowIdle"

text \<open>
  Stages of a connection or flow. \<open>ERefusing\<close>: turned away by the limiter, about to back out. \<open>EOpening\<close>: slot
  held, opening a stream; \<open>EPiping\<close>: counted; \<open>ELeaving\<close>: not counted, slot still held. \<open>EFlowOpening\<close>: slot held,
  opening; \<open>EFlowStored\<close>: in the map, not counted yet; \<open>EFlowLive\<close>: counted; \<open>EFlowEnding\<close>: out of the map, still
  counted. A keeper: \<open>KListed\<close> when its session is in the list and not counted yet, \<open>KUp\<close> when counted, and
  \<open>KGone\<close> when taken out of the list, with what \<open>removeSession\<close> found, and not uncounted yet.
\<close>

datatype etask = ERefusing | EOpening | EPiping | ELeaving
  | EFlowOpening flow_key | EFlowStored flow_key instant | EFlowLive flow_key instant | EFlowEnding

datatype keeper = KListed nat | KUp nat | KGone bool

record edge_state =
  es_edge :: Edge
  es_tasks :: "nat \<rightharpoonup> etask"
  es_flows :: "flow_key \<rightharpoonup> nat"
  es_keepers :: "nat \<rightharpoonup> keeper"

fun keeps :: "keeper \<Rightarrow> nat option" where
  "keeps (KListed s) = Some s" | "keeps (KUp s) = Some s" | "keeps (KGone r) = None"

definition e_limiter :: "Limiter option \<Rightarrow> Edge \<Rightarrow> Edge" where "e_limiter l e = e\<lparr>ed_limiter := l\<rparr>"
definition e_refused :: "Edge \<Rightarrow> Edge" where "e_refused e = e\<lparr>ed_refused := ed_refused e + 1\<rparr>"
definition e_accepted :: "Edge \<Rightarrow> Edge" where "e_accepted e = e\<lparr>ed_accepted := ed_accepted e + 1\<rparr>"
definition e_active :: "u64 \<Rightarrow> Edge \<Rightarrow> Edge" where "e_active d e = e\<lparr>ed_active := ed_active e + d\<rparr>"

definition ego :: "Edge \<Rightarrow> nat \<Rightarrow> etask option \<Rightarrow> edge_state \<Rightarrow> edge_state" where
  "ego e i x s = s\<lparr>es_edge := e, es_tasks := (es_tasks s)(i := x)\<rparr>"

definition kgo :: "Edge \<Rightarrow> nat \<Rightarrow> keeper option \<Rightarrow> edge_state \<Rightarrow> edge_state" where
  "kgo e i x s = s\<lparr>es_edge := e, es_keepers := (es_keepers s)(i := x)\<rparr>"

inductive edge_step :: "edge_state \<Rightarrow> edge_state \<Rightarrow> bool" where
  turned_away: "es_tasks s i = None \<Longrightarrow> room_in (es_tasks s) \<Longrightarrow> acquire_begin (ed_limiter (es_edge s)) = (l, False) \<Longrightarrow>
     edge_step s (ego (e_limiter l (es_edge s)) i (Some ERefusing) s)"
| backed_out: "es_tasks s i = Some ERefusing \<Longrightarrow> e = es_edge s \<Longrightarrow>
     edge_step s (ego (e_refused (e_limiter (acquire_backout (ed_limiter e)) e)) i None s)"
| tcp_admitted: "es_tasks s i = None \<Longrightarrow> room_in (es_tasks s) \<Longrightarrow> acquire_begin (ed_limiter (es_edge s)) = (l, True) \<Longrightarrow>
     edge_step s (ego (e_limiter l (es_edge s)) i (Some EOpening) s)"
| tcp_refused: "es_tasks s i = Some EOpening \<Longrightarrow> openFor usable open_on kindTCP m (es_edge s) = (e, r) \<Longrightarrow>
     r = NoSession \<or> r = NotOpened err \<Longrightarrow>
     edge_step s (ego (e_refused e) i (Some ELeaving) s)"
| tcp_opened: "es_tasks s i = Some EOpening \<Longrightarrow> openFor usable open_on kindTCP m (es_edge s) = (e, Opened session target) \<Longrightarrow>
     edge_step s (ego (e_active 1 (e_accepted e)) i (Some EPiping) s)"
| tcp_done: "es_tasks s i = Some EPiping \<Longrightarrow>
     edge_step s (ego (e_active (- 1) (es_edge s)) i (Some ELeaving) s)"
| released: "es_tasks s i = Some ELeaving \<Longrightarrow> e = es_edge s \<Longrightarrow>
     edge_step s (ego (e_limiter (Release (ed_limiter e)) e) i None s)"
| udp_admitted: "es_tasks s i = None \<Longrightarrow> room_in (es_tasks s) \<Longrightarrow> es_flows s k = None \<Longrightarrow>
     acquire_begin (ed_limiter (es_edge s)) = (l, True) \<Longrightarrow>
     edge_step s (ego (e_limiter l (es_edge s)) i (Some (EFlowOpening k)) s)"
| udp_refused: "es_tasks s i = Some (EFlowOpening k) \<Longrightarrow> openFor usable open_on kindUDP m (es_edge s) = (e, r) \<Longrightarrow>
     r = NoSession \<or> r = NotOpened err \<Longrightarrow>
     edge_step s (ego (e_refused (e_limiter (Release (ed_limiter e)) e)) i None s)"
| udp_raced: "es_tasks s i = Some (EFlowOpening k) \<Longrightarrow> openFor usable open_on kindUDP m (es_edge s) = (e, Opened session target) \<Longrightarrow>
     es_flows s k = Some j \<Longrightarrow>
     edge_step s (ego (e_limiter (Release (ed_limiter e)) e) i None s)"
| udp_stored: "es_tasks s i = Some (EFlowOpening k) \<Longrightarrow> openFor usable open_on kindUDP m (es_edge s) = (e, Opened session target) \<Longrightarrow>
     es_flows s k = None \<Longrightarrow>
     edge_step s ((ego e i (Some (EFlowStored k now)) s)\<lparr>es_flows := (es_flows s)(k \<mapsto> i)\<rparr>)"
| udp_counted: "es_tasks s i = Some (EFlowStored k t) \<Longrightarrow>
     edge_step s (ego (e_active 1 (e_accepted (es_edge s))) i (Some (EFlowLive k t)) s)"
| udp_touched: "es_tasks s i = Some (EFlowLive k t) \<Longrightarrow>
     edge_step s (ego (es_edge s) i (Some (EFlowLive k now)) s)"
| udp_ended: "es_tasks s i = Some (EFlowLive k t) \<Longrightarrow> broken \<or> reaped t now \<Longrightarrow>
     edge_step s ((ego (es_edge s) i (Some EFlowEnding) s)\<lparr>es_flows := (es_flows s)(k := None)\<rparr>)"
| udp_uncounted: "es_tasks s i = Some EFlowEnding \<Longrightarrow>
     edge_step s (ego (e_active (- 1) (es_edge s)) i (Some ELeaving) s)"
| session_up: "es_keepers s i = None \<Longrightarrow> int i < dc_Sessions (ed_cfg (es_edge s)) \<Longrightarrow> \<forall>j k. es_keepers s j = Some k \<longrightarrow> keeps k \<noteq> Some x \<Longrightarrow>
     edge_step s (kgo (addSession x (es_edge s)) i (Some (KListed x)) s)"
| session_counted: "es_keepers s i = Some (KListed x) \<Longrightarrow>
     edge_step s (kgo (count_sessions 1 (es_edge s)) i (Some (KUp x)) s)"
| session_dead: "es_keepers s i = Some (KUp x) \<Longrightarrow> removeSession x (es_edge s) = (e, r) \<Longrightarrow>
     edge_step s (kgo e i (Some (KGone r)) s)"
| session_uncounted: "es_keepers s i = Some (KGone r) \<Longrightarrow>
     edge_step s (kgo (if r then count_sessions (- 1) (es_edge s) else es_edge s) i None s)"

inductive_cases edge_step_elim: "edge_step s s'"

definition edge_start :: "Edge \<Rightarrow> edge_state" where
  "edge_start e = \<lparr>es_edge = e, es_tasks = Map.empty, es_flows = Map.empty, es_keepers = Map.empty\<rparr>"

section \<open>Specification\<close>

fun e_holds :: "etask \<Rightarrow> bool" where
  "e_holds ERefusing = False" | "e_holds _ = True"

fun e_counted :: "etask \<Rightarrow> bool" where
  "e_counted EPiping = True" | "e_counted (EFlowLive k t) = True" | "e_counted EFlowEnding = True" | "e_counted _ = False"

fun e_flow :: "etask \<Rightarrow> flow_key option" where
  "e_flow (EFlowStored k t) = Some k" | "e_flow (EFlowLive k t) = Some k" | "e_flow _ = None"

fun k_counted :: "keeper \<Rightarrow> bool" where
  "k_counted (KUp s) = True" | "k_counted (KGone r) = True" | "k_counted (KListed s) = False"

definition keepers_ok :: "edge_state \<Rightarrow> bool" where
  "keepers_ok s \<longleftrightarrow> finite (dom (es_keepers s)) \<and> (\<forall>i \<in> dom (es_keepers s). int i < dc_Sessions (ed_cfg (es_edge s))) \<and>
     ed_nsessions (es_edge s) = word_of_nat (how_many k_counted (es_keepers s)) \<and> distinct (ed_sessions (es_edge s)) \<and>
     (\<forall>x. x \<in> set (ed_sessions (es_edge s)) \<longleftrightarrow> (\<exists>i k. es_keepers s i = Some k \<and> keeps k = Some x)) \<and>
     (\<forall>i j k l x. es_keepers s i = Some k \<and> keeps k = Some x \<and> es_keepers s j = Some l \<and> keeps l = Some x \<longrightarrow> i = j) \<and>
     (\<forall>i. es_keepers s i \<noteq> Some (KGone False))"

definition edge_ok :: "edge_state \<Rightarrow> bool" where
  "edge_ok s \<longleftrightarrow> table_ok limiter_held e_holds e_counted e_flow (es_tasks s) (es_flows s)
     (ed_limiter (es_edge s)) (ed_active (es_edge s))"

section \<open>Lemmas: slots and counters\<close>

interpretation edged: task_table acquire_begin acquire_backout Release limiter_held limiter_cap_of e_holds e_counted e_flow
proof
  show "\<not> e_holds t \<Longrightarrow> \<not> e_counted t \<and> e_flow t = None" for t by (cases t) auto
qed

lemma pickSession_keeps:
  assumes "pickSession usable e = (e', r)"
  shows "\<exists>c. e' = e\<lparr>ed_cursor := c\<rparr>"
  using assms by (auto simp: pickSession_def Let_def split: if_splits) (metis Edge.surjective Edge.update_convs(5))

lemma openFor_keeps:
  assumes "openFor usable open_on kind m e = (e', r)"
  shows "\<exists>c. e' = e\<lparr>ed_cursor := c\<rparr>"
proof -
  obtain e1 r1 where p: "pickSession usable e = (e1, r1)" by (cases "pickSession usable e")
  obtain c where "e1 = e\<lparr>ed_cursor := c\<rparr>" using pickSession_keeps[OF p] by blast
  then show ?thesis using assms by (auto simp: openFor_def p split: dial_result.splits if_splits)
qed

lemma openFor_frame:
  assumes "openFor usable open_on kind m e = (e', r)"
  shows "ed_limiter e' = ed_limiter e" "ed_active e' = ed_active e" "ed_cfg e' = ed_cfg e" "ed_sessions e' = ed_sessions e"
    "ed_nsessions e' = ed_nsessions e"
  using openFor_keeps[OF assms] by auto

lemmas edge_ops = e_limiter_def e_refused_def e_accepted_def e_active_def ego_def edge_ok_def

lemma edge_ok_step:
  assumes "edge_step s s'" and "edge_ok s"
  shows "edge_ok s' \<and> limiter_cap_of (ed_limiter (es_edge s')) = limiter_cap_of (ed_limiter (es_edge s))"
proof -
  have ok: "table_ok limiter_held e_holds e_counted e_flow (es_tasks s) (es_flows s) (ed_limiter (es_edge s)) (ed_active (es_edge s))"
    using assms(2) by (simp add: edge_ok_def)
  note cap = pool.cap_kept(1)[of "ed_limiter (es_edge s)"] pool.cap_kept(2,3)
  note enter = edged.table_enter[OF ok] and stage = edged.table_stage[OF ok] and leave = edged.table_leave[OF ok]
    and backout = edged.table_backout[OF ok] and store = edged.table_store[OF ok] and unstore = edged.table_unstore[OF ok]
  show ?thesis using assms(1)
  proof (cases rule: edge_step.cases)
    case (turned_away i l)
    then show ?thesis using enter[of i l False ERefusing] cap by (simp add: edge_ops)
  next
    case (backed_out i)
    then show ?thesis using backout[of i ERefusing] cap by (simp add: edge_ops)
  next
    case (tcp_admitted i l)
    then show ?thesis using enter[of i l True EOpening] cap by (simp add: edge_ops)
  next
    case (tcp_refused i usable open_on m e r err)
    then show ?thesis using stage[of i EOpening ELeaving] openFor_frame[OF tcp_refused(3)] by (simp add: edge_ops)
  next
    case (tcp_opened i usable open_on m e session target)
    then show ?thesis using stage[of i EOpening EPiping] openFor_frame[OF tcp_opened(3)] by (simp add: edge_ops)
  next
    case (tcp_done i)
    then show ?thesis using stage[of i EPiping ELeaving] by (simp add: edge_ops)
  next
    case (released i)
    then show ?thesis using leave[of i ELeaving] cap by (simp add: edge_ops)
  next
    case (udp_admitted i k l)
    then show ?thesis using enter[of i l True "EFlowOpening k"] cap by (simp add: edge_ops)
  next
    case (udp_refused i k usable open_on m e r err)
    then show ?thesis using leave[of i "EFlowOpening k"] cap openFor_frame[OF udp_refused(3)] by (simp add: edge_ops)
  next
    case (udp_raced i k usable open_on m e session target j)
    then show ?thesis using leave[of i "EFlowOpening k"] cap openFor_frame[OF udp_raced(3)] by (simp add: edge_ops)
  next
    case (udp_stored i k usable open_on m e session target now)
    then show ?thesis using store[of i "EFlowOpening k" "EFlowStored k now" k] openFor_frame[OF udp_stored(3)] by (simp add: edge_ops)
  next
    case (udp_counted i k t)
    then show ?thesis using stage[of i "EFlowStored k t" "EFlowLive k t"] by (simp add: edge_ops)
  next
    case (udp_touched i k t now)
    then show ?thesis using stage[of i "EFlowLive k t" "EFlowLive k now"] by (simp add: edge_ops)
  next
    case (udp_ended i k t broken now)
    then show ?thesis using unstore[of i "EFlowLive k t" EFlowEnding k] by (simp add: edge_ops)
  next
    case (udp_uncounted i)
    then show ?thesis using stage[of i EFlowEnding ELeaving] by (simp add: edge_ops)
  qed (use ok in \<open>auto simp: edge_ok_def kgo_def addSession_def count_sessions_def removeSession_def\<close>)
qed

text \<open>The keepers and the list of sessions.\<close>

lemma keepers_same:
  assumes "keepers_ok s" "es_keepers s' = es_keepers s" "ed_cfg (es_edge s') = ed_cfg (es_edge s)"
    "ed_sessions (es_edge s') = ed_sessions (es_edge s)" "ed_nsessions (es_edge s') = ed_nsessions (es_edge s)"
  shows "keepers_ok s'"
  using assms unfolding keepers_ok_def by simp

lemma keepersD:
  assumes "keepers_ok s"
  shows "finite (dom (es_keepers s))" "i \<in> dom (es_keepers s) \<Longrightarrow> int i < dc_Sessions (ed_cfg (es_edge s))"
    "ed_nsessions (es_edge s) = word_of_nat (how_many k_counted (es_keepers s))" "distinct (ed_sessions (es_edge s))"
    "x \<in> set (ed_sessions (es_edge s)) \<longleftrightarrow> (\<exists>i k. es_keepers s i = Some k \<and> keeps k = Some x)"
    "es_keepers s i = Some k \<Longrightarrow> keeps k = Some x \<Longrightarrow> es_keepers s j = Some l \<Longrightarrow> keeps l = Some x \<Longrightarrow> i = j"
    "es_keepers s i \<noteq> Some (KGone False)"
  using assms unfolding keepers_ok_def by blast+

lemma kgo_simps [simp]: "es_keepers (kgo e i x s) = (es_keepers s)(i := x)" "es_edge (kgo e i x s) = e"
  by (simp_all add: kgo_def)

lemma kept_upd:
  "(\<exists>j k. (m(i := x)) j = Some k \<and> keeps k = Some y) \<longleftrightarrow>
     (\<exists>k. x = Some k \<and> keeps k = Some y) \<or> (\<exists>j k. j \<noteq> i \<and> m j = Some k \<and> keeps k = Some y)"
  by (auto split: if_splits)

lemma kept_split:
  "(\<exists>j k. m j = Some k \<and> keeps k = Some y) \<longleftrightarrow>
     (\<exists>k. m i = Some k \<and> keeps k = Some y) \<or> (\<exists>j k. j \<noteq> i \<and> m j = Some k \<and> keeps k = Some y)"
  by metis

lemma keepers_move:
  assumes ok: "keepers_ok s" and cfg: "ed_cfg e = ed_cfg (es_edge s)"
    and i: "x = None \<or> int i < dc_Sessions (ed_cfg e)" "x \<noteq> Some (KGone False)"
    and n: "ed_nsessions e + word_of_nat (sat k_counted (es_keepers s i)) = ed_nsessions (es_edge s) + word_of_nat (sat k_counted x)"
    and d: "distinct (ed_sessions e)"
    and set: "\<And>y. y \<in> set (ed_sessions e) \<longleftrightarrow> (\<exists>j k. ((es_keepers s)(i := x)) j = Some k \<and> keeps k = Some y)"
    and one: "\<And>j k l y. x = Some k \<Longrightarrow> keeps k = Some y \<Longrightarrow> es_keepers s j = Some l \<Longrightarrow> keeps l = Some y \<Longrightarrow> j = i"
  shows "keepers_ok (kgo e i x s)"
proof -
  note o = keepersD[OF ok]
  have "ed_nsessions e = word_of_nat (how_many k_counted ((es_keepers s)(i := x)))" by (rule count_word[OF o(1,3) n])
  moreover have "i' = j'" if "((es_keepers s)(i := x)) i' = Some k" "keeps k = Some y" "((es_keepers s)(i := x)) j' = Some l" "keeps l = Some y"
    for i' j' k l y
    using that o(6) one by (auto split: if_splits)
  moreover have "int j < dc_Sessions (ed_cfg e)" if "j \<in> dom ((es_keepers s)(i := x))" for j
    using that i(1) o(2)[of j] cfg by (auto split: if_splits)
  moreover have "((es_keepers s)(i := x)) j \<noteq> Some (KGone False)" for j using i(2) o(7) by simp
  moreover have "finite (dom ((es_keepers s)(i := x)))" using o(1) by simp
  ultimately show ?thesis using d set unfolding keepers_ok_def kgo_simps by blast
qed

lemma keepers_ok_step:
  assumes "edge_step s s'" and ok: "keepers_ok s"
  shows "keepers_ok s' \<and> ed_cfg (es_edge s') = ed_cfg (es_edge s)"
proof -
  note o = keepersD[OF ok]
  note ops = addSession_def count_sessions_def removeSession_def kgo_def
  show ?thesis using assms(1)
  proof (cases rule: edge_step.cases)
    case (session_up i x)
    have "x \<notin> set (ed_sessions (es_edge s))" using session_up(4) o(5) by blast
    moreover have "keepers_ok s'" unfolding session_up(1)
    proof (rule keepers_move[OF ok])
      show "y \<in> set (ed_sessions (addSession x (es_edge s))) \<longleftrightarrow>
          (\<exists>j k. ((es_keepers s)(i := Some (KListed x))) j = Some k \<and> keeps k = Some y)" for y
        using o(5)[of y] session_up(2) unfolding kept_upd kept_split[of _ _ i] by (auto simp: ops)
    qed (use session_up(2-4) o(4) calculation in \<open>auto simp: ops\<close>)
    ultimately show ?thesis using session_up(1) by (simp add: ops)
  next
    case (session_counted i x)
    have "keepers_ok s'" unfolding session_counted(1)
    proof (rule keepers_move[OF ok])
      show "y \<in> set (ed_sessions (count_sessions 1 (es_edge s))) \<longleftrightarrow>
          (\<exists>j k. ((es_keepers s)(i := Some (KUp x))) j = Some k \<and> keeps k = Some y)" for y
        using o(5)[of y] session_counted(2) unfolding kept_upd kept_split[of _ _ i] by (auto simp: ops)
      show "j = i" if "Some (KUp x) = Some k" "keeps k = Some y" "es_keepers s j = Some l" "keeps l = Some y" for j k l y
        using o(6)[OF that(3,4) session_counted(2)] that by auto
    qed (use session_counted(2) o(2)[of i] o(4) in \<open>auto simp: ops\<close>)
    then show ?thesis using session_counted(1) by (simp add: ops)
  next
    case (session_dead i x e r)
    have r: "r" using o(5)[of x] session_dead(2,3) by (force simp: removeSession_def)
    have e: "ed_cfg e = ed_cfg (es_edge s)" "ed_nsessions e = ed_nsessions (es_edge s)" "ed_sessions e = filter (\<lambda>s. s \<noteq> x) (ed_sessions (es_edge s))"
      using session_dead(3) by (auto simp: removeSession_def)
    have "keepers_ok s'" unfolding session_dead(1)
    proof (rule keepers_move[OF ok])
      show "y \<in> set (ed_sessions e) \<longleftrightarrow> (\<exists>j k. ((es_keepers s)(i := Some (KGone r))) j = Some k \<and> keeps k = Some y)" for y
      proof -
        have "\<not> (\<exists>j k. j \<noteq> i \<and> es_keepers s j = Some k \<and> keeps k = Some x)" using o(6)[OF session_dead(2), of x] by (metis keeps.simps(2))
        then show ?thesis using o(5)[of y, unfolded kept_split[of _ _ i]] session_dead(2) unfolding kept_upd e
          by (cases "y = x") simp_all
      qed
    qed (use session_dead(2) o(2)[of i] o(4) r e in auto)
    then show ?thesis using session_dead(1) e by (simp add: ops)
  next
    case (session_uncounted i r)
    have r: "r" using o(7)[of i] session_uncounted(2) by (cases r) auto
    have "keepers_ok s'" unfolding session_uncounted(1)
    proof (rule keepers_move[OF ok])
      show "y \<in> set (ed_sessions (if r then count_sessions (- 1) (es_edge s) else es_edge s)) \<longleftrightarrow>
          (\<exists>j k. ((es_keepers s)(i := None)) j = Some k \<and> keeps k = Some y)" for y
        using o(5)[of y] session_uncounted(2) unfolding kept_upd kept_split[of _ _ i] by (auto simp: ops)
    qed (use session_uncounted(2) o(4) r in \<open>auto simp: ops\<close>)
    then show ?thesis using session_uncounted(1) by (simp add: ops)
  qed (use keepers_same[OF ok] openFor_frame in \<open>simp_all add: edge_ops\<close>)
qed

lemma edge_run:
  assumes "edge_step\<^sup>*\<^sup>* s s'" "edge_ok s" "keepers_ok s"
  shows "edge_ok s' \<and> keepers_ok s' \<and> limiter_cap_of (ed_limiter (es_edge s')) = limiter_cap_of (ed_limiter (es_edge s)) \<and>
    ed_cfg (es_edge s') = ed_cfg (es_edge s)"
  using assms by (induction rule: rtranclp_induct) (auto dest: edge_ok_step keepers_ok_step)

lemma NewEdge_Inr:
  assumes "NewEdge cfg = Inr e"
  shows "direct_ok (ed_cfg e)" "dc_Role (ed_cfg e) = RoleEdge"
    "ed_limiter e = limits_New \<lparr>lc_MaxConnections = dc_MaxConnections (ed_cfg e), lc_BandwidthMbps = dc_BandwidthMbps (ed_cfg e)\<rparr>"
    "ed_sessions e = []" "ed_nsessions e = 0" "ed_active e = 0" "Expand (dc_Ports (ed_cfg e)) DefaultBackendHost = Inr (ed_mappings e)"
proof -
  obtain c ms where c: "direct_Validate (cfg\<lparr>dc_Role := RoleEdge\<rparr>) = Inr c" "Expand (dc_Ports c) DefaultBackendHost = Inr ms"
    and e: "e = \<lparr>ed_cfg = c, ed_mappings = ms, ed_limiter = limits_New \<lparr>lc_MaxConnections = dc_MaxConnections c, lc_BandwidthMbps = dc_BandwidthMbps c\<rparr>,
      ed_sessions = [], ed_cursor = 0, ed_nsessions = 0, ed_accepted = 0, ed_refused = 0, ed_active = 0\<rparr>"
    using assms by (auto simp: NewEdge_def split: sum.splits)
  obtain c1 c2 c3 where v: "direct_endpoint (cfg\<lparr>dc_Role := RoleEdge\<rparr>) = Inr c1" "direct_transport c1 = Inr c2" "direct_ports c2 = Inr c3"
    "direct_sizes c3 = Inr c"
    using c(1) by (auto simp: direct_Validate_def and_then_Inr)
  have "ToLower (TrimSpace RoleEdge) = RoleEdge" using names_normal(1)[of RoleEdge] by simp
  then have "dc_Role c = RoleEdge" using v[unfolded direct_effects] by simp
  then show "dc_Role (ed_cfg e) = RoleEdge" by (simp add: e)
qed (use assms direct_Validate_ok in \<open>auto simp: NewEdge_def split: sum.splits\<close>)

lemma edge_start_ok:
  assumes "NewEdge cfg = Inr e" "limiter_held 0 0 (ed_limiter e)"
  shows "edge_ok (edge_start e)" "keepers_ok (edge_start e)"
  using edged.table_start[OF assms(2)] NewEdge_Inr[OF assms(1)]
  by (auto simp: edge_ok_def keepers_ok_def edge_start_def)

lemma sessions_bounded:
  assumes "keepers_ok s"
  shows "int (length (ed_sessions (es_edge s))) \<le> max 0 (dc_Sessions (ed_cfg (es_edge s)))"
proof -
  note o = keepersD[OF assms]
  let ?S = "set (ed_sessions (es_edge s))"
  have "\<exists>i. \<forall>x \<in> ?S. \<exists>k. es_keepers s (i x) = Some k \<and> keeps k = Some x"
    using o(5) by (intro bchoice) blast
  then obtain i where i: "\<And>x. x \<in> ?S \<Longrightarrow> \<exists>k. es_keepers s (i x) = Some k \<and> keeps k = Some x" by blast
  have "inj_on i ?S" using i by (intro inj_onI) (metis option.inject)
  moreover have "i ` ?S \<subseteq> {..<nat (dc_Sessions (ed_cfg (es_edge s)))}"
    using i o(2) by (fastforce simp: domI zless_nat_eq_int_zless)
  ultimately have "card ?S \<le> nat (dc_Sessions (ed_cfg (es_edge s)))" by (metis card_inj_on_le card_lessThan finite_lessThan)
  then show ?thesis using distinct_card[OF o(4)] by linarith
qed

section \<open>Lemmas: rotation\<close>

lemma cursor_start:
  assumes "unat (c :: u64) < 2 ^ 63" "0 < n"
  shows "sint c smod int n = int (unat c mod n)"
  using assms by (simp add: sint_small smod_nat zmod_int)

lemma first_index: "0 < n \<Longrightarrow> (int (k mod n) + int 0) smod int n = int (k mod n)"
  by (simp add: smod_nat zmod_int)

text \<open>With every session usable and every backend in reach: the session and the backend at the cursor.\<close>

lemma openFor_healthy:
  assumes "ed_sessions e \<noteq> []" "mp_Targets m \<noteq> []" "Suc (unat (ed_cursor e)) < 2 ^ 63"
    and "\<And>s. s \<in> set (ed_sessions e) \<Longrightarrow> usable s" "\<And>s t. s \<in> set (ed_sessions e) \<Longrightarrow> t \<in> set (mp_Targets m) \<Longrightarrow> open_on s kind t = Inr ()"
  shows "openFor usable open_on kind m e =
    (e\<lparr>ed_cursor := ed_cursor e + 2\<rparr>,
     Opened (ed_sessions e ! (unat (ed_cursor e) mod length (ed_sessions e)))
            (mp_Targets m ! (Suc (unat (ed_cursor e)) mod length (mp_Targets m))))"
proof -
  let ?S = "length (ed_sessions e)" and ?T = "length (mp_Targets m)" and ?c = "unat (ed_cursor e)"
  let ?s = "ed_sessions e ! (?c mod ?S)"
  have pos: "0 < ?S" "0 < ?T" using assms(1,2) by simp_all
  have c1: "unat (ed_cursor e + 1) = Suc ?c" using assms(3) by (intro unat_inc_below) simp
  have s: "?s \<in> set (ed_sessions e)" using pos by simp
  have "dial_loop (\<lambda>_ s. if usable s then Some s else None) (ed_sessions e) (int (?c mod ?S)) [0..<?S] = Dialled ?s"
    using assms(4)[OF s] pos unfolding upt_conv_Cons[OF pos(1)] dial_loop.simps Let_def first_index[OF pos(1)] by simp
  then have p: "pickSession usable e = (e\<lparr>ed_cursor := ed_cursor e + 1\<rparr>, Dialled ?s)"
    using assms(1,3) by (simp add: pickSession_def Let_def cursor_start pos)
  have t: "mp_Targets m ! (Suc ?c mod ?T) \<in> set (mp_Targets m)" using pos by simp
  have "open_loop (open_on ?s kind) ?s (mp_Targets m) (int (Suc ?c mod ?T)) [0..<?T] None = Opened ?s (mp_Targets m ! (Suc ?c mod ?T))"
    using assms(5)[OF s t] pos unfolding upt_conv_Cons[OF pos(2)] open_loop.simps Let_def first_index[OF pos(2)] by simp
  then show ?thesis
    using assms(2,3) pos c1 by (simp add: openFor_def p cursor_start add.assoc)
qed

fun edge_open_run :: "(nat \<Rightarrow> bool) \<Rightarrow> (nat \<Rightarrow> byte \<Rightarrow> string \<Rightarrow> open_error + unit) \<Rightarrow> byte \<Rightarrow> Mapping \<Rightarrow> nat \<Rightarrow> Edge \<Rightarrow> open_result list" where
  "edge_open_run usable open_on kind m 0 e = []"
| "edge_open_run usable open_on kind m (Suc n) e =
     (case openFor usable open_on kind m e of (e', r) \<Rightarrow> r # edge_open_run usable open_on kind m n e')"

lemma edge_open_run_healthy:
  assumes "ed_sessions e \<noteq> []" "mp_Targets m \<noteq> []" "unat (ed_cursor e) + 2 * n < 2 ^ 63"
    and "\<And>s. s \<in> set (ed_sessions e) \<Longrightarrow> usable s" "\<And>s t. s \<in> set (ed_sessions e) \<Longrightarrow> t \<in> set (mp_Targets m) \<Longrightarrow> open_on s kind t = Inr ()"
  shows "edge_open_run usable open_on kind m n e =
    map (\<lambda>k. Opened (ed_sessions e ! ((unat (ed_cursor e) + 2 * k) mod length (ed_sessions e)))
                    (mp_Targets m ! (Suc (unat (ed_cursor e) + 2 * k) mod length (mp_Targets m)))) [0..<n]"
  using assms
proof (induction n arbitrary: e)
  case (Suc n)
  let ?e = "e\<lparr>ed_cursor := ed_cursor e + 2\<rparr>"
  have small: "unat (ed_cursor e) + 2 < 2 ^ 63" using Suc.prems(3) by simp
  then have "unat (ed_cursor e) + unat (2 :: u64) < 2 ^ LENGTH(64)" by simp
  then have c: "unat (ed_cursor ?e) = unat (ed_cursor e) + 2" by (simp add: unat_add_lem[THEN iffD1])
  have o: "openFor usable open_on kind m e = (?e, Opened (ed_sessions e ! (unat (ed_cursor e) mod length (ed_sessions e)))
      (mp_Targets m ! (Suc (unat (ed_cursor e)) mod length (mp_Targets m))))"
    using Suc.prems small by (intro openFor_healthy) simp_all
  have "edge_open_run usable open_on kind m n ?e =
    map (\<lambda>k. Opened (ed_sessions ?e ! ((unat (ed_cursor ?e) + 2 * k) mod length (ed_sessions ?e)))
                    (mp_Targets m ! (Suc (unat (ed_cursor ?e) + 2 * k) mod length (mp_Targets m)))) [0..<n]"
  proof (rule Suc.IH)
    show "unat (ed_cursor ?e) + 2 * n < 2 ^ 63" unfolding c using Suc.prems(3) by simp
  qed (use Suc.prems in simp_all)
  then show ?case unfolding edge_open_run.simps o prod.case c upt_conv_Cons[OF zero_less_Suc] map_Suc_upt[symmetric]
    by (simp add: comp_def)
qed simp

text \<open>Going round \<open>n\<close> places by two: all of them when \<open>n\<close> is odd, every second one when it is even.\<close>

lemma twos_mod:
  fixes n :: nat
  assumes "0 < n"
  shows "(\<lambda>k. (a + 2 * k) mod n) ` {..<n} = (if odd n then {..<n} else {j. j < n \<and> even (j + a)})"
proof (cases "odd n")
  case True
  have same: "x = y" if "x < n" "y < n" "y \<le> x" "(a + 2 * x) mod n = (a + 2 * y) mod n" for x y
  proof -
    have "n dvd 2 * (x - y)" using that(3,4) mod_eq_dvd_iff_nat[of "a + 2 * y" "a + 2 * x" n] by (simp add: right_diff_distrib')
    moreover have "coprime n 2" using True by simp
    ultimately have "n dvd x - y" by (simp add: coprime_dvd_mult_right_iff)
    then show ?thesis using that(1-3) by (auto dest: dvd_imp_le)
  qed
  have "inj_on (\<lambda>k. (a + 2 * k) mod n) {..<n}"
    by (rule inj_onI) (metis lessThan_iff nat_le_linear same)
  then have "card ((\<lambda>k. (a + 2 * k) mod n) ` {..<n}) = n" by (simp add: card_image)
  moreover have "(\<lambda>k. (a + 2 * k) mod n) ` {..<n} \<subseteq> {..<n}" using assms by auto
  ultimately have "(\<lambda>k. (a + 2 * k) mod n) ` {..<n} = {..<n}" by (intro card_subset_eq) simp_all
  then show ?thesis using True by simp
next
  case False
  then obtain h where h: "n = 2 * h" "0 < h" using assms by (auto elim: evenE)
  have sub: "(a + 2 * k) mod n \<in> {j. j < n \<and> even (j + a)}" for k
    using assms False by (simp add: even_mod_2_iff dvd_mod_iff)
  have "\<exists>k < n. (a + 2 * k) mod n = j" if "j < n" "even (j + a)" for j
  proof -
    have "even (j + a * (n - 1))" using that(2) False assms by (simp add: even_diff_nat)
    then obtain d where d: "j + a * (n - 1) = 2 * d" by (rule evenE)
    have "a + 2 * d = j + a * n" using d assms by (cases n) (simp_all add: algebra_simps)
    then have "(a + 2 * (d mod n)) mod n = j" using that(1) by (metis mod_add_right_eq mod_mult_right_eq mod_mult_self1 mod_mult_self3 mod_less mult.commute)
    then show ?thesis using assms by (intro exI[of _ "d mod n"]) simp
  qed
  then show ?thesis using sub False by (auto simp: image_iff)
qed

section \<open>Properties\<close>


definition demo_edge_cfg :: DirectConfig where
  "demo_edge_cfg = demo_direct\<lparr>dc_Ports := [''7''], dc_MaxConnections := 1\<rparr>"


text \<open>(C13) A stream is opened exactly when the backend is reached: between an edge and an origin that speak over
  a working stream, \<open>openStream\<close> succeeds if and only if the target has a length that can be sent and the
  origin, having vetted it, connects to it over the protocol of the stream; otherwise the edge gets an error
  and not a stream that dies a moment later.\<close>
theorem open_stream_reaches:
  assumes "kind = kindTCP \<or> kind = kindUDP"
  shows "openStream (origin_answer vl dl answers) kind target = Inr () \<longleftrightarrow>
    target \<noteq> [] \<and> length target \<le> maxTargetLen \<and> (\<exists>a. origin_dialBackend vl dl answers (network_of kind) target = Some a)"
proof (cases "target \<noteq> [] \<and> length target \<le> maxTargetLen")
  case True
  then obtain b where b: "writeRequest kind target = Inr b" by (simp add: writeRequest_def)
  have "request_ok (kind, target)" "b = request_bytes (kind, target)" using True assms b by (auto simp: request_ok_def request_bytes_def)
  then have "request_read b = Some ((kind, target), [])" using request.get_put[of "(kind, target)" "[]"] by simp
  then have "readRequest b = Inr ((kind, target), [])" by (simp add: request_read_def split: sum.splits)
  then show ?thesis using True
    by (cases "origin_dialBackend vl dl answers (network_of kind) target")
      (simp_all add: openStream_def b origin_answer_def streamOK_def streamFailed_def)
next
  case False
  then show ?thesis by (auto simp: openStream_def writeRequest_def)
qed

theorem open_stream_reaches_witness:
  "openStream (origin_answer (\<lambda>_. None) (\<lambda>_. Some [[10, 0, 0, 5]]) (\<lambda>_ _. True)) kindUDP ''h:53'' = Inr ()"
proof -
  have "SplitHostPort ''h:53'' = Inr (''h'', ''53'')" "ParseIP ''h'' = None" by code_simp+
  then have "origin_dialBackend (\<lambda>_. None) (\<lambda>_. Some [[10, 0, 0, 5]]) (\<lambda>_ _. True) (network_of kindUDP) ''h:53'' = Some [10, 0, 0, 5]"
    by (simp add: origin_dialBackend_def vetTarget_def dial_addrs_def)
  then show ?thesis
    using open_stream_reaches[of kindUDP "\<lambda>_. None" "\<lambda>_. Some [[10, 0, 0, 5]]" "\<lambda>_ _. True" "''h:53''"] by (simp add: maxTargetLen_def)
qed

text \<open>How the rotation spreads the load. \<open>openFor\<close> takes its backend from the cursor \<open>pickSession\<close> has just
  advanced, so each opened stream moves it by two. Over one round of as many opens as there are backends,
  all reachable, every backend is used if their number is odd; if it is even, only every second one is, and
  the cursor, moved by an even number, starts the next round at the same ones. The same holds of the sessions.\<close>
theorem edge_rotation:
  assumes "ed_sessions e \<noteq> []" "mp_Targets m \<noteq> []" "unat (ed_cursor e) + 2 * n < 2 ^ 63"
    and "\<forall>s \<in> set (ed_sessions e). usable s" "\<forall>s \<in> set (ed_sessions e). \<forall>t \<in> set (mp_Targets m). open_on s kind t = Inr ()"
  shows "(n = length (mp_Targets m) \<longrightarrow> {t. \<exists>s. Opened s t \<in> set (edge_open_run usable open_on kind m n e)} =
      (if odd n then set (mp_Targets m) else {mp_Targets m ! j | j. j < n \<and> odd (j + unat (ed_cursor e))})) \<and>
    (n = length (ed_sessions e) \<longrightarrow> {s. \<exists>t. Opened s t \<in> set (edge_open_run usable open_on kind m n e)} =
      (if odd n then set (ed_sessions e) else {ed_sessions e ! j | j. j < n \<and> even (j + unat (ed_cursor e))}))"
proof -
  let ?c = "unat (ed_cursor e)" and ?T = "length (mp_Targets m)" and ?S = "length (ed_sessions e)"
  have run: "set (edge_open_run usable open_on kind m n e) =
      (\<lambda>k. Opened (ed_sessions e ! ((?c + 2 * k) mod ?S)) (mp_Targets m ! ((Suc ?c + 2 * k) mod ?T))) ` {..<n}"
    using assms by (subst edge_open_run_healthy) (simp_all add: atLeast0LessThan)
  have t: "{t. \<exists>s. Opened s t \<in> set (edge_open_run usable open_on kind m n e)} = (\<lambda>j. mp_Targets m ! j) ` (\<lambda>k. (Suc ?c + 2 * k) mod ?T) ` {..<n}"
    "{s. \<exists>t. Opened s t \<in> set (edge_open_run usable open_on kind m n e)} = (\<lambda>j. ed_sessions e ! j) ` (\<lambda>k. (?c + 2 * k) mod ?S) ` {..<n}"
    unfolding run by blast+
  have pos: "0 < ?T" "0 < ?S" using assms(1,2) by simp_all
  have all: "(\<lambda>j. xs ! j) ` {..<length xs} = set xs" for xs :: "'x list" by (auto simp: set_conv_nth)
  have "(\<lambda>j. mp_Targets m ! j) ` (\<lambda>k. (Suc ?c + 2 * k) mod ?T) ` {..<?T} =
      (if odd ?T then set (mp_Targets m) else {mp_Targets m ! j | j. j < ?T \<and> odd (j + ?c)})"
    unfolding twos_mod[OF pos(1)] by (auto simp: all)
  moreover have "(\<lambda>j. ed_sessions e ! j) ` (\<lambda>k. (?c + 2 * k) mod ?S) ` {..<?S} =
      (if odd ?S then set (ed_sessions e) else {ed_sessions e ! j | j. j < ?S \<and> even (j + ?c)})"
    unfolding twos_mod[OF pos(2)] by (auto simp: all)
  ultimately show ?thesis unfolding t by blast
qed

definition demo_edge :: Edge where
  "demo_edge = \<lparr>ed_cfg = demo_direct_valid, ed_mappings = [], ed_limiter = None, ed_sessions = [0, 1], ed_cursor = 0,
     ed_nsessions = 2, ed_accepted = 0, ed_refused = 0, ed_active = 0\<rparr>"

theorem edge_rotation_witness:
  "{t. \<exists>s. Opened s t \<in> set (edge_open_run (\<lambda>_. True) (\<lambda>_ _ _. Inr ()) kindTCP \<lparr>mp_Listen = '':1'', mp_Targets = [''a'', ''b'']\<rparr> 2 demo_edge)} = {''b''}"
proof -
  let ?m = "\<lparr>mp_Listen = '':1'', mp_Targets = [''a'', ''b'']\<rparr>"
  have "{[''a'', ''b''] ! j | j. j < 2 \<and> odd (j + 0)} = {''b''}" by (auto simp: less_2_cases_iff intro: exI[of _ 1])
  then show ?thesis
    using edge_rotation[of demo_edge ?m 2 "\<lambda>_. True" "\<lambda>_ _ _. Inr ()" kindTCP] by (simp add: demo_edge_def)
qed

end
