(* ===== verification/Liveness.thy ===== *)
theory Liveness
  imports Prelude
begin

text \<open>
  How a client tells a live server from a dead one: the server's heartbeat schedule in
  \<open>src/internal/server/transport/control.go\<close> (\<open>livenessBeat\<close>, \<open>livenessGap\<close>) and the client's deadline in
  \<open>src/internal/client/transport/handshake.go\<close> (\<open>controlDeadline\<close>, \<open>beatClock\<close>), first apart and then
  together over a path that delays every beat alike.
\<close>

section \<open>Definitions: the server's schedule\<close>

definition maxLivenessBeat :: duration where "maxLivenessBeat = 10 * second"

definition livenessBeat :: "duration \<Rightarrow> duration" where
  "livenessBeat configured = (if configured \<le> 0 \<or> configured > maxLivenessBeat then maxLivenessBeat else configured)"

definition livenessWarmup :: "duration list" where
  "livenessWarmup = [100 * millisecond, 200 * millisecond, 400 * millisecond, 800 * millisecond,
     1600 * millisecond, 3200 * millisecond, 6400 * millisecond]"

definition livenessGap :: "nat \<Rightarrow> duration \<Rightarrow> duration" where
  "livenessGap i steady = (if i < length livenessWarmup then min (livenessWarmup ! i) steady else steady)"

section \<open>Definitions: the client's deadline\<close>

definition controlIdleFallback :: duration where "controlIdleFallback = 120 * second"
definition controlIdleFloor :: duration where "controlIdleFloor = 30 * second"

definition controlDeadline :: "duration \<Rightarrow> duration" where
  "controlDeadline keepAlive =
     (if keepAlive \<le> 0 then controlIdleFallback
      else let d = keepAlive + keepAlive div 2 in if d > controlIdleFloor then d else controlIdleFloor)"

definition warmupEvidence :: duration where "warmupEvidence = 700 * millisecond"
definition beatHistory :: nat where "beatHistory = 4"
definition beatsToLearn :: nat where "beatsToLearn = 3"
definition livenessFloor :: duration where "livenessFloor = 15 * second"

record beatClock =
  bc_opened :: instant
  bc_last :: instant
  bc_gaps :: "duration list"
  bc_quick :: bool

definition newBeatClock :: "instant \<Rightarrow> beatClock" where
  "newBeatClock now = \<lparr>bc_opened = now, bc_last = zero_time, bc_gaps = [], bc_quick = False\<rparr>"

definition beat :: "instant \<Rightarrow> beatClock \<Rightarrow> beatClock" where
  "beat now b =
     (let b1 = (if is_zero_time (bc_last b) \<and> \<not> is_zero_time (bc_opened b) \<and> now - bc_opened b < warmupEvidence
                then b\<lparr>bc_quick := True\<rparr> else b);
          b2 = (if \<not> is_zero_time (bc_last b1)
                then let gaps = bc_gaps b1 @ [now - bc_last b1]
                     in b1\<lparr>bc_gaps := (if length gaps > beatHistory then tl gaps else gaps)\<rparr>
                else b1)
      in b2\<lparr>bc_last := now\<rparr>)"

definition deadline :: "duration \<Rightarrow> beatClock \<Rightarrow> duration" where
  "deadline keepAlive b =
     (let base = controlDeadline keepAlive in
      if length (bc_gaps b) < beatsToLearn then (if bc_quick b then min livenessFloor base else base)
      else let worst = foldl max 0 (bc_gaps b) in min (max (3 * worst) livenessFloor) base)"

text \<open>\<open>explain\<close>: what a failed control read is taken to mean.\<close>

datatype silence = NotSilence | StoppedBeating | NeverBeat

definition explain :: "bool \<Rightarrow> beatClock \<Rightarrow> silence" where
  "explain timeout b = (if \<not> timeout then NotSilence else if \<not> is_zero_time (bc_last b) then StoppedBeating else NeverBeat)"

section \<open>Specification\<close>

text \<open>Beat \<open>i\<close> of a channel that opened at \<open>t\<close>, over a path that delays every beat by \<open>d\<close>, and the client's clock
  after the first \<open>n\<close> of them.\<close>

definition beat_at :: "instant \<Rightarrow> duration \<Rightarrow> duration \<Rightarrow> nat \<Rightarrow> instant" where
  "beat_at t d steady i = t + d + (\<Sum>j \<le> i. livenessGap j steady)"

definition clock_after :: "instant \<Rightarrow> duration \<Rightarrow> duration \<Rightarrow> nat \<Rightarrow> beatClock" where
  "clock_after t d steady n = fold beat (map (beat_at t d steady) [0..<n]) (newBeatClock t)"

section \<open>Lemmas\<close>

lemmas liveness_consts = maxLivenessBeat_def controlIdleFallback_def controlIdleFloor_def warmupEvidence_def livenessFloor_def
  beatHistory_def beatsToLearn_def duration_defs

lemma controlDeadline_floor: "controlIdleFloor \<le> controlDeadline keepAlive"
  by (simp add: controlDeadline_def Let_def liveness_consts)

lemma livenessBeat_bounds: "0 < livenessBeat c" "livenessBeat c \<le> maxLivenessBeat"
  by (auto simp: livenessBeat_def liveness_consts)

lemma livenessGap_steady: "7 \<le> i \<Longrightarrow> livenessGap i steady = steady"
  by (simp add: livenessGap_def livenessWarmup_def)

lemma livenessGap_early:
  "livenessGap 0 s = min (100 * millisecond) s" "livenessGap 1 s = min (200 * millisecond) s" "livenessGap 2 s = min (400 * millisecond) s"
  "livenessGap 3 s = min (800 * millisecond) s" "livenessGap 4 s = min (1600 * millisecond) s" "livenessGap 5 s = min (3200 * millisecond) s"
  "livenessGap 6 s = min (6400 * millisecond) s"
  by (simp_all add: livenessGap_def livenessWarmup_def)

lemma small_cases: "i < 7 \<Longrightarrow> i = 0 \<or> i = 1 \<or> i = 2 \<or> i = 3 \<or> i = 4 \<or> i = 5 \<or> i = (6 :: nat)"
  by arith

lemma livenessGap_pos: "0 < s \<Longrightarrow> 0 < livenessGap i s"
  using small_cases[of i] livenessGap_steady[of i s]
  by (cases "i < 7") (auto simp: livenessGap_early duration_defs simp del: One_nat_def)

lemma livenessGap_le: "livenessGap i s \<le> s"
  by (simp add: livenessGap_def)

lemma livenessGap_Suc: "livenessGap i s \<le> livenessGap (Suc i) s" "0 < s \<Longrightarrow> livenessGap (Suc i) s \<le> 2 * livenessGap i s \<or> i = 6"
proof -
  show "livenessGap i s \<le> livenessGap (Suc i) s"
    using livenessGap_le[of i s] by (auto simp: livenessGap_def livenessWarmup_def less_Suc_eq millisecond_def nth_Cons split: nat.splits)
  show "0 < s \<Longrightarrow> livenessGap (Suc i) s \<le> 2 * livenessGap i s \<or> i = 6"
    using livenessGap_steady[of i s]
    by (cases "i < 7") (auto simp: livenessGap_def livenessWarmup_def less_Suc_eq millisecond_def nth_Cons numeral_eq_Suc split: nat.splits)
qed

lemma livenessGap_mono: "i \<le> j \<Longrightarrow> livenessGap i s \<le> livenessGap j s"
  by (rule lift_Suc_mono_le) (rule livenessGap_Suc)

lemma beat_at_Suc: "beat_at t d s (Suc i) = beat_at t d s i + livenessGap (Suc i) s"
  by (simp add: beat_at_def)

lemma beat_at_pos: "0 < t \<Longrightarrow> 0 \<le> d \<Longrightarrow> 0 < s \<Longrightarrow> 0 < beat_at t d s i"
  using livenessGap_pos[of s] by (simp add: beat_at_def add_pos_nonneg sum_nonneg less_imp_le)

lemma not_zero_time: "0 < t \<Longrightarrow> \<not> is_zero_time t"
  by (simp add: is_zero_time_def zero_time_def)

lemma clock_after_Suc: "clock_after t d s (Suc n) = beat (beat_at t d s n) (clock_after t d s n)"
  by (simp add: clock_after_def)

text \<open>The gaps the clock keeps are the last four between beats.\<close>

lemma clock_after_state:
  assumes "0 < t" "0 \<le> d" "0 < s"
  shows "bc_last (clock_after t d s (Suc n)) = beat_at t d s n \<and>
    bc_gaps (clock_after t d s (Suc n)) = map (\<lambda>i. livenessGap i s) [Suc (n - 4)..<Suc n] \<and>
    bc_quick (clock_after t d s (Suc n)) = (d + livenessGap 0 s < warmupEvidence)"
proof (induction n)
  case 0
  have "clock_after t d s (Suc 0) = beat (beat_at t d s 0) (newBeatClock t)" by (simp add: clock_after_def)
  then show ?case using not_zero_time[OF assms(1)]
    by (simp add: beat_def newBeatClock_def Let_def beat_at_def is_zero_time_def zero_time_def)
next
  case (Suc n)
  let ?b = "clock_after t d s (Suc n)"
  have z: "\<not> is_zero_time (bc_last ?b)" using Suc not_zero_time[OF beat_at_pos[OF assms]] by simp
  have g: "beat_at t d s (Suc n) - bc_last ?b = livenessGap (Suc n) s" using Suc by (simp add: beat_at_Suc)
  have gaps: "bc_gaps ?b @ [livenessGap (Suc n) s] = map (\<lambda>i. livenessGap i s) [Suc (n - 4)..<Suc (Suc n)]"
    using Suc by simp
  have "bc_gaps (beat (beat_at t d s (Suc n)) ?b) =
      (let gs = map (\<lambda>i. livenessGap i s) [Suc (n - 4)..<Suc (Suc n)] in if length gs > 4 then tl gs else gs)"
    using z g gaps by (simp add: beat_def Let_def beatHistory_def del: upt_Suc)
  also have "\<dots> = map (\<lambda>i. livenessGap i s) [Suc (Suc n - 4)..<Suc (Suc n)]"
  proof (cases "n < 4")
    case False
    then have "n - 3 = Suc (n - 4)" by simp
    then show ?thesis using False by (simp add: Let_def map_tl[symmetric] tl_upt del: upt_Suc)
  qed (simp add: Let_def del: upt_Suc)
  finally show ?case
    unfolding clock_after_Suc[of t d s "Suc n"] using z Suc by (simp add: beat_def Let_def del: upt_Suc)
qed

lemma foldl_max_sorted: "sorted xs \<Longrightarrow> xs \<noteq> [] \<Longrightarrow> foldl max a xs = max (a :: int) (last xs)"
  by (induction xs arbitrary: a) (auto simp: max_def split: if_splits)

text \<open>The deadline the client sets after a beat.\<close>

lemma deadline_after:
  assumes "0 < t" "0 \<le> d" "0 < s"
  shows "deadline keepAlive (clock_after t d s (Suc n)) =
    (if n < 3 then if d + livenessGap 0 s < warmupEvidence then min livenessFloor (controlDeadline keepAlive) else controlDeadline keepAlive
     else min (max (3 * livenessGap n s) livenessFloor) (controlDeadline keepAlive))"
proof -
  let ?g = "map (\<lambda>i. livenessGap i s) [Suc (n - 4)..<Suc n]"
  have "sorted ?g" by (auto simp: sorted_map intro: sorted_wrt_mono_rel[OF _ sorted_upt] livenessGap_mono simp del: upt_Suc)
  moreover have "last ?g = livenessGap n s" "?g \<noteq> []" if "3 \<le> n"
  proof -
    have "Suc (n - 4) \<le> n" using that by arith
    then show "last ?g = livenessGap n s" "?g \<noteq> []" by (simp_all add: last_map)
  qed
  ultimately have "foldl max 0 ?g = livenessGap n s" if "3 \<le> n"
    using that livenessGap_pos[OF assms(3), of n] by (simp add: foldl_max_sorted del: upt_Suc)
  moreover have "length ?g = min n 4" by (simp only: length_map length_upt; arith?)
  moreover have "min n 4 < 3 \<longleftrightarrow> n < 3" by arith
  ultimately show ?thesis
    using clock_after_state[OF assms, of n] by (simp add: deadline_def Let_def beatsToLearn_def del: upt_Suc)
qed

section \<open>Properties\<close>

text \<open>(C21) A live server is kept and a dead one is noticed. Whatever heartbeat is configured, and whatever the
  client's keepalive, over a path of any constant delay: after every beat the client waits longer than until
  the next one, so a server that beats is never given up; and when the first beat came quickly it never
  waits more than thirty seconds, so a server that stops is noticed within that time.\<close>
theorem live_server_kept:
  assumes "0 < t" "0 \<le> d"
  shows "livenessGap (Suc n) (livenessBeat c) < deadline keepAlive (clock_after t d (livenessBeat c) (Suc n)) \<and>
    (d + 100 * millisecond < warmupEvidence \<longrightarrow> deadline keepAlive (clock_after t d (livenessBeat c) (Suc n)) \<le> 30 * second)"
proof -
  let ?s = "livenessBeat c"
  note s = livenessBeat_bounds[of c]
  note d = deadline_after[OF assms s(1), of keepAlive n]
  have g: "0 < livenessGap n ?s" "livenessGap n ?s \<le> 10 * second" "livenessGap (Suc n) ?s \<le> 10 * second"
    using livenessGap_pos[OF s(1)] livenessGap_le[of n ?s] livenessGap_le[of "Suc n" ?s] s(2) by (auto simp: maxLivenessBeat_def)
  have two: "livenessGap (Suc n) ?s \<le> 2 * livenessGap n ?s \<or> n = 6" using livenessGap_Suc(2)[OF s(1)] .
  have six: "livenessGap 6 ?s = min (6400 * millisecond) ?s" by (rule livenessGap_early)
  have "livenessGap (Suc n) ?s < deadline keepAlive (clock_after t d ?s (Suc n))"
    unfolding d using g two six controlDeadline_floor[of keepAlive] s(2) by (auto simp: liveness_consts min_def max_def split: if_splits)
  moreover have "deadline keepAlive (clock_after t d ?s (Suc n)) \<le> 30 * second" if "d + 100 * millisecond < warmupEvidence"
    unfolding d using g that livenessGap_early(1)[of ?s] by (auto simp: liveness_consts min_def max_def split: if_splits)
  ultimately show ?thesis by blast
qed

theorem live_server_kept_witness:
  "livenessGap 8 (livenessBeat 0) < deadline 0 (clock_after 5 0 (livenessBeat 0) 8) \<and> deadline 0 (clock_after 5 0 (livenessBeat 0) 8) = 30 * second"
  using live_server_kept[of 5 0 7 0 0] deadline_after[of 5 0 "livenessBeat 0" 0 7]
  by (simp add: livenessBeat_def livenessGap_def livenessWarmup_def controlDeadline_def liveness_consts)

text \<open>How many lost beats the client forgives when the server beats every ten seconds. One lost beat is
  forgiven at every point but two: after the sixth and the seventh beat the steady rhythm is not learnt yet,
  and the beat after the lost one comes past the deadline. Two lost beats in a row are never survived with
  time to spare: in the steady rhythm the next beat is due at the very moment the deadline runs out.\<close>
theorem lost_beats_forgiven:
  assumes "0 < t" "0 \<le> d"
  shows "(livenessGap (Suc n) maxLivenessBeat + livenessGap (Suc (Suc n)) maxLivenessBeat
      < deadline keepAlive (clock_after t d maxLivenessBeat (Suc n)) \<longleftrightarrow> n \<noteq> 5 \<and> n \<noteq> 6) \<and>
    (7 \<le> n \<longrightarrow> deadline keepAlive (clock_after t d maxLivenessBeat (Suc n)) = 3 * maxLivenessBeat)"
proof -
  have s: "0 < maxLivenessBeat" by (simp add: liveness_consts)
  note d = deadline_after[OF assms s, of keepAlive n]
  note early = livenessGap_early[of maxLivenessBeat]
  show ?thesis
  proof (cases "7 \<le> n")
    case True
    then show ?thesis unfolding d using controlDeadline_floor[of keepAlive]
      by (simp add: livenessGap_steady) (simp add: liveness_consts)
  next
    case False
    then have n: "n = 0 \<or> n = 1 \<or> n = 2 \<or> n = 3 \<or> n = 4 \<or> n = 5 \<or> n = 6" by (intro small_cases) simp
    have eight: "livenessGap 7 maxLivenessBeat = maxLivenessBeat" "livenessGap 8 maxLivenessBeat = maxLivenessBeat"
      by (simp_all add: livenessGap_steady)
    note gaps = early eight early(2)[unfolded One_nat_def] early(3)[unfolded numeral_2_eq_2] early(4)[unfolded numeral_3_eq_3]
    show ?thesis unfolding d using n controlDeadline_floor[of keepAlive]
      by (elim disjE; (simp add: gaps)?; (auto simp: liveness_consts min_def max_def)?)
  qed
qed

theorem lost_beats_forgiven_witness:
  "\<not> livenessGap 6 maxLivenessBeat + livenessGap 7 maxLivenessBeat < deadline 0 (clock_after 5 0 maxLivenessBeat 6)"
  using lost_beats_forgiven[of 5 0 5 0] by (simp add: eval_nat_numeral)

end
