(* ===== verification/Endpoints.thy ===== *)
theory Endpoints
  imports Complex_Main Prelude
begin

text \<open>
  The client's list of server addresses, \<open>src/internal/utils/network/endpoints.go\<close>, and the steering of
  \<open>healthscore.go\<close>: rotation on failure, spreading of data connections, the order a race tries, and the
  scorer that moves traffic to the healthiest exit.

  A nil list behaves as an empty one in every method, so the record stands for both. A cursor is a signed
  64-bit counter; indexing below zero is a panic, \<open>None\<close>. Scores are rational numbers where the code has
  floating point; the output of \<open>ping\<close> is an argument.
\<close>

section \<open>Definitions: the list\<close>

record Endpoints =
  ep_list :: "string list"
  ep_idx :: u64
  ep_spreadIdx :: u64
  ep_spread :: bool
  ep_steer :: bool
  ep_preferred :: u64

fun add_endpoints :: "string list \<Rightarrow> string list \<Rightarrow> string list" where
  "add_endpoints acc [] = acc"
| "add_endpoints acc (a # as) =
     (let t = TrimSpace a in add_endpoints (if t = [] \<or> t \<in> set acc then acc else acc @ [t]) as)"

definition NewEndpoints :: "string \<Rightarrow> string list \<Rightarrow> Endpoints" where
  "NewEndpoints primary fallbacks =
     \<lparr>ep_list = add_endpoints [] (primary # fallbacks), ep_idx = 0, ep_spreadIdx = 0, ep_spread = False,
      ep_steer = False, ep_preferred = 0\<rparr>"

definition clampIdx :: "Endpoints \<Rightarrow> u64 \<Rightarrow> nat" where
  "clampIdx e v =
     (let i = sint v smod int (length (ep_list e)) in nat (if i < 0 then i + int (length (ep_list e)) else i))"

definition Current :: "Endpoints \<Rightarrow> string option" where
  "Current e =
     (if ep_list e = [] then Some []
      else if ep_steer e then Some (ep_list e ! clampIdx e (ep_preferred e))
      else let i = sint (ep_idx e) smod int (length (ep_list e)) in
           if i < 0 then None else Some (ep_list e ! nat i))"

definition Rotate :: "Endpoints \<Rightarrow> Endpoints \<times> string option" where
  "Rotate e =
     (if length (ep_list e) \<le> 1 then (e, Current e)
      else let e' = (if ep_steer e then e\<lparr>ep_preferred := word_of_nat (clampIdx e (ep_preferred e + 1))\<rparr>
                     else e\<lparr>ep_idx := ep_idx e + 1\<rparr>)
           in (e', Current e'))"

definition Next :: "Endpoints \<Rightarrow> Endpoints \<times> string option" where
  "Next e =
     (if ep_list e = [] then (e, Some [])
      else if ep_steer e then (e, Some (ep_list e ! clampIdx e (ep_preferred e)))
      else if \<not> ep_spread e \<or> length (ep_list e) = 1 then (e, Current e)
      else let i = sint (ep_spreadIdx e) smod int (length (ep_list e)) in
           (e\<lparr>ep_spreadIdx := ep_spreadIdx e + 1\<rparr>, Some (ep_list e ! (if i < 0 then 0 else nat i))))"

definition SetSpread :: "bool \<Rightarrow> Endpoints \<Rightarrow> Endpoints" where
  "SetSpread on e = e\<lparr>ep_spread := on\<rparr>"

fun first_index :: "string \<Rightarrow> string list \<Rightarrow> nat option" where
  "first_index a [] = None"
| "first_index a (x # xs) = (if x = a then Some 0 else map_option Suc (first_index a xs))"

definition InPreferenceOrder :: "Endpoints \<Rightarrow> string list option" where
  "InPreferenceOrder e =
     (let all = ep_list e in
      if length all < 2 then Some all
      else case Current e of
             None \<Rightarrow> None
           | Some cur \<Rightarrow>
               let start = (if cur = [] then 0 else case first_index cur all of None \<Rightarrow> 0 | Some i \<Rightarrow> i)
               in Some (map (\<lambda>i. all ! ((start + i) mod length all)) [0..<length all]))"

definition Prefer :: "string \<Rightarrow> Endpoints \<Rightarrow> Endpoints" where
  "Prefer addr e =
     (if addr = [] \<or> length (ep_list e) < 2 \<or> ep_steer e then e
      else case first_index addr (ep_list e) of None \<Rightarrow> e | Some i \<Rightarrow> e\<lparr>ep_idx := word_of_nat i\<rparr>)"

section \<open>Definitions: health\<close>

record EndpointScore =
  es_RTTms :: rat
  es_JitterMs :: rat
  es_LossPct :: rat
  es_Score :: rat
  es_Reachable :: bool

definition computeScore :: "rat \<Rightarrow> rat \<Rightarrow> rat \<Rightarrow> rat" where
  "computeScore rttMs jitterMs lossPct = rttMs + 2 * jitterMs + 20 * lossPct"

text \<open>What \<open>ScoreEndpoint\<close> makes of a ping summary: the loss, if it names one, and round trip and jitter, if it does.\<close>

definition score_of :: "rat option \<Rightarrow> (rat \<times> rat) option \<Rightarrow> EndpointScore" where
  "score_of loss rtt =
     (let l = (case loss of None \<Rightarrow> 100 | Some p \<Rightarrow> p) in
      case rtt of
        None \<Rightarrow> \<lparr>es_RTTms = 0, es_JitterMs = 0, es_LossPct = l, es_Score = 1000000000, es_Reachable = False\<rparr>
      | Some (r, j) \<Rightarrow> \<lparr>es_RTTms = r, es_JitterMs = j, es_LossPct = l, es_Score = computeScore r j l, es_Reachable = True\<rparr>)"

fun best_from :: "nat \<Rightarrow> (nat \<times> rat) option \<Rightarrow> EndpointScore list \<Rightarrow> nat option" where
  "best_from i best [] = map_option fst best"
| "best_from i best (s # ss) =
     best_from (Suc i)
       (if es_Reachable s \<and> (case best of None \<Rightarrow> True | Some (_, b) \<Rightarrow> es_Score s < b) then Some (i, es_Score s) else best) ss"

definition best_of :: "EndpointScore list \<Rightarrow> nat option" where "best_of = best_from 0 None"

definition needStreak :: nat where "needStreak = 3"
definition betterBy :: rat where "betterBy = 85 / 100"

text \<open>One tick of \<open>steerLoop\<close> with the scores it measured; the state is the list, the candidate and its streak.\<close>

record steering =
  st_ep :: Endpoints
  st_candidate :: "nat option"
  st_streak :: nat

definition EnableHealthSteering :: "Endpoints \<Rightarrow> Endpoints" where
  "EnableHealthSteering e =
     (if length (ep_list e) \<le> 1 then e
      else e\<lparr>ep_spread := False, ep_preferred := ep_idx e, ep_steer := True\<rparr>)"

definition cur_dead :: "EndpointScore list \<Rightarrow> nat \<Rightarrow> bool" where
  "cur_dead scores cur \<longleftrightarrow> \<not> es_Reachable (scores ! cur)"

definition clearly_better :: "EndpointScore list \<Rightarrow> nat \<Rightarrow> nat \<Rightarrow> bool" where
  "clearly_better scores best cur \<longleftrightarrow> es_Score (scores ! best) \<le> betterBy * es_Score (scores ! cur)"

definition steer_tick :: "EndpointScore list \<Rightarrow> steering \<Rightarrow> steering" where
  "steer_tick scores s =
     (case best_of scores of
        None \<Rightarrow> s
      | Some best \<Rightarrow>
          let cur = clampIdx (st_ep s) (ep_preferred (st_ep s)) in
          if best = cur \<or> \<not> cur_dead scores cur \<and> \<not> clearly_better scores best cur
          then s\<lparr>st_candidate := None, st_streak := 0\<rparr>
          else
            let streak = (if st_candidate s = Some best then st_streak s + 1 else 1) in
            if cur_dead scores cur \<or> streak \<ge> needStreak
            then s\<lparr>st_ep := (st_ep s)\<lparr>ep_preferred := word_of_nat best\<rparr>, st_candidate := None, st_streak := 0\<rparr>
            else s\<lparr>st_candidate := Some best, st_streak := streak\<rparr>)"

section \<open>Lemmas\<close>

lemma add_endpoints_ok:
  "distinct acc \<Longrightarrow> [] \<notin> set acc \<Longrightarrow> distinct (add_endpoints acc as) \<and> [] \<notin> set (add_endpoints acc as)"
proof (induction as arbitrary: acc)
  case (Cons a as)
  define t where "t = TrimSpace a"
  show ?case unfolding add_endpoints.simps Let_def t_def[symmetric] 
    by (rule Cons.IH) (use Cons.prems in \<open>auto split: if_splits\<close>)
qed simp

lemma idx_start:
  assumes "unat (c :: u64) < 2 ^ 63" "0 < n"
  shows "sint c smod int n = int (unat c mod n)"
  by (simp only: sint_small[OF assms(1)] smod_nat[OF of_nat_0_le_iff assms(2)] zmod_int)

lemma Current_plain:
  assumes "ep_list e \<noteq> []" "\<not> ep_steer e" "unat (ep_idx e) < 2 ^ 63"
  shows "Current e = Some (ep_list e ! (unat (ep_idx e) mod length (ep_list e)))"
  using assms by (simp add: Current_def Let_def idx_start)

lemma first_index_Some: "first_index a xs = Some i \<Longrightarrow> i < length xs \<and> xs ! i = a"
  by (induction xs arbitrary: i) (auto split: if_splits)

lemma first_index_None: "first_index a xs = None \<longleftrightarrow> a \<notin> set xs"
  by (induction xs) auto

lemma clampIdx_lt:
  assumes "ep_list e \<noteq> []"
  shows "clampIdx e v < length (ep_list e)"
proof -
  define n where "n = int (length (ep_list e))"
  have n: "0 < n" using assms by (simp add: n_def)
  define i where "i = sint v smod n"
  have "i < n" "- n < i" using n smod_int_range[where a = "sint v" and b = n] unfolding i_def by force+
  then have "nat (if i < 0 then i + n else i) < nat n" by (simp add: nat_less_eq_zless)
  then show ?thesis unfolding clampIdx_def Let_def n_def[symmetric] i_def[symmetric] by (simp add: n_def)
qed

text \<open>Preference order is the list rotated to start at the current endpoint.\<close>

lemma rotate_map: "map (\<lambda>i. xs ! ((k + i) mod length xs)) [0..<length xs] = rotate k xs"
  by (intro nth_equalityI) (simp_all add: nth_rotate)

text \<open>Steering. A challenger in the making: the checks that answered since the streak began all had it best and
  clearly better than an exit in reach.\<close>

definition challenges :: "nat \<Rightarrow> nat \<Rightarrow> EndpointScore list \<Rightarrow> bool" where
  "challenges cur b scores \<longleftrightarrow> best_of scores = Some b \<and> b \<noteq> cur \<and> \<not> cur_dead scores cur \<and> clearly_better scores b cur"

definition answered :: "EndpointScore list list \<Rightarrow> EndpointScore list list" where
  "answered ts = filter (\<lambda>t. best_of t \<noteq> None) ts"

definition preferred_exit :: "steering \<Rightarrow> nat" where
  "preferred_exit s = clampIdx (st_ep s) (ep_preferred (st_ep s))"

definition streak_ok :: "EndpointScore list list \<Rightarrow> steering \<Rightarrow> bool" where
  "streak_ok ts s \<longleftrightarrow> st_streak s < needStreak \<and>
     (case st_candidate s of
        None \<Rightarrow> st_streak s = 0
      | Some b \<Rightarrow> st_streak s \<le> length (answered ts) \<and> 0 < st_streak s \<and>
          (\<forall>t \<in> set (take (st_streak s) (rev (answered ts))). challenges (preferred_exit s) b t))"

lemma tick_keeps_streak:
  assumes "streak_ok ts s"
  shows "streak_ok (ts @ [t]) (steer_tick t s)"
proof (cases "best_of t")
  case None
  then have "answered (ts @ [t]) = answered ts" "steer_tick t s = s" by (simp_all add: answered_def steer_tick_def)
  note same = this
  show ?thesis using assms unfolding streak_ok_def same .
next
  case (Some b)
  let ?cur = "preferred_exit s"
  have an: "rev (answered (ts @ [t])) = t # rev (answered ts)" using Some by (simp add: answered_def)
  consider "b = ?cur \<or> \<not> cur_dead t ?cur \<and> \<not> clearly_better t b ?cur"
    | "b \<noteq> ?cur" "cur_dead t ?cur" | "challenges ?cur b t" "b \<noteq> ?cur" "\<not> cur_dead t ?cur"
    using Some by (auto simp: challenges_def)
  then show ?thesis
  proof cases
    case 1
    then show ?thesis using Some by (simp add: steer_tick_def Let_def streak_ok_def preferred_exit_def needStreak_def)
  next
    case 2
    then show ?thesis using Some by (simp add: steer_tick_def Let_def streak_ok_def preferred_exit_def needStreak_def)
  next
    case 3
    let ?k = "if st_candidate s = Some b then st_streak s + 1 else 1"
    have st: "steer_tick t s = (if ?k \<ge> needStreak then s\<lparr>st_ep := (st_ep s)\<lparr>ep_preferred := word_of_nat b\<rparr>, st_candidate := None, st_streak := 0\<rparr>
        else s\<lparr>st_candidate := Some b, st_streak := ?k\<rparr>)"
      using 3 Some by (simp add: steer_tick_def Let_def preferred_exit_def challenges_def)
    have len: "?k \<le> length (answered (ts @ [t]))" "0 < ?k"
      using assms Some by (auto simp: streak_ok_def answered_def split: option.splits)
    have "challenges ?cur b u" if "u \<in> set (take ?k (rev (answered (ts @ [t]))))" for u
      using that 3(1) assms unfolding an streak_ok_def by (auto split: if_splits)
    then show ?thesis using len unfolding st
      by (auto simp: streak_ok_def preferred_exit_def needStreak_def)
  qed
qed

lemma ticks_keep_streak: "streak_ok ts s \<Longrightarrow> streak_ok (ts @ us) (fold steer_tick us s)"
proof (induction us arbitrary: ts s)
  case (Cons u us)
  then show ?case using Cons.IH[OF tick_keeps_streak[OF Cons.prems, of u]] by simp
qed simp

section \<open>Properties\<close>

text \<open>The list a client dials from holds no blank and no duplicate, and failing over walks all of it: from
  any point, \<open>k\<close> rotations lead to the endpoint \<open>k\<close> places on, so as many rotations as there are endpoints try
  each one and come back to the first.\<close>
theorem rotation_covers:
  assumes "e = NewEndpoints primary fallbacks" "ep_list e \<noteq> []" "k < 2 ^ 63"
  shows "distinct (ep_list e) \<and> [] \<notin> set (ep_list e) \<and>
    Current (((\<lambda>e. fst (Rotate e)) ^^ k) e) = Some (ep_list e ! (k mod length (ep_list e)))"
proof -
  have new: "ep_idx e = 0" "\<not> ep_steer e" by (simp_all add: assms(1) NewEndpoints_def)
  let ?c = "\<lambda>j. if length (ep_list e) = 1 then 0 else word_of_nat j"
  have run: "((\<lambda>e. fst (Rotate e)) ^^ j) e = e\<lparr>ep_idx := ?c j\<rparr>" for j
  proof (induction j)
    case 0
    then show ?case using new(1) by simp
  next
    case (Suc j)
    have "1 < length (ep_list e) \<or> length (ep_list e) = 1" using assms(2) by (cases "ep_list e"; cases "tl (ep_list e)") auto
    then have "fst (Rotate (e\<lparr>ep_idx := ?c j\<rparr>)) = e\<lparr>ep_idx := ?c (Suc j)\<rparr>"
      by (elim disjE) (simp_all add: Rotate_def Let_def new add.commute)
    then show ?case by (simp only: funpow.simps comp_def Suc)
  qed
  have "Current (e\<lparr>ep_idx := ?c k\<rparr>) = Some (ep_list e ! (unat (?c k :: u64) mod length (ep_list e)))"
    using assms(2,3) new(2) by (subst Current_plain) (auto simp: unat_of_nat)
  moreover have "unat (?c k :: u64) mod length (ep_list e) = k mod length (ep_list e)" using assms(3) by (simp add: unat_of_nat)
  moreover have "distinct (ep_list e) \<and> [] \<notin> set (ep_list e)"
    using add_endpoints_ok[of "[]" "primary # fallbacks"] by (simp only: assms(1) NewEndpoints_def Endpoints.simps) simp
  ultimately show ?thesis unfolding run by simp
qed

theorem rotation_covers_witness:
  "Current (((\<lambda>e. fst (Rotate e)) ^^ 3) (NewEndpoints ''a:1'' ['' b:2'', ''a:1''])) = Some ''b:2''"
proof -
  let ?e = "NewEndpoints ''a:1'' ['' b:2'', ''a:1'']"
  have l: "ep_list ?e = [''a:1'', ''b:2'']" by code_simp
  then show ?thesis using rotation_covers[of ?e "''a:1''" "['' b:2'', ''a:1'']" 3] by (simp add: numeral_2_eq_2[symmetric])
qed

text \<open>The race tries every endpoint once and the current one first: whatever failover or steering has
  chosen, the order is the list turned to start where \<open>Current\<close> points.\<close>
theorem preference_order:
  assumes "distinct (ep_list e)" "[] \<notin> set (ep_list e)" "Current e = Some cur" "cur \<in> set (ep_list e)"
  shows "\<exists>k < length (ep_list e). ep_list e ! k = cur \<and> InPreferenceOrder e = Some (rotate k (ep_list e))"
proof -
  obtain k where k: "first_index cur (ep_list e) = Some k"
    using assms(4) first_index_None[of cur "ep_list e"] by (cases "first_index cur (ep_list e)") auto
  note f = first_index_Some[OF k]
  have "InPreferenceOrder e = Some (rotate k (ep_list e))"
  proof (cases "length (ep_list e) < 2")
    case True
    then have "rotate k (ep_list e) = ep_list e" by (cases "ep_list e"; cases "tl (ep_list e)") auto
    then show ?thesis using True by (simp add: InPreferenceOrder_def Let_def)
  next
    case False
    have "cur \<noteq> []" using assms(2,4) by blast
    then show ?thesis using False assms(3) k by (simp add: InPreferenceOrder_def Let_def rotate_map)
  qed
  then show ?thesis using f by blast
qed

theorem preference_order_witness:
  "InPreferenceOrder (Prefer ''b'' (NewEndpoints ''a'' [''b'', ''c''])) = Some [''b'', ''c'', ''a'']"
proof -
  let ?e = "Prefer ''b'' (NewEndpoints ''a'' [''b'', ''c''])"
  have l: "ep_list (NewEndpoints ''a'' [''b'', ''c'']) = [''a'', ''b'', ''c'']" by code_simp
  then have p: "?e = (NewEndpoints ''a'' [''b'', ''c''])\<lparr>ep_idx := 1\<rparr>" by (simp add: Prefer_def NewEndpoints_def)
  have e: "ep_list ?e = [''a'', ''b'', ''c'']" "Current ?e = Some ''b''"
    unfolding p by (simp_all add: l Current_plain NewEndpoints_def[of "''a''" "[''b'', ''c'']", THEN arg_cong[of _ _ ep_steer]])
  have h: "distinct [''a'', ''b'', ''c'']" "[] \<notin> set [''a'', ''b'', ''c'']" "''b'' \<in> set [''a'', ''b'', ''c'']" by simp_all
  obtain k where k: "k < length [''a'', ''b'', ''c'']" "[''a'', ''b'', ''c''] ! k = ''b''"
    "InPreferenceOrder ?e = Some (rotate k [''a'', ''b'', ''c''])"
    using preference_order[of ?e "''b''", unfolded e, OF h(1,2) refl h(3)] by blast
  have "k = 0 \<or> k = 1 \<or> k = 2" using k(1) by auto
  then have "k = 1" using k(2) by auto
  then show ?thesis using k(3) by simp
qed

text \<open>Steering does not flap. From a fresh start, whatever the checks measure, traffic leaves an exit only if
  that exit has just stopped answering, or if one challenger was best and at least fifteen percent better
  in each of the last three checks that anything answered, the present one included.\<close>
theorem steering_hysteresis:
  assumes "st_candidate s0 = None" "st_streak s0 = 0"
    and "s = fold steer_tick ts s0" "preferred_exit (steer_tick t s) \<noteq> preferred_exit s"
  shows "cur_dead t (preferred_exit s) \<or>
    (\<exists>b. 3 \<le> length (answered (ts @ [t])) \<and> (\<forall>u \<in> set (take 3 (rev (answered (ts @ [t])))). challenges (preferred_exit s) b u))"
proof (cases "cur_dead t (preferred_exit s)")
  case False
  let ?cur = "preferred_exit s"
  have ok: "streak_ok ts s" using ticks_keep_streak[of "[]" s0 ts] assms(1-3) by (simp add: streak_ok_def needStreak_def)
  obtain b where b: "best_of t = Some b" using assms(4) by (cases "best_of t") (auto simp: steer_tick_def)
  have c: "challenges ?cur b t"
  proof (rule ccontr)
    assume "\<not> challenges ?cur b t"
    then have "b = ?cur \<or> \<not> clearly_better t b ?cur" using b False by (auto simp: challenges_def)
    then have "steer_tick t s = s\<lparr>st_candidate := None, st_streak := 0\<rparr>"
      using b False by (auto simp: steer_tick_def Let_def preferred_exit_def)
    then show False using assms(4) by (simp add: preferred_exit_def)
  qed
  have "st_candidate s = Some b \<and> st_streak s = 2"
  proof (rule ccontr)
    assume "\<not> (st_candidate s = Some b \<and> st_streak s = 2)"
    then have "\<exists>x k. steer_tick t s = s\<lparr>st_candidate := x, st_streak := k\<rparr>"
      using b c False ok by (auto simp: steer_tick_def Let_def preferred_exit_def challenges_def needStreak_def streak_ok_def)
    then show False using assms(4) by (auto simp: preferred_exit_def)
  qed
  then have r: "2 \<le> length (answered ts)" "\<forall>u \<in> set (take 2 (rev (answered ts))). challenges ?cur b u"
    using ok by (simp_all add: streak_ok_def)
  have "answered (ts @ [t]) = answered ts @ [t]" using b by (simp add: answered_def)
  then show ?thesis using r c by (intro disjI2 exI[of _ b]) (simp add: numeral_3_eq_3 numeral_2_eq_2)
qed simp

theorem steering_hysteresis_witness:
  "\<exists>s0 s good bad. st_candidate s0 = None \<and> s = fold steer_tick [[bad, good], [bad, good]] s0 \<and>
     preferred_exit s = 0 \<and> preferred_exit (steer_tick [bad, good] s) = 1 \<and> challenges 0 1 [bad, good]"
proof -
  let ?good = "score_of (Some 0) (Some (50, 1))" and ?bad = "score_of (Some 5) (Some (60, 10))"
  let ?e = "\<lparr>ep_list = [''a'', ''b''], ep_idx = 0, ep_spreadIdx = 0, ep_spread = False, ep_steer = True, ep_preferred = 0\<rparr>"
  let ?s = "\<lambda>c k. \<lparr>st_ep = ?e, st_candidate = c, st_streak = k\<rparr>"
  have t: "best_of [?bad, ?good] = Some (Suc 0)" "\<not> cur_dead [?bad, ?good] 0" "clearly_better [?bad, ?good] 1 0"
    by (simp_all add: best_of_def score_of_def computeScore_def cur_dead_def clearly_better_def betterBy_def)
  have c: "clampIdx ?e 0 = 0" "clampIdx (?e\<lparr>ep_preferred := 1\<rparr>) 1 = 1" by (simp_all add: clampIdx_def Let_def smod_int_alt_def)
  have steps: "steer_tick [?bad, ?good] (?s None 0) = ?s (Some (Suc 0)) (Suc 0)" "steer_tick [?bad, ?good] (?s (Some (Suc 0)) (Suc 0)) = ?s (Some (Suc 0)) 2"
    "steer_tick [?bad, ?good] (?s (Some (Suc 0)) 2) = \<lparr>st_ep = ?e\<lparr>ep_preferred := 1\<rparr>, st_candidate = None, st_streak = 0\<rparr>"
    using t c by (simp_all add: steer_tick_def Let_def needStreak_def)
  have f: "?s (Some (Suc 0)) 2 = fold steer_tick [[?bad, ?good], [?bad, ?good]] (?s None 0)" by (simp add: steps)
  have p: "preferred_exit (?s (Some (Suc 0)) 2) = 0" "preferred_exit (steer_tick [?bad, ?good] (?s (Some (Suc 0)) 2)) = 1"
    using c by (simp_all add: preferred_exit_def steps)
  then obtain b where b: "3 \<le> length (answered ([[?bad, ?good], [?bad, ?good]] @ [[?bad, ?good]]))"
    "\<forall>u \<in> set (take 3 (rev (answered ([[?bad, ?good], [?bad, ?good]] @ [[?bad, ?good]])))). challenges 0 b u"
    using steering_hysteresis[of "?s None 0" "?s (Some (Suc 0)) 2" "[[?bad, ?good], [?bad, ?good]]" "[?bad, ?good]"] f t(2) by auto
  have "[?bad, ?good] \<in> set (take 3 (rev (answered ([[?bad, ?good], [?bad, ?good]] @ [[?bad, ?good]]))))"
    using t(1) by (simp add: answered_def)
  then have "challenges 0 1 [?bad, ?good]" using b(2) t(1) by (force simp: challenges_def)
  then show ?thesis using f p by (intro exI[of _ "?s None 0"] exI[of _ "?s (Some (Suc 0)) 2"] exI[of _ ?good] exI[of _ ?bad]) simp
qed

end
