(* ===== verification/ControlAuth.thy ===== *)
theory ControlAuth
  imports ByteStream NetAddr
begin

text \<open>
  How the reverse tunnel's server decides what an arriving connection is, and how a client claims the control
  channel: \<open>src/internal/utils/network/poolnonce.go\<close>, \<open>src/internal/utils/signals.go\<close>,
  \<open>src/internal/server/transport/announce.go\<close>, the admission, handshake and restart of
  \<open>src/internal/server/transport/tcp.go\<close>, \<open>sameHost\<close> of \<open>control.go\<close>, and the client's half in
  \<open>src/internal/client/transport/handshake.go\<close> and \<open>channelDialer\<close> of \<open>tcp.go\<close>.

  The server's goroutines share the control channel, the nonce and the channels of a run; every read and
  write of one of them is a step of its own, so every interleaving is covered, restarts included. Random
  bytes are arguments. What a peer sends is arbitrary.
\<close>

section \<open>Definitions: signals and acknowledgements\<close>

definition SG_Chan :: byte where "SG_Chan = 1"
definition SG_ChanV2 :: byte where "SG_ChanV2 = 7"
definition SG_Pool :: byte where "SG_Pool = 8"
definition SG_Refused :: byte where "SG_Refused = 9"

definition RefusedBadToken :: string where "RefusedBadToken = ''token''"
definition RefusedInUse :: string where "RefusedInUse = ''in-use''"
definition RefusedRestarting :: string where "RefusedRestarting = ''restarting''"

definition poolNonceBytes :: nat where "poolNonceBytes = 32"
definition poolNonceHexLen :: nat where "poolNonceHexLen = poolNonceBytes * 2"

definition hex_char :: "nat \<Rightarrow> char" where
  "hex_char d = char_of (if d < 10 then 48 + d else 87 + d)"

text \<open>\<open>hex.EncodeToString\<close>, and \<open>NewPoolNonce\<close> with what \<open>rand.Read\<close> gives.\<close>

definition EncodeToString :: "bytes \<Rightarrow> string" where
  "EncodeToString b = concat (map (\<lambda>x. [hex_char (unat x div 16), hex_char (unat x mod 16)]) b)"

definition NewPoolNonce :: "bytes option \<Rightarrow> string option" where
  "NewPoolNonce rnd = map_option EncodeToString rnd"

text \<open>\<open>string(rune(r))\<close>: the UTF-8 encoding, of U+FFFD when \<open>r\<close> is not a code point.\<close>

definition string_of_rune :: "int \<Rightarrow> string" where
  "string_of_rune r =
     (let r = (if r < 0 \<or> r > 0x10FFFF \<or> 0xD800 \<le> r \<and> r \<le> 0xDFFF then 0xFFFD else nat r) in
      if r < 0x80 then [char_of r]
      else if r < 0x800 then [char_of (0xC0 + r div 64), char_of (0x80 + r mod 64)]
      else if r < 0x10000 then [char_of (0xE0 + r div 4096), char_of (0x80 + r div 64 mod 64), char_of (0x80 + r mod 64)]
      else [char_of (0xF0 + r div 262144), char_of (0x80 + r div 4096 mod 64), char_of (0x80 + r div 64 mod 64), char_of (0x80 + r mod 64)])"

definition EncodeControlAck :: "string \<Rightarrow> string \<Rightarrow> int \<Rightarrow> string" where
  "EncodeControlAck token nonce muxVersion = nonce @ string_of_rune (48 + muxVersion) @ token"

text \<open>The difference of bytes wraps, so it is never negative.\<close>

definition DecodeControlAck :: "string \<Rightarrow> string \<times> string \<times> nat" where
  "DecodeControlAck ack =
     (if length ack < poolNonceHexLen + 1 then ([], [], 0)
      else let v = unat (byte_of_char (ack ! poolNonceHexLen) - 48) in
           if v > 9 then ([], [], 0)
           else (drop (poolNonceHexLen + 1) ack, take poolNonceHexLen ack, v))"

text \<open>\<open>PoolNonce.Verify\<close> with the current value, and \<open>tokenMatches\<close>; comparing in constant time compares.\<close>

definition nonce_Verify :: "string \<Rightarrow> string \<Rightarrow> bool" where
  "nonce_Verify want got \<longleftrightarrow> want \<noteq> [] \<and> got = want"

definition isControlSignal :: "byte \<Rightarrow> bool" where
  "isControlSignal sg \<longleftrightarrow> sg = SG_Chan \<or> sg = SG_ChanV2"

definition tokenMatches :: "string \<Rightarrow> string \<Rightarrow> bool" where
  "tokenMatches got want \<longleftrightarrow> got = want"

definition controlAck :: "byte \<Rightarrow> string \<Rightarrow> int \<Rightarrow> bytes option \<Rightarrow> (string \<times> string \<times> int) option" where
  "controlAck sg token muxVersion rnd =
     (if sg \<noteq> SG_ChanV2 then Some (token, [], 0)
      else map_option (\<lambda>nonce. (EncodeControlAck token nonce muxVersion, nonce, muxVersion)) (NewPoolNonce rnd))"

text \<open>\<open>sameHost\<close> of two addresses in text; \<open>None\<close> is a nil address.\<close>

definition sameHost :: "string option \<Rightarrow> string option \<Rightarrow> bool" where
  "sameHost a b =
     (case (a, b) of
        (Some a, Some b) \<Rightarrow>
          (case (SplitHostPort a, SplitHostPort b) of
             (Inr (ha, _), Inr (hb, _)) \<Rightarrow>
               (case (ParseIP ha, ParseIP hb) of
                  (Some ipa, Some ipb) \<Rightarrow> ip_Equal ipa ipb
                | _ \<Rightarrow> ha = hb)
           | _ \<Rightarrow> False)
      | _ \<Rightarrow> False)"

section \<open>Definitions: the server's answer\<close>

text \<open>What \<open>admitTunnelConn\<close> makes of an announcement, with the nonce that is current when it looks: the bytes
  it answers with, and what becomes of the connection.\<close>

datatype verdict = Close | Pool | Claim string

definition refuseControl :: "string \<Rightarrow> bytes" where
  "refuseControl reason = SendBinaryTransportString reason SG_Refused"

definition admit_announced :: "string \<Rightarrow> int \<Rightarrow> bytes option \<Rightarrow> string \<Rightarrow> string \<times> byte \<Rightarrow> bytes \<times> verdict" where
  "admit_announced token mux rnd nonce ann =
     (let (payload, sg) = ann in
      if isControlSignal sg
      then if \<not> tokenMatches payload token then (refuseControl RefusedBadToken, Close)
           else (case controlAck sg token mux rnd of
                   None \<Rightarrow> ([], Close)
                 | Some (ack, n, _) \<Rightarrow> (SendBinaryTransportString ack sg, Claim n))
      else if sg = SG_Pool then if nonce_Verify nonce payload then ([], Pool) else ([], Close)
      else ([], Close))"

section \<open>Definitions: the client's claim\<close>

definition legacyMissThreshold :: nat where "legacyMissThreshold = 2"

record legacyProbe =
  lp_legacy :: bool
  lp_answered :: bool
  lp_misses :: nat

definition probe_signal :: "legacyProbe \<Rightarrow> byte" where
  "probe_signal p = (if lp_legacy p then SG_Chan else SG_ChanV2)"

definition probe_ack :: "byte \<Rightarrow> legacyProbe \<Rightarrow> legacyProbe" where
  "probe_ack sg p =
     (let p = p\<lparr>lp_misses := 0\<rparr> in if sg = SG_ChanV2 then p\<lparr>lp_answered := True, lp_legacy := False\<rparr> else p)"

definition probe_miss :: "byte \<Rightarrow> legacyProbe \<Rightarrow> legacyProbe" where
  "probe_miss sent p =
     (if sent \<noteq> SG_ChanV2 then p
      else if lp_answered p then p
      else let p = p\<lparr>lp_misses := lp_misses p + 1\<rparr> in
           if lp_misses p < legacyMissThreshold then p else p\<lparr>lp_legacy := True\<rparr>)"

definition probe_reset :: "legacyProbe \<Rightarrow> legacyProbe" where
  "probe_reset p = p\<lparr>lp_legacy := False, lp_misses := 0\<rparr>"

datatype refusal = RejectedToken | AlreadyInUse | OtherRefusal string

definition refusalReason :: "string \<Rightarrow> byte \<Rightarrow> refusal option" where
  "refusalReason ack sg =
     (if sg \<noteq> SG_Refused then None
      else if ack = RefusedBadToken then Some RejectedToken
      else if ack = RefusedInUse then Some AlreadyInUse
      else Some (OtherRefusal ack))"

definition restartingRefusal :: "string \<Rightarrow> byte \<Rightarrow> bool" where
  "restartingRefusal ack sg \<longleftrightarrow> sg = SG_Refused \<and> ack = RefusedRestarting"

definition decodeControlAck :: "string \<Rightarrow> byte \<Rightarrow> string \<times> string \<times> nat" where
  "decodeControlAck ack sg = (if sg \<noteq> SG_ChanV2 then (ack, [], 0) else DecodeControlAck ack)"

definition announcePoolConn :: "string \<Rightarrow> bytes" where
  "announcePoolConn nonce = (if nonce = [] then [] else SendBinaryTransportString nonce SG_Pool)"

text \<open>One attempt of \<open>channelDialer\<close>: what it writes, and what it makes of the answer.\<close>

definition client_claim :: "string \<Rightarrow> legacyProbe \<Rightarrow> bytes" where
  "client_claim token p = SendBinaryTransportString token (probe_signal p)"

datatype control_answer = TimedOut | Broken | Answered string byte
datatype control_result = Retry | TurnedDown refusal | BadToken | Established string nat

definition client_answer :: "string \<Rightarrow> legacyProbe \<Rightarrow> control_answer \<Rightarrow> legacyProbe \<times> control_result" where
  "client_answer token p answer =
     (case answer of
        TimedOut \<Rightarrow> (p, Retry)
      | Broken \<Rightarrow> (probe_miss (probe_signal p) p, Retry)
      | Answered message ackSignal \<Rightarrow>
          (case refusalReason message ackSignal of
             Some why \<Rightarrow> (probe_ack ackSignal p, TurnedDown why)
           | None \<Rightarrow>
               let (t, nonce, mux) = decodeControlAck message ackSignal in
               if t = token then (probe_ack ackSignal p, Established nonce mux) else (p, BadToken)))"

text \<open>The answer as read from the bytes that arrive before the connection ends.\<close>

definition read_answer :: "bytes \<Rightarrow> control_answer" where
  "read_answer s = (case ReceiveBinaryTransportString s of None \<Rightarrow> Broken | Some ((m, sg), _) \<Rightarrow> Answered m sg)"

section \<open>Definitions: the server's goroutines\<close>

text \<open>
  A connection being admitted, between one read of shared state and the next: it was accepted, the control
  channel was seen set, the nonce was then seen empty, its announcement is awaited, its claim was answered,
  or it is about to be put into the pool. The run it belongs to is fixed when it is accepted.
\<close>

datatype admission = Accepted | SawControl | SawLegacy | Listening | Claiming string | Admitted

text \<open>\<open>channelHandshake\<close> of a run: waiting, about to publish the nonce of its candidate, then the channel.\<close>

datatype handshake = Waiting | PublishNonce nat string | PublishControl nat

text \<open>\<open>Restart\<close>: not running, the run cancelled, the next run's context installed, the control channel forgotten.\<close>

datatype restart = NoRestart | Cancelled | Installed | Forgotten

text \<open>
  Runs are numbered. \<open>sv_stopped\<close> says that the context of the current run has ended; those of earlier runs
  have. The last three fields are a trace: every connection accepted so far, the claims accepted with the nonce
  each was given, and the nonces that connections presented.
\<close>

record server =
  sv_control :: "nat option"
  sv_nonce :: string
  sv_run :: nat
  sv_stopped :: bool
  sv_restart :: restart
  sv_cand :: "nat \<rightharpoonup> nat \<times> string"
  sv_handshake :: "nat \<rightharpoonup> handshake"
  sv_pool :: "nat \<Rightarrow> nat list"
  sv_conns :: "nat \<rightharpoonup> nat \<times> admission"
  sv_seen :: "nat set"
  sv_claimed :: "(nat \<times> string) set"
  sv_presented :: "(nat \<times> string) set"

definition run_live :: "server \<Rightarrow> nat \<Rightarrow> bool" where
  "run_live s g \<longleftrightarrow> g = sv_run s \<and> \<not> sv_stopped s"

definition goes :: "nat \<Rightarrow> nat \<Rightarrow> admission option \<Rightarrow> server \<Rightarrow> server" where
  "goes c g a s = s\<lparr>sv_conns := (sv_conns s)(c := map_option (\<lambda>a. (g, a)) a)\<rparr>"

definition tcp_server :: server where
  "tcp_server =
     \<lparr>sv_control = None, sv_nonce = [], sv_run = 0, sv_stopped = False, sv_restart = NoRestart, sv_cand = Map.empty,
      sv_handshake = Map.empty(0 \<mapsto> Waiting), sv_pool = (\<lambda>_. []), sv_conns = Map.empty, sv_seen = {}, sv_claimed = {}, sv_presented = {}\<rparr>"

text \<open>Parameters: the token, the capacity of the pool, and the remote address of each connection.\<close>

inductive sstep :: "string \<Rightarrow> nat \<Rightarrow> (nat \<Rightarrow> string) \<Rightarrow> server \<Rightarrow> server \<Rightarrow> bool" for token cap addr where
  accepts: "c \<notin> sv_seen s \<Longrightarrow> sv_restart s = NoRestart \<or> sv_restart s = Cancelled \<Longrightarrow>
    sstep token cap addr s (goes c (sv_run s) (Some Accepted) (s\<lparr>sv_seen := insert c (sv_seen s)\<rparr>))"
| looks: "sv_conns s c = Some (g, Accepted) \<Longrightarrow>
    sstep token cap addr s (goes c g (Some (if sv_control s = None then Listening else SawControl)) s)"
| checks_nonce: "sv_conns s c = Some (g, SawControl) \<Longrightarrow>
    sstep token cap addr s (goes c g (Some (if sv_nonce s = [] then SawLegacy else Listening)) s)"
| checks_peer: "sv_conns s c = Some (g, SawLegacy) \<Longrightarrow> peer = map_option addr (sv_control s) \<Longrightarrow>
    sstep token cap addr s (goes c g (if peer \<noteq> None \<and> \<not> sameHost peer (Some (addr c)) then None else Some Admitted) s)"
| claims: "sv_conns s c = Some (g, Listening) \<Longrightarrow> admit_announced token 0 rnd (sv_nonce s) ann = (answer, Claim n) \<Longrightarrow>
    sstep token cap addr s (goes c g (Some (Claiming n)) (s\<lparr>sv_claimed := insert (c, n) (sv_claimed s)\<rparr>))"
| presents: "sv_conns s c = Some (g, Listening) \<Longrightarrow> admit_announced token 0 rnd (sv_nonce s) ann = (answer, Pool) \<Longrightarrow>
    sstep token cap addr s (goes c g (Some Admitted) (s\<lparr>sv_presented := insert (c, fst ann) (sv_presented s)\<rparr>))"
| refused: "sv_conns s c = Some (g, Listening) \<Longrightarrow> admit_announced token 0 rnd (sv_nonce s) ann = (answer, Close) \<Longrightarrow>
    sstep token cap addr s (goes c g None s)"
| gone: "sv_conns s c = Some (g, Listening) \<Longrightarrow> sstep token cap addr s (goes c g None s)"
| offers: "sv_conns s c = Some (g, Claiming n) \<Longrightarrow> sv_control s = None \<Longrightarrow> sv_cand s g = None \<Longrightarrow>
    sstep token cap addr s (goes c g None (s\<lparr>sv_cand := (sv_cand s)(g \<mapsto> (c, n))\<rparr>))"
| late: "sv_conns s c = Some (g, Claiming n) \<Longrightarrow> sv_control s \<noteq> None \<or> sv_cand s g \<noteq> None \<Longrightarrow>
    sstep token cap addr s (goes c g None s)"
| delivers: "sv_conns s c = Some (g, Admitted) \<Longrightarrow> length (sv_pool s g) < cap \<Longrightarrow>
    sstep token cap addr s (goes c g None (s\<lparr>sv_pool := (sv_pool s)(g := sv_pool s g @ [c])\<rparr>))"
| full: "sv_conns s c = Some (g, Admitted) \<Longrightarrow> \<not> length (sv_pool s g) < cap \<Longrightarrow>
    sstep token cap addr s (goes c g None s)"
| taken: "sv_pool s g = c # cs \<Longrightarrow> sstep token cap addr s (s\<lparr>sv_pool := (sv_pool s)(g := cs)\<rparr>)"
| chosen: "sv_handshake s g = Some Waiting \<Longrightarrow> sv_cand s g = Some (c, n) \<Longrightarrow>
    sstep token cap addr s (s\<lparr>sv_handshake := (sv_handshake s)(g \<mapsto> PublishNonce c n), sv_cand := (sv_cand s)(g := None)\<rparr>)"
| ended: "sv_handshake s g = Some Waiting \<Longrightarrow> \<not> run_live s g \<Longrightarrow>
    sstep token cap addr s (s\<lparr>sv_handshake := (sv_handshake s)(g := None)\<rparr>)"
| publishes_nonce: "sv_handshake s g = Some (PublishNonce c n) \<Longrightarrow>
    sstep token cap addr s (s\<lparr>sv_nonce := n, sv_handshake := (sv_handshake s)(g \<mapsto> PublishControl c)\<rparr>)"
| publishes_control: "sv_handshake s g = Some (PublishControl c) \<Longrightarrow>
    sstep token cap addr s (s\<lparr>sv_control := Some c, sv_handshake := (sv_handshake s)(g := None)\<rparr>)"
| cancels: "sv_restart s = NoRestart \<Longrightarrow> sstep token cap addr s (s\<lparr>sv_stopped := True, sv_restart := Cancelled\<rparr>)"
| abandons: "sv_restart s = Cancelled \<Longrightarrow> sstep token cap addr s (s\<lparr>sv_restart := NoRestart\<rparr>)"
| installs: "sv_restart s = Cancelled \<Longrightarrow>
    sstep token cap addr s (s\<lparr>sv_run := sv_run s + 1, sv_stopped := False, sv_restart := Installed\<rparr>)"
| forgets: "sv_restart s = Installed \<Longrightarrow> sstep token cap addr s (s\<lparr>sv_control := None, sv_restart := Forgotten\<rparr>)"
| restarts: "sv_restart s = Forgotten \<Longrightarrow>
    sstep token cap addr s (s\<lparr>sv_nonce := [], sv_restart := NoRestart, sv_handshake := (sv_handshake s)(sv_run s \<mapsto> Waiting)\<rparr>)"

section \<open>Lemmas\<close>

lemmas signal_defs = SG_Chan_def SG_ChanV2_def SG_Pool_def SG_Refused_def

lemma length_EncodeToString: "length (EncodeToString b) = 2 * length b"
  by (induction b) (simp_all add: EncodeToString_def)

lemma version_char:
  assumes "0 \<le> v" "v \<le> 9"
  shows "string_of_rune (48 + v) = [char_of (48 + nat v)]" "unat (byte_of_char (char_of (48 + nat v)) - 48) = nat v"
proof -
  show "string_of_rune (48 + v) = [char_of (48 + nat v)]" using assms by (simp add: string_of_rune_def Let_def nat_add_distrib)
  obtain k where k: "nat v = k" "k \<le> 9" using assms by simp
  have "byte_of_char (char_of (48 + k)) - 48 = (word_of_nat k :: byte)" using k by (simp add: byte_of_char_def)
  then show "unat (byte_of_char (char_of (48 + nat v)) - 48) = nat v" using k by (simp add: unat_of_nat)
qed

lemma DecodeControlAck_EncodeControlAck:
  assumes "length nonce = 64" "0 \<le> v" "v \<le> 9"
  shows "DecodeControlAck (EncodeControlAck token nonce v) = (token, nonce, nat v)"
proof -
  have e: "EncodeControlAck token nonce v = nonce @ char_of (48 + nat v) # token" using version_char(1)[OF assms(2,3)] by (simp add: EncodeControlAck_def)
  have "(nonce @ char_of (48 + nat v) # token) ! 64 = char_of (48 + nat v)" using assms(1) by (simp add: nth_append)
  moreover have "nat v \<le> 9" using assms(3) by simp
  ultimately show ?thesis unfolding e using version_char(2)[OF assms(2,3)] assms(1)
    by (simp add: DecodeControlAck_def Let_def poolNonceHexLen_def poolNonceBytes_def)
qed

lemma read_answer_sent: "length m < 2 ^ 16 \<Longrightarrow> read_answer (SendBinaryTransportString m sg) = Answered m sg"
  using transport_string.get_put[of "(m, sg)" "[]"] by (simp add: read_answer_def)

lemma admit_Claim: "admit_announced token mux rnd nonce ann = (answer, Claim n) \<Longrightarrow> fst ann = token"
  by (auto simp: admit_announced_def tokenMatches_def split: prod.splits if_splits option.splits)

lemma admit_Pool: "admit_announced token mux rnd nonce ann = (answer, Pool) \<Longrightarrow> fst ann = nonce \<and> nonce \<noteq> []"
  by (auto simp: admit_announced_def nonce_Verify_def split: prod.splits if_splits option.splits)

text \<open>What lets a connection into a pool: it presented a nonce that was given to a holder of the token, or it came
  from the host of one.\<close>

definition vouched :: "(nat \<Rightarrow> string) \<Rightarrow> server \<Rightarrow> nat \<Rightarrow> bool" where
  "vouched addr s c \<longleftrightarrow>
     (\<exists>k n. n \<noteq> [] \<and> (c, n) \<in> sv_presented s \<and> (k, n) \<in> sv_claimed s) \<or>
     (\<exists>k n. (k, n) \<in> sv_claimed s \<and> sameHost (Some (addr k)) (Some (addr c)))"

text \<open>The shared state holds only what claims put there.\<close>

definition claims_ok :: "server \<Rightarrow> bool" where
  "claims_ok s \<longleftrightarrow>
     (sv_nonce s \<noteq> [] \<longrightarrow> (\<exists>k. (k, sv_nonce s) \<in> sv_claimed s)) \<and>
     (\<forall>k. sv_control s = Some k \<longrightarrow> (\<exists>n. (k, n) \<in> sv_claimed s)) \<and>
     (\<forall>g c n. sv_cand s g = Some (c, n) \<longrightarrow> (c, n) \<in> sv_claimed s) \<and>
     (\<forall>g c n. sv_handshake s g = Some (PublishNonce c n) \<longrightarrow> (c, n) \<in> sv_claimed s) \<and>
     (\<forall>g c. sv_handshake s g = Some (PublishControl c) \<longrightarrow> (\<exists>n. (c, n) \<in> sv_claimed s)) \<and>
     (\<forall>c g n. sv_conns s c = Some (g, Claiming n) \<longrightarrow> (c, n) \<in> sv_claimed s)"

text \<open>No connection belongs to a run that has not begun, so what the live run has seen of the control channel lasts.\<close>

definition runs_ok :: "server \<Rightarrow> bool" where
  "runs_ok s \<longleftrightarrow>
     (\<forall>c g a. sv_conns s c = Some (g, a) \<longrightarrow> g \<le> sv_run s \<and> (g = sv_run s \<longrightarrow> sv_restart s = NoRestart \<or> sv_restart s = Cancelled)) \<and>
     (\<forall>g c. c \<in> set (sv_pool s g) \<longrightarrow> g \<le> sv_run s) \<and>
     (\<forall>c g a. sv_conns s c = Some (g, a) \<and> run_live s g \<and> (a = SawControl \<or> a = SawLegacy) \<longrightarrow> sv_control s \<noteq> None)"

definition pools_ok :: "(nat \<Rightarrow> string) \<Rightarrow> server \<Rightarrow> bool" where
  "pools_ok addr s \<longleftrightarrow>
     (\<forall>c g. sv_conns s c = Some (g, Admitted) \<and> run_live s g \<longrightarrow> vouched addr s c) \<and>
     (\<forall>g c. c \<in> set (sv_pool s g) \<and> run_live s g \<longrightarrow> vouched addr s c)"

lemmas server_defs = goes_def run_live_def

lemma claims_step: "sstep token cap addr s s' \<Longrightarrow> claims_ok s \<Longrightarrow> claims_ok s'"
proof (induction rule: sstep.induct)
  case (claims s c g rnd ann answer n)
  then show ?case unfolding claims_ok_def server_defs by (simp split: if_splits) blast
next
  case (publishes_nonce s g c n)
  then show ?case unfolding claims_ok_def by (simp split: if_splits) blast
qed (auto simp: claims_ok_def server_defs split: if_splits)

lemma runs_step: "sstep token cap addr s s' \<Longrightarrow> runs_ok s \<Longrightarrow> runs_ok s'"
proof (induction rule: sstep.induct)
  case (taken s g c cs)
  have "c \<in> set (sv_pool s g)" using taken(1) by simp
  then have "g \<le> sv_run s" using taken(2) unfolding runs_ok_def by blast
  then show ?case using taken(2) unfolding runs_ok_def server_defs by (simp split: if_splits)
next
  case (installs s)
  then have "sv_conns s c = Some (g, a) \<Longrightarrow> g \<le> sv_run s" "c \<in> set (sv_pool s g) \<Longrightarrow> g \<le> sv_run s" for c g a
    unfolding runs_ok_def by blast+
  moreover from this(1) have "sv_conns s c \<noteq> Some (Suc (sv_run s), a)" for c a by (metis Suc_n_not_le_n)
  ultimately show ?case unfolding runs_ok_def server_defs by (auto simp: le_SucI)
qed (auto simp: runs_ok_def server_defs split: if_splits)

lemma vouched_mono: "vouched addr s c \<Longrightarrow> sv_claimed s \<subseteq> sv_claimed s' \<Longrightarrow> sv_presented s \<subseteq> sv_presented s' \<Longrightarrow> vouched addr s' c"
  unfolding vouched_def by blast

lemma trace_grows: "sstep token cap addr s s' \<Longrightarrow> sv_claimed s \<subseteq> sv_claimed s' \<and> sv_presented s \<subseteq> sv_presented s'"
  by (induction rule: sstep.induct) (auto simp: goes_def)

text \<open>A run that is live after a step was live before it, unless the step began it.\<close>

lemma live_before: "sstep token cap addr s s' \<Longrightarrow> run_live s' g \<Longrightarrow> run_live s g \<or> g = Suc (sv_run s)"
  by (induction rule: sstep.induct) (auto simp: server_defs)

lemma pools_same:
  assumes st: "sstep token cap addr s s'" and ok: "runs_ok s" "pools_ok addr s"
    and conn: "\<And>c g. sv_conns s' c = Some (g, Admitted) \<Longrightarrow> run_live s' g \<Longrightarrow> sv_conns s c = Some (g, Admitted) \<or> vouched addr s' c"
    and pool: "\<And>c g. c \<in> set (sv_pool s' g) \<Longrightarrow> c \<in> set (sv_pool s g) \<or> sv_conns s c = Some (g, Admitted)"
  shows "pools_ok addr s'"
proof -
  have grow: "vouched addr s c \<Longrightarrow> vouched addr s' c" for c using vouched_mono trace_grows[OF st] by blast
  have old: "run_live s g" if "run_live s' g" "c \<in> set (sv_pool s g) \<or> sv_conns s c = Some (g, a)" for g c a
  proof -
    have "g \<le> sv_run s" using that(2) ok(1) unfolding runs_ok_def by blast
    then show ?thesis using live_before[OF st that(1)] by auto
  qed
  show ?thesis unfolding pools_ok_def using conn pool old grow ok(2)[unfolded pools_ok_def] by metis
qed

lemma pools_step:
  assumes st: "sstep token cap addr s s'" and ok: "claims_ok s" "runs_ok s" "pools_ok addr s"
  shows "pools_ok addr s'"
proof (rule pools_same[OF st ok(2,3)])
  show "c \<in> set (sv_pool s g) \<or> sv_conns s c = Some (g, Admitted)" if "c \<in> set (sv_pool s' g)" for c g
    using st that by (induction rule: sstep.induct) (auto simp: server_defs split: if_splits)
  show "sv_conns s c = Some (g, Admitted) \<or> vouched addr s' c" if "sv_conns s' c = Some (g, Admitted)" "run_live s' g" for c g
    using st that ok(1,2)
  proof (induction rule: sstep.induct)
    case (checks_peer s d h peer)
    show ?case
    proof (cases "d = c")
      case True
      then have h: "g = h" "\<not> (peer \<noteq> None \<and> \<not> sameHost peer (Some (addr c)))" "run_live s g"
        using checks_peer by (auto simp: server_defs split: if_splits)
      then obtain k where k: "sv_control s = Some k" using checks_peer True unfolding runs_ok_def by blast
      then obtain n where "(k, n) \<in> sv_claimed s" using checks_peer unfolding claims_ok_def by blast
      then show ?thesis using h k checks_peer(2) by (auto simp: vouched_def goes_def)
    qed (use checks_peer in \<open>simp add: goes_def\<close>)
  next
    case (presents s d h rnd ann answer)
    show ?case
    proof (cases "d = c")
      case True
      note a = admit_Pool[OF presents(2)]
      then obtain k where "(k, sv_nonce s) \<in> sv_claimed s" using presents(5) unfolding claims_ok_def by blast
      then show ?thesis using a True by (auto simp: vouched_def goes_def)
    qed (use presents in \<open>simp add: goes_def\<close>)
  qed (auto simp: server_defs split: if_splits)
qed

definition server_ok :: "(nat \<Rightarrow> string) \<Rightarrow> server \<Rightarrow> bool" where
  "server_ok addr s \<longleftrightarrow> claims_ok s \<and> runs_ok s \<and> pools_ok addr s"

lemma server_run: "(sstep token cap addr)\<^sup>*\<^sup>* s s' \<Longrightarrow> server_ok addr s \<Longrightarrow> server_ok addr s'"
  by (induction rule: rtranclp_induct) (auto simp: server_ok_def intro: claims_step runs_step pools_step)

lemma tcp_server_ok: "server_ok addr tcp_server"
  by (simp add: server_ok_def claims_ok_def runs_ok_def pools_ok_def tcp_server_def)

text \<open>The trace is what it says: claims were accepted with the token, and are the connections' own.\<close>

lemma claim_needs_token:
  assumes "admit_announced token mux rnd nonce ann = (answer, Claim n)"
  shows "fst ann = token" "n = [] \<or> (\<exists>b. rnd = Some b \<and> n = EncodeToString b)"
  using admit_Claim[OF assms] assms
  by (auto simp: admit_announced_def controlAck_def NewPoolNonce_def split: prod.splits if_splits option.splits)

section \<open>Properties\<close>

text \<open>(C23) A claim and its answer, byte for byte over the connection. The server that holds the same token takes the
  claim, and the client comes out with exactly the nonce the server filed with it and with the mux version the
  server imposed, or with neither when it asked in the old way; a server with another token sends the refusal that
  names the token as the reason, and files nothing.\<close>
theorem control_claim_answered:
  assumes "length ours < 65471" "length theirs < 65471" "length rnd = 32" "0 \<le> v" "v \<le> 9"
    and "ReceiveBinaryTransportString (client_claim ours p) = Some (ann, rest)"
    and "admit_announced theirs v (Some rnd) nonce ann = (answer, verdict)"
  shows "rest = [] \<and>
    (if ours = theirs
     then (let n = (if lp_legacy p then [] else EncodeToString rnd); m = (if lp_legacy p then 0 else nat v) in
           verdict = Claim n \<and> snd (client_answer ours p (read_answer answer)) = Established n m)
     else verdict = Close \<and> snd (client_answer ours p (read_answer answer)) = TurnedDown RejectedToken)"
proof -
  have ann: "ann = (ours, probe_signal p)" "rest = []"
    using assms(6) transport_string.get_put[of "(ours, probe_signal p)" "[]"] assms(1) by (simp_all add: client_claim_def)
  have ctl: "isControlSignal (probe_signal p)" by (simp add: isControlSignal_def probe_signal_def)
  show ?thesis
  proof (cases "ours = theirs")
    case False
    then have "answer = SendBinaryTransportString RefusedBadToken SG_Refused" "verdict = Close"
      using assms(7) ctl by (simp_all add: ann admit_announced_def tokenMatches_def refuseControl_def)
    then show ?thesis using False ann(2) read_answer_sent[of RefusedBadToken SG_Refused]
      by (simp add: client_answer_def refusalReason_def RefusedBadToken_def)
  next
    case True
    let ?n = "EncodeToString rnd"
    have n: "length ?n = 64" using assms(3) by (simp add: length_EncodeToString)
    show ?thesis
    proof (cases "lp_legacy p")
      case legacy: True
      then have "answer = SendBinaryTransportString theirs SG_Chan" "verdict = Claim []"
        using assms(7) True ctl by (simp_all add: ann admit_announced_def tokenMatches_def controlAck_def probe_signal_def signal_defs)
      then show ?thesis using legacy True ann(2) read_answer_sent[of theirs SG_Chan] assms(2)
        by (simp add: client_answer_def refusalReason_def decodeControlAck_def signal_defs)
    next
      case v2: False
      let ?ack = "EncodeControlAck theirs ?n v"
      have a: "answer = SendBinaryTransportString ?ack SG_ChanV2" "verdict = Claim ?n"
        using assms(7) True ctl v2 by (simp_all add: ann admit_announced_def tokenMatches_def controlAck_def NewPoolNonce_def probe_signal_def)
      have "length ?ack < 2 ^ 16" using n version_char(1)[OF assms(4,5)] assms(2) by (simp add: EncodeControlAck_def)
      from read_answer_sent[OF this, of SG_ChanV2] show ?thesis
        using v2 True ann(2) DecodeControlAck_EncodeControlAck[OF n assms(4,5)] unfolding a
        by (simp add: client_answer_def refusalReason_def decodeControlAck_def signal_defs)
    qed
  qed
qed

theorem control_claim_answered_witness:
  "snd (client_answer ''tok'' \<lparr>lp_legacy = False, lp_answered = False, lp_misses = 0\<rparr>
     (read_answer (fst (admit_announced ''tok'' 2 (Some (replicate 32 0xA5)) [] (''tok'', SG_ChanV2))))) =
   Established (concat (replicate 32 ''a5'')) 2"
proof -
  let ?p = "\<lparr>lp_legacy = False, lp_answered = False, lp_misses = 0\<rparr>"
  have r: "ReceiveBinaryTransportString (client_claim ''tok'' ?p) = Some ((''tok'', SG_ChanV2), [])"
    using transport_string.get_put[of "(''tok'', SG_ChanV2)" "[]"] by (simp add: client_claim_def probe_signal_def)
  have "EncodeToString (replicate 32 0xA5) = concat (replicate 32 ''a5'')"
  proof -
    have "[hex_char 10, hex_char 5] = ''a5''" by code_simp
    then show ?thesis by (simp add: EncodeToString_def map_replicate)
  qed
  then show ?thesis
    using control_claim_answered[OF _ _ _ _ _ r, of "''tok''" "replicate 32 0xA5" 2 "[]"]
    by (cases "admit_announced ''tok'' 2 (Some (replicate 32 0xA5)) [] (''tok'', SG_ChanV2)") (simp add: Let_def)
qed

text \<open>The acknowledgement does not prove that the server knows the token. The client's claim carries the token
  itself, so whoever answers can hand it back: one function of the bytes it is sent makes
  every client with any token take it for its server, and use a nonce it chose.\<close>
theorem control_impostor_accepted:
  "\<exists>impostor. \<forall>token p nonce. length token < 65471 \<and> length nonce = 64 \<longrightarrow>
     (\<exists>n m. snd (client_answer token p (read_answer (impostor nonce (client_claim token p)))) = Established n m \<and>
       (\<not> lp_legacy p \<longrightarrow> n = nonce))"
proof -
  define impostor where "impostor nonce s =
     (case ReceiveBinaryTransportString s of
        None \<Rightarrow> []
      | Some ((t, sg), _) \<Rightarrow> SendBinaryTransportString (if sg = SG_ChanV2 then EncodeControlAck t nonce 1 else t) sg)"
    for nonce s
  have "\<exists>n m. snd (client_answer token p (read_answer (impostor nonce (client_claim token p)))) = Established n m \<and>
       (\<not> lp_legacy p \<longrightarrow> n = nonce)" if l: "length token < 65471" "length nonce = 64" for token p nonce
  proof -
    have r: "ReceiveBinaryTransportString (client_claim token p) = Some ((token, probe_signal p), [])"
      using transport_string.get_put[of "(token, probe_signal p)" "[]"] l(1) by (simp add: client_claim_def)
    have "length (EncodeControlAck token nonce 1) < 2 ^ 16" using l version_char(1)[of 1] by (simp add: EncodeControlAck_def)
    then show ?thesis
      using l DecodeControlAck_EncodeControlAck[OF l(2), of 1 token] unfolding impostor_def r
      by (cases "lp_legacy p")
        (simp_all add: read_answer_sent client_answer_def refusalReason_def decodeControlAck_def probe_signal_def signal_defs)
  qed
  then show ?thesis by blast
qed

theorem control_impostor_accepted_witness:
  "\<exists>impostor m. snd (client_answer ''tok'' \<lparr>lp_legacy = False, lp_answered = False, lp_misses = 0\<rparr>
     (read_answer (impostor (replicate 64 CHR ''0'') (client_claim ''tok'' \<lparr>lp_legacy = False, lp_answered = False, lp_misses = 0\<rparr>)))) =
     Established (replicate 64 CHR ''0'') m"
proof -
  obtain impostor where i: "\<And>token p nonce. length token < 65471 \<and> length nonce = 64 \<Longrightarrow>
     (\<exists>n m. snd (client_answer token p (read_answer (impostor nonce (client_claim token p)))) = Established n m \<and>
       (\<not> lp_legacy p \<longrightarrow> n = nonce))"
    using control_impostor_accepted by blast
  show ?thesis using i[of "''tok''" "replicate 64 CHR ''0''" "\<lparr>lp_legacy = False, lp_answered = False, lp_misses = 0\<rparr>"] by auto
qed

text \<open>(C22) Nobody without the token gets into the pool of a live run. However connections arrive, announce
  themselves and are torn down, however often the server restarts and whichever goroutine is late: a connection
  in the pool of the run that is up presented a nonce the server had given to a client that
  claimed the control channel with the token, or it came from the host of such a client; and the control channel itself
  belongs to such a client.\<close>
theorem pool_admission:
  assumes "(sstep token cap addr)\<^sup>*\<^sup>* tcp_server s" "run_live s g"
  shows "(\<forall>c \<in> set (sv_pool s g).
      (\<exists>k n. n \<noteq> [] \<and> (c, n) \<in> sv_presented s \<and> (k, n) \<in> sv_claimed s) \<or>
      (\<exists>k n. (k, n) \<in> sv_claimed s \<and> sameHost (Some (addr k)) (Some (addr c)))) \<and>
    (\<forall>k. sv_control s = Some k \<longrightarrow> (\<exists>n. (k, n) \<in> sv_claimed s))"
  using server_run[OF assms(1) tcp_server_ok] assms(2)
  by (auto simp: server_ok_def pools_ok_def claims_ok_def vouched_def)

text \<open>Reaching a state with a given feature, one step at a time.\<close>

lemma reach_step:
  "sstep token cap addr s t \<Longrightarrow> \<exists>u. (sstep token cap addr)\<^sup>*\<^sup>* t u \<and> P u \<Longrightarrow> \<exists>u. (sstep token cap addr)\<^sup>*\<^sup>* s u \<and> P u"
  by (meson converse_rtranclp_into_rtranclp)

lemma reach_on:
  assumes "\<exists>u. (sstep token cap addr)\<^sup>*\<^sup>* s u \<and> u = t" "\<exists>u. (sstep token cap addr)\<^sup>*\<^sup>* t u \<and> P u"
  shows "\<exists>u. (sstep token cap addr)\<^sup>*\<^sup>* s u \<and> P u"
  using assms by (blast intro: rtranclp_trans)

lemma reach_here: "P s \<Longrightarrow> \<exists>u. (sstep token cap addr)\<^sup>*\<^sup>* s u \<and> P u"
  by blast

definition demo_rnd :: bytes where "demo_rnd = replicate 32 1"

lemma demo_nonce: "EncodeToString demo_rnd \<noteq> []"
  by (simp add: demo_rnd_def length_EncodeToString flip: length_greater_0_conv)

lemma demo_announced:
  "admit_announced token 0 (Some demo_rnd) nonce (token, SG_ChanV2) =
     (SendBinaryTransportString (EncodeControlAck token (EncodeToString demo_rnd) 0) SG_ChanV2, Claim (EncodeToString demo_rnd))"
  "n \<noteq> [] \<Longrightarrow> admit_announced token 0 rnd n (n, SG_Pool) = ([], Pool)"
  by (simp_all add: admit_announced_def isControlSignal_def tokenMatches_def controlAck_def NewPoolNonce_def nonce_Verify_def signal_defs)

lemma demo_same_host: "sameHost (Some ''10.0.0.1:80'') (Some ''10.0.0.1:80'')"
  by code_simp

text \<open>A control channel that one client with the token has set up.\<close>

definition demo_up :: server where
  "demo_up = tcp_server\<lparr>sv_control := Some 0, sv_nonce := EncodeToString demo_rnd, sv_handshake := Map.empty, sv_seen := {0},
     sv_claimed := {(0, EncodeToString demo_rnd)}\<rparr>"

lemma demo_up_reached: "\<exists>u. (sstep token cap addr)\<^sup>*\<^sup>* tcp_server u \<and> u = demo_up"
proof -
  note defs = server_defs tcp_server_def
  show ?thesis
    apply (rule reach_step, rule sstep.accepts[where c = 0], (simp add: defs; fail)+)
    apply (rule reach_step, rule sstep.looks[where c = 0 and g = 0], (simp add: defs; fail))
    apply (rule reach_step, rule sstep.claims[where c = 0 and g = 0, OF _ demo_announced(1)], (simp add: defs; fail))
    apply (rule reach_step, rule sstep.offers[where c = 0 and g = 0], (simp add: defs; fail)+)
    apply (rule reach_step, rule sstep.chosen[where g = 0], (simp add: defs; fail), (simp add: defs; fail))
    apply (rule reach_step, rule sstep.publishes_nonce[where g = 0], (simp add: defs; fail))
    apply (rule reach_step, rule sstep.publishes_control[where g = 0], (simp add: defs; fail))
    by (rule reach_here) (simp add: defs demo_up_def)
qed

lemma demo_up_admits: "\<exists>u. (sstep token 8 addr)\<^sup>*\<^sup>* demo_up u \<and> (sv_pool u 0 = [1] \<and> run_live u 0)"
proof -
  note defs = server_defs tcp_server_def demo_nonce demo_up_def
  show ?thesis
    apply (rule reach_step, rule sstep.accepts[where c = 1], (simp add: defs; fail)+)
    apply (rule reach_step, rule sstep.looks[where c = 1 and g = 0], (simp add: defs; fail))
    apply (rule reach_step, rule sstep.checks_nonce[where c = 1 and g = 0], (simp add: defs; fail))
    apply (rule reach_step, rule sstep.presents[where c = 1 and g = 0 and ann = "(EncodeToString demo_rnd, SG_Pool)" and answer = "[]" and rnd = None], (simp add: defs; fail))
     apply (simp add: defs demo_announced(2); fail)
    apply (rule reach_step, rule sstep.delivers[where c = 1 and g = 0], (simp add: defs; fail)+)
    by (rule reach_here) (simp add: defs)
qed

theorem pool_admission_witness:
  "\<exists>s. (sstep ''tok'' 8 (\<lambda>_. ''10.0.0.1:80''))\<^sup>*\<^sup>* tcp_server s \<and> sv_pool s 0 = [1] \<and> run_live s 0 \<and>
     (\<exists>k n. (k, n) \<in> sv_claimed s)"
proof -
  let ?step = "sstep ''tok'' 8 (\<lambda>_. ''10.0.0.1:80'')"
  obtain s where s: "?step\<^sup>*\<^sup>* tcp_server s" "sv_pool s 0 = [1]" "run_live s 0"
    using reach_on[OF demo_up_reached demo_up_admits] by blast
  then show ?thesis using pool_admission[OF s(1,3)] by (intro exI[of _ s]) auto
qed

text \<open>
  The branch for clients of the old kind trusts the source address alone, and its comment says that it can be reached
  only under such a client's control channel. It can be reached without one: a handshake goroutine of a run
  that ends publishes its nonce before the restart forgets it and its control channel after, and from then on
  the new run holds a control channel and no nonce. A connection that presents nothing is then admitted.
\<close>
lemma legacy_branch_reached:
  "\<exists>u. (sstep token 8 (\<lambda>_. ''10.0.0.1:80''))\<^sup>*\<^sup>* tcp_server u \<and>
     (sv_pool u 1 = [1] \<and> run_live u 1 \<and> sv_presented u = {} \<and> sv_claimed u = {(0, EncodeToString demo_rnd)})"
proof -
  note defs = server_defs tcp_server_def
  have half: "\<exists>u. (sstep token 8 (\<lambda>_. ''10.0.0.1:80''))\<^sup>*\<^sup>* tcp_server u \<and>
     u = tcp_server\<lparr>sv_control := Some 0, sv_run := 1, sv_handshake := Map.empty(1 \<mapsto> Waiting), sv_seen := {0},
       sv_claimed := {(0, EncodeToString demo_rnd)}\<rparr>"
    apply (rule reach_step, rule sstep.accepts[where c = 0], (simp add: defs; fail)+)
    apply (rule reach_step, rule sstep.looks[where c = 0 and g = 0], (simp add: defs; fail))
    apply (rule reach_step, rule sstep.claims[where c = 0 and g = 0, OF _ demo_announced(1)], (simp add: defs; fail))
    apply (rule reach_step, rule sstep.offers[where c = 0 and g = 0], (simp add: defs; fail)+)
    apply (rule reach_step, rule sstep.chosen[where g = 0], (simp add: defs; fail), (simp add: defs; fail))
    apply (rule reach_step, rule sstep.publishes_nonce[where g = 0], (simp add: defs; fail))
    apply (rule reach_step, rule sstep.cancels, (simp add: defs; fail))
    apply (rule reach_step, rule sstep.installs, (simp add: defs; fail))
    apply (rule reach_step, rule sstep.forgets, (simp add: defs; fail))
    apply (rule reach_step, rule sstep.restarts, (simp add: defs; fail))
    apply (rule reach_step, rule sstep.publishes_control[where g = 0], (simp add: defs; fail))
    by (rule reach_here) (simp add: defs fun_upd_twist)
  have "\<exists>u. (sstep token 8 (\<lambda>_. ''10.0.0.1:80''))\<^sup>*\<^sup>* (tcp_server\<lparr>sv_control := Some 0, sv_run := 1,
       sv_handshake := Map.empty(1 \<mapsto> Waiting), sv_seen := {0}, sv_claimed := {(0, EncodeToString demo_rnd)}\<rparr>) u \<and>
     (sv_pool u 1 = [1] \<and> run_live u 1 \<and> sv_presented u = {} \<and> sv_claimed u = {(0, EncodeToString demo_rnd)})"
    apply (rule reach_step, rule sstep.accepts[where c = 1], (simp add: defs; fail)+)
    apply (rule reach_step, rule sstep.looks[where c = 1 and g = 1], (simp add: defs; fail))
    apply (rule reach_step, rule sstep.checks_nonce[where c = 1 and g = 1], (simp add: defs; fail))
    apply (rule reach_step, rule sstep.checks_peer[where c = 1 and g = 1], (simp add: defs; fail), (rule refl))
    apply (rule reach_step, rule sstep.delivers[where c = 1 and g = 1], (simp add: defs demo_same_host; fail)+)
    by (rule reach_here) (simp add: defs)
  from reach_on[OF half this] show ?thesis .
qed

section \<open>Properties of the client's choice\<close>

text \<open>What can happen to the probe: an attempt answered, broken or timed out, and a new run of the tunnel.\<close>

datatype probe_event = Attempt control_answer | Restarted

fun probe_step :: "string \<Rightarrow> probe_event \<Rightarrow> legacyProbe \<Rightarrow> legacyProbe" where
  "probe_step token (Attempt a) p = fst (client_answer token p a)"
| "probe_step token Restarted p = probe_reset p"

definition new_probe :: legacyProbe where
  "new_probe = \<lparr>lp_legacy = False, lp_answered = False, lp_misses = 0\<rparr>"

definition broken_since :: "probe_event list \<Rightarrow> nat" where
  "broken_since es = length (filter (\<lambda>e. e = Attempt Broken) (takeWhile (\<lambda>e. e \<noteq> Restarted) (rev es)))"

definition probe_run :: "string \<Rightarrow> probe_event list \<Rightarrow> legacyProbe" where
  "probe_run token es = fold (probe_step token) es new_probe"

lemma probe_run_inv:
  "\<not> (lp_answered (probe_run token es) \<and> lp_legacy (probe_run token es)) \<and> lp_misses (probe_run token es) \<le> broken_since es \<and>
   (lp_legacy (probe_run token es) \<longrightarrow> 2 \<le> broken_since es)"
proof (induction es rule: rev_induct)
  case Nil
  then show ?case by (simp add: probe_run_def new_probe_def)
next
  case (snoc e es)
  have "probe_run token (es @ [e]) = probe_step token e (probe_run token es)" by (simp add: probe_run_def)
  moreover have "broken_since (es @ [e]) = (if e = Restarted then 0 else if e = Attempt Broken then Suc (broken_since es) else broken_since es)"
    by (simp add: broken_since_def)
  ultimately show ?case using snoc
    by (cases e; cases "case e of Attempt a \<Rightarrow> a | Restarted \<Rightarrow> TimedOut")
      (auto simp: client_answer_def probe_reset_def probe_miss_def probe_ack_def Let_def legacyMissThreshold_def split: option.splits prod.splits)
qed

lemma answered_stays: "lp_answered p \<Longrightarrow> lp_answered (fold (probe_step token) es p)"
proof (induction es arbitrary: p)
  case (Cons e es)
  have "lp_answered (probe_step token e p)" using Cons.prems
    by (cases e; cases "case e of Attempt a \<Rightarrow> a | Restarted \<Rightarrow> TimedOut")
      (auto simp: client_answer_def probe_reset_def probe_miss_def probe_ack_def Let_def split: option.splits prod.splits)
  then show ?case using Cons.IH by simp
qed simp

text \<open>When the client gives up the nonce. It asks in the old way only when at least two attempts broke without an answer
  in its present run; and once any server has answered it in the new way it never does
  again, whatever fails later and however often it restarts, so a server of the old kind further down its list of
  endpoints stays out of reach for the life of the process.\<close>
theorem legacy_fallback:
  shows "(probe_signal (probe_run token es) = SG_Chan \<longrightarrow> 2 \<le> broken_since es) \<and>
    (es = xs @ Attempt (Answered message SG_ChanV2) # ys \<and> fst (DecodeControlAck message) = token \<longrightarrow>
       probe_signal (probe_run token es) = SG_ChanV2)"
proof (intro conjI impI)
  note inv = probe_run_inv[of token es]
  show "2 \<le> broken_since es" if "probe_signal (probe_run token es) = SG_Chan"
    using that inv by (auto simp: probe_signal_def signal_defs split: if_splits)
  assume e: "es = xs @ Attempt (Answered message SG_ChanV2) # ys \<and> fst (DecodeControlAck message) = token"
  have "lp_answered (probe_step token (Attempt (Answered message SG_ChanV2)) p)" for p
    using e by (auto simp: client_answer_def refusalReason_def decodeControlAck_def probe_ack_def Let_def signal_defs split: prod.splits)
  then have "lp_answered (probe_run token es)" using e answered_stays by (simp add: probe_run_def)
  then show "probe_signal (probe_run token es) = SG_ChanV2" using inv by (simp add: probe_signal_def)
qed

theorem legacy_fallback_witness:
  "probe_signal (probe_run ''tok'' [Attempt Broken, Attempt TimedOut, Attempt Broken]) = SG_Chan \<and>
   probe_signal (probe_run ''tok'' [Attempt (Answered (EncodeControlAck ''tok'' (replicate 64 CHR ''0'') 1) SG_ChanV2), Attempt Broken, Attempt Broken]) = SG_ChanV2"
proof -
  have "DecodeControlAck (EncodeControlAck ''tok'' (replicate 64 CHR ''0'') 1) = (''tok'', replicate 64 CHR ''0'', 1)"
    using DecodeControlAck_EncodeControlAck[of "replicate 64 CHR ''0''" 1] by simp
  then have "probe_signal (probe_run ''tok'' [Attempt (Answered (EncodeControlAck ''tok'' (replicate 64 CHR ''0'') 1) SG_ChanV2), Attempt Broken, Attempt Broken]) = SG_ChanV2"
    by (intro legacy_fallback[where xs = "[]" and message = "EncodeControlAck ''tok'' (replicate 64 CHR ''0'') 1" and ys = "[Attempt Broken, Attempt Broken]", THEN conjunct2, THEN mp]) simp
  moreover have "probe_signal (probe_run ''tok'' [Attempt Broken, Attempt TimedOut, Attempt Broken]) = SG_Chan"
    by (simp add: probe_run_def new_probe_def client_answer_def probe_miss_def probe_signal_def Let_def legacyMissThreshold_def signal_defs)
  ultimately show ?thesis by blast
qed

end
