(* ===== verification/Backends.thy ===== *)
theory Backends
  imports Prelude
begin

text \<open>
  Several local services behind one forwarded port, \<open>src/internal/client/transport/backendpool.go\<close>: the
  parsing of the list that arrives over the tunnel, the round robin over the services that are up, the
  health check, and the bounded map of groups with its eviction. Every section that runs under a lock is one
  function; goroutines interleave between them, as a step relation. The cursor \<open>next\<close> is a natural number:
  it would take \<open>2^63\<close> picks of one group to overflow it.
\<close>

section \<open>Definitions: the list\<close>

definition backendSep :: char where "backendSep = CHR ''|''"
definition backendCheckInterval :: duration where "backendCheckInterval = 10 * second"
definition backendMaxFailed :: nat where "backendMaxFailed = 3"
definition backendMaxGroups :: nat where "backendMaxGroups = 256"
definition backendMaxMembers :: nat where "backendMaxMembers = 32"

definition splitBackends :: "string \<Rightarrow> string list" where
  "splitBackends list = filter (\<lambda>p. p \<noteq> []) (map TrimSpace (split_on backendSep list))"

definition firstBackend :: "string \<Rightarrow> string" where
  "firstBackend target = (case splitBackends target of b # _ \<Rightarrow> b | [] \<Rightarrow> target)"

text \<open>\<open>strings.Join\<close> with the separator.\<close>

fun join_backends :: "string list \<Rightarrow> string" where
  "join_backends [] = []"
| "join_backends [a] = a"
| "join_backends (a # as) = a @ backendSep # join_backends as"

text \<open>What \<open>backendPool.pick\<close> decides before it touches a group: a single address, or a list to balance over.\<close>

definition backend_list :: "string \<Rightarrow> string + string list" where
  "backend_list target =
     (if backendSep \<notin> set target then Inl target
      else let list = splitBackends target in
           if list = [] then Inl target
           else if length list = 1 then Inl (hd list)
           else Inr (if length list > backendMaxMembers then take backendMaxMembers list else list))"

section \<open>Definitions: a group\<close>

record backendGroup =
  g_list :: "string list"
  g_healthy :: "bool list"
  g_fails :: "nat list"
  g_next :: nat
  g_checking :: bool
  g_lastCheck :: instant
  g_lastUsed :: instant

definition new_group :: "string list \<Rightarrow> instant \<Rightarrow> backendGroup" where
  "new_group list now =
     \<lparr>g_list = list, g_healthy = replicate (length list) True, g_fails = replicate (length list) 0, g_next = 0,
      g_checking = False, g_lastCheck = zero_time, g_lastUsed = now\<rparr>"

definition touch :: "instant \<Rightarrow> backendGroup \<Rightarrow> backendGroup" where
  "touch now g = g\<lparr>g_lastUsed := now\<rparr>"

text \<open>\<open>pick\<close> after \<open>startCheck\<close>: at most one turn round the list for a healthy member, else the next one anyway.\<close>

fun pick_loop :: "nat \<Rightarrow> backendGroup \<Rightarrow> backendGroup \<times> string option" where
  "pick_loop 0 g = (g, None)"
| "pick_loop (Suc m) g =
     (let idx = g_next g mod length (g_list g); g' = g\<lparr>g_next := g_next g + 1\<rparr> in
      if g_healthy g' ! idx then (g', Some (g_list g' ! idx)) else pick_loop m g')"

definition pick_next :: "instant \<Rightarrow> backendGroup \<Rightarrow> backendGroup \<times> string" where
  "pick_next now g =
     (let g = g\<lparr>g_lastUsed := now\<rparr>; n = length (g_list g) in
      if n = 0 then (g, [])
      else case pick_loop n g of
             (g, Some a) \<Rightarrow> (g, a)
           | (g, None) \<Rightarrow> (g\<lparr>g_next := g_next g + 1\<rparr>, g_list g ! (g_next g mod n)))"

text \<open>\<open>startCheck\<close> up to the start of its goroutine, one probe of \<open>check\<close>, and the end of that goroutine.\<close>

definition startCheck :: "instant \<Rightarrow> backendGroup \<Rightarrow> backendGroup \<times> bool" where
  "startCheck now g =
     (if g_checking g \<or> now - g_lastCheck g < backendCheckInterval then (g, False)
      else (g\<lparr>g_checking := True, g_lastCheck := now\<rparr>, True))"

definition check_one :: "bool \<Rightarrow> nat \<Rightarrow> backendGroup \<Rightarrow> backendGroup" where
  "check_one ok i g =
     (if ok then g\<lparr>g_healthy := (g_healthy g)[i := True], g_fails := (g_fails g)[i := 0]\<rparr>
      else let fails = g_fails g ! i + 1; g = g\<lparr>g_fails := (g_fails g)[i := fails]\<rparr> in
           if fails \<ge> backendMaxFailed then g\<lparr>g_healthy := (g_healthy g)[i := False]\<rparr> else g)"

definition end_check :: "instant \<Rightarrow> backendGroup \<Rightarrow> backendGroup" where
  "end_check now g = g\<lparr>g_checking := False, g_lastCheck := now\<rparr>"

text \<open>A whole pass of \<open>check\<close>, given what every probe finds.\<close>

definition check_pass :: "bool list \<Rightarrow> backendGroup \<Rightarrow> backendGroup" where
  "check_pass oks g = fold (\<lambda>i. check_one (oks ! i) i) [0..<length (g_list g)] g"

section \<open>Definitions: the pool\<close>

text \<open>
  Groups are referred to by name from the map and by reference from the goroutines that use them, so the
  pool is a map of references with a store. The order in which Go walks a map is not specified and decides
  between groups used equally long ago; it is an argument.
\<close>

record backendPool =
  bp_groups :: "string \<rightharpoonup> nat"
  bp_store :: "nat \<rightharpoonup> backendGroup"

definition last_used :: "backendPool \<Rightarrow> string \<Rightarrow> instant" where
  "last_used p key =
     (case bp_groups p key of None \<Rightarrow> zero_time
      | Some r \<Rightarrow> (case bp_store p r of None \<Rightarrow> zero_time | Some g \<Rightarrow> g_lastUsed g))"

fun oldest_key :: "(string \<Rightarrow> instant) \<Rightarrow> string \<Rightarrow> instant \<Rightarrow> string list \<Rightarrow> string" where
  "oldest_key used oldestKey oldest [] = oldestKey"
| "oldest_key used oldestKey oldest (key # keys) =
     (if oldestKey = [] \<or> used key < oldest then oldest_key used key (used key) keys
      else oldest_key used oldestKey oldest keys)"

definition evictOldestLocked :: "string list \<Rightarrow> backendPool \<Rightarrow> backendPool" where
  "evictOldestLocked order p =
     p\<lparr>bp_groups := (bp_groups p)(oldest_key (last_used p) [] zero_time order := None)\<rparr>"

definition get_group :: "string list \<Rightarrow> instant \<Rightarrow> nat \<Rightarrow> string list \<Rightarrow> backendPool \<Rightarrow> backendPool \<times> nat" where
  "get_group order now fresh list p =
     (let key = join_backends list in
      case bp_groups p key of
        Some r \<Rightarrow> (p\<lparr>bp_store := (bp_store p)(r := map_option (touch now) (bp_store p r))\<rparr>, r)
      | None \<Rightarrow>
          let p = (if card (dom (bp_groups p)) \<ge> backendMaxGroups then evictOldestLocked order p else p) in
          (p\<lparr>bp_groups := (bp_groups p)(key \<mapsto> fresh), bp_store := (bp_store p)(fresh \<mapsto> new_group list now)\<rparr>, fresh))"

text \<open>
  Goroutines: a connection on its way through \<open>pick\<close>, and a check that has probed its first members. The
  trace \<open>bs_starts\<close> records when checks were started, newest first.
\<close>

datatype btask = Asked string | Grouped string nat | Choosing string nat | Chosen string string | Checking nat nat

record bstate =
  bs_pool :: backendPool
  bs_tasks :: "nat \<rightharpoonup> btask"
  bs_now :: instant
  bs_starts :: "(nat \<times> instant) list"

definition upd_group :: "nat \<Rightarrow> (backendGroup \<Rightarrow> backendGroup) \<Rightarrow> bstate \<Rightarrow> bstate" where
  "upd_group r f s = s\<lparr>bs_pool := (bs_pool s)\<lparr>bp_store := (bp_store (bs_pool s))(r := map_option f (bp_store (bs_pool s) r))\<rparr>\<rparr>"

definition upd_task :: "nat \<Rightarrow> btask option \<Rightarrow> bstate \<Rightarrow> bstate" where
  "upd_task i t s = s\<lparr>bs_tasks := (bs_tasks s)(i := t)\<rparr>"

inductive bstep :: "bstate \<Rightarrow> bstate \<Rightarrow> bool" where
  passes: "bs_now s \<le> now \<Longrightarrow> bstep s (s\<lparr>bs_now := now\<rparr>)"
| asked: "bs_tasks s i = None \<Longrightarrow> bstep s (upd_task i (Some (Asked target)) s)"
| single: "bs_tasks s i = Some (Asked target) \<Longrightarrow> backend_list target = Inl a \<Longrightarrow>
    bstep s (upd_task i (Some (Chosen target a)) s)"
| grouped: "bs_tasks s i = Some (Asked target) \<Longrightarrow> backend_list target = Inr list \<Longrightarrow>
    set order = dom (bp_groups (bs_pool s)) \<Longrightarrow> distinct order \<Longrightarrow> bp_store (bs_pool s) fresh = None \<Longrightarrow>
    get_group order (bs_now s) fresh list (bs_pool s) = (p, r) \<Longrightarrow>
    bstep s (upd_task i (Some (Grouped target r)) (s\<lparr>bs_pool := p\<rparr>))"
| no_check: "bs_tasks s i = Some (Grouped target r) \<Longrightarrow> bp_store (bs_pool s) r = Some g \<Longrightarrow>
    startCheck (bs_now s) g = (g', False) \<Longrightarrow>
    bstep s (upd_task i (Some (Choosing target r)) s)"
| check: "bs_tasks s i = Some (Grouped target r) \<Longrightarrow> bp_store (bs_pool s) r = Some g \<Longrightarrow>
    startCheck (bs_now s) g = (g', True) \<Longrightarrow> bs_tasks s j = None \<Longrightarrow>
    bstep s (upd_task j (Some (Checking r 0)) (upd_task i (Some (Choosing target r))
      (upd_group r (\<lambda>_. g') (s\<lparr>bs_starts := (r, bs_now s) # bs_starts s\<rparr>))))"
| choose: "bs_tasks s i = Some (Choosing target r) \<Longrightarrow> bp_store (bs_pool s) r = Some g \<Longrightarrow>
    pick_next (bs_now s) g = (g', a) \<Longrightarrow>
    bstep s (upd_task i (Some (Chosen target a)) (upd_group r (\<lambda>_. g') s))"
| probe: "bs_tasks s j = Some (Checking r k) \<Longrightarrow> bp_store (bs_pool s) r = Some g \<Longrightarrow> k < length (g_list g) \<Longrightarrow>
    bstep s (upd_task j (Some (Checking r (Suc k))) (upd_group r (check_one ok k) s))"
| checked: "bs_tasks s j = Some (Checking r k) \<Longrightarrow> bp_store (bs_pool s) r = Some g \<Longrightarrow> k = length (g_list g) \<Longrightarrow>
    bstep s (upd_task j None (upd_group r (end_check (bs_now s)) s))"
| leaves: "bs_tasks s i = Some (Chosen target a) \<Longrightarrow> bstep s (upd_task i None s)"

definition bs_init :: "instant \<Rightarrow> bstate" where
  "bs_init now = \<lparr>bs_pool = \<lparr>bp_groups = Map.empty, bp_store = Map.empty\<rparr>, bs_tasks = Map.empty, bs_now = now, bs_starts = []\<rparr>"

section \<open>Lemmas: the list\<close>

lemma trim_left_subset: "set (trim_left runes s) \<subseteq> set s"
proof (induction runes s rule: trim_left.induct)
  case (1 runes s)
  then show ?case by (subst trim_left.simps) (auto dest: in_set_dropD)
qed

lemma TrimSpace_subset: "set (TrimSpace s) \<subseteq> set s"
  using trim_left_subset[of "map rev space_runes" "rev (trim_left space_runes s)"] trim_left_subset[of space_runes s]
  by (auto simp: TrimSpace_def)

lemma split_on_parts: "p \<in> set (split_on x s) \<Longrightarrow> x \<notin> set p"
  by (induction s arbitrary: p) (auto split: list.splits if_splits)

lemma splitBackends_plain: "a \<in> set (splitBackends s) \<Longrightarrow> a \<noteq> [] \<and> backendSep \<notin> set a"
  using TrimSpace_subset split_on_parts unfolding splitBackends_def by fastforce

lemma split_join: "as \<noteq> [] \<Longrightarrow> (\<And>a. a \<in> set as \<Longrightarrow> backendSep \<notin> set a) \<Longrightarrow> split_on backendSep (join_backends as) = as"
  by (induction as rule: join_backends.induct) (auto simp: split_on_none split_on_append)

lemma backend_list_Inr:
  assumes "backend_list target = Inr list"
  shows "2 \<le> length list" "length list \<le> backendMaxMembers" "set list \<subseteq> set (splitBackends target)"
    "\<And>a. a \<in> set list \<Longrightarrow> a \<noteq> [] \<and> backendSep \<notin> set a"
proof -
  let ?l = "splitBackends target"
  have l: "list = (if length ?l > backendMaxMembers then take backendMaxMembers ?l else ?l)" "?l \<noteq> []" "length ?l \<noteq> 1"
    using assms by (auto simp: backend_list_def Let_def split: if_splits)
  have "2 \<le> length ?l" using l(2,3) by (cases ?l; cases "tl ?l") auto
  then show "2 \<le> length list" "length list \<le> backendMaxMembers" using l(1) by (auto simp: backendMaxMembers_def)
  show sub: "set list \<subseteq> set ?l" using l(1) by (auto dest: in_set_takeD)
  show "\<And>a. a \<in> set list \<Longrightarrow> a \<noteq> [] \<and> backendSep \<notin> set a" using sub splitBackends_plain by blast
qed

section \<open>Lemmas: round robin\<close>

text \<open>The members that are up, in the order the cursor meets them.\<close>

definition rota :: "nat \<Rightarrow> backendGroup \<Rightarrow> string list" where
  "rota k g = map (\<lambda>i. g_list g ! i) (filter (\<lambda>i. g_healthy g ! i) (rotate k [0..<length (g_list g)]))"

lemma rotate_head: "xs \<noteq> [] \<Longrightarrow> rotate k xs = xs ! (k mod length xs) # tl (rotate k xs)"
  by (metis hd_Cons_tl hd_rotate_conv_nth rotate_is_Nil_conv)

lemma rota_Suc:
  assumes "g_list g \<noteq> []"
  shows "rota (Suc k) g = (if g_healthy g ! (k mod length (g_list g)) then rotate1 (rota k g) else rota k g)"
    "g_healthy g ! (k mod length (g_list g)) \<Longrightarrow> rota k g \<noteq> [] \<and> hd (rota k g) = g_list g ! (k mod length (g_list g))"
proof -
  have "[0..<length (g_list g)] \<noteq> []" using assms by simp
  then obtain ys where ys: "rotate k [0..<length (g_list g)] = (k mod length (g_list g)) # ys"
    using rotate_head[of "[0..<length (g_list g)]" k] assms by fastforce
  show "rota (Suc k) g = (if g_healthy g ! (k mod length (g_list g)) then rotate1 (rota k g) else rota k g)"
    by (simp add: rota_def ys)
  show "g_healthy g ! (k mod length (g_list g)) \<Longrightarrow> rota k g \<noteq> [] \<and> hd (rota k g) = g_list g ! (k mod length (g_list g))"
    by (simp add: rota_def ys)
qed

lemma rota_next [simp]: "rota k (g\<lparr>g_next := n\<rparr>) = rota k g" "rota k (g\<lparr>g_lastUsed := t\<rparr>) = rota k g"
  by (simp_all add: rota_def)

text \<open>One pick: the first member up in cursor order, and the cursor moves so that it becomes the last.\<close>

definition next_up :: "nat \<Rightarrow> backendGroup \<Rightarrow> bool" where
  "next_up m g \<longleftrightarrow> (\<exists>d < m. g_healthy g ! ((g_next g + d) mod length (g_list g)))"

lemma next_up_skip:
  assumes "next_up (Suc m) g" "\<not> g_healthy g ! (g_next g mod length (g_list g))"
  shows "next_up m (g\<lparr>g_next := g_next g + 1\<rparr>)"
proof -
  obtain d where d: "d < Suc m" "g_healthy g ! ((g_next g + d) mod length (g_list g))" using assms(1) by (auto simp: next_up_def)
  then obtain e where "d = Suc e" using assms(2) by (cases d) auto
  then show ?thesis using d by (auto simp: next_up_def)
qed

lemma pick_loop_rota:
  assumes "g_list g \<noteq> []" "next_up m g"
  shows "\<exists>k. pick_loop m g = (g\<lparr>g_next := k\<rparr>, Some (hd (rota (g_next g) g))) \<and> rota (g_next g) g \<noteq> [] \<and>
    rota k g = rotate1 (rota (g_next g) g)"
  using assms
proof (induction m g rule: pick_loop.induct)
  case (1 g)
  then show ?case by (simp add: next_up_def)
next
  case (2 m g)
  show ?case
  proof (cases "g_healthy g ! (g_next g mod length (g_list g))")
    case True
    then show ?thesis using rota_Suc[OF 2(2), of "g_next g"] by (simp add: Let_def) (metis Suc_eq_plus1)
  next
    case False
    note IH = 2(1)[OF refl refl]
    show ?thesis using IH next_up_skip[OF 2(3) False] 2(2) False rota_Suc[OF 2(2), of "g_next g"] by (auto simp: Let_def)
  qed
qed

lemma next_up_all:
  assumes "i < length (g_list g)" "g_healthy g ! i"
  shows "next_up (length (g_list g)) g"
proof -
  let ?n = "length (g_list g)"
  let ?d = "(i + (?n - g_next g mod ?n)) mod ?n"
  have n: "0 < ?n" using assms(1) by (cases ?n) auto
  have "(g_next g + ?d) mod ?n = (g_next g mod ?n + (i + (?n - g_next g mod ?n))) mod ?n"
    by (metis mod_add_left_eq mod_add_right_eq)
  also have "g_next g mod ?n + (i + (?n - g_next g mod ?n)) = i + ?n" using mod_less_divisor[OF n, of "g_next g"] by arith
  also have "(i + ?n) mod ?n = i" using assms(1) by simp
  finally show ?thesis unfolding next_up_def using assms(2) mod_less_divisor[OF n] by metis
qed

lemma pick_next_rota:
  assumes "i < length (g_list g)" "g_healthy g ! i"
  shows "\<exists>k. pick_next now g = (g\<lparr>g_next := k, g_lastUsed := now\<rparr>, hd (rota (g_next g) g)) \<and> rota (g_next g) g \<noteq> [] \<and>
    rota k g = rotate1 (rota (g_next g) g)"
proof -
  let ?g = "g\<lparr>g_lastUsed := now\<rparr>"
  have ne: "g_list ?g \<noteq> []" using assms(1) by auto
  have up: "next_up (length (g_list ?g)) ?g" using next_up_all[of i ?g] assms by simp
  obtain k where "pick_loop (length (g_list ?g)) ?g = (?g\<lparr>g_next := k\<rparr>, Some (hd (rota (g_next ?g) ?g)))"
    "rota (g_next ?g) ?g \<noteq> []" "rota k ?g = rotate1 (rota (g_next ?g) ?g)"
    using pick_loop_rota[OF ne up] by blast
  then show ?thesis using ne by (intro exI[of _ k]) (simp add: pick_next_def Let_def)
qed

text \<open>Several picks of one group with nothing else happening to it.\<close>

fun pick_run :: "instant list \<Rightarrow> backendGroup \<Rightarrow> string list" where
  "pick_run [] g = []"
| "pick_run (t # ts) g = (let (g', a) = pick_next t g in a # pick_run ts g')"

section \<open>Lemmas: health\<close>

lemma check_one_frame [simp]:
  "g_list (check_one ok i g) = g_list g" "g_next (check_one ok i g) = g_next g" "g_checking (check_one ok i g) = g_checking g"
  "g_lastCheck (check_one ok i g) = g_lastCheck g" "length (g_healthy (check_one ok i g)) = length (g_healthy g)"
  "length (g_fails (check_one ok i g)) = length (g_fails g)" "g_lastUsed (check_one ok i g) = g_lastUsed g"
  by (simp_all add: check_one_def Let_def)

definition group_ok :: "backendGroup \<Rightarrow> bool" where
  "group_ok g \<longleftrightarrow> 2 \<le> length (g_list g) \<and> length (g_list g) \<le> backendMaxMembers \<and>
     length (g_healthy g) = length (g_list g) \<and> length (g_fails g) = length (g_list g) \<and>
     (\<forall>i < length (g_list g). g_healthy g ! i = (g_fails g ! i < backendMaxFailed))"

lemma check_one_ok: "group_ok g \<Longrightarrow> group_ok (check_one ok i g)"
  by (cases "i < length (g_list g)") (auto simp: group_ok_def check_one_def Let_def nth_list_update list_update_beyond backendMaxFailed_def)

lemma check_one_fails:
  assumes "group_ok g" "i < length (g_list g)" "j < length (g_list g)"
  shows "g_fails (check_one ok i g) ! j = (if j \<noteq> i then g_fails g ! j else if ok then 0 else Suc (g_fails g ! i))"
  using assms by (auto simp: group_ok_def check_one_def Let_def nth_list_update)

lemma check_prefix:
  assumes "group_ok g" "n \<le> length (g_list g)"
  shows "group_ok (fold (\<lambda>i. check_one (oks ! i) i) [0..<n] g) \<and> g_list (fold (\<lambda>i. check_one (oks ! i) i) [0..<n] g) = g_list g \<and>
    (\<forall>j < length (g_list g). g_fails (fold (\<lambda>i. check_one (oks ! i) i) [0..<n] g) ! j =
      (if j < n then if oks ! j then 0 else Suc (g_fails g ! j) else g_fails g ! j))"
  using assms(2)
proof (induction n)
  case 0
  then show ?case using assms(1) by simp
next
  case (Suc n)
  let ?g = "fold (\<lambda>i. check_one (oks ! i) i) [0..<n] g"
  have IH: "group_ok ?g" "g_list ?g = g_list g"
    "\<And>j. j < length (g_list g) \<Longrightarrow> g_fails ?g ! j = (if j < n then if oks ! j then 0 else Suc (g_fails g ! j) else g_fails g ! j)"
    using Suc by simp_all
  have n: "n < length (g_list ?g)" using Suc.prems IH(2) by simp
  have "g_fails (check_one (oks ! n) n ?g) ! j = (if j < Suc n then if oks ! j then 0 else Suc (g_fails g ! j) else g_fails g ! j)"
    if "j < length (g_list g)" for j
    using check_one_fails[OF IH(1) n, of j "oks ! n"] that IH(2,3) n by (auto simp: less_Suc_eq)
  then show ?case using IH(1,2) check_one_ok by simp
qed

lemma check_pass_effect:
  assumes "group_ok g"
  shows "group_ok (check_pass oks g)" "g_list (check_pass oks g) = g_list g"
    "\<And>j. j < length (g_list g) \<Longrightarrow> g_fails (check_pass oks g) ! j = (if oks ! j then 0 else Suc (g_fails g ! j))"
  using check_prefix[OF assms order_refl, of oks] by (simp_all add: check_pass_def)

lemma check_passes_fails:
  assumes "group_ok g" "i < length (g_list g)" "g_fails g ! i = 0"
  shows "group_ok (fold check_pass ps g) \<and> g_list (fold check_pass ps g) = g_list g \<and>
    g_fails (fold check_pass ps g) ! i = length (takeWhile Not (rev (map (\<lambda>p. p ! i) ps)))"
proof (induction ps rule: rev_induct)
  case (snoc p ps)
  then show ?case using check_pass_effect[where g = "fold check_pass ps g" and oks = p] assms(2) by auto
qed (use assms in simp)

lemma run_of_three: "3 \<le> length (takeWhile Not xs) \<longleftrightarrow> 3 \<le> length xs \<and> (\<forall>b \<in> set (take 3 xs). \<not> b)"
  by (cases xs; cases "tl xs"; cases "tl (tl xs)") (auto simp: numeral_3_eq_3)

lemma new_group_ok: "2 \<le> length list \<Longrightarrow> length list \<le> backendMaxMembers \<Longrightarrow> group_ok (new_group list now)"
  by (simp add: group_ok_def new_group_def backendMaxFailed_def)

section \<open>Lemmas: the pool\<close>

lemma oldest_key_least:
  assumes "[] \<notin> set keys" "k = oldest_key used o_key o_used keys" "o_key \<noteq> [] \<Longrightarrow> o_used = used o_key"
  shows "(if o_key = [] then keys = [] \<or> k \<in> set keys else k = o_key \<or> k \<in> set keys) \<and>
    (\<forall>q \<in> set keys \<union> (if o_key = [] then {} else {o_key}). used k \<le> used q)"
  using assms
proof (induction used o_key o_used keys rule: oldest_key.induct)
  case (1 used o_key o_used)
  then show ?case by simp
next
  case (2 used o_key o_used key keys)
  show ?case
  proof (cases "o_key = [] \<or> used key < o_used")
    case True
    then show ?thesis using 2(1)[OF True] 2(3-5) by (auto split: if_splits)
  next
    case False
    then show ?thesis using 2(2)[OF False] 2(3-5) by (auto split: if_splits)
  qed
qed

definition offered :: "string \<Rightarrow> string set" where
  "offered target = (case backend_list target of Inl a \<Rightarrow> {a} | Inr list \<Rightarrow> set list)"

definition pool_ok :: "backendPool \<Rightarrow> bool" where
  "pool_ok p \<longleftrightarrow> finite (dom (bp_groups p)) \<and> card (dom (bp_groups p)) \<le> backendMaxGroups \<and>
     (\<forall>k r. bp_groups p k = Some r \<longrightarrow> (\<exists>g. bp_store p r = Some g \<and> k = join_backends (g_list g))) \<and>
     (\<forall>r g. bp_store p r = Some g \<longrightarrow> group_ok g \<and> (\<forall>a \<in> set (g_list g). a \<noteq> [] \<and> backendSep \<notin> set a))"

definition keeps_groups :: "(nat \<rightharpoonup> backendGroup) \<Rightarrow> (nat \<rightharpoonup> backendGroup) \<Rightarrow> bool" where
  "keeps_groups st st' \<longleftrightarrow> (\<forall>r g. st r = Some g \<longrightarrow> (\<exists>g'. st' r = Some g' \<and> g_list g' = g_list g \<and>
     (g_checking g \<longrightarrow> g_checking g') \<and> g_lastCheck g \<le> g_lastCheck g'))"

lemma pool_ok_group:
  assumes "pool_ok p" "bp_store p r = Some g"
  shows "group_ok g" "g_list g \<noteq> []" "a \<in> set (g_list g) \<Longrightarrow> a \<noteq> [] \<and> backendSep \<notin> set a"
proof -
  have g: "group_ok g \<and> (\<forall>a \<in> set (g_list g). a \<noteq> [] \<and> backendSep \<notin> set a)" using assms unfolding pool_ok_def by blast
  then show "group_ok g" "a \<in> set (g_list g) \<Longrightarrow> a \<noteq> [] \<and> backendSep \<notin> set a" by simp_all
  show "g_list g \<noteq> []" using g by (auto simp: group_ok_def)
qed

lemma pool_ok_named:
  assumes "pool_ok p" "bp_groups p k = Some r"
  obtains g where "bp_store p r = Some g" "k = join_backends (g_list g)"
  using assms unfolding pool_ok_def by blast

lemma join_inj: 
  assumes "pool_ok p" "bp_store p r = Some g" "join_backends (g_list g) = join_backends list"
    "2 \<le> length list" "\<And>a. a \<in> set list \<Longrightarrow> a \<noteq> [] \<and> backendSep \<notin> set a"
  shows "g_list g = list"
proof -
  note pool_ok_group(2,3)[OF assms(1,2)]
  moreover have "list \<noteq> []" using assms(4) by auto
  ultimately show ?thesis using split_join[of "g_list g"] split_join[of list] assms(3,5) by metis
qed

lemma join_not_Nil: "as \<noteq> [] \<Longrightarrow> (\<And>a. a \<in> set as \<Longrightarrow> a \<noteq> []) \<Longrightarrow> join_backends as \<noteq> []"
  by (induction as rule: join_backends.induct) auto

lemma keys_named:
  assumes "pool_ok p"
  shows "bp_groups p [] = None"
proof (rule ccontr)
  assume "bp_groups p [] \<noteq> None"
  then obtain r where "bp_groups p [] = Some r" by blast
  then obtain g where g: "bp_store p r = Some g" "[] = join_backends (g_list g)" by (rule pool_ok_named[OF assms])
  then show False using join_not_Nil[of "g_list g"] pool_ok_group(2,3)[OF assms g(1)] by simp
qed

text \<open>The evicted group is one used longest ago, and its going makes room.\<close>

lemma evict_oldest:
  assumes "pool_ok p" "set order = dom (bp_groups p)" "bp_groups p \<noteq> Map.empty"
  obtains k where "k \<in> dom (bp_groups p)" "\<And>q. q \<in> dom (bp_groups p) \<Longrightarrow> last_used p k \<le> last_used p q"
    "evictOldestLocked order p = p\<lparr>bp_groups := (bp_groups p)(k := None)\<rparr>"
proof -
  have "[] \<notin> set order" "order \<noteq> []" using assms keys_named[OF assms(1)] by (auto simp: dom_def)
  moreover define k where "k = oldest_key (last_used p) [] zero_time order"
  ultimately have "k \<in> dom (bp_groups p)" "\<forall>q \<in> dom (bp_groups p). last_used p k \<le> last_used p q"
    using oldest_key_least[where keys = order and o_key = "[]" and used = "last_used p" and o_used = zero_time, OF _ k_def] assms(2) by simp_all
  then show thesis using that[of k] by (simp add: evictOldestLocked_def k_def)
qed

lemma pool_ok_store:
  assumes "pool_ok p" "bp_store p r = Some g" "group_ok g'" "g_list g' = g_list g"
  shows "pool_ok (p\<lparr>bp_store := (bp_store p)(r \<mapsto> g')\<rparr>)"
proof -
  have "\<exists>h. ((bp_store p)(r \<mapsto> g')) q = Some h \<and> k = join_backends (g_list h)" if "bp_groups p k = Some q" for k q
  proof -
    note q = that
    obtain h where "bp_store p q = Some h" "k = join_backends (g_list h)" by (rule pool_ok_named[OF assms(1) q])
    then show ?thesis using assms(2,4) by (cases "q = r") auto
  qed
  then show ?thesis using assms pool_ok_group(3)[OF assms(1,2)] unfolding pool_ok_def by simp
qed

lemma get_group_ok:
  assumes p: "pool_ok p" and l: "2 \<le> length list" "length list \<le> backendMaxMembers" "\<And>a. a \<in> set list \<Longrightarrow> a \<noteq> [] \<and> backendSep \<notin> set a"
    and o: "set order = dom (bp_groups p)" and f: "bp_store p fresh = None"
    and get: "get_group order now fresh list p = (p', r)"
  shows "pool_ok p' \<and> keeps_groups (bp_store p) (bp_store p') \<and> (\<exists>g. bp_store p' r = Some g \<and> g_list g = list)"
proof (cases "bp_groups p (join_backends list)")
  case (Some r0)
  then obtain g where g: "bp_store p r0 = Some g" "join_backends list = join_backends (g_list g)" by (rule pool_ok_named[OF p])
  have "g_list g = list" by (rule join_inj[OF p g(1) g(2)[symmetric] l(1,3)])
  moreover have "pool_ok (p\<lparr>bp_store := (bp_store p)(r0 \<mapsto> touch now g)\<rparr>)"
    by (rule pool_ok_store[OF p g(1)]) (use pool_ok_group(1)[OF p g(1)] in \<open>simp_all add: touch_def group_ok_def\<close>)
  moreover have "p' = p\<lparr>bp_store := (bp_store p)(r0 \<mapsto> touch now g)\<rparr>" "r = r0"
    using get Some g(1) by (auto simp: get_group_def)
  ultimately show ?thesis using g(1) by (auto simp: touch_def keeps_groups_def)
next
  case None
  define q where "q = (if card (dom (bp_groups p)) \<ge> backendMaxGroups then evictOldestLocked order p else p)"
  have q: "bp_store q = bp_store p" "dom (bp_groups q) \<subseteq> dom (bp_groups p)" "card (dom (bp_groups q)) < backendMaxGroups"
    "\<And>k r. bp_groups q k = Some r \<Longrightarrow> bp_groups p k = Some r"
  proof -
    have fin: "finite (dom (bp_groups p))" and le: "card (dom (bp_groups p)) \<le> backendMaxGroups" using p by (simp_all add: pool_ok_def)
    have "bp_store q = bp_store p \<and> dom (bp_groups q) \<subseteq> dom (bp_groups p) \<and> card (dom (bp_groups q)) < backendMaxGroups \<and>
      (\<forall>k r. bp_groups q k = Some r \<longrightarrow> bp_groups p k = Some r)"
    proof (cases "card (dom (bp_groups p)) \<ge> backendMaxGroups")
      case True
      then have "bp_groups p \<noteq> Map.empty" by (auto simp: backendMaxGroups_def)
      then obtain k where k: "k \<in> dom (bp_groups p)" "evictOldestLocked order p = p\<lparr>bp_groups := (bp_groups p)(k := None)\<rparr>"
        using evict_oldest[OF p o] by metis
      have "card (dom (bp_groups p) - {k}) < backendMaxGroups" using k(1) fin le card_Diff1_less[OF fin k(1)] by simp
      then show ?thesis using True k(2) by (simp add: q_def)
    qed (simp add: q_def)
    then show "bp_store q = bp_store p" "dom (bp_groups q) \<subseteq> dom (bp_groups p)" "card (dom (bp_groups q)) < backendMaxGroups"
      "\<And>k r. bp_groups q k = Some r \<Longrightarrow> bp_groups p k = Some r" by blast+
  qed
  have p': "p' = q\<lparr>bp_groups := (bp_groups q)(join_backends list \<mapsto> fresh), bp_store := (bp_store p)(fresh \<mapsto> new_group list now)\<rparr>" "r = fresh"
    using get None q(1) by (auto simp: get_group_def Let_def q_def)
  have new: "g_list (new_group list now) = list" "group_ok (new_group list now)" using new_group_ok[OF l(1,2)] by (simp_all add: new_group_def)
  have "pool_ok p'"
    unfolding pool_ok_def
  proof (intro conjI)
    have fin: "finite (dom (bp_groups q))" using q(2) p by (auto simp: pool_ok_def intro: finite_subset)
    then show "finite (dom (bp_groups p'))" by (simp add: p')
    show "card (dom (bp_groups p')) \<le> backendMaxGroups" using q(3) fin by (simp add: p' card_insert_if)
    show "\<forall>k r. bp_groups p' k = Some r \<longrightarrow> (\<exists>g. bp_store p' r = Some g \<and> k = join_backends (g_list g))"
    proof (intro allI impI)
      fix k r
      assume "bp_groups p' k = Some r"
      then have "(if k = join_backends list then Some fresh else bp_groups q k) = Some r" unfolding p'(1) by simp
      then have "k = join_backends list \<and> r = fresh \<or> bp_groups q k = Some r" by (metis option.inject)
      then consider "k = join_backends list" "r = fresh" | "bp_groups p k = Some r" using q(4)[of k r] by blast
      then show "\<exists>g. bp_store p' r = Some g \<and> k = join_backends (g_list g)"
      proof cases
        case 2
        then obtain g where "bp_store p r = Some g" "k = join_backends (g_list g)" by (rule pool_ok_named[OF p])
        then show ?thesis using f by (auto simp: p')
      qed (simp add: p' new(1))
    qed
    show "\<forall>r g. bp_store p' r = Some g \<longrightarrow> group_ok g \<and> (\<forall>a \<in> set (g_list g). a \<noteq> [] \<and> backendSep \<notin> set a)"
      using pool_ok_group[OF p] new l(3) by (auto simp: p')
  qed
  moreover have "keeps_groups (bp_store p) (bp_store p')" using f by (auto simp: keeps_groups_def p')
  ultimately show ?thesis using new by (simp add: p')
qed

section \<open>Lemmas: every interleaving\<close>

fun btask_ok :: "(nat \<rightharpoonup> backendGroup) \<Rightarrow> btask \<Rightarrow> bool" where
  "btask_ok st (Asked target) = True"
| "btask_ok st (Grouped target r) = (\<exists>g. st r = Some g \<and> backend_list target = Inr (g_list g))"
| "btask_ok st (Choosing target r) = (\<exists>g. st r = Some g \<and> backend_list target = Inr (g_list g))"
| "btask_ok st (Chosen target a) = (a \<in> offered target)"
| "btask_ok st (Checking r k) = (\<exists>g. st r = Some g \<and> g_checking g)"

definition one_check :: "(nat \<rightharpoonup> btask) \<Rightarrow> bool" where
  "one_check tasks \<longleftrightarrow> (\<forall>i j r k l. tasks i = Some (Checking r k) \<longrightarrow> tasks j = Some (Checking r l) \<longrightarrow> i = j)"

definition spaced :: "(nat \<times> instant) list \<Rightarrow> bool" where
  "spaced = sorted_wrt (\<lambda>(r, t) (q, u). q = r \<longrightarrow> u + backendCheckInterval \<le> t)"

definition starts_ok :: "(nat \<rightharpoonup> backendGroup) \<Rightarrow> instant \<Rightarrow> (nat \<times> instant) list \<Rightarrow> bool" where
  "starts_ok st now starts \<longleftrightarrow> spaced starts \<and>
     (\<forall>r t. (r, t) \<in> set starts \<longrightarrow> t \<le> now \<and> (\<exists>g. st r = Some g \<and> t \<le> g_lastCheck g))"

definition backends_ok :: "bstate \<Rightarrow> bool" where
  "backends_ok s \<longleftrightarrow> pool_ok (bs_pool s) \<and> (\<forall>t \<in> ran (bs_tasks s). btask_ok (bp_store (bs_pool s)) t) \<and>
     one_check (bs_tasks s) \<and> starts_ok (bp_store (bs_pool s)) (bs_now s) (bs_starts s)"


lemma btask_ok_keeps: "btask_ok st t \<Longrightarrow> keeps_groups st st' \<Longrightarrow> btask_ok st' t"
  by (cases t) (fastforce simp: keeps_groups_def)+

lemma keeps_groups_refl [simp]: "keeps_groups st st"
  by (simp add: keeps_groups_def)

lemma keeps_groups_upd:
  assumes "st r = Some g" "g_list g' = g_list g" "g_checking g \<longrightarrow> g_checking g'" "g_lastCheck g \<le> g_lastCheck g'"
  shows "keeps_groups st (st(r \<mapsto> g'))"
  using assms by (auto simp: keeps_groups_def)

lemma starts_ok_keeps:
  assumes "starts_ok st now starts" "keeps_groups st st'" "now \<le> now'"
  shows "starts_ok st' now' starts"
proof -
  have "t \<le> now' \<and> (\<exists>g. st' r = Some g \<and> t \<le> g_lastCheck g)" if "(r, t) \<in> set starts" for r t
  proof -
    have "t \<le> now \<and> (\<exists>g. st r = Some g \<and> t \<le> g_lastCheck g)" using that assms(1) unfolding starts_ok_def by blast
    then obtain g where "t \<le> now" "st r = Some g" "t \<le> g_lastCheck g" by blast
    moreover obtain g' where "st' r = Some g'" "g_lastCheck g \<le> g_lastCheck g'" using calculation(2) assms(2) by (auto simp: keeps_groups_def)
    ultimately show ?thesis using assms(3) by force
  qed
  then show ?thesis using assms(1) unfolding starts_ok_def by blast
qed

text \<open>A step that changes one task and groups only in what they count.\<close>

lemma backends_move:
  assumes ok: "backends_ok s" and p: "pool_ok p" and keeps: "keeps_groups (bp_store (bs_pool s)) (bp_store p)"
    and t: "\<And>u. x = Some u \<Longrightarrow> btask_ok (bp_store p) u"
    and c: "\<And>r k. x = Some (Checking r k) \<Longrightarrow> \<exists>l. bs_tasks s i = Some (Checking r l)"
  shows "backends_ok (upd_task i x (s\<lparr>bs_pool := p\<rparr>))"
proof -
  have "btask_ok (bp_store p) u" if "u \<in> ran ((bs_tasks s)(i := x))" for u
  proof -
    have "x = Some u \<or> u \<in> ran (bs_tasks s)" using that by (auto simp: ran_def split: if_splits)
    then show ?thesis using ok t btask_ok_keeps[OF _ keeps] by (auto simp: backends_ok_def)
  qed
  moreover have "one_check ((bs_tasks s)(i := x))"
    unfolding one_check_def
  proof (intro allI impI)
    fix a b r k l
    assume "((bs_tasks s)(i := x)) a = Some (Checking r k)" "((bs_tasks s)(i := x)) b = Some (Checking r l)"
    then have "\<exists>k. bs_tasks s a = Some (Checking r k)" "\<exists>l. bs_tasks s b = Some (Checking r l)" using c by (auto split: if_splits)
    then show "a = b" using ok unfolding backends_ok_def one_check_def by blast
  qed
  moreover have "starts_ok (bp_store p) (bs_now s) (bs_starts s)" using ok keeps by (auto simp: backends_ok_def intro: starts_ok_keeps)
  ultimately show ?thesis using p by (simp add: backends_ok_def upd_task_def)
qed

lemma upd_group_pool:
  assumes "bp_store (bs_pool s) r = Some g"
  shows "upd_group r f s = s\<lparr>bs_pool := (bs_pool s)\<lparr>bp_store := (bp_store (bs_pool s))(r \<mapsto> f g)\<rparr>\<rparr>"
  using assms by (simp add: upd_group_def)

lemma backends_move_group:
  assumes ok: "backends_ok s" and r: "bp_store (bs_pool s) r = Some g"
    and g: "group_ok (f g)" "g_list (f g) = g_list g" "g_checking g \<longrightarrow> g_checking (f g)" "g_lastCheck g \<le> g_lastCheck (f g)"
    and t: "\<And>u. x = Some u \<Longrightarrow> btask_ok ((bp_store (bs_pool s))(r \<mapsto> f g)) u"
    and c: "\<And>r k. x = Some (Checking r k) \<Longrightarrow> \<exists>l. bs_tasks s i = Some (Checking r l)"
  shows "backends_ok (upd_task i x (upd_group r f s))"
  unfolding upd_group_pool[OF r]
  by (rule backends_move[OF ok]) (use ok r g t c in \<open>auto simp: backends_ok_def intro: pool_ok_store keeps_groups_upd\<close>)

lemma backends_task: "backends_ok s \<Longrightarrow> bs_tasks s i = Some t \<Longrightarrow> btask_ok (bp_store (bs_pool s)) t"
  by (auto simp: backends_ok_def ran_def)

lemma backends_same:
  assumes "backends_ok s" "\<And>u. x = Some u \<Longrightarrow> btask_ok (bp_store (bs_pool s)) u \<and> (\<forall>r k. u \<noteq> Checking r k)"
  shows "backends_ok (upd_task i x s)"
proof -
  have "backends_ok (upd_task i x (s\<lparr>bs_pool := bs_pool s\<rparr>))"
    by (rule backends_move[OF assms(1)]) (use assms in \<open>auto simp: backends_ok_def[of s]\<close>)
  then show ?thesis by simp
qed

definition same_but_cursor :: "backendGroup \<Rightarrow> backendGroup \<Rightarrow> bool" where
  "same_but_cursor g h \<longleftrightarrow> g_list h = g_list g \<and> g_healthy h = g_healthy g \<and> g_fails h = g_fails g \<and>
     g_checking h = g_checking g \<and> g_lastCheck h = g_lastCheck g"

lemma pick_loop_frame:
  "same_but_cursor g (fst (pick_loop m g))"
  "snd (pick_loop m g) = Some a \<Longrightarrow> g_list g \<noteq> [] \<Longrightarrow> a \<in> set (g_list g)"
  by (induction m g rule: pick_loop.induct) (auto simp: Let_def same_but_cursor_def split: if_splits)

lemma pick_next_frame:
  assumes "pick_next now g = (g', a)"
  shows "same_but_cursor g g'" "g_list g \<noteq> [] \<Longrightarrow> a \<in> set (g_list g)"
proof -
  obtain h o' where h: "pick_loop (length (g_list g)) (g\<lparr>g_lastUsed := now\<rparr>) = (h, o')" by force
  note f = pick_loop_frame[where g = "g\<lparr>g_lastUsed := now\<rparr>" and m = "length (g_list g)", unfolded h, simplified]
  show "same_but_cursor g g'"
    using assms h f(1) by (cases "g_list g = []"; cases o') (auto simp: pick_next_def Let_def same_but_cursor_def)
  show "a \<in> set (g_list g)" if "g_list g \<noteq> []"
    using assms h that f by (cases o') (auto simp: pick_next_def Let_def same_but_cursor_def)
qed

lemma same_but_cursor_ok: "same_but_cursor g h \<Longrightarrow> group_ok g \<Longrightarrow> group_ok h"
  by (simp add: same_but_cursor_def group_ok_def)

lemma startCheck_effect:
  assumes "startCheck now g = (g', b)"
  shows "b \<longleftrightarrow> \<not> g_checking g \<and> g_lastCheck g + backendCheckInterval \<le> now"
    "g' = (if b then g\<lparr>g_checking := True, g_lastCheck := now\<rparr> else g)"
  using assms by (auto simp: startCheck_def split: if_splits)

lemma offered_single: "backend_list target = Inl a \<Longrightarrow> a \<in> offered target"
  by (simp add: offered_def)

lemma backends_store: "backends_ok s \<Longrightarrow> bp_store (bs_pool s) r = Some g \<Longrightarrow> group_ok g \<and> g_list g \<noteq> []"
  using pool_ok_group[of "bs_pool s" r g] by (simp add: backends_ok_def)

lemma backends_grouped:
  assumes ok: "backends_ok s" and i: "bs_tasks s i = Some (Asked target)" and l: "backend_list target = Inr list"
    and o: "set order = dom (bp_groups (bs_pool s))" and f: "bp_store (bs_pool s) fresh = None"
    and get: "get_group order (bs_now s) fresh list (bs_pool s) = (p, r)"
  shows "backends_ok (upd_task i (Some (Grouped target r)) (s\<lparr>bs_pool := p\<rparr>))"
proof -
  note b = backend_list_Inr[OF l]
  have p: "pool_ok (bs_pool s)" using ok by (simp add: backends_ok_def)
  note g = get_group_ok[OF p b(1,2,4) o f get]
  show ?thesis by (rule backends_move[OF ok]) (use g l in auto)
qed

lemma backends_check:
  assumes ok: "backends_ok s" and i: "bs_tasks s i = Some (Grouped target r)" and r: "bp_store (bs_pool s) r = Some g"
    and st: "startCheck (bs_now s) g = (g', True)" and j: "bs_tasks s j = None"
  shows "backends_ok (upd_task j (Some (Checking r 0)) (upd_task i (Some (Choosing target r))
      (upd_group r (\<lambda>_. g') (s\<lparr>bs_starts := (r, bs_now s) # bs_starts s\<rparr>))))"
proof -
  let ?st = "(bp_store (bs_pool s))(r \<mapsto> g')" and ?tasks = "(bs_tasks s)(i \<mapsto> Choosing target r, j \<mapsto> Checking r 0)"
  note eff = startCheck_effect[OF st, simplified]
  have gok: "group_ok g'" using backends_store[OF ok r] eff by (simp add: group_ok_def)
  have pool: "pool_ok ((bs_pool s)\<lparr>bp_store := ?st\<rparr>)" 
    using ok gok eff by (intro pool_ok_store[OF _ r]) (simp_all add: backends_ok_def)
  have interval: "0 < backendCheckInterval" by (simp add: backendCheckInterval_def second_def)
  have keeps: "keeps_groups (bp_store (bs_pool s)) ?st" using eff interval r by (intro keeps_groups_upd) auto
  have tasks: "btask_ok ?st u" if "u \<in> ran ?tasks" for u
  proof -
    have "u = Choosing target r \<or> u = Checking r 0 \<or> u \<in> ran (bs_tasks s)" using that by (auto simp: ran_def split: if_splits)
    moreover have "btask_ok ?st (Choosing target r)" using btask_ok_keeps[OF backends_task[OF ok i] keeps] by simp
    moreover have "btask_ok ?st (Checking r 0)" using eff by simp
    moreover have "u \<in> ran (bs_tasks s) \<Longrightarrow> btask_ok ?st u" using btask_ok_keeps[OF _ keeps] ok by (simp add: backends_ok_def)
    ultimately show ?thesis by blast
  qed
  have none: "bs_tasks s a \<noteq> Some (Checking r k)" for a k
    using backends_task[OF ok, of a "Checking r k"] r eff(1) by auto
  have "one_check ?tasks"
    unfolding one_check_def
  proof (intro allI impI)
    fix a b q k l
    assume ab: "?tasks a = Some (Checking q k)" "?tasks b = Some (Checking q l)"
    show "a = b"
    proof (cases "q = r")
      case True
      then show ?thesis using ab none by (auto split: if_splits)
    next
      case False
      then have "bs_tasks s a = Some (Checking q k)" "bs_tasks s b = Some (Checking q l)" using ab by (auto split: if_splits)
      then show ?thesis using ok unfolding backends_ok_def one_check_def by blast
    qed
  qed
  moreover have "starts_ok ?st (bs_now s) ((r, bs_now s) # bs_starts s)"
  proof -
    have old: "starts_ok (bp_store (bs_pool s)) (bs_now s) (bs_starts s)" using ok by (simp add: backends_ok_def)
    have late: "t + backendCheckInterval \<le> bs_now s" if "(r, t) \<in> set (bs_starts s)" for t
    proof -
      have "t \<le> g_lastCheck g" using that old r unfolding starts_ok_def by (metis option.inject)
      then show ?thesis using eff(1) by simp
    qed
    have "spaced ((r, bs_now s) # bs_starts s)"
      using old late by (auto simp: starts_ok_def spaced_def)
    then show ?thesis using starts_ok_keeps[OF old keeps order_refl] eff unfolding starts_ok_def by auto
  qed
  ultimately show ?thesis using pool tasks r by (simp add: backends_ok_def upd_task_def upd_group_def)
qed

lemma backends_checked:
  assumes ok: "backends_ok s" and j: "bs_tasks s j = Some (Checking r k)" and r: "bp_store (bs_pool s) r = Some g"
  shows "backends_ok (upd_task j None (upd_group r (end_check (bs_now s)) s))"
proof -
  let ?g = "end_check (bs_now s) g" and ?st = "(bp_store (bs_pool s))(r \<mapsto> end_check (bs_now s) g)"
  have eff: "g_list ?g = g_list g" "group_ok ?g" using backends_store[OF ok r] by (simp_all add: end_check_def group_ok_def)
  have pool: "pool_ok ((bs_pool s)\<lparr>bp_store := ?st\<rparr>)"
    using ok eff by (intro pool_ok_store[OF _ r]) (simp_all add: backends_ok_def)
  have only: "bs_tasks s a = Some (Checking r l) \<Longrightarrow> a = j" for a l
    using ok j unfolding backends_ok_def one_check_def by blast
  have "btask_ok ?st u" if "u \<in> ran ((bs_tasks s)(j := None))" for u
  proof -
    note u = that
    obtain a where "((bs_tasks s)(j := None)) a = Some u" using u unfolding ran_def by blast
    then have a: "bs_tasks s a = Some u" "a \<noteq> j" by (auto split: if_splits)
    show ?thesis using backends_task[OF ok a(1)] r eff(1) only[of a] a by (cases u) auto
  qed
  moreover have "one_check ((bs_tasks s)(j := None))" using ok unfolding backends_ok_def one_check_def by (auto split: if_splits)
  moreover have "starts_ok ?st (bs_now s) (bs_starts s)"
  proof -
    have old: "starts_ok (bp_store (bs_pool s)) (bs_now s) (bs_starts s)" using ok by (simp add: backends_ok_def)
    have "t \<le> bs_now s \<and> (\<exists>h. ?st q = Some h \<and> t \<le> g_lastCheck h)" if "(q, t) \<in> set (bs_starts s)" for q t
      using that old unfolding starts_ok_def by (cases "q = r") (auto simp: end_check_def)
    then show ?thesis using old unfolding starts_ok_def by blast
  qed
  ultimately show ?thesis using pool r by (simp add: backends_ok_def upd_task_def upd_group_def)
qed

lemma backends_step: "bstep s s' \<Longrightarrow> backends_ok s \<Longrightarrow> backends_ok s'"
proof (induction rule: bstep.induct)
  case (passes s now)
  then show ?case by (auto simp: backends_ok_def intro: starts_ok_keeps)
next
  case (grouped s i target list order fresh p r)
  show ?case by (rule backends_grouped) fact+
next
  case (check s i target r g g' j)
  show ?case by (rule backends_check) fact+
next
  case (checked s j r k g)
  show ?case by (rule backends_checked) fact+
next
  case (no_check s i target r g g')
  show ?case by (rule backends_same) (use backends_task[OF no_check(4,1)] no_check in auto)
next
  case (choose s i target r g g' a)
  note f = pick_next_frame[OF choose(3)] and ok = backends_store[OF choose(4,2)]
  have "a \<in> offered target" using f(2) ok backends_task[OF choose(4,1)] choose(2) by (auto simp: offered_def)
  then show ?case
    by (intro backends_move_group[OF choose(4,2)]) (use f ok same_but_cursor_ok in \<open>auto simp: same_but_cursor_def\<close>)
next
  case (probe s j r k g ok)
  show ?case
    by (rule backends_move_group[OF probe(4,2)]) (use probe backends_store check_one_ok backends_task[OF probe(4,1)] in auto)
qed (auto intro!: backends_same offered_single)

lemma backends_run: "bstep\<^sup>*\<^sup>* s s' \<Longrightarrow> backends_ok s \<Longrightarrow> backends_ok s'"
  by (induction rule: rtranclp_induct) (auto intro: backends_step)

lemma bs_init_ok: "backends_ok (bs_init now)"
  by (simp add: backends_ok_def bs_init_def pool_ok_def one_check_def starts_ok_def spaced_def)

section \<open>Properties\<close>

text \<open>Whatever targets arrive over the tunnel and however the goroutines interleave: there are never more
  than 256 groups, each with 2 to 32 members and filed under its own list; the address a connection is given
  is one its target lists (or the target itself when it lists none); and a group is probed by one goroutine at a time,
  passes over it starting at least ten seconds apart.\<close>
theorem backend_pool_bounded:
  assumes "bstep\<^sup>*\<^sup>* (bs_init now) s"
  shows "card (dom (bp_groups (bs_pool s))) \<le> 256 \<and>
    (\<forall>key r. bp_groups (bs_pool s) key = Some r \<longrightarrow> (\<exists>g. bp_store (bs_pool s) r = Some g \<and>
      2 \<le> length (g_list g) \<and> length (g_list g) \<le> 32 \<and> split_on backendSep key = g_list g)) \<and>
    (\<forall>i target a. bs_tasks s i = Some (Chosen target a) \<longrightarrow> a = target \<or> a \<in> set (splitBackends target)) \<and>
    (\<forall>i j r k l. bs_tasks s i = Some (Checking r k) \<and> bs_tasks s j = Some (Checking r l) \<longrightarrow> i = j) \<and>
    (\<forall>i j r t u. i < j \<and> j < length (bs_starts s) \<and> bs_starts s ! i = (r, t) \<and> bs_starts s ! j = (r, u) \<longrightarrow> u + 10 * second \<le> t)"
proof (intro conjI allI impI)
  have ok: "backends_ok s" by (rule backends_run[OF assms bs_init_ok])
  then have p: "pool_ok (bs_pool s)" by (simp add: backends_ok_def)
  then show "card (dom (bp_groups (bs_pool s))) \<le> 256" by (simp add: pool_ok_def backendMaxGroups_def)
  show "\<exists>g. bp_store (bs_pool s) r = Some g \<and> 2 \<le> length (g_list g) \<and> length (g_list g) \<le> 32 \<and> split_on backendSep key = g_list g"
    if k: "bp_groups (bs_pool s) key = Some r" for key r
  proof -
    obtain g where g: "bp_store (bs_pool s) r = Some g" "key = join_backends (g_list g)" by (rule pool_ok_named[OF p k])
    then show ?thesis using pool_ok_group[OF p g(1)] split_join[of "g_list g"] by (auto simp: group_ok_def backendMaxMembers_def)
  qed
  show "a = target \<or> a \<in> set (splitBackends target)" if t: "bs_tasks s i = Some (Chosen target a)" for i target a
  proof (cases "backend_list target")
    case (Inl b)
    then show ?thesis using backends_task[OF ok t] by (auto simp: offered_def backend_list_def Let_def split: if_splits)
  next
    case (Inr list)
    then show ?thesis using backends_task[OF ok t] backend_list_Inr(3)[OF Inr] by (auto simp: offered_def)
  qed
  show "i = j" if "bs_tasks s i = Some (Checking r k) \<and> bs_tasks s j = Some (Checking r l)" for i j r k l
    using ok that unfolding backends_ok_def one_check_def by blast
  show "u + 10 * second \<le> t"
    if "i < j \<and> j < length (bs_starts s) \<and> bs_starts s ! i = (r, t) \<and> bs_starts s ! j = (r, u)" for i j r t u
    using sorted_wrt_nth_less[of _ "bs_starts s" i j] ok that
    by (fastforce simp: backends_ok_def starts_ok_def spaced_def backendCheckInterval_def)
qed

theorem backend_pool_bounded_witness:
  "\<exists>s. bstep\<^sup>*\<^sup>* (bs_init 0) s \<and> card (dom (bp_groups (bs_pool s))) \<le> 256 \<and> bs_tasks s 0 = Some (Chosen ''a:1| a:2'' ''a:1'')"
proof -
  let ?t = "''a:1| a:2''" and ?g = "new_group [''a:1'', ''a:2''] 0"
  let ?p = "\<lparr>bp_groups = Map.empty(''a:1|a:2'' \<mapsto> 0), bp_store = Map.empty(0 \<mapsto> ?g)\<rparr>"
  define s1 where "s1 = upd_task 0 (Some (Asked ?t)) (bs_init 0)"
  define s2 where "s2 = upd_task 0 (Some (Grouped ?t 0)) (s1\<lparr>bs_pool := ?p\<rparr>)"
  define s3 where "s3 = upd_task 1 (Some (Checking 0 0)) (upd_task 0 (Some (Choosing ?t 0))
    (upd_group 0 (\<lambda>_. ?g\<lparr>g_checking := True, g_lastCheck := 0\<rparr>) (s2\<lparr>bs_starts := (0, bs_now s2) # bs_starts s2\<rparr>)))"
  define s4 where "s4 = upd_task 0 (Some (Chosen ?t ''a:1'')) (upd_group 0 (\<lambda>_. ?g\<lparr>g_checking := True, g_lastCheck := 0, g_next := 1\<rparr>) s3)"
  note defs = s1_def s2_def s3_def s4_def bs_init_def upd_task_def upd_group_def
  have l: "backend_list ?t = Inr [''a:1'', ''a:2'']" by code_simp
  have "bstep (bs_init 0) s1" unfolding s1_def by (rule bstep.asked) (simp add: bs_init_def)
  moreover have "bstep s1 s2" unfolding s2_def
    by (rule bstep.grouped[where order = "[]" and fresh = 0, OF _ l]) (simp_all add: defs get_group_def backendSep_def backendMaxGroups_def)
  moreover have "bstep s2 s3" unfolding s3_def
    by (rule bstep.check[where g = ?g]) (simp_all add: defs startCheck_def new_group_def zero_time_def backendCheckInterval_def second_def)
  moreover have "bstep s3 s4" unfolding s4_def
    by (rule bstep.choose[where g = "?g\<lparr>g_checking := True, g_lastCheck := 0\<rparr>"]) (simp_all add: defs pick_next_def new_group_def Let_def)
  ultimately have r: "bstep\<^sup>*\<^sup>* (bs_init 0) s4" by (meson rtranclp.rtrancl_into_rtrancl rtranclp.rtrancl_refl)
  then show ?thesis using backend_pool_bounded[OF r] by (intro exI[of _ s4]) (simp add: s4_def upd_task_def)
qed

text \<open>While nothing is probed, successive connections take the members that are up in turn: pick \<open>j\<close> goes to
  the member at \<open>j\<close> modulo their number in one fixed order of them, each member being there once, and a
  member that is down is never chosen.\<close>
theorem backends_round_robin:
  assumes "distinct (g_list g)" "i < length (g_list g)" "g_healthy g ! i" "length (g_healthy g) = length (g_list g)"
  shows "\<exists>ups. distinct ups \<and> set ups = {g_list g ! k | k. k < length (g_list g) \<and> g_healthy g ! k} \<and>
    (\<forall>j < length ts. pick_run ts g ! j = ups ! (j mod length ups))"
proof -
  have "length (pick_run ts g) = length ts \<and> rota (g_next g) g \<noteq> [] \<and>
      (\<forall>j < length ts. pick_run ts g ! j = rota (g_next g) g ! (j mod length (rota (g_next g) g)))"
    if "i < length (g_list g)" "g_healthy g ! i" for g
    using that
  proof (induction ts arbitrary: g)
    case Nil
    then show ?case using pick_next_rota[OF Nil, of 0] by auto
  next
    case (Cons t ts)
    obtain k where k: "pick_next t g = (g\<lparr>g_next := k, g_lastUsed := t\<rparr>, hd (rota (g_next g) g))" "rota (g_next g) g \<noteq> []"
      "rota k g = rotate1 (rota (g_next g) g)"
      using pick_next_rota[OF Cons.prems, of t] by blast
    let ?g = "g\<lparr>g_next := k, g_lastUsed := t\<rparr>" and ?u = "rota (g_next g) g"
    have IH: "length (pick_run ts ?g) = length ts" "j < length ts \<Longrightarrow> pick_run ts ?g ! j = rotate1 ?u ! (j mod length ?u)" for j
      using Cons.IH[of ?g] Cons.prems k(3) by simp_all
    have "pick_run (t # ts) g ! j = ?u ! (j mod length ?u)" if "j < Suc (length ts)" for j
    proof (cases j)
      case 0
      then show ?thesis using k by (simp add: hd_conv_nth)
    next
      case (Suc m)
      have "rotate1 ?u ! (m mod length ?u) = ?u ! (Suc (m mod length ?u) mod length ?u)" using k(2) by (simp add: nth_rotate1)
      then show ?thesis using Suc that k IH(2)[of m] by (simp add: mod_Suc_eq)
    qed
    then show ?case using k IH(1) by simp
  qed
  note run = this[OF assms(2,3)]
  have "distinct (rota (g_next g) g)"
    using assms(1) by (auto simp: rota_def distinct_map inj_on_def nth_eq_iff_index_eq)
  moreover have "set (rota (g_next g) g) = {g_list g ! k | k. k < length (g_list g) \<and> g_healthy g ! k}"
    by (auto simp: rota_def)
  ultimately show ?thesis using run by blast
qed

theorem backends_round_robin_witness:
  "\<exists>ups. distinct ups \<and> set ups = {''b'', ''c''} \<and>
     (\<forall>j < 3. pick_run [1, 2, 3] (check_one False 0 ((new_group [''a'', ''b'', ''c''] 0)\<lparr>g_fails := [2, 0, 0]\<rparr>)) ! j = ups ! (j mod length ups))"
proof -
  let ?g = "check_one False 0 ((new_group [''a'', ''b'', ''c''] 0)\<lparr>g_fails := [2, 0, 0]\<rparr>)"
  have g: "g_list ?g = [''a'', ''b'', ''c'']" "g_healthy ?g = [False, True, True]"
    by (simp_all add: check_one_def new_group_def backendMaxFailed_def)
  have "{[''a'', ''b'', ''c''] ! k | k. k < 3 \<and> [False, True, True] ! k} = {''b'', ''c''}"
    by (auto simp: less_Suc_eq numeral_3_eq_3 intro: exI[of _ "Suc 0"] exI[of _ "Suc (Suc 0)"])
  moreover have "length [1 :: instant, 2, 3] = 3" "length [''a'', ''b'', ''c''] = 3" "length [False, True, True] = 3" by simp_all
  ultimately show ?thesis using backends_round_robin[of ?g 1 "[1, 2, 3]", unfolded g]
    by (simp del: pick_run.simps list.size)
qed



end
