(* ===== verification/ConnPool.thy ===== *)
theory ConnPool
  imports Complex_Main Prelude
begin

text \<open>
  The client's connection pool: how reconnects are paced (\<open>src/internal/client/transport/backoff.go\<close>), how
  throughput is measured and judged (\<open>poolload.go\<close>), the loop that sizes the pool (\<open>poolmaintain.go\<close>)
  and the handling of a request for a connection that answers it (\<open>channelHandler\<close> of \<open>tcp.go\<close>). Floating
  point is modelled by rational numbers; random numbers, the byte counters and the clock are arguments.
\<close>

section \<open>Definitions: pacing\<close>

record backoff =
  bo_min :: duration
  bo_max :: duration
  bo_attempt :: nat

definition newBackoff :: "duration \<Rightarrow> backoff" where
  "newBackoff interval =
     (let interval = (if interval \<le> 0 then second else interval);
          mx = 30 * second;
          mx = (if interval > mx then interval else mx)
      in \<lparr>bo_min = interval, bo_max = mx, bo_attempt = 0\<rparr>)"

text \<open>\<open>duration\<close> with the number \<open>r\<close> that \<open>rand.Float64\<close> gives.\<close>

definition backoff_duration :: "rat \<Rightarrow> backoff \<Rightarrow> duration" where
  "backoff_duration r b =
     (let d = rat_of_int (bo_min b) * 2 ^ bo_attempt b;
          d = (if d > rat_of_int (bo_max b) then rat_of_int (bo_max b) else d);
          d = d + d * (2 / 10) * (r * 2 - 1);
          d = (if d < rat_of_int (bo_min b) then rat_of_int (bo_min b) else d)
      in \<lfloor>d\<rfloor>)"

text \<open>\<open>Wait\<close> that was not cancelled: how long it sleeps, and the state after.\<close>

definition backoff_Wait :: "rat \<Rightarrow> backoff \<Rightarrow> duration \<times> backoff" where
  "backoff_Wait r b = (backoff_duration r b, b\<lparr>bo_attempt := bo_attempt b + 1\<rparr>)"

fun wait_run :: "rat list \<Rightarrow> backoff \<Rightarrow> duration list" where
  "wait_run [] b = []"
| "wait_run (r # rs) b = (let (d, b') = backoff_Wait r b in d # wait_run rs b')"

section \<open>Definitions: throughput\<close>

definition poolScaleMbpsPerConn :: int where "poolScaleMbpsPerConn = 12"
definition poolGrowthLimit :: int where "poolGrowthLimit = 4"

record poolLoad =
  pl_lastIn :: u64
  pl_lastOut :: u64
  pl_lastAt :: instant

definition mbps :: "u64 \<Rightarrow> u64 \<Rightarrow> instant \<Rightarrow> poolLoad \<Rightarrow> poolLoad \<times> int" where
  "mbps inb outb now p =
     (let p' = \<lparr>pl_lastIn = inb, pl_lastOut = outb, pl_lastAt = now\<rparr> in
      if is_zero_time (pl_lastAt p) \<or> inb < pl_lastIn p \<or> outb < pl_lastOut p then (p', 0)
      else let secs = rat_of_int (now - pl_lastAt p) / rat_of_int second in
           if secs \<le> 0 then (p', 0)
           else let bits = rat_of_nat (unat ((inb - pl_lastIn p) + (outb - pl_lastOut p))) * 8
                in (p', \<lfloor>bits / secs / 1000000\<rfloor>))"

definition poolCanGrow :: "int \<Rightarrow> int \<Rightarrow> bool" where
  "poolCanGrow poolSize configuredSize \<longleftrightarrow> \<not> configuredSize \<le> 0 \<and> poolSize < configuredSize * poolGrowthLimit"

definition wantsMore :: "int \<Rightarrow> int \<Rightarrow> int \<Rightarrow> int \<Rightarrow> bool" where
  "wantsMore mb liveConns poolSize configuredSize \<longleftrightarrow>
     \<not> (mb \<le> 0 \<or> liveConns \<le> 0) \<and> poolCanGrow poolSize configuredSize \<and> mb sdiv liveConns \<ge> poolScaleMbpsPerConn"

section \<open>Definitions: sizing\<close>

record poolSizer =
  sz_size :: int
  sz_aggressive :: bool

text \<open>
  The loop's variables, with the counter \<open>taken\<close> it shares with \<open>channelHandler\<close>, the retirements waiting in
  the channel \<open>shrink\<close>, and whether the loop is blocked sending one. The counts \<open>ps_dialled\<close> and \<open>ps_asked\<close>
  are a trace: dials started so far, and connections the server has asked for.
\<close>

record poolState =
  ps_newPoolSize :: int
  ps_openSum :: int
  ps_taken :: int
  ps_load :: poolLoad
  ps_shrink :: nat
  ps_blocked :: bool
  ps_dialled :: nat
  ps_asked :: nat

definition controlFlowCap :: nat where "controlFlowCap = 100"

definition pool_factors :: "bool \<Rightarrow> int \<times> int \<times> int \<times> rat" where
  "pool_factors aggressive = (if aggressive then (1, 2, 0, 75 / 100) else (4, 5, 3, 4))"

definition pool_start :: "poolSizer \<Rightarrow> poolState" where
  "pool_start p =
     \<lparr>ps_newPoolSize = sz_size p, ps_openSum = 0, ps_taken = 0,
      ps_load = \<lparr>pl_lastIn = 0, pl_lastOut = 0, pl_lastAt = zero_time\<rparr>,
      ps_shrink = 0, ps_blocked = False, ps_dialled = nat (sz_size p), ps_asked = 0\<rparr>"

text \<open>The ticker of one second, with the connections that are open then.\<close>

definition pool_tick :: "int \<Rightarrow> poolState \<Rightarrow> poolState" where
  "pool_tick open_now s = s\<lparr>ps_openSum := ps_openSum s + open_now\<rparr>"

text \<open>The ticker of ten seconds, with the byte counters and the clock.\<close>

definition load_tick :: "poolSizer \<Rightarrow> u64 \<Rightarrow> u64 \<Rightarrow> instant \<Rightarrow> poolState \<Rightarrow> poolState" where
  "load_tick p inb outb now s =
     (let (a, b, x, y) = pool_factors (sz_aggressive p);
          taken = (ps_taken s + 9) sdiv 10;
          openAvg = (ps_openSum s + 9) sdiv 10;
          (load, mb) = mbps inb outb now (ps_load s);
          n = ps_newPoolSize s;
          s = s\<lparr>ps_taken := 0, ps_openSum := 0, ps_load := load\<rparr>;
          grow = (taken + a > openAvg * b \<and> poolCanGrow n (sz_size p)) \<or> wantsMore mb openAvg n (sz_size p)
      in if grow then s\<lparr>ps_newPoolSize := n + 1, ps_dialled := ps_dialled s + 1\<rparr>
         else if rat_of_int (taken + x) < rat_of_int openAvg * y \<and> n > sz_size p
         then (let s = s\<lparr>ps_newPoolSize := n - 1\<rparr> in
               if ps_shrink s < controlFlowCap then s\<lparr>ps_shrink := ps_shrink s + 1\<rparr> else s\<lparr>ps_blocked := True\<rparr>)
         else s)"

text \<open>\<open>SG_Chan\<close>: the server asks for a connection. A waiting retirement answers it instead of a dial; taking
  one out of a full channel lets a blocked sender put its own in.\<close>

definition chan_asked :: "poolState \<Rightarrow> poolState" where
  "chan_asked s =
     (let s = s\<lparr>ps_taken := ps_taken s + 1, ps_asked := ps_asked s + 1\<rparr> in
      if 0 < ps_shrink s
      then if ps_blocked s then s\<lparr>ps_blocked := False\<rparr> else s\<lparr>ps_shrink := ps_shrink s - 1\<rparr>
      else s\<lparr>ps_dialled := ps_dialled s + 1\<rparr>)"

datatype pool_event = Second int | TenSeconds u64 u64 instant | Chan

text \<open>While the loop is blocked its tickers wait.\<close>

fun pool_step :: "poolSizer \<Rightarrow> pool_event \<Rightarrow> poolState \<Rightarrow> poolState" where
  "pool_step p (Second n) s = (if ps_blocked s then s else pool_tick n s)"
| "pool_step p (TenSeconds i out now) s = (if ps_blocked s then s else load_tick p i out now s)"
| "pool_step p Chan s = chan_asked s"

section \<open>Lemmas\<close>

lemma newBackoff_bounds:
  "0 < bo_min (newBackoff i)" "bo_min (newBackoff i) \<le> bo_max (newBackoff i)" "bo_attempt (newBackoff i) = 0"
  by (simp_all add: newBackoff_def Let_def second_def)

text \<open>The uncapped and the capped gap before jitter.\<close>

definition plain_gap :: "backoff \<Rightarrow> rat" where
  "plain_gap b = min (rat_of_int (bo_min b) * 2 ^ bo_attempt b) (rat_of_int (bo_max b))"

lemma backoff_duration_bounds:
  assumes "0 < bo_min b" "bo_min b \<le> bo_max b" "0 \<le> r" "r < 1"
  shows "bo_min b \<le> backoff_duration r b" "5 * backoff_duration r b \<le> 6 * bo_max b"
    "8 / 10 * plain_gap b - 1 < rat_of_int (backoff_duration r b)"
proof -
  define g where "g = plain_gap b"
  have g: "(if rat_of_int (bo_min b) * 2 ^ bo_attempt b > rat_of_int (bo_max b) then rat_of_int (bo_max b)
      else rat_of_int (bo_min b) * 2 ^ bo_attempt b) = g"
    by (simp add: g_def plain_gap_def min_def)
  have m: "rat_of_int (bo_min b) \<le> rat_of_int (bo_max b)" "0 < rat_of_int (bo_min b)" using assms(1,2) by simp_all
  have "rat_of_int (bo_min b) * 1 \<le> rat_of_int (bo_min b) * 2 ^ bo_attempt b"
    using m(2) by (intro mult_left_mono) (simp_all add: one_le_power)
  then have b: "rat_of_int (bo_min b) \<le> g" "g \<le> rat_of_int (bo_max b)" "0 < g" using m by (auto simp: g_def plain_gap_def)
  define d where "d = g + g * (2 / 10) * (r * 2 - 1)"
  have "g * (2 / 10) * (r * 2 - 1) \<le> g * (2 / 10) * 1" "g * (2 / 10) * (- 1) \<le> g * (2 / 10) * (r * 2 - 1)"
    using b(3) assms(3,4) by (intro mult_left_mono; simp)+
  then have d: "d \<le> 12 / 10 * g" "8 / 10 * g \<le> d" by (simp_all add: d_def)
  have e: "backoff_duration r b = \<lfloor>max d (rat_of_int (bo_min b))\<rfloor>"
    by (simp add: backoff_duration_def Let_def g[symmetric] d_def max_def not_less)
  show "bo_min b \<le> backoff_duration r b" unfolding e by (simp add: le_floor_iff)
  have "rat_of_int (backoff_duration r b) \<le> max d (rat_of_int (bo_min b))" unfolding e by (rule of_int_floor_le)
  then have "rat_of_int (5 * backoff_duration r b) \<le> rat_of_int (6 * bo_max b)" using d b m by simp
  then show "5 * backoff_duration r b \<le> 6 * bo_max b" by (simp only: of_int_le_iff)
  have "max d (rat_of_int (bo_min b)) < rat_of_int (backoff_duration r b) + 1" unfolding e by linarith
  then show "8 / 10 * plain_gap b - 1 < rat_of_int (backoff_duration r b)" using d unfolding g_def by simp
qed

lemma wait_run_nth:
  "n < length rs \<Longrightarrow> wait_run rs b ! n = backoff_duration (rs ! n) (b\<lparr>bo_attempt := bo_attempt b + n\<rparr>)"
proof (induction rs arbitrary: b n)
  case (Cons r rs)
  then show ?case by (cases n) (simp_all add: backoff_Wait_def)
qed simp

text \<open>What a load tick can do to the pool.\<close>

lemma load_tick_cases:
  obtains (grow) "ps_newPoolSize (load_tick p i out now s) = ps_newPoolSize s + 1"
      "ps_dialled (load_tick p i out now s) = ps_dialled s + 1" "ps_shrink (load_tick p i out now s) = ps_shrink s"
      "ps_blocked (load_tick p i out now s) = ps_blocked s" "poolCanGrow (ps_newPoolSize s) (sz_size p)"
  | (shrink) "ps_newPoolSize (load_tick p i out now s) = ps_newPoolSize s - 1" "sz_size p < ps_newPoolSize s"
      "ps_dialled (load_tick p i out now s) = ps_dialled s"
      "if ps_shrink s < controlFlowCap
       then ps_shrink (load_tick p i out now s) = ps_shrink s + 1 \<and> ps_blocked (load_tick p i out now s) = ps_blocked s
       else ps_shrink (load_tick p i out now s) = ps_shrink s \<and> ps_blocked (load_tick p i out now s)"
  | (stay) "ps_newPoolSize (load_tick p i out now s) = ps_newPoolSize s" "ps_dialled (load_tick p i out now s) = ps_dialled s"
      "ps_shrink (load_tick p i out now s) = ps_shrink s" "ps_blocked (load_tick p i out now s) = ps_blocked s"
proof -
  obtain a b x y where f: "pool_factors (sz_aggressive p) = (a, b, x, y)" by (cases "pool_factors (sz_aggressive p)")
  obtain l mb where m: "mbps i out now (ps_load s) = (l, mb)" by force
  define t where "t = (ps_taken s + 9) sdiv 10"
  define g where "g \<longleftrightarrow> t + a > (ps_openSum s + 9) sdiv 10 * b \<and> poolCanGrow (ps_newPoolSize s) (sz_size p) \<or>
    wantsMore mb ((ps_openSum s + 9) sdiv 10) (ps_newPoolSize s) (sz_size p)"
  note e = load_tick_def[of p i out now s, unfolded f m, simplified Let_def prod.case, folded t_def, folded g_def]
  show thesis
  proof (cases g)
    case True
    then show ?thesis by (intro grow) (auto simp: e g_def wantsMore_def)
  next
    case False
    then show ?thesis
      by (cases "rat_of_int (t + x) < rat_of_int ((ps_openSum s + 9) sdiv 10) * y \<and> sz_size p < ps_newPoolSize s")
        ((intro shrink; simp add: e), (intro stay; auto simp: e))
  qed
qed

lemma load_tick_asked: "ps_asked (load_tick p i out now s) = ps_asked s"
  by (simp add: load_tick_def Let_def split: prod.splits)

definition pool_inv :: "poolSizer \<Rightarrow> poolState \<Rightarrow> bool" where
  "pool_inv p s \<longleftrightarrow> sz_size p \<le> ps_newPoolSize s \<and> ps_newPoolSize s \<le> 4 * sz_size p \<and> ps_shrink s \<le> controlFlowCap \<and>
     (ps_blocked s \<longrightarrow> ps_shrink s = controlFlowCap) \<and>
     int (ps_dialled s) = int (ps_asked s) + ps_newPoolSize s + int (ps_shrink s) + (if ps_blocked s then 1 else 0)"

lemma pool_step_inv:
  assumes "pool_inv p s"
  shows "pool_inv p (pool_step p e s)"
proof (cases e)
  case (TenSeconds i out now)
  show ?thesis
  proof (cases "ps_blocked s")
    case False
    let ?s = "load_tick p i out now s"
    have "pool_inv p ?s"
      by (rule load_tick_cases[of p i out now s])
        (use assms False load_tick_asked[of p i out now s] in \<open>auto simp: pool_inv_def poolCanGrow_def poolGrowthLimit_def split: if_splits\<close>)
    then show ?thesis using TenSeconds False by simp
  qed (use assms TenSeconds in simp)
qed (use assms in \<open>auto simp: pool_inv_def pool_tick_def chan_asked_def Let_def controlFlowCap_def\<close>)

lemma pool_run_inv: "pool_inv p s \<Longrightarrow> pool_inv p (fold (pool_step p) es s)"
  by (induction es arbitrary: s) (simp_all add: pool_step_inv)

lemma pool_start_inv: "0 < sz_size p \<Longrightarrow> pool_inv p (pool_start p)"
  by (simp add: pool_inv_def pool_start_def controlFlowCap_def)

text \<open>Ten seconds in which nothing is asked for and no bytes are counted: the ten readings of the open connections, and
  the time at the end.\<close>

definition window :: "poolSizer \<Rightarrow> int list \<times> instant \<Rightarrow> poolState \<Rightarrow> poolState" where
  "window p w s =
     pool_step p (TenSeconds (pl_lastIn (ps_load s)) (pl_lastOut (ps_load s)) (snd w)) (fold (pool_step p) (map Second (fst w)) s)"

definition starved :: "int list \<times> instant \<Rightarrow> bool" where "starved w \<longleftrightarrow> fst w = replicate 10 0"
definition idle :: "int list \<times> instant \<Rightarrow> bool" where "idle w \<longleftrightarrow> length (fst w) = 10 \<and> (\<forall>n \<in> set (fst w). 0 < n)"

lemma seconds_sum:
  "\<not> ps_blocked s \<Longrightarrow> fold (pool_step p) (map Second ns) s = s\<lparr>ps_openSum := ps_openSum s + sum_list ns\<rparr>"
  by (induction ns arbitrary: s) (simp_all add: pool_tick_def add.assoc)

lemma mbps_still: "mbps (pl_lastIn l) (pl_lastOut l) now l = (\<lparr>pl_lastIn = pl_lastIn l, pl_lastOut = pl_lastOut l, pl_lastAt = now\<rparr>, 0)"
  by (simp add: mbps_def Let_def)

lemma tenth: "0 \<le> n \<Longrightarrow> (n + 9) sdiv 10 = (n + 9) div (10 :: int)"
  by (simp add: signed_divide_int_def)

lemma window_starved:
  assumes "starved w" "\<not> ps_blocked s" "ps_taken s = 0" "ps_openSum s = 0" "0 < sz_size p"
  shows "let s' = window p w s in ps_newPoolSize s' = (if ps_newPoolSize s < 4 * sz_size p then ps_newPoolSize s + 1 else ps_newPoolSize s) \<and>
     \<not> ps_blocked s' \<and> ps_taken s' = 0 \<and> ps_openSum s' = 0"
proof -
  have "sum_list (fst w) = 0" using assms(1) by (simp add: starved_def sum_list_replicate)
  then show ?thesis using assms(2-5)
    by (simp add: window_def seconds_sum load_tick_def mbps_still pool_factors_def Let_def tenth poolCanGrow_def poolGrowthLimit_def wantsMore_def)
qed

lemma window_idle:
  assumes "idle w" "\<not> ps_blocked s" "ps_taken s = 0" "ps_openSum s = 0" "0 < sz_size p" "ps_shrink s < 100"
  shows "let s' = window p w s in ps_newPoolSize s' = (if sz_size p < ps_newPoolSize s then ps_newPoolSize s - 1 else ps_newPoolSize s) \<and>
     \<not> ps_blocked s' \<and> ps_taken s' = 0 \<and> ps_openSum s' = 0 \<and> ps_shrink s' \<le> ps_shrink s + 1"
proof -
  obtain n ns where w: "fst w = n # ns" "0 < n" "\<forall>m \<in> set ns. 0 < m" using assms(1) by (cases "fst w") (auto simp: idle_def)
  have "0 \<le> sum_list ns" using w(3) by (intro sum_list_nonneg) auto
  then have o1: "1 \<le> (sum_list (fst w) + 9) div 10" "0 \<le> sum_list (fst w)" using w(1,2) by auto
  define k where "k = (sum_list (fst w) + 9) div 10"
  have k: "1 \<le> k" "(1 :: rat) \<le> rat_of_int k" using o1 by (simp_all add: k_def)
  have "(sum_list (fst w) + 9) sdiv 10 = k" using tenth[OF o1(2)] by (simp add: k_def)
  then show ?thesis using assms(2-6) k
    by (simp add: window_def seconds_sum load_tick_def mbps_still pool_factors_def Let_def tenth wantsMore_def controlFlowCap_def)
qed

lemma starved_windows:
  assumes "0 < sz_size p" "\<forall>w \<in> set ws. starved w" "\<not> ps_blocked s" "ps_taken s = 0" "ps_openSum s = 0" "ps_newPoolSize s \<le> 4 * sz_size p"
  shows "ps_newPoolSize (fold (window p) ws s) = min (4 * sz_size p) (ps_newPoolSize s + int (length ws))"
  using assms(2-6)
proof (induction ws arbitrary: s)
  case (Cons w ws)
  have "starved w" using Cons.prems(1) by simp
  from window_starved[OF this Cons.prems(2-4) assms(1)] show ?case using Cons.IH[of "window p w s"] Cons.prems
    by (simp add: Let_def min_def)
qed simp

lemma idle_windows:
  assumes "0 < sz_size p" "\<forall>w \<in> set ws. idle w" "\<not> ps_blocked s" "ps_taken s = 0" "ps_openSum s = 0" "sz_size p \<le> ps_newPoolSize s"
    "ps_shrink s + length ws \<le> 100"
  shows "ps_newPoolSize (fold (window p) ws s) = max (sz_size p) (ps_newPoolSize s - int (length ws))"
  using assms(2-7)
proof (induction ws arbitrary: s)
  case (Cons w ws)
  have w: "idle w" "ps_shrink s < 100" using Cons.prems(1,6) by simp_all
  from window_idle[OF w(1) Cons.prems(2-4) assms(1) w(2)] show ?case using Cons.IH[of "window p w s"] Cons.prems
    by (simp add: Let_def max_def)
qed simp

section \<open>Properties\<close>

text \<open>Reconnects are paced: whatever the random numbers, every wait of an outage is at least the configured interval,
  none is longer than 1.2 times the cap (36 seconds unless the interval itself is longer), and the
  \<open>n\<close>-th is at least four fifths of the doubled interval until the cap is reached.\<close>
theorem backoff_paced:
  assumes "\<forall>r \<in> set rs. 0 \<le> r \<and> r < 1" "n < length rs" "0 < interval" "interval \<le> 30 * second"
  shows "interval \<le> wait_run rs (newBackoff interval) ! n \<and> wait_run rs (newBackoff interval) ! n \<le> 36 * second \<and>
    8 / 10 * rat_of_int (min (interval * 2 ^ n) (30 * second)) - 1 < rat_of_int (wait_run rs (newBackoff interval) ! n)"
proof -
  let ?b = "(newBackoff interval)\<lparr>bo_attempt := n\<rparr>"
  have b: "bo_min ?b = interval" "bo_max ?b = 30 * second" using assms(3,4) by (simp_all add: newBackoff_def Let_def)
  have r: "0 \<le> rs ! n" "rs ! n < 1" using assms(1,2) by simp_all
  have w: "wait_run rs (newBackoff interval) ! n = backoff_duration (rs ! n) ?b"
    using wait_run_nth[OF assms(2), of "newBackoff interval"] by (simp add: newBackoff_bounds)
  have "plain_gap ?b = rat_of_int (min (interval * 2 ^ n) (30 * second))"
    using b by (simp add: plain_gap_def of_int_min)
  then show ?thesis
    using backoff_duration_bounds[of ?b "rs ! n", unfolded b, OF assms(3,4) r] unfolding w by simp
qed

theorem backoff_paced_witness:
  "16 * second \<le> wait_run (replicate 9 (1 / 2)) (newBackoff second) ! 5 + second \<and> wait_run (replicate 9 (1 / 2)) (newBackoff second) ! 8 \<le> 36 * second"
  using backoff_paced[of "replicate 9 (1 / 2)" 5 second] backoff_paced[of "replicate 9 (1 / 2)" 8 second]
  by (simp add: second_def)

text \<open>The pool's books balance over every sequence of ticks and requests, whatever is measured: its size stays
  between the configured one and four times that, at most a hundred retirements wait, and the dials
  started are exactly the connections asked for, plus the size of the pool, plus the retirements that
  no request has answered yet.\<close>
theorem pool_balanced:
  assumes "0 < sz_size p"
  shows "let s = fold (pool_step p) es (pool_start p) in
    sz_size p \<le> ps_newPoolSize s \<and> ps_newPoolSize s \<le> 4 * sz_size p \<and> ps_shrink s \<le> 100 \<and>
    int (ps_dialled s) = int (ps_asked s) + ps_newPoolSize s + int (ps_shrink s) + (if ps_blocked s then 1 else 0)"
  using pool_run_inv[OF pool_start_inv[OF assms], of es] by (simp add: Let_def pool_inv_def controlFlowCap_def)

theorem pool_balanced_witness:
  "let s = fold (pool_step \<lparr>sz_size = 2, sz_aggressive = False\<rparr>) [Second 0, TenSeconds 0 0 5, Chan] (pool_start \<lparr>sz_size = 2, sz_aggressive = False\<rparr>) in
    ps_newPoolSize s \<le> 8 \<and> int (ps_dialled s) = int (ps_asked s) + ps_newPoolSize s + int (ps_shrink s) + (if ps_blocked s then 1 else 0)"
  using pool_balanced[of "\<lparr>sz_size = 2, sz_aggressive = False\<rparr>" "[Second 0, TenSeconds 0 0 5, Chan]"]
  by (simp add: Let_def)

text \<open>(C27) The pool follows its load. In every ten seconds in which no connection was open it grows by one, up to four
  times its configured size; and once nothing is asked of it and nothing carried while connections stand open, it gives one up in
  every ten seconds until it is back at the configured size.\<close>
theorem pool_follows_load:
  assumes "0 < sz_size p" "s = fold (pool_step p) es (pool_start p)" "\<not> ps_blocked s" "ps_taken s = 0" "ps_openSum s = 0"
  shows "((\<forall>w \<in> set ws. starved w) \<longrightarrow> ps_newPoolSize (fold (window p) ws s) = min (4 * sz_size p) (ps_newPoolSize s + int (length ws))) \<and>
    ((\<forall>w \<in> set ws. idle w) \<and> ps_shrink s + length ws \<le> 100 \<longrightarrow>
       ps_newPoolSize (fold (window p) ws s) = max (sz_size p) (ps_newPoolSize s - int (length ws)))"
proof -
  have "pool_inv p s" unfolding assms(2) by (rule pool_run_inv[OF pool_start_inv[OF assms(1)]])
  then show ?thesis
    using starved_windows[OF assms(1) _ assms(3-5)] idle_windows[OF assms(1) _ assms(3-5)] by (auto simp: pool_inv_def)
qed

theorem pool_follows_load_witness:
  "let p = \<lparr>sz_size = 2, sz_aggressive = True\<rparr>; up = replicate 9 (replicate 10 0, 7); down = replicate 3 (replicate 10 5, 8) in
   ps_newPoolSize (fold (window p) up (pool_start p)) = 8 \<and> ps_newPoolSize (fold (window p) down (pool_start p)) = 2"
  using pool_follows_load[of "\<lparr>sz_size = 2, sz_aggressive = True\<rparr>" "pool_start \<lparr>sz_size = 2, sz_aggressive = True\<rparr>" "[]" "replicate 9 (replicate 10 0, 7)"]
    pool_follows_load[of "\<lparr>sz_size = 2, sz_aggressive = True\<rparr>" "pool_start \<lparr>sz_size = 2, sz_aggressive = True\<rparr>" "[]" "replicate 3 (replicate 10 5, 8)"]
  by (simp add: pool_start_def starved_def idle_def Let_def)

end
