(* ===== verification/Pairing.thy ===== *)
theory Pairing
  imports TaskTable
begin

text \<open>
  The reverse tunnel's server and the connections it forwards: \<open>src/internal/server/transport/pairing.go\<close>,
  \<open>pairloop.go\<close>, \<open>limits.go\<close>, and of \<open>tcp.go\<close> the accepting of forwarded connections, \<open>handleLoop\<close> and the runs it
  belongs to. A connection takes a slot when it is accepted, waits in the run's queue, is paired by one of
  the run's loops with a tunnel connection or given up, and gives its slot back when it ends. The limiter outlives
  the runs. It is the code of \<open>limits.go\<close> of the layer-3 tunnel over again, so the model of \<open>TunnelLimits\<close> is used.
\<close>

section \<open>Definitions\<close>

definition newLimiter :: "LimitConfig \<Rightarrow> Limiter option" where "newLimiter = limits_New"
definition limiter_acquire :: "Limiter option \<Rightarrow> Limiter option \<times> bool" where "limiter_acquire = acquire_begin"
definition limiter_backs_out :: "Limiter option \<Rightarrow> Limiter option" where "limiter_backs_out = acquire_backout"
definition limiter_release :: "Limiter option \<Rightarrow> Limiter option" where "limiter_release = Release"
definition waitFor :: "int \<Rightarrow> (nat \<Rightarrow> bool) \<Rightarrow> int \<Rightarrow> int list" where "waitFor burst ok n = wait_pieces burst ok n 0"

text \<open>Times in this component are milliseconds.\<close>

definition pairingTimeout :: int where "pairingTimeout = 3000"

definition pairingWait :: "int \<Rightarrow> int \<Rightarrow> int" where
  "pairingWait now createdMillis =
     (let left = pairingTimeout - (now - createdMillis) in if left \<le> 0 then 1 else left)"

definition pairing_expired :: "int \<Rightarrow> int \<Rightarrow> bool" where
  "pairing_expired now createdMillis \<longleftrightarrow> now - createdMillis > pairingTimeout"

text \<open>
  A forwarded connection of a run: turned away and taking its increment back; holding a slot and about to be
  offered to the queue; in the queue; in a loop's hands until a deadline; relayed; closed and about to release.
\<close>

datatype ptask = Refusing | Offering nat int | Queued nat int | InLoop nat int int | Relaying | Leaving

definition pholds :: "ptask \<Rightarrow> bool" where "pholds t \<longleftrightarrow> t \<noteq> Refusing"

text \<open>The run's number and whether its context has ended; the queue of each run, and its loops that are free and have not
  returned.\<close>

record pstate =
  ps_limiter :: "Limiter option"
  ps_tasks :: "nat \<rightharpoonup> ptask"
  ps_run :: nat
  ps_stopped :: bool
  ps_queue :: "nat \<Rightarrow> nat list"
  ps_loops :: "nat \<Rightarrow> nat"
  ps_now :: int

definition over :: "pstate \<Rightarrow> nat \<Rightarrow> bool" where
  "over s g \<longleftrightarrow> g < ps_run s \<or> g = ps_run s \<and> ps_stopped s"

definition becomes :: "nat \<Rightarrow> ptask option \<Rightarrow> pstate \<Rightarrow> pstate" where
  "becomes i t s = s\<lparr>ps_tasks := (ps_tasks s)(i := t)\<rparr>"

definition put_queue :: "nat \<Rightarrow> nat list \<Rightarrow> pstate \<Rightarrow> pstate" where
  "put_queue g q s = s\<lparr>ps_queue := (ps_queue s)(g := q)\<rparr>"

definition put_loops :: "nat \<Rightarrow> nat \<Rightarrow> pstate \<Rightarrow> pstate" where
  "put_loops g n s = s\<lparr>ps_loops := (ps_loops s)(g := n)\<rparr>"

text \<open>Parameters: \<open>channel_size\<close> and the number of loops a run starts.\<close>

inductive pairing_step :: "nat \<Rightarrow> nat \<Rightarrow> pstate \<Rightarrow> pstate \<Rightarrow> bool" for room loops where
  time: "ps_now s \<le> now \<Longrightarrow> pairing_step room loops s (s\<lparr>ps_now := now\<rparr>)"
| accepted: "ps_tasks s i = None \<Longrightarrow> room_in (ps_tasks s) \<Longrightarrow> g \<le> ps_run s \<Longrightarrow> limiter_acquire (ps_limiter s) = (l, True) \<Longrightarrow>
    pairing_step room loops s (becomes i (Some (Offering g (ps_now s))) (s\<lparr>ps_limiter := l\<rparr>))"
| turned_away: "ps_tasks s i = None \<Longrightarrow> room_in (ps_tasks s) \<Longrightarrow> limiter_acquire (ps_limiter s) = (l, False) \<Longrightarrow>
    pairing_step room loops s (becomes i (Some Refusing) (s\<lparr>ps_limiter := l\<rparr>))"
| backed_out: "ps_tasks s i = Some Refusing \<Longrightarrow>
    pairing_step room loops s (becomes i None (s\<lparr>ps_limiter := limiter_backs_out (ps_limiter s)\<rparr>))"
| queued: "ps_tasks s i = Some (Offering g created) \<Longrightarrow> length (ps_queue s g) < room \<Longrightarrow>
    pairing_step room loops s (becomes i (Some (Queued g created)) (put_queue g (ps_queue s g @ [i]) s))"
| queue_full: "ps_tasks s i = Some (Offering g created) \<Longrightarrow> \<not> length (ps_queue s g) < room \<Longrightarrow>
    pairing_step room loops s (becomes i (Some Leaving) s)"
| dropped: "ps_queue s g = i # q \<Longrightarrow> 0 < ps_loops s g \<Longrightarrow> ps_tasks s i = Some (Queued g created) \<Longrightarrow> pairing_expired (ps_now s) created \<Longrightarrow>
    pairing_step room loops s (becomes i (Some Leaving) (put_queue g q s))"
| taken: "ps_queue s g = i # q \<Longrightarrow> ps_loops s g = Suc n \<Longrightarrow> ps_tasks s i = Some (Queued g created) \<Longrightarrow> \<not> pairing_expired (ps_now s) created \<Longrightarrow>
    pairing_step room loops s (becomes i (Some (InLoop g created (ps_now s + pairingWait (ps_now s) created))) (put_loops g n (put_queue g q s)))"
| paired: "ps_tasks s i = Some (InLoop g created t) \<Longrightarrow>
    pairing_step room loops s (becomes i (Some Relaying) (put_loops g (Suc (ps_loops s g)) s))"
| unannounced: "ps_tasks s i = Some (InLoop g created t) \<Longrightarrow>
    pairing_step room loops s (becomes i (Some (InLoop g created (ps_now s + pairingWait (ps_now s) created))) s)"
| timed_out: "ps_tasks s i = Some (InLoop g created t) \<Longrightarrow> t \<le> ps_now s \<Longrightarrow>
    pairing_step room loops s (becomes i (Some Leaving) (put_loops g (Suc (ps_loops s g)) s))"
| interrupted: "ps_tasks s i = Some (InLoop g created t) \<Longrightarrow> over s g \<Longrightarrow>
    pairing_step room loops s (becomes i (Some Leaving) (put_loops g (Suc (ps_loops s g)) s))"
| relayed: "ps_tasks s i = Some Relaying \<Longrightarrow> pairing_step room loops s (becomes i (Some Leaving) s)"
| released: "ps_tasks s i = Some Leaving \<Longrightarrow>
    pairing_step room loops s (becomes i None (s\<lparr>ps_limiter := limiter_release (ps_limiter s)\<rparr>))"
| loop_returns: "over s g \<Longrightarrow> ps_loops s g = Suc n \<Longrightarrow> pairing_step room loops s (put_loops g n s)"
| run_ends: "pairing_step room loops s (s\<lparr>ps_stopped := True\<rparr>)"
| run_begins: "ps_stopped s \<Longrightarrow>
    pairing_step room loops s (put_loops (ps_run s + 1) loops (s\<lparr>ps_run := ps_run s + 1, ps_stopped := False\<rparr>))"

definition pairing_start :: "LimitConfig \<Rightarrow> nat \<Rightarrow> pstate" where
  "pairing_start c loops =
     \<lparr>ps_limiter = newLimiter c, ps_tasks = Map.empty, ps_run = 0, ps_stopped = False, ps_queue = (\<lambda>_. []),
      ps_loops = (\<lambda>g. if g = 0 then loops else 0), ps_now = 0\<rparr>"

section \<open>Specification\<close>

text \<open>Connections of a run by what they do; and those nobody will ever take out of the queue.\<close>

definition in_run :: "pstate \<Rightarrow> nat \<Rightarrow> nat set" where
  "in_run s g = {i. \<exists>created t. ps_tasks s i = Some (InLoop g created t)}"

definition stranded :: "pstate \<Rightarrow> nat set" where
  "stranded s = {i. \<exists>g created. ps_tasks s i = Some (Queued g created) \<and> over s g \<and> ps_loops s g = 0 \<and> in_run s g = {}}"

section \<open>Lemmas\<close>

definition slots_ok :: "pstate \<Rightarrow> bool" where
  "slots_ok s \<longleftrightarrow> table_ok limiter_held pholds (\<lambda>_. False) (\<lambda>_. None :: unit option) (ps_tasks s) Map.empty (ps_limiter s) 0"

interpretation paired: task_table acquire_begin acquire_backout Release limiter_held limiter_cap_of pholds "\<lambda>_. False" "\<lambda>_. None :: unit option"
  by unfold_locales simp

lemmas pairing_ops = becomes_def put_queue_def put_loops_def slots_ok_def pholds_def limiter_acquire_def limiter_backs_out_def limiter_release_def

lemma slots_step:
  assumes st: "pairing_step room loops s s'" and inv: "slots_ok s"
  shows "slots_ok s' \<and> limiter_cap_of (ps_limiter s') = limiter_cap_of (ps_limiter s)"
proof -
  have ok: "table_ok limiter_held pholds (\<lambda>_. False) (\<lambda>_. None :: unit option) (ps_tasks s) Map.empty (ps_limiter s) 0"
    using inv by (simp add: slots_ok_def)
  note cap = pool.cap_kept(1)[of "ps_limiter s"] pool.cap_kept(2,3)
  note enter = paired.table_enter[OF ok] and stage = paired.table_stage[OF ok]
    and leave = paired.table_leave[OF ok] and backout = paired.table_backout[OF ok]
  have move: "slots_ok (becomes i (Some t') s2) \<and> limiter_cap_of (ps_limiter s2) = limiter_cap_of (ps_limiter s)"
    if "ps_tasks s i = Some t" "t \<noteq> Refusing" "t' \<noteq> Refusing" "ps_tasks s2 = ps_tasks s" "ps_limiter s2 = ps_limiter s" for i t t' s2
    using stage[of i t t' 0] that by (simp add: pairing_ops)
  show ?thesis using st
  proof (cases rule: pairing_step.cases)
    case (accepted i g l)
    then show ?thesis using enter[of i l True "Offering g (ps_now s)"] cap by (simp add: pairing_ops)
  next
    case (turned_away i l)
    then show ?thesis using enter[of i l False Refusing] cap by (simp add: pairing_ops)
  next
    case (backed_out i)
    then show ?thesis using backout[of i Refusing] cap by (simp add: pairing_ops)
  next
    case (released i)
    then show ?thesis using leave[of i Leaving] cap by (simp add: pairing_ops)
  qed (use inv move in \<open>auto simp: pairing_ops\<close>)
qed

lemma slots_run:
  assumes "(pairing_step room loops)\<^sup>*\<^sup>* s s'" "slots_ok s"
  shows "slots_ok s' \<and> limiter_cap_of (ps_limiter s') = limiter_cap_of (ps_limiter s)"
  using assms by (induction rule: rtranclp_induct) (use slots_step in \<open>simp, metis\<close>)

lemma pairing_start_ok: "0 < lc_MaxConnections c \<Longrightarrow> lc_MaxConnections c < 2 ^ 31 \<Longrightarrow> slots_ok (pairing_start c loops)"
  using paired.table_start[of "limits_New c"] limits_New_cap[of c]
  by (simp add: slots_ok_def pairing_start_def newLimiter_def)

text \<open>Deadlines.\<close>

definition deadlines_ok :: "pstate \<Rightarrow> bool" where
  "deadlines_ok s \<longleftrightarrow> (\<forall>i g created t. ps_tasks s i = Some (InLoop g created t) \<longrightarrow> t \<le> max (created + pairingTimeout) (ps_now s) + 1)"

lemma pairingWait_bound: "now + pairingWait now created \<le> max (created + pairingTimeout) now + 1" "0 < pairingWait now created"
  by (simp_all add: pairingWait_def Let_def)

lemma deadlines_step: "pairing_step room loops s s' \<Longrightarrow> deadlines_ok s \<Longrightarrow> deadlines_ok s'"
proof (induction rule: pairing_step.induct)
  case (time s now)
  then show ?case unfolding deadlines_ok_def by fastforce
qed (auto simp: deadlines_ok_def becomes_def put_queue_def put_loops_def pairingWait_bound)

lemma stranded_step:
  assumes "pairing_step room loops s s'"
  shows "stranded s \<subseteq> stranded s'"
proof
  fix i
  assume "i \<in> stranded s"
  then obtain g c where i: "ps_tasks s i = Some (Queued g c)" "over s g" "ps_loops s g = 0" "in_run s g = {}"
    by (auto simp: stranded_def)
  have none: "ps_tasks s j \<noteq> Some (InLoop g c t)" for j c t using i(4) by (auto simp: in_run_def)
  have "ps_tasks s' i = Some (Queued g c) \<and> over s' g \<and> ps_loops s' g = 0 \<and> (\<forall>j c t. ps_tasks s' j \<noteq> Some (InLoop g c t))"
    using assms i(1-3) none
    by (cases rule: pairing_step.cases) (auto simp: becomes_def put_queue_def put_loops_def over_def)
  then show "i \<in> stranded s'" by (auto simp: stranded_def in_run_def)
qed

lemma stranded_run: "(pairing_step room loops)\<^sup>*\<^sup>* s s' \<Longrightarrow> stranded s \<subseteq> stranded s'"
  by (induction rule: rtranclp_induct) (auto dest: stranded_step)

text \<open>Connections that hold a slot.\<close>

definition holding :: "pstate \<Rightarrow> nat set" where
  "holding s = {i. \<exists>t. ps_tasks s i = Some t \<and> pholds t}"

lemma holding_count:
  assumes "slots_ok s"
  shows "finite (holding s)" "how_many pholds (ps_tasks s) = card (holding s)"
proof -
  have fin: "finite (dom (ps_tasks s))" using assms by (simp add: slots_ok_def table_ok_def)
  have sub: "holding s \<subseteq> dom (ps_tasks s)" by (auto simp: holding_def)
  show "finite (holding s)" using finite_subset[OF sub fin] .
  have "how_many pholds (ps_tasks s) = (\<Sum>i \<in> dom (ps_tasks s). if i \<in> holding s then 1 else 0)"
    unfolding how_many_def by (rule sum.cong) (auto simp: holding_def sat_def)
  also have "\<dots> = card (dom (ps_tasks s) \<inter> holding s)" using fin by (simp add: sum.If_cases Int_def)
  finally show "how_many pholds (ps_tasks s) = card (holding s)" using sub by (simp add: Int_absorb1)
qed

lemma stranded_holding: "stranded s \<subseteq> holding s"
  by (auto simp: stranded_def holding_def pholds_def)

lemma holding_cap:
  assumes "slots_ok s" "limiter_cap_of (ps_limiter s) = Some m"
  shows "card (holding s) \<le> m"
  using assms pool.held_cap[OF _ assms(2)] holding_count[OF assms(1)] by (auto simp: slots_ok_def table_ok_def)

section \<open>Properties\<close>


text \<open>(C25) What a restart leaves in the queue is lost with its slot. The loops of a run that ended return without emptying
  its queue, and nothing else ever takes from it: the connections in it hold their slots in every later state, through all
  later runs, and once they are as many as the cap allows no connection is accepted again.\<close>
theorem queued_slots_stranded:
  assumes "(pairing_step room loops)\<^sup>*\<^sup>* (pairing_start c loops) s" "(pairing_step room loops)\<^sup>*\<^sup>* s s'"
    and "0 < lc_MaxConnections c" "lc_MaxConnections c < 2 ^ 31"
  shows "stranded s \<subseteq> holding s' \<and> (nat (lc_MaxConnections c) \<le> card (stranded s) \<longrightarrow> holding s' = stranded s)"
proof -
  have s': "slots_ok s'" "limiter_cap_of (ps_limiter s') = Some (nat (lc_MaxConnections c))"
    using slots_run[OF rtranclp_trans[OF assms(1,2)] pairing_start_ok[OF assms(3,4)]] limits_New_cap[OF assms(3,4)]
    by (simp_all add: pairing_start_def newLimiter_def)
  have sub: "stranded s \<subseteq> holding s'" using stranded_run[OF assms(2)] stranded_holding[of s'] by blast
  moreover have "holding s' = stranded s" if "nat (lc_MaxConnections c) \<le> card (stranded s)"
    using card_subset_eq[OF holding_count(1)[OF s'(1)] sub] card_mono[OF holding_count(1)[OF s'(1)] sub] holding_cap[OF s'] that
    by simp
  ultimately show ?thesis by blast
qed

text \<open>One connection is queued, the run ends, its only loop returns, and the next run begins.\<close>

definition demo_limits :: LimitConfig where "demo_limits = \<lparr>lc_MaxConnections = 1, lc_BandwidthMbps = 0\<rparr>"

definition demo_queued :: pstate where
  "demo_queued = put_loops 0 0 ((put_queue 0 [0] (becomes 0 (Some (Queued 0 0))
     ((pairing_start demo_limits 1)\<lparr>ps_limiter := fst (limiter_acquire (newLimiter demo_limits))\<rparr>)))\<lparr>ps_stopped := True\<rparr>)"

definition demo_next :: pstate where
  "demo_next = put_loops 1 1 (demo_queued\<lparr>ps_run := 1, ps_stopped := False\<rparr>)"

lemma demo_queued_reached: "(pairing_step 4 1)\<^sup>*\<^sup>* (pairing_start demo_limits 1) demo_queued"
proof -
  let ?l = "fst (limiter_acquire (newLimiter demo_limits))"
  let ?s0 = "pairing_start demo_limits 1"
  let ?s1 = "becomes 0 (Some (Offering 0 0)) (?s0\<lparr>ps_limiter := ?l\<rparr>)"
  let ?s2 = "becomes 0 (Some (Queued 0 0)) (put_queue 0 [0] ?s1)"
  let ?s3 = "?s2\<lparr>ps_stopped := True\<rparr>"
  note defs = pairing_start_def becomes_def put_queue_def put_loops_def over_def
  have l: "limiter_acquire (newLimiter demo_limits) = (?l, True)"
    by (simp add: demo_limits_def newLimiter_def limits_New_def limiter_acquire_def acquire_begin_def acquire_add_def Let_def)
  have "pairing_step 4 1 ?s0 ?s1"
    using pairing_step.accepted[of ?s0 0 0 ?l 4 1] l by (simp add: defs room_in_def)
  moreover have "pairing_step 4 1 ?s1 ?s2"
    using pairing_step.queued[of ?s1 0 0 0 4 1] by (simp add: defs)
  moreover have "pairing_step 4 1 ?s2 ?s3" by (rule pairing_step.run_ends)
  moreover have "pairing_step 4 1 ?s3 demo_queued"
    using pairing_step.loop_returns[of ?s3 0 0 4 1] by (simp add: defs demo_queued_def)
  ultimately show ?thesis by (meson rtranclp.rtrancl_into_rtrancl rtranclp.rtrancl_refl)
qed

lemma demo_next_reached: "(pairing_step 4 1)\<^sup>*\<^sup>* demo_queued demo_next"
  using pairing_step.run_begins[of demo_queued 4 1]
  by (simp add: demo_next_def demo_queued_def pairing_start_def becomes_def put_queue_def put_loops_def)

lemma demo_queued_stranded: "stranded demo_queued = {0}"
  by (auto simp: stranded_def in_run_def demo_queued_def pairing_start_def becomes_def put_queue_def put_loops_def over_def)


theorem queued_slots_stranded_witness:
  "0 \<in> holding demo_next \<and> \<not> ps_stopped demo_next \<and> holding demo_next = {0}"
  using queued_slots_stranded[OF demo_queued_reached demo_next_reached] demo_queued_stranded
  by (simp add: demo_limits_def demo_next_def put_loops_def)

end
