(* ===== verification/UdpFlow.thy ===== *)
theory UdpFlow
  imports ByteStream
begin

text \<open>
  Forwarded UDP over a reverse tunnel. Both ends carry a flow as a stream of datagrams with two bytes of
  length, \<open>src/internal/utils/network/udpframe.go\<close>. On the server a flow wears the shape of a connection,
  \<open>udpFlow\<close> of \<open>src/internal/server/transport/udpforward.go\<close>: reading it yields the frames of queued datagrams
  cut to whatever buffers the relay has, writing it puts frames together again from whatever chunks the tunnel hands
  over. The client, \<open>src/internal/client/transport/udpforward.go\<close>, reads and writes whole frames.
\<close>

section \<open>Definitions: frames and marks\<close>

definition MaxDatagram :: nat where "MaxDatagram = 65535"
definition udpScheme :: string where "udpScheme = ''udp://''"

definition MarkUDP :: "string \<Rightarrow> string" where "MarkUDP addr = udpScheme @ addr"

definition SplitUDPTarget :: "string \<Rightarrow> string \<times> bool" where
  "SplitUDPTarget addr = (if prefix udpScheme addr then (drop (length udpScheme) addr, True) else (addr, False))"

fun firstUDPBackend :: "string \<Rightarrow> string" where
  "firstUDPBackend [] = []"
| "firstUDPBackend (c # cs) = (if c = CHR ''|'' then [] else c # firstUDPBackend cs)"

datatype frame_error = TooLarge nat | DoesNotFit nat nat | Cut

definition WriteDatagram :: "bytes \<Rightarrow> frame_error + bytes" where
  "WriteDatagram payload =
     (if length payload > MaxDatagram then Inl (TooLarge (length payload))
      else Inr (put16 (word_of_nat (length payload)) @ payload))"

definition ReadDatagram :: "nat \<Rightarrow> bytes \<Rightarrow> frame_error + bytes \<times> bytes" where
  "ReadDatagram bufsize s =
     (case ReadFull 2 s of
        None \<Rightarrow> Inl Cut
      | Some (hdr, s) \<Rightarrow>
          let n = unat (get16 hdr) in
          if n > bufsize then Inl (DoesNotFit n bufsize)
          else if n = 0 then Inr ([], s)
          else case ReadFull n s of None \<Rightarrow> Inl Cut | Some (payload, s) \<Rightarrow> Inr (payload, s))"

text \<open>\<open>tunnelToBackend\<close> and \<open>backendToTunnel\<close>: the datagrams sent to the backend, and the bytes written for its
  replies, until the first that cannot be written.\<close>

definition tunnelToBackend :: "bytes \<Rightarrow> bytes list" where
  "tunnelToBackend s = read_all (\<lambda>s. case ReadDatagram MaxDatagram s of Inl _ \<Rightarrow> None | Inr r \<Rightarrow> Some r) s"

fun backendToTunnel :: "bytes list \<Rightarrow> bytes" where
  "backendToTunnel [] = []"
| "backendToTunnel (d # ds) = (case WriteDatagram d of Inl _ \<Rightarrow> [] | Inr b \<Rightarrow> b @ backendToTunnel ds)"

section \<open>Definitions: the flow\<close>

definition udpFlowQueue :: nat where "udpFlowQueue = 256"

record udpFlow =
  uf_in :: "bytes list"
  uf_done :: bool
  uf_pending :: bytes
  uf_hdr :: bytes
  uf_body :: bytes
  uf_want :: nat
  uf_sent :: "bytes list"

text \<open>The header bytes \<open>hdr[:hdrN]\<close> are the list \<open>uf_hdr\<close>; \<open>uf_sent\<close> records what \<open>send\<close> put on the wire.\<close>

definition newUDPFlow :: udpFlow where
  "newUDPFlow = \<lparr>uf_in = [], uf_done = False, uf_pending = [], uf_hdr = [], uf_body = [], uf_want = 0, uf_sent = []\<rparr>"

text \<open>\<open>deliver\<close> queues when there is room, else drops; of a flow that is closed the \<open>select\<close> may take either case,
  and \<open>pick\<close> is its choice.\<close>

definition deliver :: "bool \<Rightarrow> bytes \<Rightarrow> udpFlow \<Rightarrow> udpFlow" where
  "deliver pick payload f =
     (if length (uf_in f) < udpFlowQueue \<and> (uf_done f \<longrightarrow> pick) then f\<lparr>uf_in := uf_in f @ [payload]\<rparr> else f)"

definition flow_frame :: "bytes \<Rightarrow> bytes" where
  "flow_frame payload = [word_of_nat (length payload div 256), word_of_nat (length payload)] @ payload"

text \<open>\<open>Read\<close> into a buffer of \<open>n\<close> bytes: \<open>None\<close> while it would block, no bytes at the end.\<close>

definition flow_Read :: "nat \<Rightarrow> udpFlow \<Rightarrow> (udpFlow \<times> bytes) option" where
  "flow_Read n f =
     (if uf_pending f \<noteq> [] then Some (f\<lparr>uf_pending := drop n (uf_pending f)\<rparr>, take n (uf_pending f))
      else case uf_in f of
             payload # rest \<Rightarrow>
               let p = flow_frame payload in Some (f\<lparr>uf_in := rest, uf_pending := drop n p\<rparr>, take n p)
           | [] \<Rightarrow> if uf_done f then Some (f, []) else None)"

text \<open>
  \<open>send\<close> succeeds or fails depending on what was sent before and the datagram. One turn of the loop of \<open>Write\<close>
  either ends it, with what was not consumed and whether every \<open>send\<close> succeeded, or goes on; ending with
  \<open>None\<close> is the slice that would panic, when the body is longer than wanted.
\<close>

definition flow_send :: "(bytes list \<Rightarrow> bytes \<Rightarrow> bool) \<Rightarrow> bytes \<Rightarrow> udpFlow \<Rightarrow> udpFlow option" where
  "flow_send ok payload f = (if ok (uf_sent f) payload then Some (f\<lparr>uf_sent := uf_sent f @ [payload]\<rparr>) else None)"

definition write_turn :: "(bytes list \<Rightarrow> bytes \<Rightarrow> bool) \<Rightarrow> udpFlow \<Rightarrow> bytes \<Rightarrow> (udpFlow \<times> bytes \<times> bool) option + udpFlow \<times> bytes" where
  "write_turn ok f p =
     (if p = [] then Inl (Some (f, p, True))
      else if uf_done f then Inl (Some (f, p, False))
      else if length (uf_hdr f) < 2 then
        let n = min (2 - length (uf_hdr f)) (length p);
            f = f\<lparr>uf_hdr := uf_hdr f @ take n p\<rparr>; p = drop n p
        in if length (uf_hdr f) < 2 then Inl (Some (f, p, True))
           else let f = f\<lparr>uf_want := unat (get16 (uf_hdr f)), uf_body := []\<rparr> in
                if uf_want f = 0
                then (case flow_send ok [] f of None \<Rightarrow> Inl (Some (f, p, False)) | Some f \<Rightarrow> Inr (f\<lparr>uf_hdr := []\<rparr>, p))
                else Inr (f, p)
      else if uf_want f < length (uf_body f) then Inl None
      else
        let need = min (uf_want f - length (uf_body f)) (length p);
            f = f\<lparr>uf_body := uf_body f @ take need p\<rparr>; p = drop need p
        in if length (uf_body f) = uf_want f
           then (case flow_send ok (uf_body f) f of
                   None \<Rightarrow> Inl (Some (f, p, False))
                 | Some f \<Rightarrow> Inr (f\<lparr>uf_hdr := [], uf_want := 0, uf_body := []\<rparr>, p))
           else Inr (f, p))"

lemma write_turn_shrinks: "write_turn ok f p = Inr (g, q) \<Longrightarrow> 2 * length q + length (uf_hdr g) < 2 * length p + length (uf_hdr f)"
  by (auto simp: write_turn_def flow_send_def Let_def min_def split: if_splits option.splits)

function write_loop :: "(bytes list \<Rightarrow> bytes \<Rightarrow> bool) \<Rightarrow> udpFlow \<Rightarrow> bytes \<Rightarrow> (udpFlow \<times> bytes \<times> bool) option" where
  "write_loop ok f p = (case write_turn ok f p of Inl res \<Rightarrow> res | Inr (g, q) \<Rightarrow> write_loop ok g q)"
  by pat_completeness auto
termination
  by (relation "measure (\<lambda>(ok, f, p). 2 * length p + length (uf_hdr f))") (auto dest: write_turn_shrinks)

declare write_loop.simps [simp del]

definition flow_Write :: "(bytes list \<Rightarrow> bytes \<Rightarrow> bool) \<Rightarrow> bytes \<Rightarrow> udpFlow \<Rightarrow> (udpFlow \<times> int \<times> bool) option" where
  "flow_Write ok p f = map_option (\<lambda>(f, rest, good). (f, int (length p) - int (length rest), good)) (write_loop ok f p)"

section \<open>Definitions: the forwarder\<close>

text \<open>
  The flows of a forwarded port, by source address. A flow is a number and \<open>fw_keys\<close> holds its \<open>key\<close>; \<open>fw_done\<close> are the flows whose \<open>done\<close> is
  closed, and \<open>fw_leaving\<close> those of them whose \<open>Close\<close> has not reached \<open>forget\<close>. \<open>file_datagram\<close> is the part of
  \<open>run\<close> under the lock: the flow a datagram goes to and whether it was known, or that the forwarder is stopping.
\<close>

record udpForwarder =
  fw_flows :: "string \<rightharpoonup> nat"
  fw_closed :: bool
  fw_keys :: "string list"
  fw_done :: "nat list"
  fw_leaving :: "nat list"

definition newUDPForwarder :: udpForwarder where
  "newUDPForwarder = \<lparr>fw_flows = (\<lambda>_. None), fw_closed = False, fw_keys = [], fw_done = [], fw_leaving = []\<rparr>"

definition file_datagram :: "string \<Rightarrow> udpForwarder \<Rightarrow> udpForwarder \<times> (nat \<times> bool) option" where
  "file_datagram key fw =
     (case fw_flows fw key of
        Some i \<Rightarrow> (fw, Some (i, True))
      | None \<Rightarrow> if fw_closed fw then (fw, None)
               else (fw\<lparr>fw_flows := (fw_flows fw)(key \<mapsto> length (fw_keys fw)), fw_keys := fw_keys fw @ [key]\<rparr>,
                     Some (length (fw_keys fw), False)))"

definition forget :: "string \<Rightarrow> nat \<Rightarrow> udpForwarder \<Rightarrow> udpForwarder" where
  "forget key i fw = (if fw_flows fw key = Some i then fw\<lparr>fw_flows := (fw_flows fw)(key := None)\<rparr> else fw)"

text \<open>\<open>Close\<close> is two steps of the goroutine that comes first, and none of the others.\<close>

definition close_begin :: "nat \<Rightarrow> udpForwarder \<Rightarrow> udpForwarder" where
  "close_begin i fw =
     (if i \<in> set (fw_done fw) then fw else fw\<lparr>fw_done := i # fw_done fw, fw_leaving := i # fw_leaving fw\<rparr>)"

definition close_end :: "nat \<Rightarrow> udpForwarder \<Rightarrow> udpForwarder" where
  "close_end i fw =
     (if i \<in> set (fw_leaving fw) then (forget (fw_keys fw ! i) i fw)\<lparr>fw_leaving := removeAll i (fw_leaving fw)\<rparr> else fw)"

datatype fw_event = Arrival string | Begin nat | End nat | Stop

text \<open>\<open>Close\<close> is called on flows this port made: by a refused admission, the reaper, the relay or the stop.\<close>

fun fw_step :: "fw_event \<Rightarrow> udpForwarder \<Rightarrow> udpForwarder" where
  "fw_step (Arrival key) fw = fst (file_datagram key fw)"
| "fw_step (Begin i) fw = (if i < length (fw_keys fw) then close_begin i fw else fw)"
| "fw_step (End i) fw = close_end i fw"
| "fw_step Stop fw = fw\<lparr>fw_closed := True\<rparr>"

section \<open>Specification\<close>

text \<open>A flow under load: datagrams arrive, the relay reads into buffers of its own sizes, the flow may be closed.
  The second component are the datagrams that were queued, the third the bytes that went into the tunnel.\<close>

datatype flow_event = Arrives bool bytes | Reads nat | Closes

fun flow_step :: "flow_event \<Rightarrow> udpFlow \<times> bytes list \<times> bytes \<Rightarrow> udpFlow \<times> bytes list \<times> bytes" where
  "flow_step (Arrives pick d) (f, taken, out) =
     (let f' = deliver pick d f in (f', if length (uf_in f) < length (uf_in f') then taken @ [d] else taken, out))"
| "flow_step (Reads n) (f, taken, out) =
     (case flow_Read n f of None \<Rightarrow> (f, taken, out) | Some (f', b) \<Rightarrow> (f', taken, out @ b))"
| "flow_step Closes (f, taken, out) = (f\<lparr>uf_done := True\<rparr>, taken, out)"

fun arrivals :: "flow_event list \<Rightarrow> bytes list" where
  "arrivals [] = []"
| "arrivals (Arrives _ d # es) = d # arrivals es"
| "arrivals (_ # es) = arrivals es"

text \<open>A frame as the reader of the other end sees it, and the datagrams a stream holds.\<close>

definition datagram_frame :: "bytes \<Rightarrow> bytes" where
  "datagram_frame payload = (case WriteDatagram payload of Inl _ \<Rightarrow> [] | Inr b \<Rightarrow> b)"

definition next_datagram :: "bytes \<Rightarrow> (bytes \<times> bytes) option" where
  "next_datagram s = (case ReadDatagram MaxDatagram s of Inl _ \<Rightarrow> None | Inr r \<Rightarrow> Some r)"

text \<open>What the flow keeps of a frame that is not complete.\<close>

definition partial :: "udpFlow \<Rightarrow> bytes" where
  "partial f = (if length (uf_hdr f) < 2 then uf_hdr f else uf_hdr f @ uf_body f)"

definition between :: "udpFlow \<Rightarrow> bool" where
  "between f \<longleftrightarrow> length (uf_hdr f) < 2 \<or>
     length (uf_hdr f) = 2 \<and> uf_want f = unat (get16 (uf_hdr f)) \<and> length (uf_body f) < uf_want f"

text \<open>Writing the chunks the tunnel hands over, one after the other, until a \<open>Write\<close> fails.\<close>

fun write_chunks :: "(bytes list \<Rightarrow> bytes \<Rightarrow> bool) \<Rightarrow> bytes list \<Rightarrow> udpFlow \<Rightarrow> udpFlow option" where
  "write_chunks ok [] f = Some f"
| "write_chunks ok (c # cs) f =
     (case flow_Write ok c f of
        None \<Rightarrow> None
      | Some (f', n, good) \<Rightarrow> if good then write_chunks ok cs f' else Some f')"

section \<open>Lemmas\<close>

lemma short16: "length d \<le> MaxDatagram \<Longrightarrow> unat (word_of_nat (length d) :: u16) = length d"
  by (intro unat_length16) (simp add: MaxDatagram_def)

lemma datagram_frame_eq: "length d \<le> MaxDatagram \<Longrightarrow> datagram_frame d = put16 (word_of_nat (length d)) @ d"
  by (simp add: datagram_frame_def WriteDatagram_def)

interpretation udp_frame: stream_codec datagram_frame next_datagram "\<lambda>d. length d \<le> MaxDatagram"
proof
  fix d :: bytes and rest b :: bytes
  assume d: "length d \<le> MaxDatagram"
  note l = short16[OF d] and w = datagram_frame_eq[OF d]
  show "next_datagram (datagram_frame d @ rest) = Some (d, rest)"
    using d by (simp add: w next_datagram_def ReadDatagram_def ReadFull_append l Let_def)
  show "next_datagram b = None" if "strict_prefix b (datagram_frame d)"
    using short_message[OF that[unfolded w]] d l
    by (auto simp: next_datagram_def ReadDatagram_def ReadFull_append ReadFull_None Let_def)
  show "datagram_frame d \<noteq> []" by (simp add: w flip: length_greater_0_conv)
qed (simp add: next_datagram_def ReadDatagram_def ReadFull_None)

lemma flow_frame_eq: "length d \<le> MaxDatagram \<Longrightarrow> flow_frame d = datagram_frame d"
proof -
  assume d: "length d \<le> MaxDatagram"
  define w where "w = (word_of_nat (length d) :: u16)"
  have u: "unat w = length d" using short16[OF d] by (simp add: w_def)
  note put16_bytes[of w]
  moreover have "(ucast w :: byte) = word_of_nat (length d)" by (metis of_nat_unat u)
  moreover have "(ucast (drop_bit 8 w) :: byte) = word_of_nat (length d div 256)"
  proof -
    have "unat (drop_bit 8 w) = length d div 256" by (simp only: unat_drop_bit_eq u) (simp add: drop_bit_eq_div)
    then show ?thesis by (metis of_nat_unat)
  qed
  ultimately show ?thesis by (simp add: flow_frame_def datagram_frame_eq[OF d] w_def)
qed

lemma header_frame:
  assumes "length hdr = 2" "length body = unat (get16 hdr)"
  shows "hdr @ body = datagram_frame body" "length body \<le> MaxDatagram"
proof -
  have "unat (get16 hdr :: u16) < 2 ^ 16" using unsigned_less[of "get16 hdr :: u16"] by simp
  then show d: "length body \<le> MaxDatagram" using assms(2) by (simp add: MaxDatagram_def)
  have "put16 (get16 hdr) = hdr" using assms(1) by simp
  moreover have "word_of_nat (length body) = get16 hdr" using assms(2) by simp
  ultimately show "hdr @ body = datagram_frame body" using datagram_frame_eq[OF d] by simp
qed

lemma partial_not_whole: "between f \<Longrightarrow> next_datagram (partial f) = None"
  by (auto simp: between_def partial_def next_datagram_def ReadDatagram_def ReadFull_None ReadFull_append Let_def)

text \<open>What one \<open>Write\<close> sends are the next frames of the stream, and on success it keeps the beginning of the one after.\<close>

definition wrote :: "(bytes list \<Rightarrow> bytes \<Rightarrow> bool) \<Rightarrow> udpFlow \<Rightarrow> bytes \<Rightarrow> (udpFlow \<times> bytes \<times> bool) option \<Rightarrow> bool" where
  "wrote ok f p res \<longleftrightarrow> (\<exists>f' rest good ds r. res = Some (f', rest, good) \<and> uf_sent f' = uf_sent f @ ds \<and>
     list_all (\<lambda>d. length d \<le> MaxDatagram) ds \<and> partial f @ p = concat (map datagram_frame ds) @ r \<and>
     (good \<longrightarrow> rest = [] \<and> between f' \<and> partial f' = r \<and> uf_done f' = uf_done f) \<and>
     ((\<forall>h d. ok h d) \<and> \<not> uf_done f \<longrightarrow> good))"

lemma wrote_stop:
  assumes "uf_sent f' = uf_sent f" "good \<longrightarrow> rest = [] \<and> between f' \<and> partial f' = partial f @ p \<and> uf_done f' = uf_done f"
    "(\<forall>h d. ok h d) \<and> \<not> uf_done f \<longrightarrow> good"
  shows "wrote ok f p (Some (f', rest, good))"
  unfolding wrote_def by (intro exI[of _ f'] exI[of _ rest] exI[of _ good] exI[of _ "[]"] exI[of _ "partial f @ p"]) (use assms in simp)

lemma wrote_same:
  assumes "wrote ok g q res" "partial f @ p = partial g @ q" "uf_sent g = uf_sent f" "uf_done g = uf_done f"
  shows "wrote ok f p res"
  using assms by (simp add: wrote_def)

lemma wrote_one:
  assumes "wrote ok g q res" "partial f @ p = datagram_frame b @ partial g @ q" "length b \<le> MaxDatagram"
    "uf_sent g = uf_sent f @ [b]" "uf_done g = uf_done f"
  shows "wrote ok f p res"
proof -
  obtain f' rest good ds r where w: "res = Some (f', rest, good)" "uf_sent f' = uf_sent g @ ds"
    "list_all (\<lambda>d. length d \<le> MaxDatagram) ds" "partial g @ q = concat (map datagram_frame ds) @ r"
    "good \<longrightarrow> rest = [] \<and> between f' \<and> partial f' = r \<and> uf_done f' = uf_done g" "(\<forall>h d. ok h d) \<and> \<not> uf_done g \<longrightarrow> good"
    using assms(1) unfolding wrote_def by (elim exE conjE) (rule that; assumption)
  show ?thesis unfolding wrote_def
    by (intro exI[of _ f'] exI[of _ rest] exI[of _ good] exI[of _ "b # ds"] exI[of _ r]) (use w assms(2-) in simp)
qed

lemma write_turn_head:
  assumes "p \<noteq> []" "\<not> uf_done f" "length (uf_hdr f) < 2"
    and "n = min (2 - length (uf_hdr f)) (length p)" "hdr = uf_hdr f @ take n p" "rest = drop n p"
  shows "write_turn ok f p =
    (if length hdr < 2 then Inl (Some (f\<lparr>uf_hdr := hdr\<rparr>, rest, True))
     else if unat (get16 hdr) = 0
     then (if ok (uf_sent f) [] then Inr (f\<lparr>uf_hdr := [], uf_want := 0, uf_body := [], uf_sent := uf_sent f @ [[]]\<rparr>, rest)
           else Inl (Some (f\<lparr>uf_hdr := hdr, uf_want := 0, uf_body := []\<rparr>, rest, False)))
     else Inr (f\<lparr>uf_hdr := hdr, uf_want := unat (get16 hdr), uf_body := []\<rparr>, rest))"
  using assms(1-3) unfolding write_turn_def assms(4)[symmetric] Let_def assms(5,6) flow_send_def by simp

lemma write_turn_tail:
  assumes "p \<noteq> []" "\<not> uf_done f" "\<not> length (uf_hdr f) < 2" "length (uf_body f) < uf_want f"
    and "need = min (uf_want f - length (uf_body f)) (length p)" "body = uf_body f @ take need p" "rest = drop need p"
  shows "write_turn ok f p =
    (if length body = uf_want f
     then (if ok (uf_sent f) body then Inr (f\<lparr>uf_hdr := [], uf_want := 0, uf_body := [], uf_sent := uf_sent f @ [body]\<rparr>, rest)
           else Inl (Some (f\<lparr>uf_body := body\<rparr>, rest, False)))
     else Inr (f\<lparr>uf_body := body\<rparr>, rest))"
  using assms(1-4) unfolding write_turn_def assms(5)[symmetric] Let_def assms(6,7) flow_send_def by simp

lemma write_turn_frames:
  assumes "between f"
  shows "(case write_turn ok f p of
     Inl res \<Rightarrow> wrote ok f p res
   | Inr (g, q) \<Rightarrow> between g \<and> (\<forall>res. wrote ok g q res \<longrightarrow> wrote ok f p res))"
proof -
  consider (empty) "p = []" | (closed) "p \<noteq> []" "uf_done f" | (head) "p \<noteq> []" "\<not> uf_done f" "length (uf_hdr f) < 2"
    | (tail) "p \<noteq> []" "\<not> uf_done f" "\<not> length (uf_hdr f) < 2" by blast
  then show ?thesis
  proof cases
    case empty
    then show ?thesis using assms by (simp add: write_turn_def wrote_stop)
  next
    case closed
    then show ?thesis by (simp add: write_turn_def wrote_stop)
  next
    case head
    define n where "n = min (2 - length (uf_hdr f)) (length p)"
    define hdr where "hdr = uf_hdr f @ take n p"
    define rest where "rest = drop n p"
    have all: "partial f @ p = hdr @ rest" using head by (simp add: partial_def hdr_def rest_def)
    have len: "length hdr \<le> 2" using head by (auto simp: hdr_def n_def min_def)
    have short: "rest = []" if "length hdr < 2" using that head by (auto simp: hdr_def rest_def n_def min_def split: if_splits)
    have zero: "datagram_frame [] = hdr" if "length hdr = 2" "unat (get16 hdr) = 0"
      using header_frame(1)[of hdr "[]"] that by simp
    note eq = write_turn_head[OF head n_def hdr_def rest_def, of ok]
    show ?thesis
    proof (cases "length hdr < 2")
      case True
      then show ?thesis using short all head
        by (auto simp: eq between_def partial_def intro!: wrote_stop)
    next
      case False
      then have two: "length hdr = 2" using len by simp
      show ?thesis
      proof (cases "unat (get16 hdr) = 0")
        case True
        have "wrote ok f p res" if "wrote ok (f\<lparr>uf_hdr := [], uf_want := 0, uf_body := [], uf_sent := uf_sent f @ [[]]\<rparr>) rest res" for res
          by (rule wrote_one[OF that]) (use all zero[OF two True] in \<open>simp_all add: partial_def\<close>)
        moreover have "wrote ok f p (Some (f\<lparr>uf_hdr := hdr, uf_want := 0, uf_body := []\<rparr>, rest, False))" if "\<not> ok (uf_sent f) []"
          by (rule wrote_stop) (use that in auto)
        ultimately show ?thesis using True two by (simp add: eq between_def)
      next
        case False
        have "wrote ok f p res" if "wrote ok (f\<lparr>uf_hdr := hdr, uf_want := unat (get16 hdr), uf_body := []\<rparr>) rest res" for res
          by (rule wrote_same[OF that]) (use all two in \<open>simp_all add: partial_def\<close>)
        then show ?thesis using False two head by (simp add: eq between_def)
      qed
    qed
  next
    case tail
    then have b: "length (uf_hdr f) = 2" "uf_want f = unat (get16 (uf_hdr f))" "length (uf_body f) < uf_want f"
      using assms by (auto simp: between_def)
    define need where "need = min (uf_want f - length (uf_body f)) (length p)"
    define body where "body = uf_body f @ take need p"
    define rest where "rest = drop need p"
    note eq = write_turn_tail[OF tail b(3) need_def body_def rest_def, of ok]
    have all: "partial f @ p = uf_hdr f @ body @ rest" using tail by (simp add: partial_def body_def rest_def)
    have len: "length body \<le> uf_want f" using b(3) by (auto simp: body_def need_def min_def)
    show ?thesis
    proof (cases "length body = uf_want f")
      case True
      note fr = header_frame[of "uf_hdr f" body, OF b(1)]
      have "wrote ok f p res" if "wrote ok (f\<lparr>uf_hdr := [], uf_want := 0, uf_body := [], uf_sent := uf_sent f @ [body]\<rparr>) rest res" for res
        by (rule wrote_one[OF that]) (use all fr True b(2) in \<open>simp_all add: partial_def flip: append_assoc\<close>)
      moreover have "wrote ok f p (Some (f\<lparr>uf_body := body\<rparr>, rest, False))" if "\<not> ok (uf_sent f) body"
        by (rule wrote_stop) (use that in auto)
      ultimately show ?thesis using True by (simp add: eq between_def)
    next
      case False
      have "wrote ok f p res" if "wrote ok (f\<lparr>uf_body := body\<rparr>) rest res" for res
        by (rule wrote_same[OF that]) (use all b(1) in \<open>simp_all add: partial_def\<close>)
      then show ?thesis using False len b by (simp add: eq between_def)
    qed
  qed
qed

lemma write_loop_frames: "between f \<Longrightarrow> wrote ok f p (write_loop ok f p)"
proof (induction ok f p rule: write_loop.induct)
  case (1 ok f p)
  then show ?case using write_turn_frames[OF 1(2), of ok p] by (subst write_loop.simps) (auto split: sum.splits)
qed


text \<open>Writing a stream in pieces is writing it whole, up to the datagram that could not be sent.\<close>

lemma write_chunks_frames:
  assumes "between f"
  shows "\<exists>f' ds r. write_chunks ok cs f = Some f' \<and> uf_sent f' = uf_sent f @ ds \<and>
    list_all (\<lambda>d. length d \<le> MaxDatagram) ds \<and> partial f @ concat cs = concat (map datagram_frame ds) @ r \<and>
    ((\<forall>h d. ok h d) \<and> \<not> uf_done f \<longrightarrow> between f' \<and> r = partial f')"
  using assms
proof (induction cs arbitrary: f)
  case Nil
  then show ?case by (intro exI[of _ f] exI[of _ "[]"] exI[of _ "partial f"]) simp
next
  case (Cons c cs)
  obtain g rest good ds r where w: "write_loop ok f c = Some (g, rest, good)" "uf_sent g = uf_sent f @ ds"
    "list_all (\<lambda>d. length d \<le> MaxDatagram) ds" "partial f @ c = concat (map datagram_frame ds) @ r"
    "good \<longrightarrow> rest = [] \<and> between g \<and> partial g = r \<and> uf_done g = uf_done f" "(\<forall>h d. ok h d) \<and> \<not> uf_done f \<longrightarrow> good"
    using write_loop_frames[OF Cons.prems, of ok c] unfolding wrote_def by (elim exE conjE) (rule that; assumption)
  show ?case
  proof (cases good)
    case True
    then have g: "between g" "partial g = r" "uf_done g = uf_done f" using w(5) by auto
    obtain f' es r' where f': "write_chunks ok cs g = Some f'" "uf_sent f' = uf_sent g @ es"
      "list_all (\<lambda>d. length d \<le> MaxDatagram) es" "partial g @ concat cs = concat (map datagram_frame es) @ r'"
      "(\<forall>h d. ok h d) \<and> \<not> uf_done g \<longrightarrow> between f' \<and> r' = partial f'"
      using Cons.IH[OF g(1)] by blast
    have "partial f @ concat (c # cs) = concat (map datagram_frame (ds @ es)) @ r'"
      using w(4) f'(4) g(2) by (simp flip: append_assoc) simp
    then show ?thesis using True w(1-3) f' g
      by (intro exI[of _ f'] exI[of _ "ds @ es"] exI[of _ r']) (simp add: flow_Write_def)
  next
    case False
    then have no: "((\<forall>h d. ok h d) \<and> \<not> uf_done f) = False" using w(6) by blast
    show ?thesis unfolding no using False w(1-4)
      by (intro exI[of _ g] exI[of _ ds] exI[of _ "r @ concat cs"]) (simp add: flow_Write_def flip: append_assoc)
  qed
qed

lemma read_all_none: "get s = None \<Longrightarrow> read_all get s = []"
  by (subst read_all.simps) simp

lemma tunnelToBackend_eq: "tunnelToBackend s = read_all next_datagram s"
  unfolding tunnelToBackend_def by (rule arg_cong[where f = "\<lambda>g. read_all g s"]) (rule ext, simp add: next_datagram_def)

lemma backendToTunnel_eq: "list_all (\<lambda>d. length d \<le> MaxDatagram) ds \<Longrightarrow> backendToTunnel ds = concat (map datagram_frame ds)"
  by (induction ds) (auto simp: datagram_frame_def WriteDatagram_def)

text \<open>What a flow still has to hand to the relay.\<close>

definition unread :: "udpFlow \<Rightarrow> bytes" where
  "unread f = uf_pending f @ concat (map flow_frame (uf_in f))"

lemma flow_Read_unread:
  assumes "flow_Read n f = Some (f', b)"
  shows "unread f = b @ unread f'" "length (uf_in f') \<le> length (uf_in f)"
  using assms by (auto simp: flow_Read_def unread_def Let_def split: if_splits list.splits)

definition flow_inv :: "udpFlow \<times> bytes list \<times> bytes \<Rightarrow> bool" where
  "flow_inv = (\<lambda>(f, taken, out). out @ unread f = concat (map flow_frame taken) \<and> length (uf_in f) \<le> udpFlowQueue \<and>
     list_all (\<lambda>d. length d \<le> MaxDatagram) taken)"

lemma flow_step_inv:
  assumes "flow_inv s" "\<forall>pick d. e = Arrives pick d \<longrightarrow> length d \<le> MaxDatagram"
  shows "flow_inv (flow_step e s)"
proof -
  obtain f taken out where s: "s = (f, taken, out)" by (metis prod_cases3)
  show ?thesis
  proof (cases e)
    case (Arrives pick d)
    then show ?thesis using assms by (auto simp: s flow_inv_def deliver_def unread_def Let_def simp flip: append_assoc)
  next
    case (Reads n)
    then show ?thesis using assms(1) by (auto simp: s flow_inv_def dest: flow_Read_unread split: option.splits prod.splits)
  next
    case Closes
    then show ?thesis using assms(1) by (simp add: s flow_inv_def unread_def)
  qed
qed

lemma flow_fold_inv:
  "flow_inv s \<Longrightarrow> list_all (\<lambda>d. length d \<le> MaxDatagram) (arrivals es) \<Longrightarrow> flow_inv (fold flow_step es s)"
proof (induction es arbitrary: s)
  case (Cons e es)
  have "flow_inv (flow_step e s)" using Cons.prems by (intro flow_step_inv) auto
  then show ?case using Cons.prems(2) Cons.IH by (cases e) simp_all
qed simp

section \<open>Properties\<close>



text \<open>(C29) Replies are put together again from whatever chunks the tunnel hands over. Writing a stream of frames in
  any pieces never panics and sends the datagrams a reader of frames finds in the whole stream, in that order and up
  to the first that cannot be sent; so replies the client framed come out as they were.\<close>
theorem udp_replies_reassembled:
  "\<exists>f'. write_chunks ok cs newUDPFlow = Some f' \<and> prefix (uf_sent f') (tunnelToBackend (concat cs)) \<and>
    ((\<forall>h d. ok h d) \<longrightarrow> uf_sent f' = tunnelToBackend (concat cs) \<and>
      (\<forall>ds. list_all (\<lambda>d. length d \<le> MaxDatagram) ds \<and> concat cs = backendToTunnel ds \<longrightarrow> uf_sent f' = ds))"
proof -
  have n: "between newUDPFlow" "\<not> uf_done newUDPFlow" "partial newUDPFlow = []" "uf_sent newUDPFlow = []"
    by (simp_all add: between_def newUDPFlow_def partial_def)
  obtain f' ds r where w: "write_chunks ok cs newUDPFlow = Some f'" "uf_sent f' = ds"
    "list_all (\<lambda>d. length d \<le> MaxDatagram) ds" "concat cs = concat (map datagram_frame ds) @ r"
    "(\<forall>h d. ok h d) \<longrightarrow> between f' \<and> r = partial f'"
    using write_chunks_frames[OF n(1), of ok cs] unfolding n(3,4) append_Nil by (elim exE conjE) (rule that, use n(2) in auto)
  have all: "tunnelToBackend (concat cs) = ds @ read_all next_datagram r"
    using udp_frame.read_all_puts[OF w(3), of r] by (simp add: tunnelToBackend_eq w(4))
  have whole: "uf_sent f' = tunnelToBackend (concat cs)" if "\<forall>h d. ok h d"
    using w(5) that all by (simp add: w(2) read_all_none partial_not_whole)
  have "tunnelToBackend (backendToTunnel es) = es" if "list_all (\<lambda>d. length d \<le> MaxDatagram) es" for es
    using udp_frame.read_all_puts[OF that, of "[]"] by (simp add: tunnelToBackend_eq backendToTunnel_eq[OF that])
  then show ?thesis using w(1,2) all whole by (intro exI[of _ f']) auto
qed

theorem udp_replies_reassembled_witness:
  "map_option uf_sent (write_chunks (\<lambda>h d. True) [[0], [2, 9], [9, 0, 0]] newUDPFlow) = Some [[9, 9], []]"
proof -
  have ds: "list_all (\<lambda>d. length d \<le> MaxDatagram) [[9, 9], []]" by (simp add: MaxDatagram_def)
  have "concat [[0], [2, 9], [9, 0, 0]] = backendToTunnel [[9, 9], []]"
    by (simp add: WriteDatagram_def MaxDatagram_def put16_bytes)
  then obtain f' where "write_chunks (\<lambda>h d. True) [[0], [2, 9], [9, 0, 0]] newUDPFlow = Some f'" "uf_sent f' = [[9, 9], []]"
    using udp_replies_reassembled[of "\<lambda>h d. True" "[[0], [2, 9], [9, 0, 0]]"] ds by blast
  then show ?thesis by (simp only: option.map)
qed

lemma target_mark_roundtrip: "SplitUDPTarget (MarkUDP addr) = (addr, True)"
  by (simp add: SplitUDPTarget_def MarkUDP_def)

subsection \<open>The forwarder\<close>

definition filed_ok :: "udpForwarder \<Rightarrow> string \<Rightarrow> nat \<Rightarrow> bool" where
  "filed_ok fw key i \<longleftrightarrow> i < length (fw_keys fw) \<and> fw_keys fw ! i = key \<and> (i \<in> set (fw_done fw) \<longrightarrow> i \<in> set (fw_leaving fw))"

definition fw_inv :: "udpForwarder \<Rightarrow> bool" where
  "fw_inv fw \<longleftrightarrow> (\<forall>key i. fw_flows fw key = Some i \<longrightarrow> filed_ok fw key i) \<and>
     (\<forall>i \<in> set (fw_done fw). i < length (fw_keys fw))"

lemma fw_step_inv:
  assumes "fw_inv fw" shows "fw_inv (fw_step e fw)"
proof -
  have ok: "filed_ok fw key i" if "fw_flows fw key = Some i" for key i using assms that by (simp add: fw_inv_def)
  have gone: "i < length (fw_keys fw)" if "i \<in> set (fw_done fw)" for i using assms that by (simp add: fw_inv_def)
  show ?thesis
  proof (cases e)
    case (Arrival key)
    have new: "length (fw_keys fw) \<notin> set (fw_done fw)" using gone by blast
    show ?thesis
    proof (cases "fw_flows fw key = None \<and> \<not> fw_closed fw")
      case True
      then have "fw_step e fw = fw\<lparr>fw_flows := (fw_flows fw)(key \<mapsto> length (fw_keys fw)), fw_keys := fw_keys fw @ [key]\<rparr>"
        by (simp add: Arrival file_datagram_def)
      then show ?thesis using new by (auto simp: fw_inv_def filed_ok_def nth_append dest: ok gone less_SucI)
    next
      case False
      then have "fw_step e fw = fw" by (auto simp: Arrival file_datagram_def split: option.splits)
      then show ?thesis using assms by simp
    qed
  next
    case (Begin i)
    then show ?thesis by (auto simp: fw_inv_def close_begin_def filed_ok_def dest: ok gone)
  next
    case (End i)
    show ?thesis
    proof (cases "i \<in> set (fw_leaving fw)")
      case True
      then have e: "fw_step e fw = (forget (fw_keys fw ! i) i fw)\<lparr>fw_leaving := removeAll i (fw_leaving fw)\<rparr>"
        by (simp add: End close_end_def)
      have "filed_ok (fw_step e fw) key j" if j: "fw_flows (fw_step e fw) key = Some j" for key j
      proof -
        have f: "fw_flows fw key = Some j" using j by (auto simp: e forget_def split: if_splits)
        have "j \<noteq> i" using j ok[OF f] by (auto simp: e forget_def filed_ok_def split: if_splits)
        then show ?thesis using ok[OF f] by (auto simp: e forget_def filed_ok_def)
      qed
      moreover have "fw_done (fw_step e fw) = fw_done fw" "fw_keys (fw_step e fw) = fw_keys fw" by (simp_all add: e forget_def)
      ultimately show ?thesis using gone by (simp add: fw_inv_def)
    next
      case False
      then show ?thesis using assms by (simp add: End close_end_def)
    qed
  next
    case Stop
    then show ?thesis by (auto simp: fw_inv_def filed_ok_def dest: ok gone)
  qed
qed

lemma fw_fold_inv: "fw_inv fw \<Longrightarrow> fw_inv (fold fw_step es fw)"
  by (induction es arbitrary: fw) (simp_all add: fw_step_inv)

text \<open>A flow that is gone never silences its address. Whatever datagrams, closings and stops have
  happened, a flow filed under an address is that address's own, and open unless a \<open>Close\<close> of it is still on its way
  to \<open>forget\<close>; once it has got there the next datagram from the address starts a new flow, and the end of an old
  flow never takes away the newer one of its address.\<close>
theorem udp_address_recovers:
  assumes "fold fw_step es newUDPForwarder = fw" "fw_flows fw key = Some i"
  shows "fw_keys fw ! i = key \<and> (i \<in> set (fw_done fw) \<longrightarrow> i \<in> set (fw_leaving fw)) \<and>
    (\<not> fw_closed fw \<longrightarrow> file_datagram key (close_end i (close_begin i fw)) =
       ((close_end i (close_begin i fw))\<lparr>fw_flows := (fw_flows fw)(key \<mapsto> length (fw_keys fw)), fw_keys := fw_keys fw @ [key]\<rparr>,
        Some (length (fw_keys fw), False))) \<and>
    (j \<noteq> i \<longrightarrow> fw_flows (close_end j (close_begin j fw)) key = Some i)"
proof -
  have "fw_inv newUDPForwarder" by (simp add: fw_inv_def newUDPForwarder_def)
  then have inv: "fw_inv fw" using fw_fold_inv assms(1) by blast
  then have ok: "filed_ok fw key i" using assms(2) by (simp add: fw_inv_def)
  then have k: "fw_keys fw ! i = key" "i \<in> set (fw_done fw) \<longrightarrow> i \<in> set (fw_leaving fw)" by (simp_all add: filed_ok_def)
  define g where "g = close_begin i fw"
  have g: "fw_flows g = fw_flows fw" "fw_keys g = fw_keys fw" "fw_closed g = fw_closed fw" "i \<in> set (fw_leaving g)"
    using k(2) by (auto simp: g_def close_begin_def)
  have "fw_flows (close_end i g) = (fw_flows fw)(key := None)" "fw_keys (close_end i g) = fw_keys fw"
    "fw_closed (close_end i g) = fw_closed fw"
    using g k(1) assms(2) by (simp_all add: close_end_def forget_def)
  then have "\<not> fw_closed fw \<longrightarrow> file_datagram key (close_end i g) =
       ((close_end i g)\<lparr>fw_flows := (fw_flows fw)(key \<mapsto> length (fw_keys fw)), fw_keys := fw_keys fw @ [key]\<rparr>,
        Some (length (fw_keys fw), False))"
    by (simp add: file_datagram_def)
  moreover have "j \<noteq> i \<longrightarrow> fw_flows (close_end j (close_begin j fw)) key = Some i"
    using assms(2) by (auto simp: close_begin_def close_end_def forget_def)
  ultimately show ?thesis using k by (simp add: g_def)
qed

theorem udp_address_recovers_witness:
  "fw_flows (fold fw_step [Arrival ''a'', Begin 0, End 0, Arrival ''a'', End 0] newUDPForwarder) ''a'' = Some 1"
proof -
  define fw where "fw = fold fw_step [Arrival ''a'', Begin 0, End 0, Arrival ''a''] newUDPForwarder"
  have f: "fw_flows fw ''a'' = Some 1"
    by (simp add: fw_def newUDPForwarder_def file_datagram_def close_begin_def close_end_def forget_def)
  have "fw_leaving fw = [] \<and> fw_done fw = [0]"
    by (simp add: fw_def newUDPForwarder_def file_datagram_def close_begin_def close_end_def forget_def)
  then have "close_end 0 fw = close_end 0 (close_begin 0 fw)" by (simp add: close_begin_def)
  then have "fw_flows (close_end 0 fw) ''a'' = Some 1"
    using udp_address_recovers[OF fw_def[symmetric] f, of 0] by simp
  then show ?thesis by (simp add: fw_def)
qed

end
