(* ===== verification/Checksum.thy ===== *)
theory Checksum
  imports Prelude
begin

text \<open>
  The internet checksum of \<open>src/internal/utils/network/spoofpacket.go\<close>, which the packet-level carriers put into the
  headers they build, and what it means to a receiver: a message that carries its own checksum sums to all ones.
\<close>

section \<open>Definitions\<close>

text \<open>One part: pairs of bytes in network order, an odd last byte as the high half. The sum wraps at 32 bits.\<close>

fun add_words :: "u32 \<Rightarrow> bytes \<Rightarrow> u32" where
  "add_words s (a # b # r) = add_words (s + (push_bit 8 (ucast a) OR ucast b)) r"
| "add_words s [a] = s + push_bit 8 (ucast a)"
| "add_words s [] = s"

text \<open>\<open>for sum>>16 != 0\<close>, which ends because every turn makes the sum smaller.\<close>

lemma unat_byte: "unat (b :: byte) < 256"
  using unsigned_less[of b, where 'a = nat] by simp

lemma unat_ucast_byte: "unat (ucast b :: u32) = unat (b :: byte)"
  using unat_byte[of b] by (simp add: unsigned_ucast_eq take_bit_eq_mod)

lemma unat_byte_pair: "unat (push_bit 8 (ucast a) OR ucast b :: u32) = 256 * unat (a :: byte) + unat (b :: byte)"
proof -
  have "push_bit 8 (ucast a) OR ucast b = push_bit 8 (ucast a) + (ucast b :: u32)"
    by (rule disjunctive_add[symmetric]) (auto simp: bit_simps dest: bit_imp_le_length)
  also have "\<dots> = 256 * ucast a + ucast b" by (simp add: push_bit_eq_mult)
  finally show ?thesis using unat_byte[of a] unat_byte[of b] by (simp add: unat_word_ariths unat_ucast_byte)
qed

lemma unat_fold_turn: "unat ((s AND 0xffff) + drop_bit 16 s :: u32) = unat s mod 65536 + unat s div 65536"
proof -
  have m: "s AND 0xffff = take_bit 16 s" by (simp add: take_bit_eq_mask mask_eq_exp_minus_1)
  have "unat s < 4294967296" using unsigned_less[of s, where 'a = nat] by simp
  then have q: "unat s div 65536 < 65536" by (simp add: less_mult_imp_div_less)
  have r: "unat s mod 65536 < 65536" by simp
  have "unat (take_bit 16 s) = unat s mod 65536" by (simp only: unsigned_take_bit_eq) (simp add: take_bit_eq_mod)
  moreover have "unat (drop_bit 16 s) = unat s div 65536" by (simp only: unat_drop_bit_eq) (simp add: drop_bit_eq_div)
  moreover have "unat s mod 65536 + unat s div 65536 < 2 ^ LENGTH(32)" using q r by simp
  ultimately show ?thesis unfolding m by (simp only: unat_word_ariths mod_less)
qed

lemma drop16_zero: "drop_bit 16 s = 0 \<longleftrightarrow> unat (s :: u32) < 65536"
proof -
  have "drop_bit 16 s = 0 \<longleftrightarrow> unat (drop_bit 16 s) = 0" by (simp only: unat_eq_zero)
  also have "\<dots> \<longleftrightarrow> unat s div 65536 = 0" by (simp only: unat_drop_bit_eq) (simp add: drop_bit_eq_div)
  finally show ?thesis by (simp add: div_eq_0_iff)
qed

function fold16 :: "u32 \<Rightarrow> u32" where
  "fold16 s = (if drop_bit 16 s \<noteq> 0 then fold16 ((s AND 0xffff) + drop_bit 16 s) else s)"
  by pat_completeness auto
termination
proof (relation "measure unat")
  fix s :: u32
  assume "drop_bit 16 s \<noteq> 0"
  then have "65536 \<le> unat s" by (simp add: drop16_zero not_less)
  then have q: "0 < unat s div 65536" by (simp add: div_greater_zero_iff)
  have "m + d < d * 65536 + m" if "0 < d" for m d :: nat using that by simp
  from this[OF q, of "unat s mod 65536"] have "unat s mod 65536 + unat s div 65536 < unat s" by (simp only: div_mult_mod_eq)
  then show "((s AND 0xffff) + drop_bit 16 s, s) \<in> measure unat" by (simp only: in_measure unat_fold_turn)
qed simp

declare fold16.simps [simp del]

definition onesComplement :: "bytes list \<Rightarrow> u16" where
  "onesComplement parts = NOT (ucast (fold16 (fold (\<lambda>b s. add_words s b) parts 0)))"

text \<open>\<open>copy\<close> into \<open>n\<close> fresh bytes.\<close>

definition fresh_copy :: "nat \<Rightarrow> bytes \<Rightarrow> bytes" where
  "fresh_copy n src = take n src @ replicate (n - length src) 0"

definition pseudo_header :: "bytes \<Rightarrow> bytes \<Rightarrow> byte \<Rightarrow> nat \<Rightarrow> bytes" where
  "pseudo_header src dst proto len = fresh_copy 4 src @ fresh_copy 4 dst @ [0, proto] @ put16 (word_of_nat len)"

definition l4Checksum :: "bytes \<Rightarrow> bytes \<Rightarrow> byte \<Rightarrow> bytes \<Rightarrow> u16" where
  "l4Checksum src dst proto segment = onesComplement [pseudo_header src dst proto (length segment), segment]"

section \<open>Specification\<close>

text \<open>The sum of 16-bit words as a number, and the ones' complement sum.\<close>

fun wsum :: "bytes \<Rightarrow> nat" where
  "wsum (a # b # r) = 256 * unat a + unat b + wsum r"
| "wsum [a] = 256 * unat a"
| "wsum [] = 0"

definition ocsum :: "nat \<Rightarrow> nat" where "ocsum n = (if n = 0 then 0 else (n - 1) mod 65535 + 1)"

text \<open>A receiver's check.\<close>

definition sums_to_ones :: "bytes list \<Rightarrow> bool" where "sums_to_ones parts \<longleftrightarrow> onesComplement parts = 0"

section \<open>Lemmas\<close>

lemma wsum_append: "even (length a) \<Longrightarrow> wsum (a @ b) = wsum a + wsum b"
  by (induction a rule: wsum.induct) simp_all

lemma wsum_bound: "wsum b \<le> 65535 * ((length b + 1) div 2)"
proof (induction b rule: wsum.induct)
  case (1 a b r)
  then show ?case using unat_byte[of a] unat_byte[of b] by simp
next
  case (2 a)
  then show ?case using unat_byte[of a] by simp
qed simp

lemma wsum_put16: "wsum (put16 w) = unat w"
proof -
  have p: "put16 w = [ucast (drop_bit 8 w), ucast w]" by (simp add: put16_def eval_nat_numeral)
  have w: "unat w < 65536" using unsigned_less[of w, where 'a = nat] by simp
  have "unat (ucast (drop_bit 8 w) :: byte) = unat w div 256"
  proof -
    have "unat (drop_bit 8 w) = unat w div 256" by (simp only: unat_drop_bit_eq) (simp add: drop_bit_eq_div)
    moreover have "unat w div 256 < 256" using w by (simp add: less_mult_imp_div_less)
    ultimately show ?thesis by (simp only: unsigned_ucast_eq take_bit_eq_mod) simp
  qed
  moreover have "unat (ucast w :: byte) = unat w mod 256" by (simp add: unsigned_ucast_eq take_bit_eq_mod)
  ultimately show ?thesis by (simp add: p)
qed

lemma unat_add_words: "unat s + wsum b < 2 ^ 32 \<Longrightarrow> unat (add_words s b) = unat s + wsum b"
proof (induction s b rule: add_words.induct)
  case (1 s a b r)
  have "unat (s + (push_bit 8 (ucast a) OR ucast b)) = unat s + (256 * unat a + unat b)"
    using 1(2) by (simp add: unat_word_ariths unat_byte_pair)
  then show ?case using 1 by simp
next
  case (2 s a)
  then show ?case using unat_byte_pair[of a 0] by (simp add: unat_word_ariths)
qed simp

lemma unat_fold16: "unat (fold16 s) = ocsum (unat s)"
proof (induction s rule: fold16.induct)
  case (1 s)
  show ?case
  proof (cases "drop_bit 16 s = 0")
    case True
    then have "unat s < 65536" by (simp add: drop16_zero)
    then show ?thesis using True by (subst fold16.simps) (simp add: ocsum_def)
  next
    case False
    then have b: "65536 \<le> unat s" by (simp add: drop16_zero not_less)
    define q r where "q = unat s div 65536" and "r = unat s mod 65536"
    have s: "unat s = 65536 * q + r" by (simp add: q_def r_def)
    have "0 < q" using b by (simp add: q_def div_greater_zero_iff)
    then have "65536 * q + r - 1 = r + q - 1 + 65535 * q" by simp
    then have "ocsum (65536 * q + r) = ocsum (r + q)" using \<open>0 < q\<close> unfolding ocsum_def by (simp only: mod_mult_self2) simp
    then have "ocsum (unat s) = ocsum (unat ((s AND 0xffff) + drop_bit 16 s))"
      unfolding unat_fold_turn s[symmetric] q_def[symmetric] r_def[symmetric] by (simp only: s)
    moreover have "fold16 s = fold16 ((s AND 0xffff) + drop_bit 16 s)"
      by (rule trans[OF fold16.simps]) (simp only: False if_True not_False_eq_True)
    ultimately show ?thesis using 1[OF False] by (simp only:)
  qed
qed

lemma ocsum_le: "ocsum n \<le> 65535"
  using mod_less_divisor[of 65535 "n - 1"] unfolding ocsum_def by (simp del: mod_less_divisor)

lemma ocsum_complement: "ocsum (n + (65535 - ocsum n)) = 65535"
proof (cases "n = 0")
  case False
  define k m where "k = (n - 1) div 65535" and "m = (n - 1) mod 65535"
  have n: "n = 65535 * k + m + 1" using False by (simp add: k_def m_def)
  have m: "m < 65535" by (simp add: m_def)
  have "ocsum n = m + 1" using False by (simp add: ocsum_def m_def)
  then have "n + (65535 - ocsum n) = 65535 * k + 65535" using n m by simp
  then have "n + (65535 - ocsum n) - 1 = 65534 + 65535 * k" by simp
  then show ?thesis using False by (simp add: ocsum_def)
qed (simp add: ocsum_def)

lemma unat_onesComplement:
  assumes "(\<Sum>b \<leftarrow> parts. wsum b) < 2 ^ 32"
  shows "unat (onesComplement parts) = 65535 - ocsum (\<Sum>b \<leftarrow> parts. wsum b)"
proof -
  have "unat (fold (\<lambda>b s. add_words s b) parts s) = unat s + (\<Sum>b \<leftarrow> parts. wsum b)"
    if "unat s + (\<Sum>b \<leftarrow> parts. wsum b) < 2 ^ 32" for s
    using that by (induction parts arbitrary: s) (simp_all add: unat_add_words)
  from this[of 0] have f: "unat (fold (\<lambda>b s. add_words s b) parts 0) = (\<Sum>b \<leftarrow> parts. wsum b)" using assms by simp
  have "unat (ucast (fold16 (fold (\<lambda>b s. add_words s b) parts 0)) :: u16) = ocsum (\<Sum>b \<leftarrow> parts. wsum b)"
    using ocsum_le[of "\<Sum>b \<leftarrow> parts. wsum b"] by (simp add: unsigned_ucast_eq take_bit_eq_mod unat_fold16 f)
  moreover have "unat (NOT w) = 65535 - unat w" for w :: u16
  proof -
    have "NOT w = - 1 - w" by (simp add: not_eq_complement)
    moreover have "w \<le> - 1" by simp
    ultimately show ?thesis by (simp add: unat_sub unsigned_minus_1_eq_mask mask_eq_exp_minus_1)
  qed
  ultimately show ?thesis by (simp add: onesComplement_def)
qed

text \<open>Parts that hold their own checksum: the words but one, and then the complement of what they sum to.\<close>

lemma checksum_completes:
  assumes "(\<Sum>b \<leftarrow> zeroed. wsum b) + 65535 < 2 ^ 32"
    and "(\<Sum>b \<leftarrow> filled. wsum b) = (\<Sum>b \<leftarrow> zeroed. wsum b) + unat (onesComplement zeroed)"
  shows "sums_to_ones filled"
proof -
  let ?n = "\<Sum>b \<leftarrow> zeroed. wsum b"
  have c: "unat (onesComplement zeroed) = 65535 - ocsum ?n" using assms(1) by (intro unat_onesComplement) simp
  then have "unat (onesComplement filled) = 65535 - ocsum (?n + (65535 - ocsum ?n))"
    using assms by (subst unat_onesComplement) simp_all
  then have "unat (onesComplement filled) = 0" by (simp only: ocsum_complement)
  then show ?thesis by (simp add: sums_to_ones_def unat_eq_zero)
qed

text \<open>A message with room for the checksum at an even place, once it is filled in.\<close>

lemma filled_sums:
  assumes "even (length a)" "(\<Sum>b \<leftarrow> pre @ [a @ [0, 0] @ z]. wsum b) + 65535 < 2 ^ 32"
  shows "sums_to_ones (pre @ [a @ put16 (onesComplement (pre @ [a @ [0, 0] @ z])) @ z])"
proof (rule checksum_completes[OF assms(2)])
  have "wsum (put16 w @ z) = unat w + wsum z" for w by (simp add: wsum_append wsum_put16)
  then show "(\<Sum>b \<leftarrow> pre @ [a @ put16 (onesComplement (pre @ [a @ [0, 0] @ z])) @ z]. wsum b) =
      (\<Sum>b \<leftarrow> pre @ [a @ [0, 0] @ z]. wsum b) + unat (onesComplement (pre @ [a @ [0, 0] @ z]))"
    using assms(1) by (simp add: wsum_append)
qed

end
