(* ===== verification/PacketFilter.thy ===== *)
theory PacketFilter
  imports Prelude
begin

text \<open>
  The programs the packet-level carriers hand to the kernel, \<open>src/internal/utils/network/pckframe.go\<close> and
  \<open>src/internal/utils/network/spoofbpf.go\<close>. The machine that runs them is the kernel's; what the code relies on of
  it, the documented effect of the instructions used, is the hypothesis \<open>kernel_filter\<close>. Assembling only encodes.
\<close>

section \<open>Definitions\<close>

datatype bpf_cond = JumpEqual | JumpNotEqual | JumpBitsSet

text \<open>Offset and size of loads; the comparison, its value and how many instructions to skip when it holds or not.\<close>

datatype bpf_insn =
    LoadAbsolute nat nat
  | LoadIndirect nat nat
  | LoadMemShift nat
  | ALUOpAnd u32
  | JumpIf bpf_cond u32 nat nat
  | RetConstant nat

definition bpfAccept :: nat where "bpfAccept = 262144"

text \<open>The loop of \<open>pckBPFProgram\<close> that points every jump at the last instruction.\<close>

fun patch_jumps :: "nat \<Rightarrow> nat \<Rightarrow> bpf_insn list \<Rightarrow> bpf_insn list option" where
  "patch_jumps reject i [] = Some []"
| "patch_jumps reject i (ins # prog) =
     (case ins of
        JumpIf c v t f \<Rightarrow>
          (let skip = int reject - int i - 1 in
           if skip < 0 \<or> skip > 255 then None
           else map_option (\<lambda>rest. JumpIf c v (nat skip) f # rest) (patch_jumps reject (i + 1) prog))
      | _ \<Rightarrow> map_option (\<lambda>rest. ins # rest) (patch_jumps reject (i + 1) prog))"

definition pckBPFProgram :: "u16 \<Rightarrow> nat \<Rightarrow> bpf_insn list option" where
  "pckBPFProgram port l =
     (let link = (if l = 14 then [LoadAbsolute 12 2, JumpIf JumpNotEqual 0x0800 0 0]
                  else [LoadAbsolute 0 1, ALUOpAnd 0xf0, JumpIf JumpNotEqual 0x40 0 0]);
          prog = link @
            [LoadAbsolute (l + 9) 1, JumpIf JumpNotEqual 6 0 0,
             LoadAbsolute (l + 6) 2, JumpIf JumpBitsSet 0x1fff 0 0,
             LoadMemShift l, LoadIndirect (l + 2) 2, JumpIf JumpNotEqual (ucast port) 0 0,
             RetConstant bpfAccept, RetConstant 0]
      in patch_jumps (length prog - 1) 0 prog)"

section \<open>Specification\<close>

definition bpf_holds :: "bpf_cond \<Rightarrow> u32 \<Rightarrow> u32 \<Rightarrow> bool" where
  "bpf_holds c a v = (case c of JumpEqual \<Rightarrow> a = v | JumpNotEqual \<Rightarrow> a \<noteq> v | JumpBitsSet \<Rightarrow> a AND v \<noteq> 0)"

text \<open>What one instruction does, given the machine: the program, where it is, accumulator, index register, packet. A
  load outside the packet ends the run with nothing accepted.\<close>

definition bpf_turn :: "(bpf_insn list \<Rightarrow> nat \<Rightarrow> u32 \<Rightarrow> u32 \<Rightarrow> bytes \<Rightarrow> nat) \<Rightarrow> bpf_insn list \<Rightarrow> nat \<Rightarrow> u32 \<Rightarrow> u32 \<Rightarrow> bytes \<Rightarrow> nat" where
  "bpf_turn run prog pc a x pkt =
     (if pc \<ge> length prog then 0
      else case prog ! pc of
        LoadAbsolute off n \<Rightarrow> if off + n \<le> length pkt then run prog (pc + 1) (be_get (take n (drop off pkt))) x pkt else 0
      | LoadIndirect off n \<Rightarrow>
          if unat x + off + n \<le> length pkt then run prog (pc + 1) (be_get (take n (drop (unat x + off) pkt))) x pkt else 0
      | LoadMemShift off \<Rightarrow> if off < length pkt then run prog (pc + 1) a (4 * (ucast (pkt ! off) AND 0xf)) pkt else 0
      | ALUOpAnd v \<Rightarrow> run prog (pc + 1) (a AND v) x pkt
      | JumpIf c v t f \<Rightarrow> run prog (pc + 1 + (if bpf_holds c a v then t else f)) a x pkt
      | RetConstant v \<Rightarrow> v)"

definition kernel_filter :: "(bpf_insn list \<Rightarrow> nat \<Rightarrow> u32 \<Rightarrow> u32 \<Rightarrow> bytes \<Rightarrow> nat) \<Rightarrow> bool" where
  "kernel_filter run \<longleftrightarrow> (\<forall>prog pc a x pkt. run prog pc a x pkt = bpf_turn run prog pc a x pkt)"

text \<open>A machine that does this; jumps only go forward.\<close>

function bpf_machine :: "bpf_insn list \<Rightarrow> nat \<Rightarrow> u32 \<Rightarrow> u32 \<Rightarrow> bytes \<Rightarrow> nat" where
  "bpf_machine prog pc a x pkt =
     (if pc \<ge> length prog then 0
      else case prog ! pc of
        LoadAbsolute off n \<Rightarrow>
          if off + n \<le> length pkt then bpf_machine prog (pc + 1) (be_get (take n (drop off pkt))) x pkt else 0
      | LoadIndirect off n \<Rightarrow>
          if unat x + off + n \<le> length pkt then bpf_machine prog (pc + 1) (be_get (take n (drop (unat x + off) pkt))) x pkt else 0
      | LoadMemShift off \<Rightarrow> if off < length pkt then bpf_machine prog (pc + 1) a (4 * (ucast (pkt ! off) AND 0xf)) pkt else 0
      | ALUOpAnd v \<Rightarrow> bpf_machine prog (pc + 1) (a AND v) x pkt
      | JumpIf c v t f \<Rightarrow> bpf_machine prog (pc + 1 + (if bpf_holds c a v then t else f)) a x pkt
      | RetConstant v \<Rightarrow> v)"
  by pat_completeness auto
termination by (relation "measure (\<lambda>(prog, pc, a, x, pkt). length prog - pc)") auto

declare bpf_machine.simps [simp del]

section \<open>Lemmas\<close>

lemma bpf_machine_kernel: "kernel_filter bpf_machine"
  unfolding kernel_filter_def bpf_turn_def by (intro allI) (rule bpf_machine.simps)

lemma filter_turn: "kernel_filter run \<Longrightarrow> run prog pc a x pkt = bpf_turn run prog pc a x pkt"
  by (simp add: kernel_filter_def)

lemma byte_bit: "bit (a :: byte) n \<Longrightarrow> n < 8"
  using bit_imp_le_length[of a n] by simp

lemma be_get_two: "(be_get (take 2 b) :: u32) = ucast (get16 b)"
proof -
  have one: "(ucast a :: u32) = ucast (ucast a :: u16)" for a :: byte
  proof (rule bit_word_eqI)
    show "bit (ucast a :: u32) n = bit (ucast (ucast a :: u16) :: u32) n" if "n < LENGTH(32)" for n
      using that byte_bit[of a n] by (auto simp: bit_simps)
  qed
  have two: "(push_bit 8 (ucast a) OR ucast c :: u32) = ucast (push_bit 8 (ucast a) OR ucast c :: u16)" for a c :: byte
  proof (rule bit_word_eqI)
    fix n
    show "bit (push_bit 8 (ucast a) OR ucast c :: u32) n = bit (ucast (push_bit 8 (ucast a) OR ucast c :: u16) :: u32) n"
      if "n < LENGTH(32)" using that byte_bit[of a "n - 8"] byte_bit[of c n] by (auto simp: bit_simps)
  qed
  have "(be_get (take 2 b) :: u32) = ucast (be_get (take 2 b) :: u16)"
    by (cases b; cases "tl b") (auto simp: be_get_def two intro: one)
  then show ?thesis by (simp add: get16_def)
qed

lemma be_get_one: "n < length b \<Longrightarrow> (be_get (take 1 (drop n b)) :: u32) = ucast (b ! n)"
  by (cases "drop n b") (auto simp: be_get_def simp flip: Cons_nth_drop_Suc)

lemma ucast16_eq: "(ucast (a :: u16) :: u32) = ucast b \<longleftrightarrow> a = b"
proof -
  have "unat (ucast w :: u32) = unat w" for w :: u16
    using unsigned_less[of w, where 'a = nat] by (simp add: unsigned_ucast_eq take_bit_eq_mod)
  then show ?thesis by (metis word_unat_eq_iff)
qed

lemma ucast8_eq: "(ucast (a :: byte) :: u32) = ucast b \<longleftrightarrow> a = b"
proof -
  have "unat (ucast w :: u32) = unat w" for w :: byte
    using unsigned_less[of w, where 'a = nat] by (simp add: unsigned_ucast_eq take_bit_eq_mod)
  then show ?thesis by (metis word_unat_eq_iff)
qed

lemma ucast16_and: "(ucast (w :: u16) AND 0x1fff :: u32) = ucast (w AND 0x1fff)"
  by (rule bit_word_eqI) (auto simp: bit_simps dest: bit_imp_le_length)

lemma version_nibble: "(ucast (b :: byte) AND 0xf0 :: u32) = push_bit 4 (ucast (drop_bit 4 b))"
proof (rule bit_word_eqI)
  fix n
  have "bit (0xf0 :: u32) n \<longleftrightarrow> bit (push_bit 4 (mask 4) :: u32) n" by (simp add: mask_eq_exp_minus_1 push_bit_eq_mult)
  also have "\<dots> \<longleftrightarrow> 4 \<le> n \<and> n < 8" by (auto simp only: bit_push_bit_iff bit_mask_iff) auto
  finally have m: "bit (0xf0 :: u32) n \<longleftrightarrow> 4 \<le> n \<and> n < 8" .
  show "bit (ucast b AND 0xf0 :: u32) n = bit (push_bit 4 (ucast (drop_bit 4 b)) :: u32) n" if "n < LENGTH(32)"
    using that byte_bit[of b n] unfolding bit_and_iff m by (auto simp: bit_simps)
qed

lemma header_words: "unat (4 * (ucast (b :: byte) AND 0xf) :: u32) = unat (b AND 0xf) * 4"
proof -
  have m: "(ucast b AND 0xf :: u32) = ucast (b AND 0xf)" by (rule bit_word_eqI) (auto simp: bit_simps dest: bit_imp_le_length)
  have "b AND 0xf = take_bit 4 b" by (simp add: take_bit_eq_mask mask_eq_exp_minus_1)
  then have "unat (b AND 0xf) < 16" by (simp only: unsigned_take_bit_eq) (simp add: take_bit_eq_mod)
  moreover have "unat (ucast (b AND 0xf) :: u32) = unat (b AND 0xf)"
    using calculation by (simp add: unsigned_ucast_eq take_bit_eq_mod)
  ultimately show ?thesis unfolding m by (simp add: unat_word_ariths)
qed

lemma shifted_nibble: "(push_bit 4 (ucast b) :: u32) = 0x40 \<longleftrightarrow> (b :: byte) = 4"
proof -
  have "unat (push_bit 4 (ucast b) :: u32) = 16 * unat b"
    using unsigned_less[of b, where 'a = nat]
    by (simp add: push_bit_eq_mult unat_word_ariths unsigned_ucast_eq take_bit_eq_mod)
  moreover have "(push_bit 4 (ucast b) :: u32) = 0x40 \<longleftrightarrow> unat (push_bit 4 (ucast b) :: u32) = unat (0x40 :: u32)"
    by (simp only: word_unat_eq_iff)
  moreover have "b = 4 \<longleftrightarrow> unat b = unat (4 :: byte)" by (simp only: word_unat_eq_iff)
  ultimately show ?thesis by simp
qed

subsection \<open>The filter of the TCP carrier\<close>

definition pck_tail :: "u16 \<Rightarrow> nat \<Rightarrow> bpf_insn list" where
  "pck_tail port l =
     [LoadAbsolute (l + 9) 1, JumpIf JumpNotEqual 6 6 0, LoadAbsolute (l + 6) 2, JumpIf JumpBitsSet 0x1fff 4 0,
      LoadMemShift l, LoadIndirect (l + 2) 2, JumpIf JumpNotEqual (ucast port) 1 0, RetConstant bpfAccept, RetConstant 0]"

lemma pckBPFProgram_patched:
  "pckBPFProgram port 14 = Some ([LoadAbsolute 12 2, JumpIf JumpNotEqual 0x0800 8 0] @ pck_tail port 14)"
  "l \<noteq> 14 \<Longrightarrow> pckBPFProgram port l = Some ([LoadAbsolute 0 1, ALUOpAnd 0xf0, JumpIf JumpNotEqual 0x40 8 0] @ pck_tail port l)"
  by (simp_all add: pckBPFProgram_def pck_tail_def Let_def)

lemma pck_tail_at:
  "pck_tail port l ! 0 = LoadAbsolute (l + 9) 1" "pck_tail port l ! 1 = JumpIf JumpNotEqual 6 6 0"
  "pck_tail port l ! 2 = LoadAbsolute (l + 6) 2" "pck_tail port l ! 3 = JumpIf JumpBitsSet 0x1fff 4 0"
  "pck_tail port l ! 4 = LoadMemShift l" "pck_tail port l ! 5 = LoadIndirect (l + 2) 2"
  "pck_tail port l ! 6 = JumpIf JumpNotEqual (ucast port) 1 0" "pck_tail port l ! 7 = RetConstant bpfAccept"
  "pck_tail port l ! 8 = RetConstant 0"
  by (simp_all add: pck_tail_def)

text \<open>What the end of the program tests, on a packet that is long enough.\<close>

lemma pck_tail_run:
  assumes k: "kernel_filter run" and n: "l + 10 \<le> length f"
    and p: "length p = m + 9" "\<And>i. i < 9 \<Longrightarrow> p ! (i + m) = pck_tail port l ! i"
  shows "run p m a x f =
    (let h = unat (f ! l AND 0xf) * 4 in
     if f ! (l + 9) = 6 \<and> get16 (take 2 (drop (l + 6) f)) AND 0x1fff = 0 \<and> h + l + 4 \<le> length f \<and>
       get16 (take 2 (drop (h + l + 2) f)) = port
     then bpfAccept else 0)"
proof -
  let ?h = "unat (f ! l AND 0xf) * 4"
  have turn: "run p (i + m) a x f = bpf_turn run p (i + m) a x f" for i a x using k by (simp add: kernel_filter_def)
  have turn1: "run p (Suc m) a x f = bpf_turn run p (Suc m) a x f"
    and turn2: "run p (Suc (Suc m)) a x f = bpf_turn run p (Suc (Suc m)) a x f" for a x using k by (simp_all add: kernel_filter_def)
  have at12: "p ! Suc m = JumpIf JumpNotEqual 6 6 0" "p ! Suc (Suc m) = LoadAbsolute (l + 6) 2"
    using p(2)[of 1] p(2)[of 2] by (simp_all add: pck_tail_at[simplified])
  have s3: "Suc (Suc (Suc m)) = 3 + m" by simp
  note t = bpf_turn_def p pck_tail_at bpf_holds_def
  have 8: "run p (8 + m) a x f = 0" and 7: "run p (7 + m) a x f = bpfAccept" for a x
    by (simp_all add: turn t)
  have 6: "run p (6 + m) a x f = (if a = ucast port then bpfAccept else 0)" for a x
    using 7[of "ucast port" x] 8[of a x] by (simp add: turn[of 6] t)
  have 5: "run p (5 + m) a x f = (if unat x + l + 4 \<le> length f \<and> get16 (take 2 (drop (unat x + l + 2) f)) = port
      then bpfAccept else 0)" for a x
    using 6[of _ x] be_get_two[of "take 2 (drop (unat x + l + 2) f)"]
    by (simp add: turn[of 5] t ucast16_eq add.assoc)
  have 4: "run p (4 + m) a x f = (if ?h + l + 4 \<le> length f \<and> get16 (take 2 (drop (?h + l + 2) f)) = port
      then bpfAccept else 0)" for a x
    using 5[of a "4 * (ucast (f ! l) AND 0xf)"] n unfolding header_words by (simp add: turn[of 4] t)
  have 3: "run p (3 + m) (ucast w) x f = (if w AND 0x1fff = 0 \<and> ?h + l + 4 \<le> length f \<and>
      get16 (take 2 (drop (?h + l + 2) f)) = port then bpfAccept else 0)" for w :: u16 and x
    using 4[of "ucast w" x] 8[of "ucast w" x] ucast16_eq[of "w AND 0x1fff" 0] by (simp add: turn[of 3] t ucast16_and)
  have 2: "run p (Suc (Suc m)) a x f = (if get16 (take 2 (drop (l + 6) f)) AND 0x1fff = 0 \<and> ?h + l + 4 \<le> length f \<and>
      get16 (take 2 (drop (?h + l + 2) f)) = port then bpfAccept else 0)" for a x
    using 3[of "get16 (take 2 (drop (l + 6) f))" x] be_get_two[of "take 2 (drop (l + 6) f)"] n
    unfolding turn2 by (simp add: t at12 s3)
  have 1: "run p (Suc m) (ucast b) x f = (if b = 6 \<and> get16 (take 2 (drop (l + 6) f)) AND 0x1fff = 0 \<and> ?h + l + 4 \<le> length f \<and>
      get16 (take 2 (drop (?h + l + 2) f)) = port then bpfAccept else 0)" for b :: byte and x
    using 2[of "ucast b" x] 2[of 6 x] 8[of "ucast b" x] ucast8_eq[of b 6] unfolding turn1 by (simp add: t at12)
  have "run p m a x f = run p (Suc m) (ucast (f ! (l + 9))) x f"
    using turn[of 0 a x] n be_get_one[of "l + 9" f] p(2)[of 0] by (simp add: bpf_turn_def p(1) pck_tail_at)
  then show ?thesis using 1[of "f ! (l + 9)" x] by (simp add: Let_def)
qed

lemma pck_filter_exact:
  assumes k: "kernel_filter run" and prog: "pckBPFProgram port l = Some prog" and n: "l + 20 \<le> length f"
  shows "run prog 0 0 0 f =
    (let h = unat (f ! l AND 0xf) * 4 in
     if (if l = 14 then get16 (take 2 (drop 12 f)) = 0x0800 else drop_bit 4 (f ! 0) = 4) \<and>
       f ! (l + 9) = 6 \<and> get16 (take 2 (drop (l + 6) f)) AND 0x1fff = 0 \<and> h + l + 4 \<le> length f \<and>
       get16 (take 2 (drop (h + l + 2) f)) = port
     then bpfAccept else 0)"
proof -
  define m where "m = length prog - 9"
  have turn: "run prog i a x f = bpf_turn run prog i a x f" for i a x using k by (simp add: kernel_filter_def)
  have tl: "length (pck_tail port l) = 9" by (simp add: pck_tail_def)
  obtain pre where p: "prog = pre @ pck_tail port l"
    "pre = (if l = 14 then [LoadAbsolute 12 2, JumpIf JumpNotEqual 0x0800 8 0]
            else [LoadAbsolute 0 1, ALUOpAnd 0xf0, JumpIf JumpNotEqual 0x40 8 0])"
    using prog by (cases "l = 14") (auto simp: pckBPFProgram_patched)
  have m: "length prog = m + 9" "m = length pre" using p(1) tl by (simp_all add: m_def)
  have at: "prog ! (i + m) = pck_tail port l ! i" for i unfolding m(2) p(1) by (simp add: nth_append)
  note tail = pck_tail_run[OF k, of l f prog m port, OF _ m(1) at]
  have out: "run prog (8 + m) a x f = 0" for a x by (simp add: turn bpf_turn_def m(1) at pck_tail_at)
  show ?thesis
  proof (cases "l = 14")
    case True
    have p0: "prog ! 0 = LoadAbsolute 12 2" "prog ! Suc 0 = JumpIf JumpNotEqual 0x0800 8 0" "m = 2"
      using p m(2) True by simp_all
    define w where "w = get16 (take 2 (drop 12 f))"
    have "run prog 0 0 0 f = run prog (Suc 0) (ucast w) 0 f"
      using n True be_get_two[of "take 2 (drop 12 f)"] turn[of 0 0 0] by (simp add: bpf_turn_def p0 m(1) w_def)
    also have "\<dots> = run prog (Suc 0 + 1 + (if bpf_holds JumpNotEqual (ucast w) 0x0800 then 8 else 0)) (ucast w) 0 f"
      unfolding turn[of "Suc 0" "ucast w" 0] by (simp only: bpf_turn_def p0 m(1)) simp
    also have "\<dots> = (if w = 0x0800 then run prog m (ucast w) 0 f else run prog (8 + m) (ucast w) 0 f)"
    proof -
      have "bpf_holds JumpNotEqual (ucast w) 0x0800 \<longleftrightarrow> w \<noteq> 0x0800" using ucast16_eq[of w "0x0800"] by (simp add: bpf_holds_def)
      moreover have "Suc 0 + 1 + 0 = m" "Suc 0 + 1 + 8 = 8 + m" by (simp_all add: p0)
      ultimately show ?thesis by (cases "w = 0x0800") (simp_all only: if_True if_False simp_thms)
    qed
    finally show ?thesis unfolding out using tail n True by (simp add: Let_def w_def)
  next
    case False
    have p0: "prog ! 0 = LoadAbsolute 0 1" "prog ! Suc 0 = ALUOpAnd 0xf0" "prog ! Suc (Suc 0) = JumpIf JumpNotEqual 0x40 8 0" "m = 3"
      using p m(2) False by simp_all
    let ?v = "push_bit 4 (ucast (drop_bit 4 (f ! 0))) :: u32"
    have v: "?v = 0x40 \<longleftrightarrow> drop_bit 4 (f ! 0) = 4" using shifted_nibble[of "drop_bit 4 (f ! 0)"] by simp
    have "run prog 0 0 0 f = run prog (Suc 0) (ucast (f ! 0)) 0 f"
    proof -
      have "f \<noteq> []" using n by auto
      then show ?thesis using n be_get_one[of 0 f] turn[of 0 0 0] by (simp add: bpf_turn_def p0 m(1))
    qed
    also have "\<dots> = run prog (Suc 0 + 1) (ucast (f ! 0) AND 0xf0) 0 f"
      unfolding turn[of "Suc 0" "ucast (f ! 0)" 0] by (simp only: bpf_turn_def p0 m(1)) simp
    also have "\<dots> = run prog (Suc (Suc 0)) ?v 0 f" by (simp only: version_nibble) simp
    also have "\<dots> = run prog (Suc (Suc 0) + 1 + (if bpf_holds JumpNotEqual ?v 0x40 then 8 else 0)) ?v 0 f"
      unfolding turn[of "Suc (Suc 0)" ?v 0] by (simp only: bpf_turn_def p0 m(1)) simp
    also have "\<dots> = (if drop_bit 4 (f ! 0) = 4 then run prog m ?v 0 f else run prog (8 + m) ?v 0 f)"
    proof -
      have "bpf_holds JumpNotEqual ?v 0x40 \<longleftrightarrow> drop_bit 4 (f ! 0) \<noteq> 4" unfolding bpf_holds_def using v by simp
      moreover have "Suc (Suc 0) + 1 + 0 = m" "Suc (Suc 0) + 1 + 8 = 8 + m" by (simp_all add: p0)
      ultimately show ?thesis by (cases "drop_bit 4 (f ! 0) = 4") (simp_all only: if_True if_False simp_thms)
    qed
    finally show ?thesis unfolding out using tail n False by (simp add: Let_def)
  qed
qed

end
