(* ===== verification/PckFrame.thy ===== *)
theory PckFrame
  imports Checksum PacketFilter
begin

text \<open>
  The packet-level TCP carrier: \<open>src/internal/utils/network/pckframe.go\<close> assembles whole Ethernet frames in a buffer that
  held other frames before and takes received frames apart, and gives the kernel a filter for what it wants to see.
  \<open>src/internal/utils/network/pckconn_linux.go\<close> sends and receives datagrams that way, keeping sequence numbers per peer.
  Hardware addresses are bytes, IPv4 addresses what \<open>To4\<close> returns, no bytes for an address that is none.
\<close>

section \<open>Definitions: frames\<close>

definition ipv4_HeaderLen :: nat where "ipv4_HeaderLen = 20"
definition pckEthHeaderLen :: nat where "pckEthHeaderLen = 14"
definition pckTCPHeaderLen :: nat where "pckTCPHeaderLen = 20"
definition pckTCPOptionsLen :: nat where "pckTCPOptionsLen = 12"
definition pckOverhead :: nat where "pckOverhead = ipv4_HeaderLen + pckTCPHeaderLen + pckTCPOptionsLen"
definition pckWindow :: u16 where "pckWindow = 65535"
definition etherTypeIPv4 :: u16 where "etherTypeIPv4 = 0x0800"

lemmas pck_sizes = ipv4_HeaderLen_def pckEthHeaderLen_def pckTCPHeaderLen_def pckTCPOptionsLen_def

record pckFrameParams =
  fp_SrcMAC :: bytes
  fp_DstMAC :: bytes
  fp_SrcIP :: bytes
  fp_DstIP :: bytes
  fp_SrcPort :: u16
  fp_DstPort :: u16
  fp_Seq :: u32
  fp_Ack :: u32
  fp_Flags :: byte
  fp_TSVal :: u32
  fp_TSEcr :: u32
  fp_ID :: u16
  fp_Payload :: bytes

definition pckFrameLen :: "nat \<Rightarrow> nat" where
  "pckFrameLen payload = pckEthHeaderLen + ipv4_HeaderLen + pckTCPHeaderLen + pckTCPOptionsLen + payload"

text \<open>\<open>copy(frame[a:a+n], src)\<close> and the \<open>PutUint\<close>s: what the buffer held stays where nothing is written.\<close>

definition blit :: "nat \<Rightarrow> nat \<Rightarrow> bytes \<Rightarrow> bytes \<Rightarrow> bytes" where
  "blit a n src f = take a f @ take n src @ drop (a + length (take n src)) f"

definition write_eth :: "pckFrameParams \<Rightarrow> bytes \<Rightarrow> bytes" where
  "write_eth p f = blit 12 2 (put16 etherTypeIPv4) (blit 6 6 (fp_SrcMAC p) (blit 0 6 (fp_DstMAC p) f))"

definition write_ip :: "pckFrameParams \<Rightarrow> nat \<Rightarrow> bytes \<Rightarrow> bytes" where
  "write_ip p tot f =
     (let f = blit 14 1 [0x45] f;
          f = blit 15 1 [46 * 4] f;
          f = blit 16 2 (put16 (word_of_nat (tot - pckEthHeaderLen))) f;
          f = blit 18 2 (put16 (fp_ID p)) f;
          f = blit 20 2 (put16 0x4000) f;
          f = blit 22 1 [64] f;
          f = blit 23 1 [6] f;
          f = blit 24 2 [0, 0] f;
          f = blit 26 4 (fp_SrcIP p) f;
          f = blit 30 4 (fp_DstIP p) f
      in blit 24 2 (put16 (onesComplement [take 20 (drop 14 f)])) f)"

definition write_tcp :: "pckFrameParams \<Rightarrow> bytes \<Rightarrow> bytes" where
  "write_tcp p f =
     (let f = blit 34 2 (put16 (fp_SrcPort p)) f;
          f = blit 36 2 (put16 (fp_DstPort p)) f;
          f = blit 38 4 (put32 (fp_Seq p)) f;
          f = blit 42 4 (put32 (fp_Ack p)) f;
          f = blit 46 1 [push_bit 4 (32 div 4)] f;
          f = blit 47 1 [fp_Flags p] f;
          f = blit 48 2 (put16 pckWindow) f;
          f = blit 50 2 [0, 0] f;
          f = blit 52 2 [0, 0] f;
          f = blit 54 2 [1, 1] f;
          f = blit 56 2 [8, 10] f;
          f = blit 58 4 (put32 (fp_TSVal p)) f;
          f = blit 62 4 (put32 (fp_TSEcr p)) f;
          f = blit 66 (length f - 66) (fp_Payload p) f
      in blit 50 2 (put16 (l4Checksum (fp_SrcIP p) (fp_DstIP p) 6 (drop 34 f))) f)"

text \<open>\<open>buf[:total]\<close> of a buffer that is too short panics.\<close>

definition assemblePckFrame :: "bytes \<Rightarrow> pckFrameParams \<Rightarrow> bytes option" where
  "assemblePckFrame buf p =
     (let tot = pckFrameLen (length (fp_Payload p)) in
      if length buf < tot then None
      else Some (write_tcp p (write_ip p tot (write_eth p (take tot buf)))))"

text \<open>The builders of one layer each, into fresh bytes.\<close>

definition tcp_segment :: "u16 \<Rightarrow> u16 \<Rightarrow> u32 \<Rightarrow> u32 \<Rightarrow> byte \<Rightarrow> u32 \<Rightarrow> u32 \<Rightarrow> bytes \<Rightarrow> bytes \<Rightarrow> bytes" where
  "tcp_segment srcPort dstPort seq ack flags tsVal tsEcr payload csum =
     put16 srcPort @ put16 dstPort @ put32 seq @ put32 ack @ [push_bit 4 (32 div 4), flags] @ put16 pckWindow @ csum @ [0, 0] @
     [1, 1, 8, 10] @ put32 tsVal @ put32 tsEcr @ payload"

definition buildPckTCP :: "u16 \<Rightarrow> u16 \<Rightarrow> u32 \<Rightarrow> u32 \<Rightarrow> byte \<Rightarrow> u32 \<Rightarrow> u32 \<Rightarrow> bytes \<Rightarrow> bytes \<Rightarrow> bytes \<Rightarrow> bytes" where
  "buildPckTCP srcPort dstPort seq ack flags tsVal tsEcr src dst payload =
     (let b = tcp_segment srcPort dstPort seq ack flags tsVal tsEcr payload in
      b (put16 (l4Checksum src dst 6 (b [0, 0]))))"

definition ipv4_header :: "u16 \<Rightarrow> bytes \<Rightarrow> bytes \<Rightarrow> nat \<Rightarrow> bytes \<Rightarrow> bytes" where
  "ipv4_header ident src dst len csum =
     [0x45, 46 * 4] @ put16 (word_of_nat len) @ put16 ident @ put16 0x4000 @ [64, 6] @ csum @ fresh_copy 4 src @ fresh_copy 4 dst"

definition buildPckIPv4 :: "u16 \<Rightarrow> bytes \<Rightarrow> bytes \<Rightarrow> bytes \<Rightarrow> bytes" where
  "buildPckIPv4 ident src dst l4 =
     (let h = ipv4_header ident src dst (ipv4_HeaderLen + length l4) in h (put16 (onesComplement [h [0, 0]])) @ l4)"

definition buildPckEthernet :: "bytes \<Rightarrow> bytes \<Rightarrow> bytes \<Rightarrow> bytes" where
  "buildPckEthernet dstMAC srcMAC ip = fresh_copy 6 dstMAC @ fresh_copy 6 srcMAC @ put16 etherTypeIPv4 @ ip"

section \<open>Definitions: parsing\<close>

record pckSegment =
  sg_SrcIP :: bytes
  sg_SrcPort :: u16
  sg_DstPort :: u16
  sg_Seq :: u32
  sg_TSVal :: u32
  sg_Payload :: bytes

text \<open>The options are walked with an index that every turn moves forward.\<close>

function ts_from :: "bytes \<Rightarrow> nat \<Rightarrow> u32" where
  "ts_from opts i =
     (if i \<ge> length opts then 0
      else if opts ! i = 0 then 0
      else if opts ! i = 1 then ts_from opts (i + 1)
      else if i + 1 \<ge> length opts then 0
      else let l = unat (opts ! (i + 1)) in
        if l < 2 \<or> i + l > length opts then 0
        else if opts ! i = 8 \<and> l = 10 then get32 (take 4 (drop (i + 2) opts))
        else ts_from opts (i + l))"
  by pat_completeness auto
termination by (relation "measure (\<lambda>(opts, i). length opts - i)") auto

declare ts_from.simps [simp del]

definition tcpTimestamp :: "bytes \<Rightarrow> u32" where "tcpTimestamp opts = ts_from opts 0"

definition parsePckFrame :: "bytes \<Rightarrow> nat \<Rightarrow> u16 \<Rightarrow> pckSegment option" where
  "parsePckFrame frame linkLen wantPort =
     (if length frame < linkLen + ipv4_HeaderLen then None
      else if linkLen = pckEthHeaderLen \<and> get16 (take 2 (drop 12 frame)) \<noteq> etherTypeIPv4 then None
      else let ip = drop linkLen frame in
        if drop_bit 4 (ip ! 0) \<noteq> 4 then None
        else let ihl = unat (ip ! 0 AND 0x0f) * 4 in
        if ihl < ipv4_HeaderLen \<or> length ip < ihl then None
        else if ip ! 9 \<noteq> 6 then None
        else if get16 (take 2 (drop 6 ip)) AND 0x1fff \<noteq> 0 then None
        else let tot = unat (get16 (take 2 (drop 2 ip))) in
        if tot < ihl \<or> tot > length ip then None
        else let tcp = take (tot - ihl) (drop ihl ip) in
        if length tcp < pckTCPHeaderLen then None
        else let dstPort = get16 (take 2 (drop 2 tcp)) in
        if dstPort \<noteq> wantPort then None
        else let off = unat (drop_bit 4 (tcp ! 12)) * 4 in
        if off < pckTCPHeaderLen \<or> off > length tcp then None
        else Some \<lparr>sg_SrcIP = take 4 (drop 12 ip), sg_SrcPort = get16 (take 2 tcp), sg_DstPort = dstPort,
                   sg_Seq = get32 (take 4 (drop 4 tcp)),
                   sg_TSVal = tcpTimestamp (take (off - pckTCPHeaderLen) (drop pckTCPHeaderLen tcp)),
                   sg_Payload = drop off tcp\<rparr>)"

section \<open>Definitions: the connection\<close>

text \<open>A peer is known by its address and port. The clocks of the timestamps are parameters.\<close>

record pckPeer =
  pk_seq :: u32
  pk_ack :: u32
  pk_lastTS :: u32

record pckConn =
  pc_LocalIP :: bytes
  pc_SrcMAC :: bytes
  pc_NextHop :: bytes
  pc_linkLen :: nat
  pc_local :: u16
  pc_flags :: "byte list"
  pc_flagRot :: u32
  pc_ipID :: u32
  pc_peers :: "bytes \<times> u16 \<rightharpoonup> pckPeer"

text \<open>\<open>peerFor\<close>: a peer seen for the first time starts at a sequence number drawn at random.\<close>

definition peerFor :: "u32 \<Rightarrow> bytes \<times> u16 \<Rightarrow> pckConn \<Rightarrow> pckConn \<times> pckPeer" where
  "peerFor rnd addr c =
     (case pc_peers c addr of
        Some p \<Rightarrow> (c, p)
      | None \<Rightarrow> let p = \<lparr>pk_seq = rnd, pk_ack = 0, pk_lastTS = 0\<rparr> in (c\<lparr>pc_peers := (pc_peers c)(addr \<mapsto> p)\<rparr>, p))"

text \<open>\<open>WriteTo\<close> up to the frame it hands to the socket; \<open>None\<close> is a panic, when there are no flags to choose from.\<close>

definition pck_WriteTo :: "u32 \<Rightarrow> u32 \<Rightarrow> bytes \<Rightarrow> bytes \<Rightarrow> bytes \<times> u16 \<Rightarrow> pckConn \<Rightarrow> (pckConn \<times> bytes) option" where
  "pck_WriteTo rnd clock buf payload dst c =
     (let (c, peer) = peerFor rnd dst c;
          c = c\<lparr>pc_peers := (pc_peers c)(dst \<mapsto> peer\<lparr>pk_seq := pk_seq peer + word_of_nat (length payload)\<rparr>)\<rparr>;
          c = c\<lparr>pc_flagRot := pc_flagRot c + 1, pc_ipID := pc_ipID c + 1\<rparr>;
          buf = (if pckFrameLen (length payload) > length buf then replicate (pckFrameLen (length payload)) 0 else buf)
      in if pc_flags c = [] then None
         else map_option (\<lambda>frame. (c, frame)) (assemblePckFrame buf
           \<lparr>fp_SrcMAC = pc_SrcMAC c, fp_DstMAC = pc_NextHop c, fp_SrcIP = pc_LocalIP c, fp_DstIP = fst dst,
            fp_SrcPort = pc_local c, fp_DstPort = snd dst, fp_Seq = pk_seq peer, fp_Ack = pk_ack peer,
            fp_Flags = pc_flags c ! (unat (pc_flagRot c - 1) mod length (pc_flags c)),
            fp_TSVal = clock, fp_TSEcr = pk_lastTS peer, fp_ID = ucast (pc_ipID c), fp_Payload = payload\<rparr>))"

text \<open>One turn of \<open>ReadFrom\<close>: a frame that is skipped, or the datagram and its sender.\<close>

definition pck_receive :: "u32 \<Rightarrow> bytes \<Rightarrow> pckConn \<Rightarrow> pckConn \<times> (bytes \<times> (bytes \<times> u16)) option" where
  "pck_receive rnd frame c =
     (case parsePckFrame frame (pc_linkLen c) (pc_local c) of
        None \<Rightarrow> (c, None)
      | Some seg \<Rightarrow>
          if sg_Payload seg = [] then (c, None)
          else if sg_SrcIP seg = pc_LocalIP c \<and> sg_SrcPort seg = pc_local c then (c, None)
          else let addr = (sg_SrcIP seg, sg_SrcPort seg);
                   (c, peer) = peerFor rnd addr c;
                   next = sg_Seq seg + word_of_nat (length (sg_Payload seg));
                   peer = (if pk_ack peer = 0 \<or> 0 < sint (next - pk_ack peer) then peer\<lparr>pk_ack := next\<rparr> else peer);
                   peer = (if sg_TSVal seg \<noteq> 0 then peer\<lparr>pk_lastTS := sg_TSVal seg\<rparr> else peer)
               in (c\<lparr>pc_peers := (pc_peers c)(addr \<mapsto> peer)\<rparr>, Some (sg_Payload seg, addr)))"

section \<open>Definitions: the source ports\<close>

definition pckPortSpan :: u16 where "pckPortSpan = 128"

text \<open>\<open>digest\<close> is the SHA-256 digest of the token, a parameter.\<close>

definition pckClientPortBase :: "bytes \<Rightarrow> u16" where
  "pckClientPortBase digest = 32768 + get16 (take 2 digest) mod (28000 - pckPortSpan)"

fun find_port :: "u16 set \<Rightarrow> u16 \<Rightarrow> nat \<Rightarrow> u16 \<Rightarrow> u16 option" where
  "find_port used base 0 i = None"
| "find_port used base (Suc n) i = (if base + i \<notin> used then Some (base + i) else find_port used base n (i + 1))"

definition nextPckClientPort :: "u16 \<Rightarrow> u16 set \<Rightarrow> (u16 set \<times> u16) option" where
  "nextPckClientPort base used =
     map_option (\<lambda>port. (insert port used, port)) (find_port used base (unat pckPortSpan) 0)"

definition releasePckClientPort :: "u16 \<Rightarrow> u16 set \<Rightarrow> u16 set" where
  "releasePckClientPort port used = used - {port}"

section \<open>Lemmas: writing into a used buffer\<close>

lemma blit_next:
  "length w = a \<Longrightarrow> length src \<le> n \<Longrightarrow> a + length src \<le> length f \<Longrightarrow>
   blit a n src (w @ drop a f) = (w @ src) @ drop (a + length src) f"
  by (simp add: blit_def add.commute)

lemma blit_over: "length u = a \<Longrightarrow> length old = length src \<Longrightarrow> length src \<le> n \<Longrightarrow> blit a n src (u @ old @ v) = u @ src @ v"
  by (simp add: blit_def)

lemma fresh_copy_full: "length src = n \<Longrightarrow> fresh_copy n src = src"
  by (simp add: fresh_copy_def)

definition good_params :: "pckFrameParams \<Rightarrow> bool" where
  "good_params p \<longleftrightarrow> length (fp_SrcMAC p) = 6 \<and> length (fp_DstMAC p) = 6 \<and> length (fp_SrcIP p) = 4 \<and> length (fp_DstIP p) = 4"

lemma write_eth_eq:
  assumes "good_params p" "14 \<le> length f"
  shows "write_eth p f = (fp_DstMAC p @ fp_SrcMAC p @ put16 etherTypeIPv4) @ drop 14 f"
proof -
  have "blit 0 6 (fp_DstMAC p) f = fp_DstMAC p @ drop 6 f"
    using blit_next[of "[]" 0 "fp_DstMAC p" 6 f] assms by (simp add: good_params_def)
  moreover have "blit 6 6 (fp_SrcMAC p) (fp_DstMAC p @ drop 6 f) = (fp_DstMAC p @ fp_SrcMAC p) @ drop 12 f"
    using blit_next[of "fp_DstMAC p" 6 "fp_SrcMAC p" 6 f] assms by (simp add: good_params_def)
  moreover have "blit 12 2 (put16 etherTypeIPv4) ((fp_DstMAC p @ fp_SrcMAC p) @ drop 12 f) =
      (fp_DstMAC p @ fp_SrcMAC p @ put16 etherTypeIPv4) @ drop 14 f"
    using blit_next[of "fp_DstMAC p @ fp_SrcMAC p" 12 "put16 etherTypeIPv4" 2 f] assms by (simp add: good_params_def)
  ultimately show ?thesis by (simp only: write_eth_def)
qed

lemma write_ip_eq:
  assumes p: "good_params p" and e: "length e = 14" and f: "34 \<le> length f"
  shows "write_ip p tot (e @ drop 14 f) =
    (let h = ipv4_header (fp_ID p) (fp_SrcIP p) (fp_DstIP p) (tot - 14) in
     (e @ h (put16 (onesComplement [h [0, 0]]))) @ drop 34 f)"
proof -
  let ?a = "[0x45, 46 * 4] @ put16 (word_of_nat (tot - 14)) @ put16 (fp_ID p) @ put16 0x4000 @ [64, 6] :: bytes"
  let ?z = "fp_SrcIP p @ fp_DstIP p"
  have l: "length (fp_SrcIP p) = 4" "length (fp_DstIP p) = 4" using p by (simp_all add: good_params_def)
  have h: "ipv4_header (fp_ID p) (fp_SrcIP p) (fp_DstIP p) (tot - 14) c = ?a @ c @ ?z" for c
    by (simp add: ipv4_header_def fresh_copy_full l)
  have "write_ip p tot (e @ drop 14 f) =
      (let f = e @ ?a @ [0, 0] @ ?z @ drop 34 f in blit 24 2 (put16 (onesComplement [take 20 (drop 14 f)])) f)"
    using e f l by (simp add: write_ip_def Let_def blit_next pckEthHeaderLen_def del: append_assoc)
      (simp only: append_assoc append_Cons append_Nil)
  also have "\<dots> = blit 24 2 (put16 (onesComplement [?a @ [0, 0] @ ?z])) (e @ ?a @ [0, 0] @ ?z @ drop 34 f)"
    using e l by (simp add: Let_def)
  also have "\<dots> = e @ ?a @ put16 (onesComplement [?a @ [0, 0] @ ?z]) @ ?z @ drop 34 f"
    using blit_over[of "e @ ?a" 24 "[0, 0]" "put16 (onesComplement [?a @ [0, 0] @ ?z])" 2 "?z @ drop 34 f"] e by simp
  finally show ?thesis by (simp add: h Let_def)
qed

lemma write_tcp_eq:
  assumes p: "good_params p" and e: "length e = 34" and f: "length f = 66 + length (fp_Payload p)"
  shows "write_tcp p (e @ drop 34 f) =
    e @ buildPckTCP (fp_SrcPort p) (fp_DstPort p) (fp_Seq p) (fp_Ack p) (fp_Flags p) (fp_TSVal p) (fp_TSEcr p) (fp_SrcIP p)
      (fp_DstIP p) (fp_Payload p)"
proof -
  let ?a = "put16 (fp_SrcPort p) @ put16 (fp_DstPort p) @ put32 (fp_Seq p) @ put32 (fp_Ack p) @ [push_bit 4 (32 div 4), fp_Flags p] @
    put16 pckWindow"
  let ?z = "[0, 0] @ [1, 1, 8, 10] @ put32 (fp_TSVal p) @ put32 (fp_TSEcr p) @ fp_Payload p"
  let ?s = "tcp_segment (fp_SrcPort p) (fp_DstPort p) (fp_Seq p) (fp_Ack p) (fp_Flags p) (fp_TSVal p) (fp_TSEcr p) (fp_Payload p)"
  have s: "?s c = ?a @ c @ ?z" for c by (simp add: tcp_segment_def)
  have "write_tcp p (e @ drop 34 f) =
      (let f = e @ ?a @ [0, 0] @ ?z in blit 50 2 (put16 (l4Checksum (fp_SrcIP p) (fp_DstIP p) 6 (drop 34 f))) f)"
    using e f by (simp add: write_tcp_def Let_def blit_next del: append_assoc)
      (simp only: append_assoc append_Cons append_Nil)
  also have "\<dots> = blit 50 2 (put16 (l4Checksum (fp_SrcIP p) (fp_DstIP p) 6 (?s [0, 0]))) (e @ ?a @ [0, 0] @ ?z)"
    using e by (simp add: Let_def s)
  also have "\<dots> = e @ ?s (put16 (l4Checksum (fp_SrcIP p) (fp_DstIP p) 6 (?s [0, 0])))"
    using blit_over[of "e @ ?a" 50 "[0, 0]" "put16 (l4Checksum (fp_SrcIP p) (fp_DstIP p) 6 (?s [0, 0]))" 2 ?z] e by (simp add: s)
  finally show ?thesis by (simp add: buildPckTCP_def Let_def)
qed

lemma assemble_eq:
  assumes p: "good_params p" and b: "pckFrameLen (length (fp_Payload p)) \<le> length buf"
  shows "assemblePckFrame buf p = Some (buildPckEthernet (fp_DstMAC p) (fp_SrcMAC p)
    (buildPckIPv4 (fp_ID p) (fp_SrcIP p) (fp_DstIP p)
      (buildPckTCP (fp_SrcPort p) (fp_DstPort p) (fp_Seq p) (fp_Ack p) (fp_Flags p) (fp_TSVal p) (fp_TSEcr p)
        (fp_SrcIP p) (fp_DstIP p) (fp_Payload p))))"
proof -
  let ?n = "pckFrameLen (length (fp_Payload p))"
  let ?t = "buildPckTCP (fp_SrcPort p) (fp_DstPort p) (fp_Seq p) (fp_Ack p) (fp_Flags p) (fp_TSVal p) (fp_TSEcr p)
        (fp_SrcIP p) (fp_DstIP p) (fp_Payload p)"
  define f where "f = take ?n buf"
  have n: "?n = 66 + length (fp_Payload p)" by (simp add: pckFrameLen_def pck_sizes)
  have f: "length f = 66 + length (fp_Payload p)" using b by (simp add: f_def n)
  let ?e = "fp_DstMAC p @ fp_SrcMAC p @ put16 etherTypeIPv4"
  let ?h = "ipv4_header (fp_ID p) (fp_SrcIP p) (fp_DstIP p) (?n - 14)"
  let ?i = "?h (put16 (onesComplement [?h [0, 0]]))"
  have e: "length ?e = 14" using p by (simp add: good_params_def)
  have i: "length (?e @ ?i) = 34" using p by (simp add: good_params_def ipv4_header_def fresh_copy_def)
  have t: "length ?t = 32 + length (fp_Payload p)" by (simp add: buildPckTCP_def tcp_segment_def)
  have "write_ip p ?n (write_eth p f) = (?e @ ?i) @ drop 34 f"
    using write_eth_eq[OF p, of f] write_ip_eq[OF p e, of f ?n] f by (simp add: Let_def)
  then have "write_tcp p (write_ip p ?n (write_eth p f)) = (?e @ ?i) @ ?t"
    using write_tcp_eq[OF p i f] by simp
  moreover have "buildPckIPv4 (fp_ID p) (fp_SrcIP p) (fp_DstIP p) ?t = ?i @ ?t"
    using t by (simp add: buildPckIPv4_def Let_def n ipv4_HeaderLen_def)
  moreover have "fresh_copy 6 (fp_DstMAC p) = fp_DstMAC p" "fresh_copy 6 (fp_SrcMAC p) = fp_SrcMAC p"
    using p by (simp_all add: good_params_def fresh_copy_full)
  ultimately show ?thesis using b by (simp add: assemblePckFrame_def Let_def f_def buildPckEthernet_def)
qed

section \<open>Lemmas: checksums\<close>

lemma ip_checksum: "sums_to_ones [take 20 (buildPckIPv4 ident src dst l4)]"
proof -
  let ?a = "[0x45, 46 * 4] @ put16 (word_of_nat (ipv4_HeaderLen + length l4)) @ put16 ident @ put16 0x4000 @ [64, 6] :: bytes"
  let ?z = "fresh_copy 4 src @ fresh_copy 4 dst"
  have l: "length (fresh_copy 4 x) = 4" for x by (simp add: fresh_copy_def)
  have "length (?a @ [0, 0] @ ?z) = 20" by (simp add: l)
  then have "wsum (?a @ [0, 0] @ ?z) \<le> 65535 * 10" using wsum_bound[of "?a @ [0, 0] @ ?z"] by simp
  then have "sums_to_ones ([] @ [?a @ put16 (onesComplement ([] @ [?a @ [0, 0] @ ?z])) @ ?z])" by (intro filled_sums) simp_all
  moreover have "take 20 (buildPckIPv4 ident src dst l4) = ?a @ put16 (onesComplement ([] @ [?a @ [0, 0] @ ?z])) @ ?z"
    by (simp add: buildPckIPv4_def ipv4_header_def Let_def l)
  ultimately show ?thesis by simp
qed

lemma tcp_checksum:
  assumes "length payload \<le> 65535"
  shows "sums_to_ones [pseudo_header src dst 6 (length (buildPckTCP sp dp sq ak fl tv te src dst payload)),
    buildPckTCP sp dp sq ak fl tv te src dst payload]"
proof -
  let ?a = "put16 sp @ put16 dp @ put32 sq @ put32 ak @ [push_bit 4 (32 div 4), fl] @ put16 pckWindow"
  let ?z = "[0, 0] @ [1, 1, 8, 10] @ put32 tv @ put32 te @ payload"
  let ?p = "pseudo_header src dst 6 (32 + length payload)"
  have "length ?p = 12" by (simp add: pseudo_header_def fresh_copy_def)
  then have "wsum ?p \<le> 65535 * 6" using wsum_bound[of ?p] by simp
  moreover have "length (?a @ [0, 0] @ ?z) \<le> 65567" using assms by simp
  then have "(length (?a @ [0, 0] @ ?z) + 1) div 2 \<le> 32784" by linarith
  then have "wsum (?a @ [0, 0] @ ?z) \<le> 65535 * 32784" using wsum_bound[of "?a @ [0, 0] @ ?z"]
    by (meson le_trans mult_le_mono2)
  ultimately have "(\<Sum>b \<leftarrow> [?p] @ [?a @ [0, 0] @ ?z]. wsum b) + 65535 < 2 ^ 32" by simp
  then have "sums_to_ones ([?p] @ [?a @ put16 (onesComplement ([?p] @ [?a @ [0, 0] @ ?z])) @ ?z])" by (intro filled_sums) simp_all
  then show ?thesis by (simp add: buildPckTCP_def tcp_segment_def Let_def l4Checksum_def)
qed

section \<open>Lemmas: parsing\<close>

lemma pck_timestamp: "tcpTimestamp ([1, 1, 8, 10] @ put32 tv @ put32 te) = tv"
proof -
  let ?o = "[1, 1, 8, 10] @ put32 tv @ put32 te"
  have "tcpTimestamp ?o = ts_from ?o 1" unfolding tcpTimestamp_def by (subst ts_from.simps) simp
  also have "\<dots> = ts_from ?o 2" by (subst ts_from.simps) (simp add: numeral_2_eq_2)
  also have "\<dots> = tv" by (subst ts_from.simps) (simp add: Let_def)
  finally show ?thesis .
qed

lemma parse_built:
  assumes link: "length l = linkLen" "linkLen = 14 \<longrightarrow> take 2 (drop 12 l) = put16 etherTypeIPv4"
    and size: "length payload \<le> 65535 - pckOverhead" and src: "length src = 4" "length dst = 4"
  shows "parsePckFrame (l @ buildPckIPv4 ident src dst (buildPckTCP sp dp sq ak fl tv te src dst payload) @ pad) linkLen dp =
    Some \<lparr>sg_SrcIP = src, sg_SrcPort = sp, sg_DstPort = dp, sg_Seq = sq, sg_TSVal = tv, sg_Payload = payload\<rparr>"
proof -
  let ?tcp = "buildPckTCP sp dp sq ak fl tv te src dst payload"
  define ip where "ip = buildPckIPv4 ident src dst ?tcp @ pad"
  obtain c where t: "?tcp = tcp_segment sp dp sq ak fl tv te payload (put16 c)" by (simp add: buildPckTCP_def Let_def)
  obtain d where i: "ip = ipv4_header ident src dst (ipv4_HeaderLen + length ?tcp) (put16 d) @ ?tcp @ pad"
    by (simp add: ip_def buildPckIPv4_def Let_def)
  have tl: "length ?tcp = 32 + length payload" by (simp add: t tcp_segment_def)
  have tot: "unat (word_of_nat (52 + length payload) :: u16) = 52 + length payload"
  proof -
    have "unat (word_of_nat n :: u16) = n" if "n < 65536" for n using that by (simp add: unat_of_nat)
    then show ?thesis using size by (simp only: pckOverhead_def pck_sizes)
  qed
  have ip0: "ip ! 0 = 0x45" "ip ! 9 = 6" "take 2 (drop 6 ip) = put16 0x4000" "take 4 (drop 12 ip) = src"
    "take 2 (drop 2 ip) = put16 (word_of_nat (52 + length payload))" "drop 20 ip = ?tcp @ pad" "length ip = 52 + length payload + length pad"
    by (simp_all add: i ipv4_header_def fresh_copy_full src tl ipv4_HeaderLen_def nth_append)
  have tc: "take 2 (drop 2 ?tcp) = put16 dp" "?tcp ! 12 = 0x80" "take 2 ?tcp = put16 sp" "take 4 (drop 4 ?tcp) = put32 sq"
    "drop 32 ?tcp = payload" "take 12 (drop 20 ?tcp) = [1, 1, 8, 10] @ put32 tv @ put32 te"
    by (simp_all add: t tcp_segment_def nth_append pckWindow_def)
  show ?thesis unfolding parsePckFrame_def ip_def[symmetric]
    using link ip0 tc tl tot pck_timestamp[of tv te] by (simp add: pck_sizes Let_def)
qed

lemma buildPckIPv4_length: "length (buildPckIPv4 ident src dst l4) = 20 + length l4"
  by (simp add: buildPckIPv4_def ipv4_header_def fresh_copy_def Let_def)

lemma parse_frame:
  assumes p: "good_params p" and size: "length (fp_Payload p) \<le> 65535 - pckOverhead"
    and link: "linkLen = 14 \<and> skip = 0 \<or> linkLen = 0 \<and> skip = 14"
    and frame: "assemblePckFrame buf p = Some frame"
  shows "parsePckFrame (drop skip frame @ pad) linkLen (fp_DstPort p) =
    Some \<lparr>sg_SrcIP = fp_SrcIP p, sg_SrcPort = fp_SrcPort p, sg_DstPort = fp_DstPort p, sg_Seq = fp_Seq p,
          sg_TSVal = fp_TSVal p, sg_Payload = fp_Payload p\<rparr>"
proof -
  have ips: "length (fp_SrcIP p) = 4" "length (fp_DstIP p) = 4" and
    macs: "length (fp_SrcMAC p) = 6" "length (fp_DstMAC p) = 6" using p by (simp_all add: good_params_def)
  have b: "pckFrameLen (length (fp_Payload p)) \<le> length buf"
    using frame by (auto simp: assemblePckFrame_def Let_def split: if_splits)
  let ?e = "fp_DstMAC p @ fp_SrcMAC p @ put16 etherTypeIPv4"
  let ?i = "buildPckIPv4 (fp_ID p) (fp_SrcIP p) (fp_DstIP p)
      (buildPckTCP (fp_SrcPort p) (fp_DstPort p) (fp_Seq p) (fp_Ack p) (fp_Flags p) (fp_TSVal p) (fp_TSEcr p)
        (fp_SrcIP p) (fp_DstIP p) (fp_Payload p))"
  have f: "frame = ?e @ ?i"
    using assemble_eq[OF p b] frame macs by (simp add: buildPckEthernet_def fresh_copy_full)
  have e: "length ?e = 14" "take 2 (drop 12 ?e) = put16 etherTypeIPv4" using macs by simp_all
  from link show ?thesis
  proof
    assume "linkLen = 14 \<and> skip = 0"
    then show ?thesis using parse_built[OF e(1) _ size ips] e(2) by (simp add: f)
  next
    assume "linkLen = 0 \<and> skip = 14"
    then show ?thesis using parse_built[of "[]" 0, OF _ _ size ips] e(1) by (simp add: f)
  qed
qed

text \<open>What a frame has to be for the reader to accept it, in the terms of the filter.\<close>

lemma parse_wanted:
  assumes p: "parsePckFrame f l port = Some seg"
  shows "l + 20 \<le> length f" "l = 14 \<longrightarrow> get16 (take 2 (drop 12 f)) = 0x0800" "drop_bit 4 (f ! l) = 4" "f ! (l + 9) = 6"
    "get16 (take 2 (drop (l + 6) f)) AND 0x1fff = 0" "unat (f ! l AND 0xf) * 4 + l + 4 \<le> length f"
    "get16 (take 2 (drop (unat (f ! l AND 0xf) * 4 + l + 2) f)) = port"
proof -
  let ?ip = "drop l f" and ?h = "unat (f ! l AND 0xf) * 4"
  have n: "l + 20 \<le> length f" and eth: "l = 14 \<longrightarrow> get16 (take 2 (drop 12 f)) = 0x0800"
    using p by (auto simp: parsePckFrame_def pck_sizes etherTypeIPv4_def split: if_splits)
  have i: "?ip ! k = f ! (l + k)" for k using n by simp
  have i0: "?ip ! 0 = f ! l" using i[of 0] by simp
  note q = p[unfolded parsePckFrame_def Let_def i0, unfolded i pck_sizes]
  have v: "drop_bit 4 (f ! l) = 4" "f ! (l + 9) = 6" "get16 (take 2 (drop 6 ?ip)) AND 0x1fff = 0"
    using q by (auto split: if_splits)
  define tot where "tot = unat (get16 (take 2 (drop 2 ?ip)))"
  have t: "tot \<le> length ?ip" "20 \<le> tot - ?h" "?h \<le> tot"
    "get16 (take 2 (drop 2 (take (tot - ?h) (drop ?h ?ip)))) = port"
    using q unfolding tot_def[symmetric] by (auto split: if_splits)
  have "take 2 (drop 2 (take (tot - ?h) (drop ?h ?ip))) = take 2 (drop (?h + l + 2) f)"
    using t by (simp add: drop_take min_def add.commute add.left_commute)
  then show "l + 20 \<le> length f" "l = 14 \<longrightarrow> get16 (take 2 (drop 12 f)) = 0x0800" "drop_bit 4 (f ! l) = 4" "f ! (l + 9) = 6"
    "get16 (take 2 (drop (l + 6) f)) AND 0x1fff = 0" "?h + l + 4 \<le> length f"
    "get16 (take 2 (drop (?h + l + 2) f)) = port"
    using n eth v t by (simp_all add: add.commute)
qed

lemma parse_one_port: "parsePckFrame f l p = Some s \<Longrightarrow> p \<noteq> q \<Longrightarrow> parsePckFrame f l q = None"
  using parse_wanted(7)[of f l p s] parse_wanted(7)[of f l q] by (cases "parsePckFrame f l q") auto

subsection \<open>The connection\<close>

text \<open>A connection whose egress was found: addresses of the right sizes and a cycle of flags.\<close>

definition pck_ready :: "pckConn \<Rightarrow> bool" where
  "pck_ready c \<longleftrightarrow> length (pc_LocalIP c) = 4 \<and> length (pc_SrcMAC c) = 6 \<and> length (pc_NextHop c) = 6 \<and> pc_flags c \<noteq> [] \<and>
     (pc_linkLen c = 0 \<or> pc_linkLen c = 14)"

definition numbering :: "u32 \<Rightarrow> bytes \<times> u16 \<Rightarrow> pckConn \<Rightarrow> pckPeer" where
  "numbering rnd addr c = snd (peerFor rnd addr c)"

lemma write_eq:
  assumes "pck_ready a" "length (fst dst) = 4"
  shows "\<exists>p frame buf'. pck_WriteTo rnd clock buf payload dst a =
      Some (a\<lparr>pc_peers := (pc_peers a)(dst \<mapsto> (numbering rnd dst a)\<lparr>pk_seq := pk_seq (numbering rnd dst a) + word_of_nat (length payload)\<rparr>),
              pc_flagRot := pc_flagRot a + 1, pc_ipID := pc_ipID a + 1\<rparr>, frame) \<and>
    assemblePckFrame buf' p = Some frame \<and> good_params p \<and> fp_Payload p = payload \<and> fp_SrcIP p = pc_LocalIP a \<and>
    fp_DstPort p = snd dst \<and> fp_SrcPort p = pc_local a \<and> fp_Seq p = pk_seq (numbering rnd dst a) \<and>
    fp_Ack p = pk_ack (numbering rnd dst a) \<and> fp_TSEcr p = pk_lastTS (numbering rnd dst a)"
proof -
  define buf' where "buf' = (if pckFrameLen (length payload) > length buf then replicate (pckFrameLen (length payload)) 0 else buf)"
  define p where "p = \<lparr>fp_SrcMAC = pc_SrcMAC a, fp_DstMAC = pc_NextHop a, fp_SrcIP = pc_LocalIP a, fp_DstIP = fst dst,
            fp_SrcPort = pc_local a, fp_DstPort = snd dst, fp_Seq = pk_seq (numbering rnd dst a), fp_Ack = pk_ack (numbering rnd dst a),
            fp_Flags = pc_flags a ! (unat (pc_flagRot a) mod length (pc_flags a)),
            fp_TSVal = clock, fp_TSEcr = pk_lastTS (numbering rnd dst a), fp_ID = ucast (pc_ipID a + 1), fp_Payload = payload\<rparr>"
  have "pckFrameLen (length payload) \<le> length buf'" by (simp add: buf'_def)
  then obtain frame where f: "assemblePckFrame buf' p = Some frame" by (simp add: assemblePckFrame_def p_def Let_def)
  have "pck_WriteTo rnd clock buf payload dst a =
      Some (a\<lparr>pc_peers := (pc_peers a)(dst \<mapsto> (numbering rnd dst a)\<lparr>pk_seq := pk_seq (numbering rnd dst a) + word_of_nat (length payload)\<rparr>),
              pc_flagRot := pc_flagRot a + 1, pc_ipID := pc_ipID a + 1\<rparr>, frame)"
    using f assms(1)
    by (cases "pc_peers a dst")
      (simp_all add: pck_WriteTo_def peerFor_def numbering_def Let_def pck_ready_def p_def buf'_def split: if_splits)
  moreover have "good_params p" using assms by (simp add: good_params_def p_def pck_ready_def)
  ultimately show ?thesis using f by (intro exI[of _ p] exI[of _ frame] exI[of _ buf']) (simp add: p_def)
qed

subsection \<open>The source ports\<close>

lemma find_port_Some:
  "find_port used base n i = Some port \<Longrightarrow> port \<notin> used \<and> (\<exists>k < n. port = base + i + word_of_nat k)"
proof (induction n arbitrary: i)
  case (Suc n)
  show ?case
  proof (cases "base + i \<notin> used")
    case True
    then show ?thesis using Suc.prems by auto
  next
    case False
    then obtain k where "port \<notin> used" "k < n" "port = base + (i + 1) + word_of_nat k" using Suc by auto
    then show ?thesis by (auto intro!: exI[of _ "Suc k"] simp: ac_simps)
  qed
qed simp

lemma find_port_None: "find_port used base n i = None \<Longrightarrow> k < n \<Longrightarrow> base + i + word_of_nat k \<in> used"
proof (induction n arbitrary: i k)
  case (Suc n)
  then have "base + i \<in> used" "find_port used base n (i + 1) = None" by (auto split: if_splits)
  then show ?case using Suc.IH[of "i + 1" "k - 1"] Suc.prems(2) by (cases k) (auto simp: ac_simps)
qed simp

section \<open>Properties\<close>

text \<open>(C32) Frames built in place are the frames the layers would build. Whatever the buffer held before, assembling a
  frame in it gives byte for byte what the builders of one layer each give, and both checksums of it hold for
  a receiver.\<close>
theorem pck_frame_exact:
  assumes "good_params p" "pckFrameLen (length (fp_Payload p)) \<le> length buf" "length (fp_Payload p) \<le> 65535"
  shows "let tcp = buildPckTCP (fp_SrcPort p) (fp_DstPort p) (fp_Seq p) (fp_Ack p) (fp_Flags p) (fp_TSVal p) (fp_TSEcr p)
        (fp_SrcIP p) (fp_DstIP p) (fp_Payload p) in
    assemblePckFrame buf p = Some (buildPckEthernet (fp_DstMAC p) (fp_SrcMAC p) (buildPckIPv4 (fp_ID p) (fp_SrcIP p) (fp_DstIP p) tcp)) \<and>
    sums_to_ones [take 20 (buildPckIPv4 (fp_ID p) (fp_SrcIP p) (fp_DstIP p) tcp)] \<and>
    sums_to_ones [pseudo_header (fp_SrcIP p) (fp_DstIP p) 6 (length tcp), tcp]"
  unfolding Let_def by (intro conjI assemble_eq[OF assms(1,2)] ip_checksum tcp_checksum[OF assms(3)])

definition demo_frame :: pckFrameParams where
  "demo_frame = \<lparr>fp_SrcMAC = [1, 2, 3, 4, 5, 6], fp_DstMAC = [6, 5, 4, 3, 2, 1], fp_SrcIP = [10, 0, 0, 1], fp_DstIP = [10, 0, 0, 2],
     fp_SrcPort = 40000, fp_DstPort = 443, fp_Seq = 7, fp_Ack = 9, fp_Flags = 0x18, fp_TSVal = 1, fp_TSEcr = 2, fp_ID = 3,
     fp_Payload = [0xAA, 0xBB, 0xCC]\<rparr>"

theorem pck_frame_exact_witness:
  "assemblePckFrame (replicate 80 0xFF) demo_frame = assemblePckFrame (replicate 69 0) demo_frame"
proof -
  have g: "good_params demo_frame" "length (fp_Payload demo_frame) = 3" by (simp_all add: demo_frame_def good_params_def)
  have n: "pckFrameLen 3 = 69" by (simp add: pckFrameLen_def pck_sizes)
  show ?thesis
    using pck_frame_exact[OF g(1), of "replicate 80 0xFF"] pck_frame_exact[OF g(1), of "replicate 69 0"]
    unfolding g(2) n length_replicate Let_def by simp
qed

text \<open>A frame that was sent is read back, with or without its Ethernet header and with whatever padding the
  capture adds: address, ports, sequence number, timestamp and payload come out as they went in.\<close>
theorem pck_frame_parsed:
  assumes "good_params p" "length (fp_Payload p) \<le> 65535 - pckOverhead"
    and "linkLen = 14 \<and> skip = 0 \<or> linkLen = 0 \<and> skip = 14" "assemblePckFrame buf p = Some frame"
  shows "parsePckFrame (drop skip frame @ pad) linkLen (fp_DstPort p) =
    Some \<lparr>sg_SrcIP = fp_SrcIP p, sg_SrcPort = fp_SrcPort p, sg_DstPort = fp_DstPort p, sg_Seq = fp_Seq p,
          sg_TSVal = fp_TSVal p, sg_Payload = fp_Payload p\<rparr>"
  by (rule parse_frame[OF assms])

theorem pck_frame_parsed_witness:
  "map_option (\<lambda>f. map_option sg_Payload (parsePckFrame (f @ [0, 0, 0]) 14 443)) (assemblePckFrame (replicate 80 0xFF) demo_frame) =
   Some (Some [0xAA, 0xBB, 0xCC])"
proof -
  have g: "good_params demo_frame" "length (fp_Payload demo_frame) \<le> 65535 - pckOverhead"
    by (simp_all add: demo_frame_def good_params_def pckOverhead_def pck_sizes)
  obtain f where f: "assemblePckFrame (replicate 80 0xFF) demo_frame = Some f"
    by (simp add: assemblePckFrame_def demo_frame_def pckFrameLen_def pck_sizes Let_def)
  show ?thesis using pck_frame_parsed[OF g _ f, of 14 0 "[0, 0, 0]"] f by (simp add: demo_frame_def)
qed

text \<open>The kernel's filter never keeps a frame of the tunnel's away, and lets nothing through to the reader but
  unfragmented TCP to the tunnel's port: for every machine that runs the program as documented, on Ethernet and on a
  device without a link header, whatever the reader accepts the program accepts, and the program itself can always be
  built.\<close>
theorem pck_filter_keeps:
  assumes "kernel_filter run" "l = 0 \<or> l = 14"
  shows "\<exists>prog. pckBPFProgram port l = Some prog \<and>
    (parsePckFrame f l port \<noteq> None \<longrightarrow> run prog 0 0 0 f = bpfAccept) \<and>
    (l + 20 \<le> length f \<and> run prog 0 0 0 f \<noteq> 0 \<longrightarrow> f ! (l + 9) = 6 \<and> get16 (take 2 (drop (l + 6) f)) AND 0x1fff = 0 \<and>
       get16 (take 2 (drop (unat (f ! l AND 0xf) * 4 + l + 2) f)) = port)"
proof -
  obtain prog where p: "pckBPFProgram port l = Some prog" using pckBPFProgram_patched(1)[of port] pckBPFProgram_patched(2)[of l port] assms(2) by auto
  note x = pck_filter_exact[OF assms(1) p]
  have "run prog 0 0 0 f = bpfAccept" if seg: "parsePckFrame f l port = Some seg" for seg
    using x[of f] parse_wanted[OF seg] assms(2) by (auto simp: Let_def)
  moreover have "f ! (l + 9) = 6 \<and> get16 (take 2 (drop (l + 6) f)) AND 0x1fff = 0 \<and>
       get16 (take 2 (drop (unat (f ! l AND 0xf) * 4 + l + 2) f)) = port" if "l + 20 \<le> length f" "run prog 0 0 0 f \<noteq> 0"
    using x[OF that(1)] that(2) by (simp add: Let_def split: if_splits)
  ultimately show ?thesis using p by blast
qed

theorem pck_filter_keeps_witness:
  "\<exists>prog frame. pckBPFProgram 443 14 = Some prog \<and> assemblePckFrame (replicate 80 0xFF) demo_frame = Some frame \<and>
     bpf_machine prog 0 0 0 frame = bpfAccept"
proof -
  obtain f where f: "assemblePckFrame (replicate 80 0xFF) demo_frame = Some f"
    by (simp add: assemblePckFrame_def demo_frame_def pckFrameLen_def pck_sizes Let_def)
  have "parsePckFrame f 14 443 \<noteq> None"
    using parse_frame[of demo_frame 14 0 _ f "[]", OF _ _ _ f]
    by (simp add: demo_frame_def good_params_def pckOverhead_def pck_sizes)
  then show ?thesis using pck_filter_keeps[OF bpf_machine_kernel, of 14 "443" f] f by blast
qed


definition demo_conn :: "byte \<Rightarrow> u16 \<Rightarrow> pckConn" where
  "demo_conn host port = \<lparr>pc_LocalIP = [10, 0, 0, host], pc_SrcMAC = [1, 2, 3, 4, 5, host], pc_NextHop = [1, 2, 3, 4, 5, 0], pc_linkLen = 14,
     pc_local = port, pc_flags = [0x18], pc_flagRot = 0, pc_ipID = 0, pc_peers = Map.empty\<rparr>"


text \<open>A port that is handed out was free and lies in the range of the token, which never wraps; a claim fails only when every
  port of the range is in use.\<close>

lemma client_ports:
  "case nextPckClientPort (pckClientPortBase digest) used of
     Some (used', port) \<Rightarrow> port \<notin> used \<and> used' = insert port used \<and> pckClientPortBase digest \<le> port \<and>
       port \<le> pckClientPortBase digest + pckPortSpan - 1 \<and> releasePckClientPort port used' = used
   | None \<Rightarrow> \<forall>port. pckClientPortBase digest \<le> port \<and> port \<le> pckClientPortBase digest + pckPortSpan - 1 \<longrightarrow> port \<in> used"
proof -
  define base where "base = pckClientPortBase digest"
  have b: "unat base < 32768 + 27872"
  proof -
    have "unat (get16 (take 2 digest) mod (28000 - pckPortSpan)) < 27872"
      by (simp add: unat_mod pckPortSpan_def)
    then show ?thesis by (simp add: base_def pckClientPortBase_def unat_word_ariths)
  qed
  have at: "unat (base + word_of_nat k) = unat base + k" if "k \<le> 128" for k
    using that b by (simp add: unat_word_ariths unat_of_nat)
  have top: "base + pckPortSpan - 1 = base + word_of_nat 127" by (simp add: pckPortSpan_def)
  have range: "base \<le> port \<and> port \<le> base + pckPortSpan - 1 \<longleftrightarrow> (\<exists>k < 128. port = base + word_of_nat k)" for port
  proof
    assume p: "base \<le> port \<and> port \<le> base + pckPortSpan - 1"
    then have le: "unat base \<le> unat port" "unat port \<le> unat base + 127"
      using at[of 127] unfolding top by (simp_all add: word_le_nat_alt)
    have "port = base + word_of_nat (unat port - unat base)" using le
      by (simp add: word_unat_eq_iff at)
    then show "\<exists>k < 128. port = base + word_of_nat k" using le by (intro exI[of _ "unat port - unat base"]) auto
  next
    assume "\<exists>k < 128. port = base + word_of_nat k"
    then show "base \<le> port \<and> port \<le> base + pckPortSpan - 1" using at at[of 127] unfolding top by (auto simp: word_le_nat_alt)
  qed
  show ?thesis
  proof (cases "find_port used base 128 0")
    case None
    then have "base + word_of_nat k \<in> used" if "k < 128" for k using find_port_None[OF None that] by simp
    then show ?thesis using None range by (auto simp: nextPckClientPort_def pckPortSpan_def base_def)
  next
    case (Some port)
    then have "port \<notin> used" "\<exists>k < 128. port = base + word_of_nat k" using find_port_Some[OF Some] by auto
    then show ?thesis using Some range[of port]
      by (auto simp: nextPckClientPort_def releasePckClientPort_def pckPortSpan_def base_def)
  qed
qed

end
