(* ===== verification/PckHost.thy ===== *)
theory PckHost
  imports PckFrame NetAddr
begin

text \<open>
  What the packet-level TCP carrier needs of its host. \<open>src/internal/utils/network/pckroute_linux.go\<close>: the way out, read
  from the kernel's routing and neighbour tables. \<open>src/internal/utils/network/pckframe.go\<close>: the flags to stamp.
  \<open>src/internal/utils/network/pckport.go\<close> and \<open>src/internal/utils/network/pckguard_linux.go\<close>: the firewall rules and how carriers share
  them. \<open>src/internal/utils/network/pckconn_linux.go\<close>: opening and closing a carrier. The host is the record \<open>host\<close>, the
  sockets are the record \<open>pck_sockets\<close>, and the \<open>iptables\<close> program is a function; all three are parameters.
\<close>

section \<open>Definitions: flags\<close>

datatype flags_error = EmptyFlags | NotAFlag string | TooManyFlags nat | ResetFlag | NoAckNoSyn byte

definition FlagSYN :: byte where "FlagSYN = 2"
definition FlagRST :: byte where "FlagRST = 4"
definition FlagPSH :: byte where "FlagPSH = 8"
definition FlagACK :: byte where "FlagACK = 16"

definition flagLetters :: "(char \<times> byte) list" where
  "flagLetters = [(CHR ''F'', 1), (CHR ''S'', 2), (CHR ''R'', 4), (CHR ''P'', 8), (CHR ''A'', 16), (CHR ''U'', 32), (CHR ''E'', 64), (CHR ''C'', 128)]"

text \<open>\<open>strings.ToUpper\<close> as far as the loop looks at it: besides the ASCII letters only U+017F has one of the letters as its
  upper case.\<close>

definition upper_char :: "char \<Rightarrow> char" where
  "upper_char c = (if 97 \<le> (of_char c :: nat) \<and> (of_char c :: nat) \<le> 122 then char_of (of_char c - 32 :: nat) else c)"

fun flag_runes :: "byte \<Rightarrow> string \<Rightarrow> flags_error + byte" where
  "flag_runes out [] = Inr out"
| "flag_runes out (c # s) =
     (if c = CHR 0xC5 \<and> prefix [CHR 0xBF] s then flag_runes (out OR 2) (drop 1 s)
      else case map_of flagLetters (upper_char c) of
        None \<Rightarrow> Inl (NotAFlag (c # s))
      | Some f \<Rightarrow> flag_runes (out OR f) s)"

definition ParseTCPFlags :: "string \<Rightarrow> flags_error + byte" where
  "ParseTCPFlags s = (let s = TrimSpace s in if s = '''' then Inl EmptyFlags else flag_runes 0 s)"

definition flags_String :: "byte \<Rightarrow> string" where
  "flags_String f = concat (map (\<lambda>(c, b). if f AND b \<noteq> 0 then [c] else []) flagLetters)"

fun parse_flag_list :: "string list \<Rightarrow> flags_error + byte list" where
  "parse_flag_list [] = Inr []"
| "parse_flag_list (s # rest) =
     and_then (ParseTCPFlags s) (\<lambda>f.
       if f AND FlagRST \<noteq> 0 then Inl ResetFlag
       else if f AND (FlagACK OR FlagSYN) = 0 then Inl (NoAckNoSyn f)
       else and_then (parse_flag_list rest) (\<lambda>fs. Inr (f # fs)))"

definition ParseTCPFlagList :: "string list \<Rightarrow> flags_error + byte list" where
  "ParseTCPFlagList xs =
     (if xs = [] then Inr [FlagPSH OR FlagACK]
      else if length xs > 64 then Inl (TooManyFlags (length xs))
      else parse_flag_list xs)"

definition FormatTCPFlagList :: "byte list \<Rightarrow> string list" where "FormatTCPFlagList fs = map flags_String fs"
definition DefaultTCPFlagList :: "string list" where "DefaultTCPFlagList = [''PA'']"

section \<open>Definitions: the way out\<close>

text \<open>\<open>strings.Fields\<close>.\<close>

function fields_from :: "string \<Rightarrow> string \<Rightarrow> string list" where
  "fields_from w s =
     (if s = [] then (if w = [] then [] else [w])
      else if space_prefix space_runes s = 0 then fields_from (w @ [hd s]) (tl s)
      else (if w = [] then [] else [w]) @ fields_from [] (drop (space_prefix space_runes s) s))"
  by pat_completeness auto
termination by (relation "measure (\<lambda>(w, s). length s)") auto

declare fields_from.simps [simp del]

definition Fields :: "string \<Rightarrow> string list" where "Fields s = fields_from [] s"

definition parse_hex32 :: "string \<Rightarrow> nat option" where
  "parse_hex32 s =
     (if s = [] \<or> (\<exists>c \<in> set s. hex_val c = None) \<or> hex_number s \<ge> 2 ^ 32 then None else Some (hex_number s))"

definition hexLE :: "string \<Rightarrow> u32 option" where
  "hexLE s = map_option (\<lambda>v. get32 (rev (put32 (word_of_nat v)))) (parse_hex32 s)"

fun leading_ones :: "nat \<Rightarrow> u32 \<Rightarrow> nat" where
  "leading_ones 0 w = 0"
| "leading_ones (Suc i) w = (if bit w i then Suc (leading_ones i w) else 0)"

definition maskLen :: "u32 \<Rightarrow> nat" where "maskLen w = leading_ones 32 w"

text \<open>One line of the routing table against the best so far: how specific it is, the interface, the gateway.\<close>

definition route_turn :: "u32 \<Rightarrow> string \<Rightarrow> int \<times> string \<times> bytes option \<Rightarrow> int \<times> string \<times> bytes option" where
  "route_turn want line best =
     (let f = Fields line in
      if length f < 8 then best
      else case (hexLE (f ! 1), hexLE (f ! 2), hexLE (f ! 7)) of
        (Some net32, Some gw32, Some mask32) \<Rightarrow>
          if want AND mask32 \<noteq> net32 then best
          else let l = int (maskLen mask32) in
            if l > fst best then (l, f ! 0, if gw32 = 0 then None else Some (put32 gw32)) else best
      | _ \<Rightarrow> best)"

datatype egress_error = NotIPv4 | NoRouteTable | NoRoute | NoInterface string | NoAddress string | BadMAC string

definition routeToward :: "string list option \<Rightarrow> bytes \<Rightarrow> egress_error + string \<times> bytes option" where
  "routeToward table dst =
     (case table of None \<Rightarrow> Inl NoRouteTable
      | Some lines \<Rightarrow>
          (let (l, iface, gateway) = fold (route_turn (get32 dst)) (drop 1 lines) (-1, '''', None)
           in if iface = '''' then Inl NoRoute else Inr (iface, gateway)))"

text \<open>\<open>net.ParseMAC\<close>, for addresses of six bytes, and the dotted form of an IPv4 address.\<close>

definition hex_pair :: "string \<Rightarrow> byte option" where
  "hex_pair s =
     (case s of
        [a, b] \<Rightarrow> (case (hex_val a, hex_val b) of (Some x, Some y) \<Rightarrow> Some (word_of_nat (16 * x + y)) | _ \<Rightarrow> None)
      | _ \<Rightarrow> None)"

fun all_pairs :: "string list \<Rightarrow> bytes option" where
  "all_pairs [] = Some []"
| "all_pairs (s # r) = Option.bind (hex_pair s) (\<lambda>b. map_option (\<lambda>bs. b # bs) (all_pairs r))"

definition ParseMAC6 :: "string \<Rightarrow> bytes option" where
  "ParseMAC6 s =
     (if length s = 17 \<and> (s ! 2 = CHR '':'' \<or> s ! 2 = CHR ''-'') then
        (if \<forall>i \<in> {0..<5}. s ! (3 * i + 2) = s ! 2 then all_pairs (map (\<lambda>i. take 2 (drop (3 * i) s)) [0..<6]) else None)
      else if length s = 14 \<and> s ! 4 = CHR ''.'' then
        (if s ! 9 = CHR ''.'' then all_pairs (map (\<lambda>i. take 2 (drop i s)) [0, 2, 5, 7, 10, 12]) else None)
      else None)"

definition ip4_String :: "bytes \<Rightarrow> string" where
  "ip4_String ip = concat (map (\<lambda>i. (if i = 0 then [] else ''.'') @ format_nat (unat (ip ! i))) [0..<length ip])"

definition arp_line :: "string \<Rightarrow> string \<Rightarrow> string \<Rightarrow> bytes option" where
  "arp_line iface want line =
     (let f = Fields line in
      if length f < 6 \<or> f ! 0 \<noteq> want \<or> f ! 5 \<noteq> iface then None
      else case parse_hex32 (if prefix ''0x'' (f ! 2) then drop 2 (f ! 2) else f ! 2) of None \<Rightarrow> None
      | Some flags \<Rightarrow> if (word_of_nat flags :: u32) AND 2 = 0 then None else ParseMAC6 (f ! 3))"

fun first_some :: "('a \<Rightarrow> 'b option) \<Rightarrow> 'a list \<Rightarrow> 'b option" where
  "first_some f [] = None"
| "first_some f (x # r) = (case f x of None \<Rightarrow> first_some f r | Some y \<Rightarrow> Some y)"

definition readARP :: "string list option \<Rightarrow> string \<Rightarrow> bytes \<Rightarrow> bytes option" where
  "readARP table iface ip =
     (case table of None \<Rightarrow> None | Some lines \<Rightarrow> first_some (arp_line iface (ip4_String ip)) (drop 1 lines))"

text \<open>The host: its routing table, the neighbour table as successive reads see it, its interfaces, the address the kernel would
  use toward another.\<close>

record iface =
  if_Name :: string
  if_HardwareAddr :: bytes
  if_Addrs :: "bytes list"
  if_Up :: bool
  if_Loopback :: bool

record host =
  ho_routes :: "string list option"
  ho_arp :: "nat \<Rightarrow> string list option"
  ho_ifaces :: "iface list option"
  ho_local :: "bytes \<Rightarrow> bytes"

definition neighbourMAC :: "host \<Rightarrow> string \<Rightarrow> bytes \<Rightarrow> bytes option" where
  "neighbourMAC h iface ip =
     (case readARP (ho_arp h 0) iface ip of Some mac \<Rightarrow> Some mac
      | None \<Rightarrow> first_some (\<lambda>i. readARP (ho_arp h (i + 1)) iface ip) [0..<20])"

definition firstIPv4Of :: "iface \<Rightarrow> bytes option" where
  "firstIPv4Of i =
     first_some (\<lambda>ip. case To4 ip of None \<Rightarrow> None
       | Some ip4 \<Rightarrow> if ip4 ! 0 \<noteq> 127 \<and> \<not> (ip4 ! 0 = 169 \<and> ip4 ! 1 = 254) then Some ip4 else None) (if_Addrs i)"

definition firstUsableIface :: "host \<Rightarrow> string" where
  "firstUsableIface h =
     (case ho_ifaces h of None \<Rightarrow> ''''
      | Some ifs \<Rightarrow>
          (case first_some (\<lambda>i. if \<not> if_Up i \<or> if_Loopback i \<or> firstIPv4Of i = None then None else Some (if_Name i)) ifs
           of None \<Rightarrow> '''' | Some n \<Rightarrow> n))"

record pckEgress =
  eg_Iface :: string
  eg_LocalIP :: bytes
  eg_SrcMAC :: bytes
  eg_NextHop :: "bytes option"
  eg_LinkLen :: nat
  eg_Ethernet :: bool

definition parseMAC :: "string \<Rightarrow> egress_error + bytes option" where
  "parseMAC s =
     (let s = TrimSpace s in
      if s = '''' then Inr None
      else case ParseMAC6 s of None \<Rightarrow> Inl (BadMAC s) | Some mac \<Rightarrow> Inr (Some mac))"

definition discoverEgress :: "host \<Rightarrow> bytes \<Rightarrow> string \<Rightarrow> string \<Rightarrow> egress_error + pckEgress" where
  "discoverEgress h dst ifaceName gatewayMAC =
     (case To4 dst of None \<Rightarrow> Inl NotIPv4
      | Some dst \<Rightarrow>
      and_then (if ifaceName = '''' then routeToward (ho_routes h) dst
                else case routeToward (ho_routes h) dst of Inl e \<Rightarrow> Inr (ifaceName, None) | Inr (n, gw) \<Rightarrow> Inr (ifaceName, gw))
      (\<lambda>(name, gwIP).
        case Option.bind (ho_ifaces h) (find (\<lambda>i. if_Name i = name)) of None \<Rightarrow> Inl (NoInterface name)
        | Some i \<Rightarrow>
          (let local = ho_local h dst;
               local = (if local = [] \<or> ip_Equal local [0, 0, 0, 0] then firstIPv4Of i else Some local)
           in case local of None \<Rightarrow> Inl (NoAddress name)
           | Some local \<Rightarrow>
             (let ethernet = (length (if_HardwareAddr i) = 6);
                  e = \<lparr>eg_Iface = name, eg_LocalIP = (case To4 local of None \<Rightarrow> [] | Some l \<Rightarrow> l), eg_SrcMAC = if_HardwareAddr i,
                       eg_NextHop = None, eg_LinkLen = (if ethernet then pckEthHeaderLen else 0), eg_Ethernet = ethernet\<rparr>
              in if \<not> ethernet then Inr e
                 else if gatewayMAC \<noteq> '''' then and_then (parseMAC gatewayMAC) (\<lambda>mac. Inr (e\<lparr>eg_NextHop := mac\<rparr>))
                 else Inr (e\<lparr>eg_NextHop := neighbourMAC h name (case gwIP of None \<Rightarrow> dst | Some g \<Rightarrow> g)\<rparr>)))))"

section \<open>Definitions: the firewall\<close>

definition portSpec :: "u16 \<Rightarrow> u16 \<Rightarrow> string" where
  "portSpec lo hi = (if lo = hi then itoa (uint lo) else itoa (uint lo) @ '':'' @ itoa (uint hi))"

type_synonym fw_rule = "string list"

definition pckRules :: "u16 \<Rightarrow> u16 \<Rightarrow> fw_rule list" where
  "pckRules lo hi =
     (let p = portSpec lo hi;
          tag = [''-m'', ''comment'', ''--comment'', ''backpack-pck-'' @ p];
          rule = (\<lambda>table body. table # body @ tag)
      in [rule ''filter'' [''OUTPUT'', ''-p'', ''tcp'', ''--sport'', p, ''--tcp-flags'', ''RST'', ''RST'', ''-j'', ''DROP''],
          rule ''raw'' [''PREROUTING'', ''-p'', ''tcp'', ''--dport'', p, ''-j'', ''NOTRACK''],
          rule ''raw'' [''OUTPUT'', ''-p'', ''tcp'', ''--sport'', p, ''-j'', ''NOTRACK'']])"

text \<open>\<open>exec.Command("iptables", args...).Run()\<close>: the state it leaves, and whether it succeeded.\<close>

type_synonym 'f iptables = "string list \<Rightarrow> 'f \<Rightarrow> 'f \<times> bool"

record pckGuard =
  pg_lo :: u16
  pg_hi :: u16
  pg_rules :: "fw_rule list"
  pg_added :: "fw_rule list"

record sharedGuard =
  sh_g :: pckGuard
  sh_ref :: int

type_synonym guards = "string \<rightharpoonup> sharedGuard"

definition guardKey :: "u16 \<Rightarrow> u16 \<Rightarrow> string" where
  "guardKey lo hi = itoa (uint lo) @ '':'' @ itoa (uint hi)"

fun sweep_copies :: "'f iptables \<Rightarrow> string list \<Rightarrow> nat \<Rightarrow> 'f \<Rightarrow> 'f" where
  "sweep_copies run args 0 f = f"
| "sweep_copies run args (Suc n) f = (let (f, ok) = run args f in if ok then sweep_copies run args n f else f)"

definition sweepPckRule :: "'f iptables \<Rightarrow> string \<Rightarrow> string list \<Rightarrow> 'f \<Rightarrow> 'f" where
  "sweepPckRule run table body f = sweep_copies run ([''-t'', table, ''-D''] @ body) 1024 f"

definition add_rule :: "'f iptables \<Rightarrow> fw_rule \<Rightarrow> 'f \<times> fw_rule list \<Rightarrow> 'f \<times> fw_rule list" where
  "add_rule run r x =
     (let (f, added) = x;
          f = sweepPckRule run (hd r) (tl r) f;
          (f, ok) = run ([''-t'', hd r, ''-I''] @ tl r) f
      in (f, if ok then added @ [r] else added))"

text \<open>\<open>have\<close> is whether the program is there. The handle a carrier keeps is the guard of its range.\<close>

definition installPckGuard :: "'f iptables \<Rightarrow> bool \<Rightarrow> u16 \<Rightarrow> u16 \<Rightarrow> guards \<times> 'f \<Rightarrow> guards \<times> 'f" where
  "installPckGuard run have lo hi x =
     (let (shared, f) = x; key = guardKey lo hi in
      case shared key of
        Some sh \<Rightarrow> (shared(key \<mapsto> sh\<lparr>sh_ref := sh_ref sh + 1\<rparr>), f)
      | None \<Rightarrow>
          (let g = \<lparr>pg_lo = lo, pg_hi = hi, pg_rules = pckRules lo hi, pg_added = []\<rparr> in
           if \<not> have then (shared(key \<mapsto> \<lparr>sh_g = g, sh_ref = 1\<rparr>), f)
           else let (f, added) = fold (add_rule run) (pg_rules g) (f, []) in
             (shared(key \<mapsto> \<lparr>sh_g = g\<lparr>pg_added := added\<rparr>, sh_ref = 1\<rparr>), f)))"

definition delete_rule :: "'f iptables \<Rightarrow> fw_rule \<Rightarrow> 'f \<Rightarrow> 'f" where
  "delete_rule run r f = fst (run ([''-t'', hd r, ''-D''] @ tl r) f)"

definition pckGuard_remove :: "'f iptables \<Rightarrow> u16 \<Rightarrow> u16 \<Rightarrow> guards \<times> 'f \<Rightarrow> guards \<times> 'f" where
  "pckGuard_remove run lo hi x =
     (let (shared, f) = x; key = guardKey lo hi in
      case shared key of
        None \<Rightarrow> (shared, f)
      | Some sh \<Rightarrow>
          (let sh = sh\<lparr>sh_ref := sh_ref sh - 1\<rparr> in
           if sh_ref sh > 0 then (shared(key \<mapsto> sh), f)
           else (shared(key := None), fold (delete_rule run) (pg_added (sh_g sh)) f)))"

definition pckGuard_Installed :: "pckGuard \<Rightarrow> bool" where
  "pckGuard_Installed g \<longleftrightarrow> length (pg_added g) = length (pg_rules g)"

section \<open>Definitions: opening and closing\<close>

record pck_sockets =
  so_rx :: bool
  so_packet :: bool
  so_nonblock :: bool
  so_rawconn :: bool
  so_listen :: bool
  so_header :: bool

datatype pck_tx = TxFrame | TxRaw | TxNone

text \<open>\<open>openTx\<close>: the packet socket first, the raw socket where there is none to be had.\<close>

definition openTx :: "pck_sockets \<Rightarrow> pckEgress \<Rightarrow> pck_tx option" where
  "openTx s e =
     (if eg_Ethernet e \<and> eg_NextHop e \<noteq> None \<and> so_packet s \<and> so_nonblock s
      then Some (if so_rawconn s then TxFrame else TxNone)
      else if so_listen s \<and> so_header s then Some TxRaw
      else None)"

record PcapCarrier =
  cr_Port :: u16
  cr_Interface :: string
  cr_GatewayMAC :: string
  cr_Flags :: "byte list"
  cr_PeerIP :: string
  cr_Token :: bytes

datatype pck_error = NeedPeer | NoEgress egress_error | NoPort | NoRx | NoTx

record pckCarrier =
  ca_conn :: pckConn
  ca_port :: u16
  ca_tx :: pck_tx
  ca_lo :: u16
  ca_hi :: u16
  ca_holdsPort :: bool

record 'f pck_world =
  wo_used :: "u16 set"
  wo_guards :: guards
  wo_fw :: 'f

definition pck_egress :: "host \<Rightarrow> bool \<Rightarrow> PcapCarrier \<Rightarrow> pck_error + pckEgress" where
  "pck_egress h server carrier =
     (let peer = Option.bind (ParseIP (cr_PeerIP carrier)) To4 in
      if \<not> server \<and> peer = None then Inl NeedPeer
      else let toward = (case peer of None \<Rightarrow> [1, 1, 1, 1] | Some p \<Rightarrow> p) in
        case discoverEgress h toward (cr_Interface carrier) (cr_GatewayMAC carrier) of Inr e \<Rightarrow> Inr e
        | Inl err \<Rightarrow>
            if server \<and> cr_Interface carrier = '''' \<and> firstUsableIface h \<noteq> '''' then
              (case discoverEgress h toward (firstUsableIface h) (cr_GatewayMAC carrier) of Inr e \<Rightarrow> Inr e | Inl err \<Rightarrow> Inl (NoEgress err))
            else Inl (NoEgress err))"

definition newPckConn ::
    "'f iptables \<Rightarrow> bool \<Rightarrow> (bytes \<Rightarrow> bytes) \<Rightarrow> host \<Rightarrow> pck_sockets \<Rightarrow> bool \<Rightarrow> u16 \<Rightarrow> PcapCarrier \<Rightarrow> 'f pck_world \<Rightarrow>
     'f pck_world \<times> (pck_error + pckCarrier)" where
  "newPckConn run have sha256 h s server listenPort carrier w =
     (case pck_egress h server carrier of Inl e \<Rightarrow> (w, Inl e)
      | Inr e \<Rightarrow>
     (let flags = (if cr_Flags carrier = [] then [FlagPSH OR FlagACK] else cr_Flags carrier);
          base = pckClientPortBase (sha256 (bytes_of ''backpack-pck-v1:'' @ cr_Token carrier));
          claim = (if server then Some (wo_used w, listenPort) else nextPckClientPort base (wo_used w))
      in case claim of None \<Rightarrow> (w, Inl NoPort)
      | Some (used, local) \<Rightarrow>
        (let w = w\<lparr>wo_used := used\<rparr>;
             w_released = (if server then w else w\<lparr>wo_used := releasePckClientPort local used\<rparr>);
             lo = (if server then listenPort else base);
             hi = (if server then listenPort else base + pckPortSpan - 1)
         in if \<not> so_rx s then (w_released, Inl NoRx)
            else case openTx s e of None \<Rightarrow> (w_released, Inl NoTx)
            | Some tx \<Rightarrow>
              (let (guards, fw) = installPckGuard run have lo hi (wo_guards w, wo_fw w) in
               (w\<lparr>wo_guards := guards, wo_fw := fw\<rparr>,
                Inr \<lparr>ca_conn = \<lparr>pc_LocalIP = eg_LocalIP e, pc_SrcMAC = eg_SrcMAC e,
                        pc_NextHop = (case eg_NextHop e of None \<Rightarrow> [] | Some m \<Rightarrow> m), pc_linkLen = eg_LinkLen e, pc_local = local,
                        pc_flags = flags, pc_flagRot = 0, pc_ipID = 0, pc_peers = Map.empty\<rparr>,
                     ca_port = cr_Port carrier, ca_tx = tx, ca_lo = lo, ca_hi = hi, ca_holdsPort = \<not> server\<rparr>)))))"

text \<open>\<open>Close\<close>, the first time it is called.\<close>

definition pck_Close :: "'f iptables \<Rightarrow> pckCarrier \<Rightarrow> 'f pck_world \<Rightarrow> 'f pck_world" where
  "pck_Close run c w =
     (let (guards, fw) = pckGuard_remove run (ca_lo c) (ca_hi c) (wo_guards w, wo_fw w) in
      w\<lparr>wo_guards := guards, wo_fw := fw,
        wo_used := (if ca_holdsPort c then releasePckClientPort (pc_local (ca_conn c)) (wo_used w) else wo_used w)\<rparr>)"

text \<open>\<open>WriteTo\<close> past the frame: through the packet socket, or the segment through the raw one.\<close>

datatype pck_sent = SentFrame bytes | SentSegment bytes | SentNothing

definition pck_send :: "pck_tx \<Rightarrow> bytes \<Rightarrow> pck_sent" where
  "pck_send tx frame =
     (case tx of TxFrame \<Rightarrow> SentFrame frame | TxRaw \<Rightarrow> SentSegment (drop (pckEthHeaderLen + ipv4_HeaderLen) frame) | TxNone \<Rightarrow> SentNothing)"

section \<open>Lemmas: flags\<close>

lemma and_flag: "f AND push_bit n 1 = 0 \<longleftrightarrow> \<not> bit (f :: byte) n"
  by (simp add: bit_iff_and_push_bit_not_eq_0)

lemma flag_bits: "f AND FlagRST \<noteq> 0 \<longleftrightarrow> bit f 2" "f AND (FlagACK OR FlagSYN) = 0 \<longleftrightarrow> \<not> bit f 4 \<and> \<not> bit f 1"
proof -
  have p: "push_bit 2 1 = FlagRST" "push_bit 4 1 = FlagACK" "push_bit 1 1 = FlagSYN"
    by (simp_all add: FlagRST_def FlagACK_def FlagSYN_def push_bit_eq_mult)
  show "f AND FlagRST \<noteq> 0 \<longleftrightarrow> bit f 2" using and_flag[of f 2] unfolding p by simp
  have "f AND (FlagACK OR FlagSYN) = 0 \<longleftrightarrow> f AND FlagACK = 0 \<and> f AND FlagSYN = 0"
    by (simp add: bit.conj_disj_distrib or_eq_0_iff)
  then show "f AND (FlagACK OR FlagSYN) = 0 \<longleftrightarrow> \<not> bit f 4 \<and> \<not> bit f 1" using and_flag[of f 4] and_flag[of f 1] unfolding p by simp
qed

lemma runes_of_letters:
  "set ls \<subseteq> set flagLetters \<Longrightarrow> flag_runes out (map fst ls) = Inr (fold (\<lambda>(c, b) out. out OR b) ls out)"
proof (induction ls arbitrary: out)
  case (Cons l ls)
  have one: "\<forall>(c, b) \<in> set flagLetters. c \<noteq> CHR 0xC5 \<and> map_of flagLetters (upper_char c) = Some b"
    by (simp add: flagLetters_def upper_char_def)
  obtain c b where l: "l = (c, b)" by (cases l)
  have "c \<noteq> CHR 0xC5" "map_of flagLetters (upper_char c) = Some b" using one Cons.prems by (auto simp: l)
  then show ?case using Cons by (simp add: l)
qed simp

lemma flags_String_letters: "flags_String f = map fst (filter (\<lambda>(c, b). f AND b \<noteq> 0) flagLetters)"
proof -
  have "concat (map (\<lambda>(c, b). if f AND b \<noteq> 0 then [c] else []) ls) = map fst (filter (\<lambda>(c, b). f AND b \<noteq> 0) ls)"
    for ls :: "(char \<times> byte) list" by (induction ls) auto
  then show ?thesis by (simp add: flags_String_def)
qed

lemma bit_fold_or: "bit (fold (\<lambda>(c, b) out. out OR b) ls out) n \<longleftrightarrow> bit (out :: byte) n \<or> (\<exists>(c, b) \<in> set ls. bit b n)"
  by (induction ls arbitrary: out) (auto simp: bit_simps)

lemma letter_flags: "(\<exists>(c, b) \<in> set flagLetters. Q b) \<longleftrightarrow> (\<exists>k < 8. Q (push_bit k 1))"
proof -
  have "snd ` set flagLetters = (\<lambda>k. push_bit k 1) ` {0..<8}"
    by (simp add: flagLetters_def atLeastLessThan_nat_numeral push_bit_eq_mult insert_commute)
  then have "(\<exists>b \<in> snd ` set flagLetters. Q b) \<longleftrightarrow> (\<exists>k \<in> {0..<8}. Q (push_bit k 1))" by simp
  then show ?thesis by (auto simp: split_beta) 
qed

lemma letters_or: "fold (\<lambda>(c, b) out. out OR b) (filter (\<lambda>(c, b). f AND b \<noteq> 0) flagLetters) 0 = (f :: byte)"
proof (rule bit_word_eqI)
  fix n
  assume n: "n < LENGTH(8)"
  have "bit (fold (\<lambda>(c, b) out. out OR b) (filter (\<lambda>(c, b). f AND b \<noteq> 0) flagLetters) 0) n \<longleftrightarrow>
      (\<exists>(c, b) \<in> set flagLetters. f AND b \<noteq> 0 \<and> bit b n)" by (auto simp: bit_fold_or)
  also have "\<dots> \<longleftrightarrow> (\<exists>k < 8. bit f k \<and> bit (push_bit k 1 :: byte) n)"
    unfolding letter_flags[of "\<lambda>b. f AND b \<noteq> 0 \<and> bit b n"] and_flag not_not by (rule refl)
  also have "\<dots> \<longleftrightarrow> bit f n" using n by (auto simp: bit_simps)
  finally show "bit (fold (\<lambda>(c, b) out. out OR b) (filter (\<lambda>(c, b). f AND b \<noteq> 0) flagLetters) 0) n = bit f n" .
qed

lemma letters_visible: "list_all visible (flags_String f)"
proof -
  have "\<forall>(c, b) \<in> set flagLetters. visible c" by (simp add: flagLetters_def visible_def)
  then show ?thesis by (auto simp: flags_String_letters list_all_iff)
qed

lemma parse_flags_String: "f \<noteq> 0 \<Longrightarrow> ParseTCPFlags (flags_String f) = Inr f"
proof -
  assume f: "f \<noteq> 0"
  have r: "flag_runes 0 (flags_String f) = Inr f"
    unfolding flags_String_letters by (subst runes_of_letters) (auto simp: letters_or)
  then have "flags_String f \<noteq> []" using f by auto
  then show ?thesis using r letters_visible[of f] by (simp add: ParseTCPFlags_def Let_def)
qed

text \<open>Flags that were accepted can carry data, and they are read back from how they are printed.\<close>

lemma parsed_flag_list:
  "parse_flag_list xs = Inr fs \<Longrightarrow> length fs = length xs \<and> (\<forall>f \<in> set fs. \<not> bit f 2 \<and> (bit f 4 \<or> bit f 1)) \<and>
    parse_flag_list (FormatTCPFlagList fs) = Inr fs"
proof (induction xs arbitrary: fs)
  case (Cons s rest)
  obtain f gs where f: "ParseTCPFlags s = Inr f" "\<not> bit f 2" "bit f 4 \<or> bit f 1" "parse_flag_list rest = Inr gs" "fs = f # gs"
    using Cons.prems unfolding parse_flag_list.simps and_then_Inr
    by (auto simp: flag_bits and_then_Inr split: if_splits)
  have "f \<noteq> 0" using f(3) by auto
  then have "ParseTCPFlags (flags_String f) = Inr f" by (rule parse_flags_String)
  then show ?case using Cons.IH[OF f(4)] f by (simp add: FormatTCPFlagList_def and_then_def flag_bits)
qed (simp add: FormatTCPFlagList_def)

text \<open>The flags a carrier cycles through are usable. A list that is accepted is never empty and at most 64 long, none of
  its flags resets and each acknowledges or opens, so the carrier always has flags to stamp and a segment with them can
  carry data; and printing the list gives a configuration that reads back as the same flags.\<close>
theorem pck_flags_usable:
  "ParseTCPFlagList xs = Inr fs \<Longrightarrow> fs \<noteq> [] \<and> length fs \<le> 64 \<and> (\<forall>f \<in> set fs. \<not> bit f 2 \<and> (bit f 4 \<or> bit f 1)) \<and>
    ParseTCPFlagList (FormatTCPFlagList fs) = Inr fs"
proof -
  assume p: "ParseTCPFlagList xs = Inr fs"
  show ?thesis
  proof (cases "xs = []")
    case True
    then have fs: "fs = [0x18]" using p by (simp add: ParseTCPFlagList_def FlagPSH_def FlagACK_def)
    have b: "\<not> bit (0x18 :: byte) 2" "bit (0x18 :: byte) 4" by (simp_all add: bit_iff_and_push_bit_not_eq_0)
    moreover have "(0x18 :: byte) \<noteq> 0" by simp
    then have "ParseTCPFlags (flags_String 0x18) = Inr 0x18" by (rule parse_flags_String)
    ultimately show ?thesis unfolding fs by (simp add: ParseTCPFlagList_def FormatTCPFlagList_def and_then_def flag_bits)
  next
    case False
    then have "parse_flag_list xs = Inr fs" "length xs \<le> 64" using p by (auto simp: ParseTCPFlagList_def split: if_splits)
    then show ?thesis using parsed_flag_list[of xs fs] False by (auto simp: ParseTCPFlagList_def FormatTCPFlagList_def)
  qed
qed

theorem pck_flags_usable_witness:
  "ParseTCPFlagList [''pa'', '' A''] = Inr [0x18, 0x10] \<and> ParseTCPFlagList (FormatTCPFlagList [0x18, 0x10]) = Inr [0x18, 0x10]"
proof -
  have t: "TrimSpace ''pa'' = ''pa''" by (rule TrimSpace_visible) (simp add: visible_def)
  have "TrimSpace '' A'' = ''A''" by (simp add: TrimSpace_def trim_left.simps space_prefix_def space_runes_def)
  moreover have "upper_char (CHR ''p'') = CHR ''P''" "upper_char (CHR ''a'') = CHR ''A''" "upper_char (CHR ''A'') = CHR ''A''" by code_simp+
  ultimately have p: "ParseTCPFlagList [''pa'', '' A''] = Inr [0x18, 0x10]"
    using t by (simp add: ParseTCPFlagList_def ParseTCPFlags_def and_then_def flagLetters_def FlagRST_def FlagACK_def FlagSYN_def)
  then show ?thesis using pck_flags_usable[OF p] by simp
qed

section \<open>The way out\<close>

text \<open>What a line of the table says of a destination: how specific it is, its interface and gateway.\<close>

definition route_entry :: "u32 \<Rightarrow> string \<Rightarrow> (int \<times> string \<times> bytes option) option" where
  "route_entry want line =
     (let f = Fields line in
      if length f < 8 then None
      else case (hexLE (f ! 1), hexLE (f ! 2), hexLE (f ! 7)) of
        (Some net32, Some gw32, Some mask32) \<Rightarrow>
          if want AND mask32 = net32 then Some (int (maskLen mask32), f ! 0, if gw32 = 0 then None else Some (put32 gw32)) else None
      | _ \<Rightarrow> None)"

lemma route_turn_entry:
  "route_turn want line best = (case route_entry want line of None \<Rightarrow> best | Some x \<Rightarrow> if fst x > fst best then x else best)"
  by (simp add: route_turn_def route_entry_def Let_def split: option.splits)

lemma fields_not_empty: "x \<in> set (fields_from w s) \<Longrightarrow> x \<noteq> []"
proof (induction w s rule: fields_from.induct)
  case (1 w s)
  show ?case
  proof (cases "s = []")
    case True
    then show ?thesis using 1(3) by (simp add: fields_from.simps split: if_splits)
  next
    case False
    then show ?thesis using 1 by (subst (asm) (3) fields_from.simps) (auto split: if_splits)
  qed
qed

lemma route_entry_iface: "route_entry want line = Some (l, iface, gw) \<Longrightarrow> iface \<noteq> '''' \<and> 0 \<le> l"
proof -
  assume e: "route_entry want line = Some (l, iface, gw)"
  then have "\<not> length (Fields line) < 8" "iface = Fields line ! 0" "0 \<le> l"
    by (auto simp: route_entry_def Let_def split: if_splits option.splits)
  moreover have "Fields line ! 0 \<in> set (Fields line)" using calculation(1) by (intro nth_mem) linarith
  ultimately show ?thesis using fields_not_empty[of iface "[]" line] by (simp add: Fields_def)
qed

lemma first_best:
  "(let b = fold (route_turn want) ls best in
    b = best \<and> (\<forall>l \<in> set ls. \<forall>x. route_entry want l = Some x \<longrightarrow> fst x \<le> fst best) \<or>
    fst best < fst b \<and> (\<exists>pre l post. ls = pre @ l # post \<and> route_entry want l = Some b \<and>
      (\<forall>q \<in> set pre. \<forall>x. route_entry want q = Some x \<longrightarrow> fst x < fst b) \<and>
      (\<forall>q \<in> set post. \<forall>x. route_entry want q = Some x \<longrightarrow> fst x \<le> fst b)))"
proof (induction ls arbitrary: best)
  case (Cons line ls)
  define best' where "best' = route_turn want line best"
  define b where "b = fold (route_turn want) ls best'"
  have f: "fold (route_turn want) (line # ls) best = b" by (simp add: b_def best'_def)
  have turn: "best' = best \<and> (\<forall>x. route_entry want line = Some x \<longrightarrow> fst x \<le> fst best) \<or>
      route_entry want line = Some best' \<and> fst best < fst best'"
    by (auto simp: best'_def route_turn_entry split: option.splits)
  from Cons.IH[of best'] consider
    (same) "b = best'" "\<forall>l \<in> set ls. \<forall>x. route_entry want l = Some x \<longrightarrow> fst x \<le> fst best'"
    | (later) pre l post where "fst best' < fst b" "ls = pre @ l # post" "route_entry want l = Some b"
      "\<forall>q \<in> set pre. \<forall>x. route_entry want q = Some x \<longrightarrow> fst x < fst b" "\<forall>q \<in> set post. \<forall>x. route_entry want q = Some x \<longrightarrow> fst x \<le> fst b"
    unfolding b_def[symmetric] Let_def by blast
  then show ?case
  proof cases
    case same
    from turn show ?thesis
    proof
      assume "best' = best \<and> (\<forall>x. route_entry want line = Some x \<longrightarrow> fst x \<le> fst best)"
      then show ?thesis using same unfolding Let_def f by simp
    next
      assume "route_entry want line = Some best' \<and> fst best < fst best'"
      then have "route_entry want line = Some b" "fst best < fst b" "\<forall>q \<in> set ls. \<forall>x. route_entry want q = Some x \<longrightarrow> fst x \<le> fst b"
        using same by simp_all
      then show ?thesis unfolding Let_def f by (intro disjI2 conjI exI[of _ "[]"] exI[of _ line] exI[of _ ls]) simp_all
    qed
  next
    case later
    have lt: "fst best < fst b" "\<forall>x. route_entry want line = Some x \<longrightarrow> fst x < fst b" using turn later(1) by auto
    have "line # ls = (line # pre) @ l # post" "\<forall>q \<in> set (line # pre). \<forall>x. route_entry want q = Some x \<longrightarrow> fst x < fst b"
      using later(2,4) lt(2) by auto
    then show ?thesis unfolding Let_def f using lt(1) later(3,5) by blast
  qed
qed simp

text \<open>The way out is the one the kernel takes. Of the lines of its table that hold the destination, the first of the most
  specific names the interface and the gateway, malformed lines apart; there is no way out exactly when no line holds
  the destination.\<close>
theorem route_longest_prefix:
  "case routeToward (Some lines) dst of
     Inr (iface, gateway) \<Rightarrow> \<exists>pre line post l. drop 1 lines = pre @ line # post \<and> route_entry (get32 dst) line = Some (l, iface, gateway) \<and>
       (\<forall>q \<in> set pre. \<forall>x. route_entry (get32 dst) q = Some x \<longrightarrow> fst x < l) \<and> (\<forall>q \<in> set post. \<forall>x. route_entry (get32 dst) q = Some x \<longrightarrow> fst x \<le> l)
   | Inl e \<Rightarrow> e = NoRoute \<and> (\<forall>line \<in> set (drop 1 lines). route_entry (get32 dst) line = None)"
proof -
  define b where "b = fold (route_turn (get32 dst)) (drop 1 lines) (-1, '''', None)"
  obtain l iface gw where lig: "b = (l, iface, gw)" by (cases b)
  have r: "routeToward (Some lines) dst = (if iface = '''' then Inl NoRoute else Inr (iface, gw))"
    unfolding routeToward_def option.case b_def[symmetric] lig Let_def by simp
  have first: "b = (-1, '''', None) \<and> (\<forall>l \<in> set (drop 1 lines). \<forall>x. route_entry (get32 dst) l = Some x \<longrightarrow> fst x \<le> -1) \<or>
    (\<exists>pre l post. drop 1 lines = pre @ l # post \<and> route_entry (get32 dst) l = Some b \<and>
      (\<forall>q \<in> set pre. \<forall>x. route_entry (get32 dst) q = Some x \<longrightarrow> fst x < fst b) \<and>
      (\<forall>q \<in> set post. \<forall>x. route_entry (get32 dst) q = Some x \<longrightarrow> fst x \<le> fst b))"
    using first_best[of "get32 dst" "drop 1 lines" "(-1, '''', None)"] unfolding b_def[symmetric] Let_def by auto
  show ?thesis
  proof (cases "iface = ''''")
    case True
    then have "\<not> (\<exists>l. route_entry (get32 dst) l = Some b)" using route_entry_iface unfolding lig by blast
    then have "\<forall>l \<in> set (drop 1 lines). \<forall>x. route_entry (get32 dst) l = Some x \<longrightarrow> fst x \<le> -1" using first by blast
    moreover have "\<not> fst x \<le> -1" if "route_entry (get32 dst) l = Some x" for l x
      using that route_entry_iface[of "get32 dst" l "fst x" "fst (snd x)" "snd (snd x)"] by simp
    ultimately have "\<forall>l \<in> set (drop 1 lines). route_entry (get32 dst) l = None" by (meson not_Some_eq)
    then show ?thesis using True by (simp add: r)
  next
    case False
    then have "b \<noteq> (-1, '''', None)" by (simp add: lig)
    then show ?thesis using first False unfolding r lig by auto
  qed
qed

text \<open>A carrier can be opened that cannot send. Wherever the packet socket opens but gives no raw connection, the raw
  socket that was to take its place is not opened either and the carrier comes up with neither; in every other case a
  carrier that comes up has a way to send.\<close>
theorem pck_silent_carrier:
  assumes "newPckConn run have sha256 h s server listenPort carrier w = (w', Inr c)"
  shows "\<exists>e. pck_egress h server carrier = Inr e \<and>
    (pck_send (ca_tx c) frame = SentNothing \<longleftrightarrow> eg_Ethernet e \<and> eg_NextHop e \<noteq> None \<and> so_packet s \<and> so_nonblock s \<and> \<not> so_rawconn s)"
proof -
  obtain e where e: "pck_egress h server carrier = Inr e" using assms by (cases "pck_egress h server carrier") (simp_all add: newPckConn_def)
  have "openTx s e = Some (ca_tx c)"
    using assms unfolding newPckConn_def e by (auto simp: Let_def split: option.splits if_splits prod.splits)
  then show ?thesis using e by (auto simp: pck_send_def openTx_def split: if_splits)
qed

section \<open>Lemmas: the firewall\<close>

text \<open>What the code relies on of \<open>iptables\<close>: deleting takes one copy of a rule away and fails when there is none; inserting
  adds one or fails without effect.\<close>

definition guard_firewall :: "'f iptables \<Rightarrow> ('f \<Rightarrow> fw_rule \<Rightarrow> nat) \<Rightarrow> bool" where
  "guard_firewall run copies \<longleftrightarrow>
     (\<forall>f table body f' ok. run ([''-t'', table, ''-D''] @ body) f = (f', ok) \<longrightarrow>
        ok = (0 < copies f (table # body)) \<and> copies f' = (copies f)(table # body := copies f (table # body) - 1)) \<and>
     (\<forall>f table body f' ok. run ([''-t'', table, ''-I''] @ body) f = (f', ok) \<longrightarrow>
        copies f' = (if ok then (copies f)(table # body := Suc (copies f (table # body))) else copies f))"

lemma sweep_copies_copies:
  assumes "guard_firewall run copies"
  shows "copies (sweep_copies run ([''-t'', table, ''-D''] @ body) n f) = (copies f)(table # body := copies f (table # body) - n)"
proof (induction n arbitrary: f)
  case (Suc n)
  obtain f' ok where r: "run ([''-t'', table, ''-D''] @ body) f = (f', ok)" by (cases "run ([''-t'', table, ''-D''] @ body) f")
  then have d: "ok = (0 < copies f (table # body))" "copies f' = (copies f)(table # body := copies f (table # body) - 1)"
    using assms unfolding guard_firewall_def by blast+
  show ?case
  proof (cases ok)
    case True
    then show ?thesis using Suc.IH[of f'] r d(2) by (simp add: Let_def fun_eq_iff)
  next
    case False
    then show ?thesis using r d by (simp add: Let_def fun_eq_iff)
  qed
qed simp

lemma add_rule_copies:
  assumes fw: "guard_firewall run copies" and r: "copies f (table # body) \<le> 1024"
  shows "\<exists>f' ok. add_rule run (table # body) (f, added) = (f', if ok then added @ [table # body] else added) \<and>
    copies f' = (copies f)(table # body := if ok then 1 else 0)"
proof -
  define f1 where "f1 = sweepPckRule run table body f"
  have f1: "copies f1 = (copies f)(table # body := 0)"
    using sweep_copies_copies[OF fw, of table body 1024 f] r by (simp add: f1_def sweepPckRule_def)
  obtain f' ok where i: "run ([''-t'', table, ''-I''] @ body) f1 = (f', ok)" by (cases "run ([''-t'', table, ''-I''] @ body) f1")
  then have "copies f' = (if ok then (copies f1)(table # body := Suc (copies f1 (table # body))) else copies f1)"
    using fw unfolding guard_firewall_def by blast
  then have "copies f' = (copies f)(table # body := if ok then 1 else 0)" by (simp add: f1)
  moreover have "add_rule run (table # body) (f, added) = (f', if ok then added @ [table # body] else added)"
    using i by (simp add: add_rule_def Let_def f1_def)
  ultimately show ?thesis by blast
qed

lemma add_rules_copies:
  assumes fw: "guard_firewall run copies"
  shows "distinct rs \<Longrightarrow> [] \<notin> set rs \<Longrightarrow> \<forall>r \<in> set rs. copies f r \<le> 1024 \<Longrightarrow> set added \<inter> set rs = {} \<Longrightarrow>
    \<exists>f' more. fold (add_rule run) rs (f, added) = (f', added @ more) \<and> set more \<subseteq> set rs \<and> distinct more \<and>
      copies f' = (\<lambda>r. if r \<in> set more then 1 else if r \<in> set rs then 0 else copies f r)"
proof (induction rs arbitrary: f added)
  case (Cons r rs)
  obtain table body where r: "r = table # body" using Cons.prems(2) by (cases r) auto
  obtain f1 ok where a: "add_rule run r (f, added) = (f1, if ok then added @ [r] else added)"
    "copies f1 = (copies f)(r := if ok then 1 else 0)"
    using add_rule_copies[OF fw, of f table body added] Cons.prems(3) unfolding r by auto
  define added1 where "added1 = (if ok then added @ [r] else added)"
  have "set added1 \<inter> set rs = {}" using Cons.prems(1,4) by (auto simp: added1_def)
  moreover have "\<forall>q \<in> set rs. copies f1 q \<le> 1024" using Cons.prems(1,3) by (auto simp: a(2))
  ultimately obtain f' more where m: "fold (add_rule run) rs (f1, added1) = (f', added1 @ more)" "set more \<subseteq> set rs" "distinct more"
    "copies f' = (\<lambda>r. if r \<in> set more then 1 else if r \<in> set rs then 0 else copies f1 r)"
    using Cons.IH[of f1 added1] Cons.prems(1,2) by auto
  define more' where "more' = (if ok then r # more else more)"
  have "fold (add_rule run) (r # rs) (f, added) = (f', added @ more')"
    using m(1) by (simp add: a(1) added1_def[symmetric]) (simp add: added1_def more'_def)
  moreover have "set more' \<subseteq> set (r # rs)" "distinct more'" using m(2,3) Cons.prems(1) by (auto simp: more'_def)
  moreover have "copies f' = (\<lambda>q. if q \<in> set more' then 1 else if q \<in> set (r # rs) then 0 else copies f q)"
    using Cons.prems(1) m(2) by (auto simp: m(4) a(2) more'_def fun_eq_iff)
  ultimately show ?case by blast
qed auto

lemma delete_rules_copies:
  assumes fw: "guard_firewall run copies"
  shows "distinct rs \<Longrightarrow> [] \<notin> set rs \<Longrightarrow> copies (fold (delete_rule run) rs f) = (\<lambda>r. if r \<in> set rs then copies f r - 1 else copies f r)"
proof (induction rs arbitrary: f)
  case (Cons r rs)
  obtain table body where r: "r = table # body" using Cons.prems(2) by (cases r) auto
  obtain f1 ok where "run ([''-t'', table, ''-D''] @ body) f = (f1, ok)" by (cases "run ([''-t'', table, ''-D''] @ body) f")
  then have "copies (delete_rule run r f) = (copies f)(r := copies f r - 1)"
    using fw unfolding guard_firewall_def by (auto simp: delete_rule_def r)
  then show ?case using Cons.IH[of "delete_rule run r f"] Cons.prems by (auto simp: fun_eq_iff)
qed simp

lemma uint_digits: "itoa (uint (w :: u16)) = format_nat (unat w)"
  by (simp add: itoa_def not_less)

lemma no_colon: "CHR '':'' \<notin> set (format_nat n)"
  using format_nat_plain[of n] by auto

lemma colon_split: "CHR '':'' \<notin> set a \<Longrightarrow> CHR '':'' \<notin> set c \<Longrightarrow> a @ CHR '':'' # b = c @ CHR '':'' # d \<longleftrightarrow> a = c \<and> b = d"
proof (induction a arbitrary: c)
  case Nil
  then show ?case by (cases c) auto
next
  case (Cons x a)
  then show ?case by (cases c) auto
qed

lemma guardKey_inj: "guardKey lo hi = guardKey lo' hi' \<longleftrightarrow> lo = lo' \<and> hi = hi'"
  by (simp add: guardKey_def uint_digits colon_split no_colon format_nat_inj word_unat_eq_iff[symmetric])

lemma portSpec_inj: "portSpec lo hi = portSpec lo' hi' \<longleftrightarrow> lo = lo' \<and> hi = hi'"
proof -
  have n: "format_nat a \<noteq> b @ CHR '':'' # c" for a b c using no_colon[of a] by (metis in_set_conv_decomp)
  show ?thesis
    using n[symmetric] by (auto simp: portSpec_def uint_digits colon_split no_colon format_nat_inj word_unat_eq_iff[symmetric] n split: if_splits)
qed

lemma pckRules_rules:
  "distinct (pckRules lo hi)" "[] \<notin> set (pckRules lo hi)"
  "r \<in> set (pckRules lo hi) \<Longrightarrow> last r = ''backpack-pck-'' @ portSpec lo hi"
  by (auto simp: pckRules_def Let_def)

lemma pckRules_disjoint: "r \<in> set (pckRules lo hi) \<Longrightarrow> r \<in> set (pckRules lo' hi') \<Longrightarrow> lo = lo' \<and> hi = hi'"
  using pckRules_rules(3)[of r lo hi] pckRules_rules(3)[of r lo' hi'] by (simp add: portSpec_inj)

section \<open>The life of carriers\<close>

text \<open>The rules of a range, given how many carriers it has: one copy of each that took while there are any; before and
  after, what an earlier run left, or nothing.\<close>

definition guards_right :: "('f \<Rightarrow> fw_rule \<Rightarrow> nat) \<Rightarrow> 'f \<Rightarrow> guards \<Rightarrow> 'f \<Rightarrow> (u16 \<Rightarrow> u16 \<Rightarrow> nat) \<Rightarrow> bool" where
  "guards_right copies f0 guards f users \<longleftrightarrow>
     (\<forall>lo hi. case guards (guardKey lo hi) of
        None \<Rightarrow> users lo hi = 0 \<and> (\<forall>r \<in> set (pckRules lo hi). copies f r = 0 \<or> copies f r = copies f0 r)
      | Some sh \<Rightarrow> 0 < users lo hi \<and> sh_ref sh = int (users lo hi) \<and> pg_rules (sh_g sh) = pckRules lo hi \<and>
          set (pg_added (sh_g sh)) \<subseteq> set (pckRules lo hi) \<and> distinct (pg_added (sh_g sh)) \<and>
          (\<forall>r \<in> set (pckRules lo hi). copies f r = (if r \<in> set (pg_added (sh_g sh)) then 1 else 0)))"

lemma guards_right_None:
  "guards_right copies f0 guards f users \<Longrightarrow> guards (guardKey lo hi) = None \<Longrightarrow>
   users lo hi = 0 \<and> (\<forall>r \<in> set (pckRules lo hi). copies f r = 0 \<or> copies f r = copies f0 r)"
  unfolding guards_right_def by (drule spec[of _ lo], drule spec[of _ hi]) simp

lemma guards_right_Some:
  "guards_right copies f0 guards f users \<Longrightarrow> guards (guardKey lo hi) = Some sh \<Longrightarrow>
   0 < users lo hi \<and> sh_ref sh = int (users lo hi) \<and> pg_rules (sh_g sh) = pckRules lo hi \<and>
     set (pg_added (sh_g sh)) \<subseteq> set (pckRules lo hi) \<and> distinct (pg_added (sh_g sh)) \<and>
     (\<forall>r \<in> set (pckRules lo hi). copies f r = (if r \<in> set (pg_added (sh_g sh)) then 1 else 0))"
  unfolding guards_right_def by (drule spec[of _ lo], drule spec[of _ hi]) simp

text \<open>One range changes and no rule of another.\<close>

lemma guards_right_update:
  assumes g: "guards_right copies f0 guards f users"
    and here: "case entry of
        None \<Rightarrow> n = 0 \<and> (\<forall>r \<in> set (pckRules lo hi). copies f' r = 0 \<or> copies f' r = copies f0 r)
      | Some sh \<Rightarrow> 0 < n \<and> sh_ref sh = int n \<and> pg_rules (sh_g sh) = pckRules lo hi \<and>
          set (pg_added (sh_g sh)) \<subseteq> set (pckRules lo hi) \<and> distinct (pg_added (sh_g sh)) \<and>
          (\<forall>r \<in> set (pckRules lo hi). copies f' r = (if r \<in> set (pg_added (sh_g sh)) then 1 else 0))"
    and elsewhere: "\<And>r. r \<notin> set (pckRules lo hi) \<Longrightarrow> copies f' r = copies f r"
  shows "guards_right copies f0 (guards(guardKey lo hi := entry)) f' (\<lambda>l h. if l = lo \<and> h = hi then n else users l h)"
proof -
  have keep: "copies f' r = copies f r" if "r \<in> set (pckRules l h)" "\<not> (l = lo \<and> h = hi)" for r l h
    using elsewhere pckRules_disjoint[of r l h lo hi] that by blast
  show ?thesis unfolding guards_right_def
  proof (intro allI)
    fix l h
    show "case (guards(guardKey lo hi := entry)) (guardKey l h) of
        None \<Rightarrow> (if l = lo \<and> h = hi then n else users l h) = 0 \<and> (\<forall>r \<in> set (pckRules l h). copies f' r = 0 \<or> copies f' r = copies f0 r)
      | Some sh \<Rightarrow> 0 < (if l = lo \<and> h = hi then n else users l h) \<and> sh_ref sh = int (if l = lo \<and> h = hi then n else users l h) \<and>
          pg_rules (sh_g sh) = pckRules l h \<and> set (pg_added (sh_g sh)) \<subseteq> set (pckRules l h) \<and> distinct (pg_added (sh_g sh)) \<and>
          (\<forall>r \<in> set (pckRules l h). copies f' r = (if r \<in> set (pg_added (sh_g sh)) then 1 else 0))"
    proof (cases "l = lo \<and> h = hi")
      case True
      then show ?thesis using here by (cases entry) simp_all
    next
      case False
      then have k: "(guards(guardKey lo hi := entry)) (guardKey l h) = guards (guardKey l h)" using guardKey_inj[of l h lo hi] by auto
      show ?thesis
      proof (cases "guards (guardKey l h)")
        case None
        then show ?thesis using guards_right_None[OF g None] False keep[of _ l h] unfolding k by auto
      next
        case (Some sh)
        then show ?thesis using guards_right_Some[OF g Some] False keep[of _ l h] unfolding k by auto
      qed
    qed
  qed
qed

lemma install_right:
  assumes fw: "guard_firewall run copies" and g: "guards_right copies f0 guards f users"
    and stale: "\<And>r. copies f0 r \<le> 1024" and i: "installPckGuard run True lo hi (guards, f) = (guards', f')"
  shows "guards_right copies f0 guards' f' (\<lambda>l h. if l = lo \<and> h = hi then users lo hi + 1 else users l h)"
proof (cases "guards (guardKey lo hi)")
  case (Some sh)
  note s = guards_right_Some[OF g Some]
  have "guards' = guards(guardKey lo hi := Some (sh\<lparr>sh_ref := sh_ref sh + 1\<rparr>))" "f' = f"
    using i Some by (simp_all add: installPckGuard_def Let_def)
  then show ?thesis using s by (auto intro!: guards_right_update[OF g])
next
  case None
  note n = guards_right_None[OF g None]
  have le: "\<forall>r \<in> set (pckRules lo hi). copies f r \<le> 1024" using n stale by (metis le0)
  obtain f1 more where m: "fold (add_rule run) (pckRules lo hi) (f, []) = (f1, [] @ more)" "set more \<subseteq> set (pckRules lo hi)" "distinct more"
    "copies f1 = (\<lambda>r. if r \<in> set more then 1 else if r \<in> set (pckRules lo hi) then 0 else copies f r)"
    using add_rules_copies[OF fw pckRules_rules(1,2) le, of "[]"] by auto
  define sh where "sh = \<lparr>sh_g = \<lparr>pg_lo = lo, pg_hi = hi, pg_rules = pckRules lo hi, pg_added = more\<rparr>, sh_ref = 1\<rparr>"
  have "guards' = guards(guardKey lo hi := Some sh)" "f' = f1"
    using i None m(1) by (simp_all add: installPckGuard_def Let_def sh_def)
  moreover have "copies f1 r = copies f r" if "r \<notin> set (pckRules lo hi)" for r using that m(2) by (auto simp: m(4))
  ultimately show ?thesis using m(2-4) n by (auto intro!: guards_right_update[OF g] simp: sh_def)
qed

lemma remove_right:
  assumes fw: "guard_firewall run copies" and g: "guards_right copies f0 guards f users" and u: "0 < users lo hi"
    and r: "pckGuard_remove run lo hi (guards, f) = (guards', f')"
  shows "guards_right copies f0 guards' f' (\<lambda>l h. if l = lo \<and> h = hi then users lo hi - 1 else users l h)"
proof -
  obtain sh where sh: "guards (guardKey lo hi) = Some sh"
    using guards_right_None[OF g, of lo hi] u by (cases "guards (guardKey lo hi)") auto
  note s = guards_right_Some[OF g sh]
  show ?thesis
  proof (cases "users lo hi = 1")
    case True
    have e: "guards' = guards(guardKey lo hi := None)" "f' = fold (delete_rule run) (pg_added (sh_g sh)) f"
      using r sh s True by (simp_all add: pckGuard_remove_def Let_def)
    have "[] \<notin> set (pg_added (sh_g sh))" using s pckRules_rules(2) by blast
    then have c: "copies f' = (\<lambda>r. if r \<in> set (pg_added (sh_g sh)) then copies f r - 1 else copies f r)"
      using delete_rules_copies[OF fw] s unfolding e(2) by blast
    have z: "\<forall>r \<in> set (pckRules lo hi). copies f' r = 0" using s by (auto simp: c)
    have o: "copies f' r = copies f r" if "r \<notin> set (pckRules lo hi)" for r using that s by (auto simp: c)
    have one: "users lo hi - 1 = 0" using True by simp
    show ?thesis unfolding one using guards_right_update[OF g, where entry = None and n = 0 and lo = lo and hi = hi and f' = f'] z o e(1) by simp
  next
    case False
    then have "1 < users lo hi" using u by simp
    then have e: "guards' = guards(guardKey lo hi := Some (sh\<lparr>sh_ref := sh_ref sh - 1\<rparr>))" "f' = f"
      using r sh s by (simp_all add: pckGuard_remove_def Let_def)
    show ?thesis unfolding e using s \<open>1 < users lo hi\<close> by (intro guards_right_update[OF g]) (auto simp: of_nat_diff)
  qed
qed

text \<open>Carriers are opened, successfully or not, and those that live are closed, in any order.\<close>

definition range_users :: "pckCarrier list \<Rightarrow> u16 \<Rightarrow> u16 \<Rightarrow> nat" where
  "range_users live lo hi = length (filter (\<lambda>c. ca_lo c = lo \<and> ca_hi c = hi) live)"

inductive pck_life :: "'f iptables \<Rightarrow> 'f \<Rightarrow> 'f pck_world \<Rightarrow> pckCarrier list \<Rightarrow> bool" for run f0 where
  start: "pck_life run f0 \<lparr>wo_used = {}, wo_guards = Map.empty, wo_fw = f0\<rparr> []"
| opened: "pck_life run f0 w live \<Longrightarrow> newPckConn run True sha256 h s server port carrier w = (w', Inr c) \<Longrightarrow> pck_life run f0 w' (c # live)"
| refused: "pck_life run f0 w live \<Longrightarrow> newPckConn run True sha256 h s server port carrier w = (w', Inl e) \<Longrightarrow> pck_life run f0 w' live"
| closed: "pck_life run f0 w (pre @ c # post) \<Longrightarrow> pck_life run f0 (pck_Close run c w) (pre @ post)"

definition life_right :: "('f \<Rightarrow> fw_rule \<Rightarrow> nat) \<Rightarrow> 'f \<Rightarrow> 'f pck_world \<Rightarrow> pckCarrier list \<Rightarrow> bool" where
  "life_right copies f0 w live \<longleftrightarrow>
     guards_right copies f0 (wo_guards w) (wo_fw w) (range_users live) \<and>
     distinct (map (\<lambda>c. pc_local (ca_conn c)) (filter ca_holdsPort live)) \<and>
     set (map (\<lambda>c. pc_local (ca_conn c)) (filter ca_holdsPort live)) = wo_used w \<and>
     (\<forall>c \<in> set live. ca_lo c \<le> pc_local (ca_conn c) \<and> pc_local (ca_conn c) \<le> ca_hi c)"

lemma newPckConn_opened:
  assumes "newPckConn run have sha256 h s server port carrier w = (w', Inr c)"
  shows "installPckGuard run have (ca_lo c) (ca_hi c) (wo_guards w, wo_fw w) = (wo_guards w', wo_fw w')"
    "if ca_holdsPort c then pc_local (ca_conn c) \<notin> wo_used w \<and> wo_used w' = insert (pc_local (ca_conn c)) (wo_used w)
     else wo_used w' = wo_used w"
    "ca_lo c \<le> pc_local (ca_conn c)" "pc_local (ca_conn c) \<le> ca_hi c"
proof -
  let ?base = "pckClientPortBase (sha256 (bytes_of ''backpack-pck-v1:'' @ cr_Token carrier))"
  obtain e where e: "pck_egress h server carrier = Inr e" using assms by (cases "pck_egress h server carrier") (simp_all add: newPckConn_def)
  define claim where "claim = (if server then Some (wo_used w, port) else nextPckClientPort ?base (wo_used w))"
  obtain used local where u: "claim = Some (used, local)"
    using assms unfolding newPckConn_def e Let_def sum.case claim_def[symmetric] by (cases claim) auto
  have ok: "so_rx s" "openTx s e \<noteq> None"
    using assms unfolding newPckConn_def e Let_def sum.case claim_def[symmetric] u
    by (auto split: if_splits option.splits)
  then obtain tx where t: "openTx s e = Some tx" by blast
  define lo hi where "lo = (if server then port else ?base)" and "hi = (if server then port else ?base + pckPortSpan - 1)"
  obtain guards fw where g: "installPckGuard run have lo hi (wo_guards w, wo_fw w) = (guards, fw)" by fastforce
  have w': "w' = w\<lparr>wo_used := used, wo_guards := guards, wo_fw := fw\<rparr>" and
    c: "pc_local (ca_conn c) = local" "ca_lo c = lo" "ca_hi c = hi" "ca_holdsPort c \<longleftrightarrow> \<not> server"
    using assms ok(1) g unfolding newPckConn_def e Let_def sum.case claim_def[symmetric] u option.case prod.case t lo_def hi_def
    by auto
  show "installPckGuard run have (ca_lo c) (ca_hi c) (wo_guards w, wo_fw w) = (wo_guards w', wo_fw w')" using g by (simp add: c w')
  have p: "if server then used = wo_used w \<and> local = port
      else local \<notin> wo_used w \<and> used = insert local (wo_used w) \<and> ?base \<le> local \<and> local \<le> ?base + pckPortSpan - 1"
    using u client_ports[of "sha256 (bytes_of ''backpack-pck-v1:'' @ cr_Token carrier)" "wo_used w"]
    by (auto simp: claim_def split: if_splits)
  then show "if ca_holdsPort c then pc_local (ca_conn c) \<notin> wo_used w \<and> wo_used w' = insert (pc_local (ca_conn c)) (wo_used w)
     else wo_used w' = wo_used w" "ca_lo c \<le> pc_local (ca_conn c)" "pc_local (ca_conn c) \<le> ca_hi c"
    by (auto simp: c w' lo_def hi_def split: if_splits)
qed

lemma newPckConn_refused:
  assumes "newPckConn run have sha256 h s server port carrier w = (w', Inl e)"
  shows "w' = w"
proof (cases "pck_egress h server carrier")
  case (Inl err)
  then show ?thesis using assms by (simp add: newPckConn_def)
next
  case (Inr eg)
  let ?base = "pckClientPortBase (sha256 (bytes_of ''backpack-pck-v1:'' @ cr_Token carrier))"
  define claim where "claim = (if server then Some (wo_used w, port) else nextPckClientPort ?base (wo_used w))"
  note c = assms[unfolded newPckConn_def Inr Let_def sum.case claim_def[symmetric]]
  show ?thesis
  proof (cases claim)
    case None
    then show ?thesis using c by simp
  next
    case (Some ul)
    obtain used local where u: "claim = Some (used, local)" using Some by (cases ul) simp
    have freed: "releasePckClientPort local used = wo_used w" if "\<not> server"
    proof -
      have n: "nextPckClientPort ?base (wo_used w) = Some (used, local)" using u that by (simp add: claim_def)
      show ?thesis
        using client_ports[of "sha256 (bytes_of ''backpack-pck-v1:'' @ cr_Token carrier)" "wo_used w"] unfolding n option.case prod.case by blast
    qed
    have "(if server then w\<lparr>wo_used := used\<rparr> else w\<lparr>wo_used := used, wo_used := releasePckClientPort local used\<rparr>) = w"
      using u freed by (cases server) (simp_all add: claim_def)
    moreover have "w' = (if server then w\<lparr>wo_used := used\<rparr> else w\<lparr>wo_used := used, wo_used := releasePckClientPort local used\<rparr>)"
      using c unfolding u by (auto split: if_splits option.splits prod.splits)
    ultimately show ?thesis by simp
  qed
qed

lemma range_users_simps:
  "range_users (c # live) = (\<lambda>l h. if l = ca_lo c \<and> h = ca_hi c then range_users live (ca_lo c) (ca_hi c) + 1 else range_users live l h)"
  "range_users (pre @ post) = (\<lambda>l h. if l = ca_lo c \<and> h = ca_hi c then range_users (pre @ c # post) (ca_lo c) (ca_hi c) - 1 else range_users (pre @ c # post) l h)"
  "0 < range_users (pre @ c # post) (ca_lo c) (ca_hi c)"
  by (auto simp: range_users_def fun_eq_iff)

lemma pck_life_right:
  assumes fw: "guard_firewall run copies" and stale: "\<And>r. copies f0 r \<le> 1024"
  shows "pck_life run f0 w live \<Longrightarrow> life_right copies f0 w live"
proof (induction rule: pck_life.induct)
  case start
  then show ?case by (simp add: life_right_def guards_right_def range_users_def)
next
  case (opened w live sha256 h s server port carrier w' c)
  note o = newPckConn_opened[OF opened(2)]
  have r: "guards_right copies f0 (wo_guards w) (wo_fw w) (range_users live)" using opened.IH by (simp add: life_right_def)
  have "guards_right copies f0 (wo_guards w') (wo_fw w') (range_users (c # live))"
    unfolding range_users_simps(1) by (rule install_right[OF fw r stale o(1)])
  then show ?case using opened.IH o(2-4) by (auto simp: life_right_def)
next
  case (refused w live sha256 h s server port carrier w' e)
  then show ?case using newPckConn_refused[OF refused(2)] by simp
next
  case (closed w pre c post)
  have r: "guards_right copies f0 (wo_guards w) (wo_fw w) (range_users (pre @ c # post))" using closed.IH by (simp add: life_right_def)
  obtain guards f where g: "pckGuard_remove run (ca_lo c) (ca_hi c) (wo_guards w, wo_fw w) = (guards, f)" by fastforce
  have "guards_right copies f0 guards f (range_users (pre @ post))"
    unfolding range_users_simps(2)[of pre post c] by (rule remove_right[OF fw r range_users_simps(3) g])
  then show ?case using closed.IH by (auto simp: life_right_def pck_Close_def g releasePckClientPort_def)
qed


section \<open>Examples\<close>

definition demo_routes :: "string list" where
  "demo_routes = [''Iface Destination'', ''eth0 00000000 0100000A'', ''w A 0 1 0 0 0 FF'']"

lemma fields_simps:
  "fields_from w [] = (if w = [] then [] else [w])"
  "visible c \<Longrightarrow> fields_from w (c # s) = fields_from (w @ [c]) s"
  "fields_from w (CHR 0x20 # s) = (if w = [] then [] else [w]) @ fields_from [] s"
proof -
  show "fields_from w [] = (if w = [] then [] else [w])" by (simp add: fields_from.simps)
  show "visible c \<Longrightarrow> fields_from w (c # s) = fields_from (w @ [c]) s"
    using space_prefix_visible[OF space_runes_invisible(1), of c s] by (subst fields_from.simps) simp
  have "space_prefix space_runes (CHR 0x20 # s) = 1" by (simp add: space_prefix_def space_runes_def)
  then show "fields_from w (CHR 0x20 # s) = (if w = [] then [] else [w]) @ fields_from [] s"
    by (subst fields_from.simps) simp
qed

lemma demo_route: "route_entry (get32 [10, 9, 8, 7]) ''w A 0 1 0 0 0 FF'' = Some (8, ''w'', None)"
proof -
  have f: "Fields ''w A 0 1 0 0 0 FF'' = [''w'', ''A'', ''0'', ''1'', ''0'', ''0'', ''0'', ''FF'']"
    by (simp add: Fields_def fields_simps visible_def)
  have b: "put32 w = [ucast (drop_bit 24 w), ucast (drop_bit 16 w), ucast (drop_bit 8 w), ucast w]" for w
    by (simp add: put32_def eval_nat_numeral)
  have x: "hex_val (CHR ''A'') = Some 10" "hex_val (CHR ''0'') = Some 0" "hex_val (CHR ''F'') = Some 15" by code_simp+
  have h: "hexLE ''A'' = Some 0x0A000000" "hexLE ''0'' = Some 0" "hexLE ''FF'' = Some 0xFF000000"
    by (simp_all add: hexLE_def parse_hex32_def x hex_number_def b get32_def be_get_def)
  have m: "maskLen 0xFF000000 = 8" "get32 [10, 9, 8, 7] AND 0xFF000000 = 0x0A000000"
    by (simp add: maskLen_def eval_nat_numeral) (simp add: get32_def be_get_def)
  show ?thesis unfolding route_entry_def f Let_def by (simp add: h m)
qed

theorem route_longest_prefix_witness: "\<exists>iface gateway. routeToward (Some demo_routes) [10, 9, 8, 7] = Inr (iface, gateway)"
proof (cases "routeToward (Some demo_routes) [10, 9, 8, 7]")
  case (Inl e)
  then have "route_entry (get32 [10, 9, 8, 7]) ''w A 0 1 0 0 0 FF'' = None"
    using route_longest_prefix[of demo_routes "[10, 9, 8, 7]"] by (simp add: demo_routes_def)
  then show ?thesis by (simp add: demo_route)
next
  case (Inr r)
  then show ?thesis by (cases r) simp
qed

definition demo_host :: host where
  "demo_host = \<lparr>ho_routes = None, ho_arp = \<lambda>_. None,
     ho_ifaces = Some [\<lparr>if_Name = ''eth0'', if_HardwareAddr = [2, 0, 0, 0, 0, 1], if_Addrs = [[10, 0, 0, 1]], if_Up = True, if_Loopback = False\<rparr>],
     ho_local = \<lambda>_. [10, 0, 0, 1]\<rparr>"

definition demo_pcap :: PcapCarrier where
  "demo_pcap = \<lparr>cr_Port = 443, cr_Interface = ''eth0'', cr_GatewayMAC = ''02:00:00:00:00:fe'', cr_Flags = [], cr_PeerIP = '''', cr_Token = []\<rparr>"

definition demo_egress :: pckEgress where
  "demo_egress = \<lparr>eg_Iface = ''eth0'', eg_LocalIP = [10, 0, 0, 1], eg_SrcMAC = [2, 0, 0, 0, 0, 1], eg_NextHop = Some [2, 0, 0, 0, 0, 254],
     eg_LinkLen = 14, eg_Ethernet = True\<rparr>"

lemma demo_pck_egress: "pck_egress demo_host True demo_pcap = Inr demo_egress"
proof -
  have t: "TrimSpace ''02:00:00:00:00:fe'' = ''02:00:00:00:00:fe''" by (rule TrimSpace_visible) (simp add: visible_def)
  have m: "ParseMAC6 ''02:00:00:00:00:fe'' = Some [2, 0, 0, 0, 0, 254]" by code_simp
  have z: "ParseIP '''' = None" by (simp add: ParseIP_def ParseAddr_def)
  show ?thesis
    by (simp add: pck_egress_def demo_pcap_def demo_host_def demo_egress_def z discoverEgress_def To4_def and_then_def routeToward_def
        parseMAC_def t m ip_Equal_def pckEthHeaderLen_def Let_def)
qed

lemma demo_opens: "\<exists>w' c. newPckConn run have sha256 demo_host \<lparr>so_rx = True, so_packet = True, so_nonblock = True, so_rawconn = r, so_listen = True, so_header = True\<rparr>
    True 443 demo_pcap w = (w', Inr c)"
  by (simp add: newPckConn_def demo_pck_egress openTx_def demo_egress_def Let_def split: prod.splits)

theorem pck_silent_carrier_witness:
  "\<exists>w c. newPckConn (\<lambda>_ f. (f, False)) False (\<lambda>_. []) demo_host
      \<lparr>so_rx = True, so_packet = True, so_nonblock = True, so_rawconn = False, so_listen = True, so_header = True\<rparr> True 443 demo_pcap
      \<lparr>wo_used = {}, wo_guards = Map.empty, wo_fw = ()\<rparr> = (w, Inr c) \<and> pck_send (ca_tx c) [1] = SentNothing"
proof -
  obtain w c where o: "newPckConn (\<lambda>_ f. (f, False)) False (\<lambda>_. []) demo_host
      \<lparr>so_rx = True, so_packet = True, so_nonblock = True, so_rawconn = False, so_listen = True, so_header = True\<rparr> True 443 demo_pcap
      \<lparr>wo_used = {}, wo_guards = Map.empty, wo_fw = ()\<rparr> = (w, Inr c)" using demo_opens by blast
  then show ?thesis using pck_silent_carrier[OF o, of "[1]"] by (auto simp: demo_pck_egress demo_egress_def)
qed

fun demo_iptables :: "fw_rule list iptables" where
  "demo_iptables (t # table # verb # body) f =
     (if verb = ''-I'' then (f @ [table # body], True)
      else if verb = ''-D'' then (remove1 (table # body) f, table # body \<in> set f)
      else (f, False))"
| "demo_iptables _ f = (f, False)"

lemma demo_iptables_right: "guard_firewall demo_iptables count_list"
proof -
  have "count_list (remove1 k f) = (count_list f)(k := count_list f k - 1)" for k :: fw_rule and f
    by (induction f) (auto simp: fun_eq_iff count_list_0_iff)
  moreover have "(k \<in> set f) = (0 < count_list f k)" for k :: fw_rule and f
    by (simp add: count_list_0_iff flip: neq0_conv)
  ultimately show ?thesis by (auto simp: guard_firewall_def fun_eq_iff)
qed


end
