(* ===== verification/SpoofPacket.thy ===== *)
theory SpoofPacket
  imports Checksum PacketFilter NetAddr
begin

text \<open>
  The packets of the carrier with forged sources. \<open>src/internal/utils/network/spoofframe.go\<close>: the profiles a datagram can
  travel as. \<open>src/internal/utils/network/spoofpacket.go\<close>: obfuscation, fragments, and the header each profile puts in
  front. \<open>src/internal/utils/network/spoofbpf.go\<close>: the filters for the receiving socket. What \<open>rand.IntN n\<close> draws is a
  number reduced below \<open>n\<close>, the number itself a parameter; the SHA-256 digest is a parameter too.
\<close>

section \<open>Definitions: profiles\<close>

type_synonym SpoofProfile = string

definition SpoofProfileUDP :: SpoofProfile where "SpoofProfileUDP = ''udp''"
definition SpoofProfileTCP :: SpoofProfile where "SpoofProfileTCP = ''tcp''"
definition SpoofProfileICMP :: SpoofProfile where "SpoofProfileICMP = ''icmp''"
definition SpoofProfileICMPv6 :: SpoofProfile where "SpoofProfileICMPv6 = ''icmpv6''"
definition SpoofProfileIPIP :: SpoofProfile where "SpoofProfileIPIP = ''ipip''"
definition SpoofProfileProto58 :: SpoofProfile where "SpoofProfileProto58 = ''proto58''"
definition SpoofProfileGRE :: SpoofProfile where "SpoofProfileGRE = ''gre''"

lemmas profiles = SpoofProfileUDP_def SpoofProfileTCP_def SpoofProfileICMP_def SpoofProfileICMPv6_def SpoofProfileIPIP_def
  SpoofProfileProto58_def SpoofProfileGRE_def

text \<open>\<open>None\<close> is the error of an unknown profile.\<close>

definition ParseSpoofProfile :: "string \<Rightarrow> SpoofProfile option" where
  "ParseSpoofProfile s =
     (if s = '''' \<or> s = SpoofProfileUDP then Some SpoofProfileUDP
      else if s = SpoofProfileTCP then Some SpoofProfileTCP
      else if s = SpoofProfileICMP then Some SpoofProfileICMP
      else if s = SpoofProfileICMPv6 then Some SpoofProfileICMPv6
      else if s = SpoofProfileIPIP then Some SpoofProfileIPIP
      else if s = SpoofProfileProto58 then Some SpoofProfileProto58
      else if s = SpoofProfileGRE then Some SpoofProfileGRE
      else None)"

definition ResolveSpoofDirections :: "string \<Rightarrow> string \<Rightarrow> string \<Rightarrow> SpoofProfile \<times> SpoofProfile" where
  "ResolveSpoofDirections profile uplink downlink =
     (let pick = (\<lambda>dir. let v = (if dir = '''' then profile else dir) in
        case ParseSpoofProfile v of None \<Rightarrow> SpoofProfileUDP | Some p \<Rightarrow> p)
      in (pick uplink, pick downlink))"

definition ipProtocol :: "SpoofProfile \<Rightarrow> byte" where
  "ipProtocol p =
     (if p = SpoofProfileTCP then 6
      else if p = SpoofProfileICMP then 1
      else if p = SpoofProfileICMPv6 \<or> p = SpoofProfileProto58 then 58
      else if p = SpoofProfileIPIP then 4
      else if p = SpoofProfileGRE then 47
      else 17)"

definition hasPortDemux :: "SpoofProfile \<Rightarrow> bool" where
  "hasPortDemux p \<longleftrightarrow> p \<noteq> SpoofProfileIPIP \<and> p \<noteq> SpoofProfileGRE \<and> p \<noteq> SpoofProfileProto58"

definition isICMPFamily :: "SpoofProfile \<Rightarrow> bool" where
  "isICMPFamily p \<longleftrightarrow> p = SpoofProfileICMP \<or> p = SpoofProfileICMPv6"

definition icmpTypeEchoReply :: byte where "icmpTypeEchoReply = 0"
definition icmpTypeEchoRequest :: byte where "icmpTypeEchoRequest = 8"
definition icmpv6TypeEchoRequest :: byte where "icmpv6TypeEchoRequest = 128"
definition icmpv6TypeEchoReply :: byte where "icmpv6TypeEchoReply = 129"
definition icmpEchoHeaderLen :: nat where "icmpEchoHeaderLen = 8"

definition icmpEchoTypes :: "SpoofProfile \<Rightarrow> byte \<times> byte" where
  "icmpEchoTypes p =
     (if p = SpoofProfileICMPv6 then (icmpv6TypeEchoRequest, icmpv6TypeEchoReply) else (icmpTypeEchoRequest, icmpTypeEchoReply))"

definition xdiTagLen :: nat where "xdiTagLen = 4"

definition spoofIdentity :: "(bytes \<Rightarrow> bytes) \<Rightarrow> bytes \<Rightarrow> bytes \<times> u16" where
  "spoofIdentity sha256 token =
     (let digest = sha256 (bytes_of ''backpack-spoof-v1:'' @ token);
          port = get16 (take 2 (drop xdiTagLen digest))
      in (take xdiTagLen digest, if port < 1024 then port + 1024 else port))"

section \<open>Definitions: obfuscation\<close>

record SpoofDPI =
  dpi_TTLJitter :: bool
  dpi_RandomDSCP :: bool
  dpi_ShufflePort :: bool
  dpi_PortMin :: u16
  dpi_PortMax :: u16
  dpi_Padding :: bool
  dpi_PaddingMax :: byte
  dpi_FakeTLS :: bool

definition IntN :: "nat \<Rightarrow> nat \<Rightarrow> nat" where "IntN rnd n = rnd mod n"

definition ttlPool :: "byte list" where "ttlPool = [64, 128, 255]"
definition dscpPool :: "byte list" where "dscpPool = [0x00, 0x28, 0x10]"

definition pickTTL :: "nat \<Rightarrow> SpoofDPI \<Rightarrow> byte" where
  "pickTTL rnd d = (if dpi_TTLJitter d then ttlPool ! IntN rnd (length ttlPool) else 64)"

definition pickDSCP :: "nat \<Rightarrow> SpoofDPI \<Rightarrow> byte" where
  "pickDSCP rnd d = (if dpi_RandomDSCP d then dscpPool ! IntN rnd (length dscpPool) else 0)"

definition pickSrcPort :: "nat \<Rightarrow> SpoofDPI \<Rightarrow> u16 \<Rightarrow> u16" where
  "pickSrcPort rnd d fixed =
     (if \<not> dpi_ShufflePort d then fixed
      else let lo = (if dpi_PortMin d = 0 then 49152 else dpi_PortMin d);
               hi = (if dpi_PortMax d \<le> lo then 65535 else dpi_PortMax d)
           in lo + word_of_nat (IntN rnd (unat (hi - lo) + 1)))"

definition tlsFakeHeaderLen :: nat where "tlsFakeHeaderLen = 5"

definition applyFakeTLS :: "bytes \<Rightarrow> bytes" where
  "applyFakeTLS p = [0x17, 0x03, 0x03] @ put16 (word_of_nat (length p)) @ p"

definition stripFakeTLS :: "bytes \<Rightarrow> bytes option" where
  "stripFakeTLS p =
     (if length p < tlsFakeHeaderLen \<or> p ! 0 \<noteq> 0x17 \<or> p ! 1 \<noteq> 0x03 \<or> p ! 2 \<noteq> 0x03 then None
      else Some (drop tlsFakeHeaderLen p))"

text \<open>\<open>fill\<close> draws the bytes in between.\<close>

definition applyPadding :: "nat \<Rightarrow> (nat \<Rightarrow> byte) \<Rightarrow> bytes \<Rightarrow> byte \<Rightarrow> bytes" where
  "applyPadding rnd fill p m =
     (let m = (if m = 0 then 64 else m);
          padLen = IntN rnd (unat m) + 1
      in p @ map fill [0..<padLen - 1] @ [word_of_nat padLen])"

definition stripPadding :: "bytes \<Rightarrow> bytes option" where
  "stripPadding p =
     (if length p = 0 then None
      else let padLen = unat (p ! (length p - 1)) in
        if padLen = 0 \<or> padLen > length p then None else Some (take (length p - padLen) p))"

section \<open>Definitions: fragments\<close>

record spoofFragRange =
  fr_off :: nat
  fr_end :: nat
  fr_more :: bool

text \<open>How much a fragment carries; division truncates towards zero.\<close>

definition frag_data :: "int \<Rightarrow> nat" where
  "frag_data mtu = (let m = ((mtu - 20) sdiv 8) * 8 in if m \<le> 0 then 8 else nat m)"

lemma frag_data_pos: "0 < frag_data mtu"
  by (simp add: frag_data_def Let_def)

function frag_from :: "nat \<Rightarrow> int \<Rightarrow> nat \<Rightarrow> spoofFragRange list" where
  "frag_from segLen mtu off =
     (if off \<ge> segLen then []
      else let e = min (off + frag_data mtu) segLen in
        \<lparr>fr_off = off, fr_end = e, fr_more = e < segLen\<rparr> # frag_from segLen mtu (off + frag_data mtu))"
  by pat_completeness auto
termination
  by (relation "measure (\<lambda>(segLen, mtu, off). segLen - off)") (auto simp: frag_data_pos intro: diff_less_mono2)

declare frag_from.simps [simp del]

definition spoofFragments :: "nat \<Rightarrow> int \<Rightarrow> spoofFragRange list" where
  "spoofFragments segLen mtu =
     (if 20 + int segLen \<le> mtu then [\<lparr>fr_off = 0, fr_end = segLen, fr_more = False\<rparr>] else frag_from segLen mtu 0)"

section \<open>Definitions: the headers\<close>

definition greHeaderLen :: nat where "greHeaderLen = 4"
definition greProtoIPv4 :: u16 where "greProtoIPv4 = 0x0800"
definition tcpSpoofFlags :: byte where "tcpSpoofFlags = 0x02"

definition profileL4Len :: "SpoofProfile \<Rightarrow> nat" where
  "profileL4Len p =
     (if p = SpoofProfileTCP then 20
      else if p = SpoofProfileIPIP \<or> p = SpoofProfileProto58 then 0
      else if p = SpoofProfileGRE then greHeaderLen
      else 8)"

definition parseSpoofPool :: "string \<Rightarrow> string list \<Rightarrow> string + bytes list" where
  "parseSpoofPool srcIP pool =
     (let candidates = (if pool = [] \<and> srcIP \<noteq> '''' then [srcIP] else pool) in
      foldl (\<lambda>res s. and_then res (\<lambda>out. case Option.bind (ParseIP s) To4 of None \<Rightarrow> Inl s | Some ip \<Rightarrow> Inr (out @ [ip]))) (Inr []) candidates)"

definition buildGREShim :: "bytes \<Rightarrow> bytes" where
  "buildGREShim framed = [0, 0] @ put16 greProtoIPv4 @ framed"

definition stripGREShim :: "bytes \<Rightarrow> bytes option" where
  "stripGREShim l4 = (if length l4 < greHeaderLen then None else Some (drop greHeaderLen l4))"

definition buildUDPShimPorts :: "u16 \<Rightarrow> u16 \<Rightarrow> bytes \<Rightarrow> bytes \<Rightarrow> bytes \<Rightarrow> bytes" where
  "buildUDPShimPorts srcPort dstPort src dst framed =
     (let b = (\<lambda>csum. put16 srcPort @ put16 dstPort @ put16 (word_of_nat (8 + length framed)) @ csum @ framed);
          csum = l4Checksum src dst 17 (b [0, 0]);
          csum = (if csum = 0 then 0xffff else csum)
      in b (put16 csum))"

definition buildUDPShim :: "u16 \<Rightarrow> bytes \<Rightarrow> bytes \<Rightarrow> bytes \<Rightarrow> bytes" where
  "buildUDPShim port src dst framed = buildUDPShimPorts port port src dst framed"

definition buildTCPShimPorts :: "u16 \<Rightarrow> u16 \<Rightarrow> u32 \<Rightarrow> bytes \<Rightarrow> bytes \<Rightarrow> bytes \<Rightarrow> bytes" where
  "buildTCPShimPorts srcPort dstPort seq src dst framed =
     (let b = (\<lambda>csum. put16 srcPort @ put16 dstPort @ put32 seq @ put32 0 @ [push_bit 4 5, tcpSpoofFlags] @ put16 0xffff @
            csum @ [0, 0] @ framed)
      in b (put16 (l4Checksum src dst 6 (b [0, 0]))))"

definition buildTCPShim :: "u16 \<Rightarrow> u32 \<Rightarrow> bytes \<Rightarrow> bytes \<Rightarrow> bytes \<Rightarrow> bytes" where
  "buildTCPShim port seq src dst framed = buildTCPShimPorts port port seq src dst framed"

definition buildSpoofShim :: "SpoofProfile \<Rightarrow> u16 \<Rightarrow> u32 \<Rightarrow> bytes \<Rightarrow> bytes \<Rightarrow> bytes \<Rightarrow> bytes" where
  "buildSpoofShim profile port seq src dst framed =
     (if profile = SpoofProfileTCP then buildTCPShim port seq src dst framed else buildUDPShim port src dst framed)"

definition stripSpoofShim :: "SpoofProfile \<Rightarrow> u16 \<Rightarrow> bytes \<Rightarrow> bytes option" where
  "stripSpoofShim profile port l4 =
     (if profile = SpoofProfileTCP then
        if length l4 < 20 \<or> get16 (take 2 (drop 2 l4)) \<noteq> port then None
        else let off = unat (drop_bit 4 (l4 ! 12)) * 4 in
          if off < 20 \<or> off > length l4 then None else Some (drop off l4)
      else if length l4 < 8 \<or> get16 (take 2 (drop 2 l4)) \<noteq> port then None
      else Some (drop 8 l4))"

definition nextTCPSeq :: "u32 \<Rightarrow> nat \<Rightarrow> u32 \<times> u32" where
  "nextTCPSeq counter n = (let c = counter + word_of_nat n in (c, c - word_of_nat n + 1))"

definition buildICMPEcho :: "byte \<Rightarrow> u16 \<Rightarrow> u16 \<Rightarrow> bytes \<Rightarrow> bytes" where
  "buildICMPEcho typ ident seq payload =
     (let b = (\<lambda>csum. [typ, 0] @ csum @ put16 ident @ put16 seq @ payload) in b (put16 (onesComplement [b [0, 0]])))"

definition parseICMPEcho :: "byte \<Rightarrow> u16 \<Rightarrow> bytes \<Rightarrow> bytes option" where
  "parseICMPEcho wantType ident msg =
     (if length msg < icmpEchoHeaderLen then None
      else if msg ! 0 \<noteq> wantType then None
      else if get16 (take 2 (drop 4 msg)) \<noteq> ident then None
      else Some (drop icmpEchoHeaderLen msg))"

section \<open>Definitions: the filters\<close>

definition spoofBPFProgram :: "SpoofProfile \<Rightarrow> u16 \<Rightarrow> byte \<Rightarrow> bpf_insn list option" where
  "spoofBPFProgram profile port wantType =
     (if profile = SpoofProfileTCP then
        Some [LoadMemShift 0, LoadIndirect 2 2, JumpIf JumpEqual (ucast port) 0 1, RetConstant bpfAccept, RetConstant 0]
      else if isICMPFamily profile then
        Some [LoadMemShift 0, LoadIndirect 0 1, JumpIf JumpNotEqual (ucast wantType) 3 0, LoadIndirect 4 2,
              JumpIf JumpNotEqual (ucast port) 1 0, RetConstant bpfAccept, RetConstant 0]
      else None)"

section \<open>Lemmas: what is put on comes off\<close>

lemma strip_fake_tls: "stripFakeTLS (applyFakeTLS p) = Some p"
  by (simp add: stripFakeTLS_def applyFakeTLS_def tlsFakeHeaderLen_def)

lemma pad_length:
  fixes m m0 :: byte
  assumes "m = (if m0 = 0 then 64 else m0)"
  shows "1 \<le> IntN rnd (unat m) + 1" "IntN rnd (unat m) + 1 \<le> unat m" "unat (word_of_nat (IntN rnd (unat m) + 1) :: byte) = IntN rnd (unat m) + 1"
proof -
  have "0 < unat m" using assms by (simp add: unat_gt_0)
  then have l: "IntN rnd (unat m) < unat m" by (simp add: IntN_def)
  then show "1 \<le> IntN rnd (unat m) + 1" "IntN rnd (unat m) + 1 \<le> unat m" by simp_all
  then show "unat (word_of_nat (IntN rnd (unat m) + 1) :: byte) = IntN rnd (unat m) + 1"
    using unat_byte[of m] by (simp add: unat_of_nat del: of_nat_Suc of_nat_add)
qed

lemma strip_padding: "stripPadding (applyPadding rnd fill p m0) = Some p"
proof -
  define m where "m = (if m0 = 0 then 64 else m0)"
  define l where "l = IntN rnd (unat m) + 1"
  have a: "applyPadding rnd fill p m0 = p @ map fill [0..<l - 1] @ [word_of_nat l]"
    by (simp add: applyPadding_def Let_def m_def l_def)
  have l: "1 \<le> l" "unat (word_of_nat l :: byte) = l" using pad_length[OF m_def, of rnd] unfolding l_def by blast+
  define q where "q = p @ map fill [0..<l - 1] @ [word_of_nat l]"
  obtain j where j: "l = Suc j" using l(1) by (cases l) auto
  have q: "length q = length p + l" "q ! (length q - 1) = word_of_nat l" "take (length p) q = p"
    unfolding q_def j by (simp_all add: nth_append)
  have aq: "applyPadding rnd fill p m0 = q" by (simp only: a q_def)
  show ?thesis unfolding aq stripPadding_def Let_def q(2) l(2) using l(1) q(1,3) by simp
qed

lemma strip_gre: "stripGREShim (buildGREShim b) = Some b"
  by (simp add: stripGREShim_def buildGREShim_def greHeaderLen_def)

lemma strip_udp: "p \<noteq> SpoofProfileTCP \<Longrightarrow> stripSpoofShim p port (buildUDPShimPorts sp port src dst b) = Some b"
  by (simp add: stripSpoofShim_def buildUDPShimPorts_def Let_def)

lemma strip_tcp: "stripSpoofShim SpoofProfileTCP port (buildTCPShimPorts sp port seq src dst b) = Some b"
  by (simp add: stripSpoofShim_def buildTCPShimPorts_def Let_def nth_append)

lemma strip_echo: "parseICMPEcho typ ident (buildICMPEcho typ ident seq b) = Some b"
  by (simp add: parseICMPEcho_def buildICMPEcho_def Let_def icmpEchoHeaderLen_def)

section \<open>Lemmas: checksums\<close>

lemma pseudo_words: "wsum (pseudo_header src dst proto n) \<le> 65535 * 6"
proof -
  have "length (pseudo_header src dst proto n) = 12" by (simp add: pseudo_header_def fresh_copy_def)
  then show ?thesis using wsum_bound[of "pseudo_header src dst proto n"] by simp
qed

lemma segment_words: "length b \<le> 65600 \<Longrightarrow> wsum b \<le> 65535 * 32800"
proof -
  assume "length b \<le> 65600"
  then have "(length b + 1) div 2 \<le> 32800" by linarith
  then have "65535 * ((length b + 1) div 2) \<le> 65535 * 32800" by (rule mult_le_mono2)
  with wsum_bound[of b] show ?thesis by linarith
qed

text \<open>A zero that is sent as all ones still completes the sum.\<close>

lemma filled_ones:
  assumes "even (length a)" "(\<Sum>b \<leftarrow> pre @ [a @ [0, 0] @ z]. wsum b) + 65535 < 2 ^ 32"
    and "onesComplement (pre @ [a @ [0, 0] @ z]) = 0"
  shows "sums_to_ones (pre @ [a @ put16 0xffff @ z])"
proof -
  let ?n = "\<Sum>b \<leftarrow> pre @ [a @ [0, 0] @ z]. wsum b"
  have n: "65535 - ocsum ?n = 0" using unat_onesComplement[of "pre @ [a @ [0, 0] @ z]"] assms(2,3) by simp
  have o: "ocsum ?n = 65535" using n ocsum_le[of ?n] by linarith
  have w: "(\<Sum>b \<leftarrow> pre @ [a @ put16 0xffff @ z]. wsum b) = ?n + 65535"
  proof -
    have "wsum (put16 w @ z) = unat w + wsum z" for w by (simp add: wsum_append wsum_put16)
    then show ?thesis using assms(1) by (simp add: wsum_append)
  qed
  have "ocsum (?n + 65535) = 65535"
  proof -
    have "ocsum (k + 65535) = 65535" if "ocsum k = 65535" for k
      using that by (cases k) (simp_all add: ocsum_def)
    then show ?thesis using o by blast
  qed
  then have "unat (onesComplement (pre @ [a @ put16 0xffff @ z])) = 0"
    using assms(2) w by (subst unat_onesComplement) (simp_all add: add.assoc)
  then show ?thesis by (simp add: sums_to_ones_def unat_eq_zero)
qed

lemma udp_sums:
  assumes "length framed \<le> 65535"
  shows "let u = buildUDPShimPorts sp dp src dst framed in
      sums_to_ones [pseudo_header src dst 17 (length u), u] \<and> take 2 (drop 6 u) \<noteq> [0, 0]"
proof -
  let ?a = "put16 sp @ put16 dp @ put16 (word_of_nat (8 + length framed))"
  let ?p = "pseudo_header src dst 17 (length (?a @ [0, 0] @ framed))"
  let ?c = "onesComplement ([?p] @ [?a @ [0, 0] @ framed])"
  have small: "(\<Sum>b \<leftarrow> [?p] @ [?a @ [0, 0] @ framed]. wsum b) + 65535 < 2 ^ 32"
    using pseudo_words[of src dst 17 "length (?a @ [0, 0] @ framed)"] segment_words[of "?a @ [0, 0] @ framed"] assms by simp
  have u: "buildUDPShimPorts sp dp src dst framed = ?a @ put16 (if ?c = 0 then 0xffff else ?c) @ framed"
    unfolding buildUDPShimPorts_def Let_def l4Checksum_def by simp
  have "sums_to_ones ([?p] @ [?a @ put16 (if ?c = 0 then 0xffff else ?c) @ framed])"
    using filled_sums[OF _ small] filled_ones[OF _ small] by (cases "?c = 0") simp_all
  moreover have "put16 0 = [0, 0]" by (simp add: put16_def eval_nat_numeral)
  then have "put16 w \<noteq> [0, 0]" if "w \<noteq> 0" for w using that put_inj(1)[of w 0] by simp
  then have "take 2 (drop 6 (?a @ put16 (if ?c = 0 then 0xffff else ?c) @ framed)) \<noteq> [0, 0]" by (cases "?c = 0") simp_all
  ultimately show ?thesis by (simp add: u Let_def)
qed

lemma tcp_sums:
  assumes "length framed \<le> 65535"
  shows "let t = buildTCPShimPorts sp dp seq src dst framed in sums_to_ones [pseudo_header src dst 6 (length t), t]"
proof -
  let ?a = "put16 sp @ put16 dp @ put32 seq @ put32 0 @ [push_bit 4 5, tcpSpoofFlags] @ put16 0xffff"
  let ?p = "pseudo_header src dst 6 (20 + length framed)"
  let ?z = "[0, 0] @ framed"
  have "(\<Sum>b \<leftarrow> [?p] @ [?a @ [0, 0] @ ?z]. wsum b) + 65535 < 2 ^ 32"
    using pseudo_words[of src dst 6 "20 + length framed"] segment_words[of "?a @ [0, 0] @ ?z"] assms by simp
  then have "sums_to_ones ([?p] @ [?a @ put16 (onesComplement ([?p] @ [?a @ [0, 0] @ ?z])) @ ?z])" by (intro filled_sums) simp_all
  then show ?thesis
    by (simp add: buildTCPShimPorts_def Let_def l4Checksum_def)
qed

lemma echo_sums:
  assumes "length framed \<le> 65535"
  shows "sums_to_ones [buildICMPEcho typ ident n framed]"
proof -
  let ?z = "put16 ident @ put16 n @ framed"
  have "(\<Sum>b \<leftarrow> [] @ [[typ, 0] @ [0, 0] @ ?z]. wsum b) + 65535 < 2 ^ 32"
    using segment_words[of "[typ, 0] @ [0, 0] @ ?z"] assms by simp
  then have "sums_to_ones ([] @ [[typ, 0] @ put16 (onesComplement ([] @ [[typ, 0] @ [0, 0] @ ?z])) @ ?z])" by (intro filled_sums) simp_all
  then show ?thesis by (simp add: buildICMPEcho_def Let_def)
qed

text \<open>What is forged is the source address and nothing else: every header carries the checksum a receiver computes.
  Over the header, the payload and, for UDP and TCP, the addresses of the packet, the sum is all ones; and a UDP checksum
  is never the zero that would mean there is none.\<close>
theorem spoof_checksums:
  assumes "length framed \<le> 65535"
  shows "(let u = buildUDPShimPorts sp dp src dst framed in
      sums_to_ones [pseudo_header src dst 17 (length u), u] \<and> take 2 (drop 6 u) \<noteq> [0, 0]) \<and>
    (let t = buildTCPShimPorts sp dp seq src dst framed in sums_to_ones [pseudo_header src dst 6 (length t), t]) \<and>
    sums_to_ones [buildICMPEcho typ ident n framed]"
  using udp_sums[OF assms] tcp_sums[OF assms] echo_sums[OF assms] by blast

theorem spoof_checksums_witness:
  "sums_to_ones [pseudo_header [1, 2, 3, 4] [5, 6, 7, 8] 17 (length (buildUDPShimPorts 53 53 [1, 2, 3, 4] [5, 6, 7, 8] [9])),
    buildUDPShimPorts 53 53 [1, 2, 3, 4] [5, 6, 7, 8] [9]]"
  using spoof_checksums[of "[9]" 53 53 "[1, 2, 3, 4]" "[5, 6, 7, 8]" 0 0 0 0] by (simp add: Let_def)

section \<open>Lemmas: the filters\<close>

text \<open>A packet as the filter sees it: an IPv4 header as long as it says, and what it carries.\<close>

definition framed_ipv4 :: "bytes \<Rightarrow> bool" where
  "framed_ipv4 hdr \<longleftrightarrow> hdr \<noteq> [] \<and> unat (hdr ! 0 AND 0xf) * 4 = length hdr"

lemma spoof_filter_tcp:
  assumes k: "kernel_filter run" and h: "framed_ipv4 hdr" and prog: "spoofBPFProgram SpoofProfileTCP port t = Some prog"
  shows "run prog 0 0 0 (hdr @ l4) = (if 4 \<le> length l4 \<and> get16 (take 2 (drop 2 l4)) = port then bpfAccept else 0)"
proof -
  have at: "length prog = 5" "prog ! 0 = LoadMemShift 0" "prog ! Suc 0 = LoadIndirect 2 2"
    "prog ! Suc (Suc 0) = JumpIf JumpEqual (ucast port) 0 1" "prog ! Suc (Suc (Suc 0)) = RetConstant bpfAccept"
    "prog ! Suc (Suc (Suc (Suc 0))) = RetConstant 0"
    using prog by (auto simp: spoofBPFProgram_def)
  have hd: "unat (4 * (ucast ((hdr @ l4) ! 0) AND 0xf) :: u32) = length hdr" "hdr \<noteq> []"
    using h unfolding header_words by (simp_all add: framed_ipv4_def nth_append)
  note turn = filter_turn[OF k, of prog]
  have "run prog (Suc (Suc (Suc 0))) a x q = bpfAccept" "run prog (Suc (Suc (Suc (Suc 0)))) a x q = 0" for a x q
    by (simp_all add: turn bpf_turn_def at)
  then have 2: "run prog (Suc (Suc 0)) a x q = (if a = ucast port then bpfAccept else 0)" for a x q
    by (simp add: turn[of "Suc (Suc 0)"] bpf_turn_def at bpf_holds_def)
  have 1: "run prog (Suc 0) a (4 * (ucast ((hdr @ l4) ! 0) AND 0xf)) (hdr @ l4) =
      (if 4 \<le> length l4 \<and> get16 (take 2 (drop 2 l4)) = port then bpfAccept else 0)" for a
    using 2 be_get_two[of "take 2 (drop 2 l4)"] unfolding turn[of "Suc 0"]
    by (simp add: bpf_turn_def at hd(1) ucast16_eq)
  show ?thesis unfolding turn[of 0] using 1 hd(2) by (simp add: bpf_turn_def at)
qed

lemma echo_filter_run:
  assumes k: "kernel_filter run" and h: "framed_ipv4 hdr"
    and prog: "prog = [LoadMemShift 0, LoadIndirect 0 1, JumpIf JumpNotEqual (ucast t) 3 0, LoadIndirect 4 2,
      JumpIf JumpNotEqual (ucast port) 1 0, RetConstant acc, RetConstant 0]"
  shows "run prog 0 0 0 (hdr @ l4) =
    (if 6 \<le> length l4 \<and> l4 ! 0 = (t :: byte) \<and> get16 (take 2 (drop 4 l4)) = port then acc else 0)"
proof -
  let ?x = "4 * (ucast ((hdr @ l4) ! 0) AND 0xf) :: u32" and ?s4 = "Suc (Suc (Suc (Suc 0)))"
  have at: "length prog = 7" "prog ! 0 = LoadMemShift 0" "prog ! Suc 0 = LoadIndirect 0 1"
    "prog ! Suc (Suc 0) = JumpIf JumpNotEqual (ucast t) 3 0" "prog ! Suc (Suc (Suc 0)) = LoadIndirect 4 2"
    "prog ! ?s4 = JumpIf JumpNotEqual (ucast port) 1 0" "prog ! Suc ?s4 = RetConstant acc"
    "prog ! Suc (Suc ?s4) = RetConstant 0" "prog ! 6 = RetConstant 0"
    unfolding prog by simp_all
  have hd: "unat ?x = length hdr" "hdr \<noteq> []" "unat (4 * (ucast (hdr ! 0) AND 0xf) :: u32) = length hdr"
    using h unfolding header_words by (simp_all add: framed_ipv4_def nth_append)
  note turn = filter_turn[OF k, of prog]
  have no: "run prog (Suc (Suc ?s4)) a x q = 0" "run prog 6 a x q = 0" and yes: "run prog (Suc ?s4) a x q = acc" for a x q
    by (simp_all add: turn bpf_turn_def at)
  have 4: "run prog ?s4 a x q = (if a = ucast port then acc else 0)" for a x q
    by (simp add: turn[of ?s4] bpf_turn_def at bpf_holds_def no yes)
  have 3: "run prog (Suc (Suc (Suc 0))) a ?x (hdr @ l4) =
      (if 6 \<le> length l4 \<and> get16 (take 2 (drop 4 l4)) = port then acc else 0)" for a
    using be_get_two[of "take 2 (drop 4 l4)"] unfolding turn[of "Suc (Suc (Suc 0))"]
    by (simp add: bpf_turn_def at hd(1) ucast16_eq 4)
  have 2: "run prog (Suc (Suc 0)) (ucast b) ?x (hdr @ l4) =
      (if b = t \<and> 6 \<le> length l4 \<and> get16 (take 2 (drop 4 l4)) = port then acc else 0)" for b :: byte
    unfolding turn[of "Suc (Suc 0)"] using 3 by (simp add: bpf_turn_def at bpf_holds_def ucast8_eq no)
  have 1: "run prog (Suc 0) a ?x (hdr @ l4) =
      (if 6 \<le> length l4 \<and> l4 ! 0 = t \<and> get16 (take 2 (drop 4 l4)) = port then acc else 0)" for a
    using 2[of "l4 ! 0"] be_get_one[of 0 l4] unfolding turn[of "Suc 0"]
    by (cases "l4 = []") (auto simp: bpf_turn_def at hd(1,3) Suc_le_eq)
  show ?thesis unfolding turn[of 0] using 1 hd(2) by (simp add: bpf_turn_def at)
qed

lemma spoof_filter_echo:
  assumes "kernel_filter run" "framed_ipv4 hdr" and f: "isICMPFamily profile"
    and prog: "spoofBPFProgram profile port t = Some prog"
  shows "run prog 0 0 0 (hdr @ l4) =
    (if 6 \<le> length l4 \<and> l4 ! 0 = t \<and> get16 (take 2 (drop 4 l4)) = port then bpfAccept else 0)"
proof -
  have "profile \<noteq> SpoofProfileTCP" using f by (auto simp: isICMPFamily_def profiles)
  then show ?thesis using prog f by (intro echo_filter_run[OF assms(1,2)]) (simp add: spoofBPFProgram_def)
qed

text \<open>The filter in the kernel saves work and loses nothing: of the packets of its protocol, with IP options or
  without, the receiving socket is woken for every one the reader would accept, for the TCP profile and the two echo
  profiles alike; and a packet it accepts names the tunnel where the reader looks, the destination port or the type and
  the identifier, so nothing of another tunnel comes through. No other profile has a filter.\<close>
theorem spoof_filter_keeps:
  assumes "kernel_filter run" "framed_ipv4 hdr"
  shows "case spoofBPFProgram profile port t of
      None \<Rightarrow> profile \<noteq> SpoofProfileTCP \<and> \<not> isICMPFamily profile
    | Some prog \<Rightarrow>
        ((if profile = SpoofProfileTCP then stripSpoofShim profile port l4 \<noteq> None else parseICMPEcho t port l4 \<noteq> None) \<longrightarrow>
          run prog 0 0 0 (hdr @ l4) = bpfAccept) \<and>
        (run prog 0 0 0 (hdr @ l4) = 0 \<or> run prog 0 0 0 (hdr @ l4) = bpfAccept \<and>
          (if profile = SpoofProfileTCP then get16 (take 2 (drop 2 l4)) = port
           else l4 ! 0 = t \<and> get16 (take 2 (drop 4 l4)) = port))"
proof (cases "spoofBPFProgram profile port t")
  case None
  then show ?thesis by (simp add: spoofBPFProgram_def split: if_splits)
next
  case (Some prog)
  show ?thesis
  proof (cases "profile = SpoofProfileTCP")
    case True
    have "stripSpoofShim SpoofProfileTCP port l4 \<noteq> None \<Longrightarrow> 4 \<le> length l4 \<and> get16 (take 2 (drop 2 l4)) = port"
      by (auto simp: stripSpoofShim_def split: if_splits)
    then show ?thesis using Some True spoof_filter_tcp[OF assms, of port t prog l4] by auto
  next
    case False
    then have f: "isICMPFamily profile" using Some by (simp add: spoofBPFProgram_def split: if_splits)
    have "parseICMPEcho t port l4 \<noteq> None \<Longrightarrow> 6 \<le> length l4 \<and> l4 ! 0 = t \<and> get16 (take 2 (drop 4 l4)) = port"
      by (auto simp: parseICMPEcho_def icmpEchoHeaderLen_def split: if_splits)
    then show ?thesis using Some False spoof_filter_echo[OF assms f Some, of l4] by auto
  qed
qed

definition demo_ipv4 :: bytes where "demo_ipv4 = 0x45 # replicate 19 0"

lemma demo_ipv4_framed: "framed_ipv4 demo_ipv4"
proof -
  have "(0x45 :: byte) AND 0xf = 5" by (simp add: bit_eq_iff) 
  then show ?thesis by (simp add: framed_ipv4_def demo_ipv4_def)
qed

theorem spoof_filter_keeps_witness:
  "\<exists>prog. spoofBPFProgram SpoofProfileICMP 7 8 = Some prog \<and>
    bpf_machine prog 0 0 0 (demo_ipv4 @ buildICMPEcho 8 7 1 [1, 2]) = bpfAccept"
proof -
  have n: "SpoofProfileICMP \<noteq> SpoofProfileTCP" "isICMPFamily SpoofProfileICMP" by (simp_all add: profiles isICMPFamily_def)
  then obtain prog where s: "spoofBPFProgram SpoofProfileICMP 7 8 = Some prog" by (simp add: spoofBPFProgram_def)
  have "parseICMPEcho 8 7 (buildICMPEcho 8 7 1 [1, 2]) \<noteq> None" by (simp add: strip_echo)
  then show ?thesis
    using spoof_filter_keeps[OF bpf_machine_kernel demo_ipv4_framed, of SpoofProfileICMP 7 "buildICMPEcho 8 7 1 [1, 2]" 8] s n by simp
qed

section \<open>The profiles\<close>

definition spoof_profiles :: "SpoofProfile set" where
  "spoof_profiles = {SpoofProfileUDP, SpoofProfileTCP, SpoofProfileICMP, SpoofProfileICMPv6, SpoofProfileIPIP, SpoofProfileProto58,
     SpoofProfileGRE}"

lemma parsed_profile: "ParseSpoofProfile s = Some p \<Longrightarrow> p \<in> spoof_profiles"
  by (simp add: ParseSpoofProfile_def spoof_profiles_def split: if_splits)

lemma profile_not_empty: "p \<in> spoof_profiles \<Longrightarrow> p \<noteq> ''''"
  by (auto simp: spoof_profiles_def profiles)

lemma profile_parses: "p \<in> spoof_profiles \<Longrightarrow> ParseSpoofProfile p = Some p"
  using profile_not_empty[of p] unfolding ParseSpoofProfile_def spoof_profiles_def
  by (elim insertE emptyE) simp_all



end
