(* ===== verification/SpoofConn.thy ===== *)
theory SpoofConn
  imports SpoofPacket "HOL-Library.Multiset"
begin

text \<open>
  The carrier with forged sources, \<open>src/internal/utils/network/spoofconn_linux.go\<close>: setting it up from its options,
  sending a datagram as IP fragments, and reading one, on each of its three ways to receive. The sockets and the
  resolver of the local address are the record \<open>spoof_system\<close>, a parameter, as are the random draws.
\<close>

section \<open>Definitions\<close>

definition defaultSpoofMTU :: int where "defaultSpoofMTU = 1500"

record spoofConnOpts =
  so_token :: bytes
  so_uplink :: SpoofProfile
  so_downlink :: SpoofProfile
  so_realPeer :: bytes
  so_srcIP :: string
  so_srcPool :: "string list"
  so_xdpIface :: string
  so_replySplit :: bool
  so_peerSrc :: string
  so_mtu :: int
  so_dpi :: SpoofDPI

datatype spoof_error = NoRealPeer | BadSource string | BadPeerSource string | SendSocket | ReceiveSocket

record spoof_system =
  sys_local :: "bytes \<Rightarrow> bytes"
  sys_send :: bool
  sys_xdp :: bool
  sys_udp :: bool
  sys_raw :: bool

datatype receiver = XDP | UDPSocket | RawSocket

record spoofConn =
  sc_sendProfile :: SpoofProfile
  sc_recvProfile :: SpoofProfile
  sc_receiver :: receiver
  sc_server :: bool
  sc_port :: u16
  sc_realPeer :: bytes
  sc_spoofSrcs :: "bytes list"
  sc_mtu :: int
  sc_sendICMPType :: byte
  sc_recvICMPType :: byte
  sc_expectSrc :: "bytes option"
  sc_dpi :: SpoofDPI
  sc_filter :: "bpf_insn list option"
  sc_rst :: bool
  sc_icmpEcho :: bool
  sc_rot :: u32
  sc_tcpSeq :: u32
  sc_icmpSeq :: u32

text \<open>The part of the constructor that only reads the options.\<close>

definition spoof_plan :: "(bytes \<Rightarrow> bytes) \<Rightarrow> (bytes \<Rightarrow> bytes) \<Rightarrow> bool \<Rightarrow> spoofConnOpts \<Rightarrow> spoof_error + spoofConn" where
  "spoof_plan sha256 local_source server opts =
     (case To4 (so_realPeer opts) of None \<Rightarrow> Inl NoRealPeer
      | Some realPeer \<Rightarrow>
     (let mtu = (if so_mtu opts \<le> 20 + int (profileL4Len SpoofProfileTCP) then defaultSpoofMTU else so_mtu opts) in
      case parseSpoofPool (so_srcIP opts) (so_srcPool opts) of Inl s \<Rightarrow> Inl (BadSource s)
      | Inr pool \<Rightarrow>
     (let spoofSrcs = (if pool = [] then [local_source realPeer] else pool) in
      case (if so_peerSrc opts = '''' then Inr None
            else case Option.bind (ParseIP (so_peerSrc opts)) To4 of None \<Rightarrow> Inl (BadPeerSource (so_peerSrc opts)) | Some ip \<Rightarrow> Inr (Some ip))
      of Inl e \<Rightarrow> Inl e
      | Inr expectSrc \<Rightarrow>
     (let port = snd (spoofIdentity sha256 (so_token opts));
          sendProfile = (if server then so_downlink opts else so_uplink opts);
          recvProfile = (if server then so_uplink opts else so_downlink opts);
          (sReq, sRep) = icmpEchoTypes sendProfile;
          (rReq, rRep) = icmpEchoTypes recvProfile
      in Inr \<lparr>sc_sendProfile = sendProfile, sc_recvProfile = recvProfile, sc_receiver = RawSocket, sc_server = server,
              sc_port = port, sc_realPeer = realPeer, sc_spoofSrcs = spoofSrcs, sc_mtu = mtu,
              sc_sendICMPType = (if so_replySplit opts \<and> server then sRep else sReq),
              sc_recvICMPType = (if so_replySplit opts \<and> \<not> server then rRep else rReq),
              sc_expectSrc = expectSrc, sc_dpi = so_dpi opts, sc_filter = None, sc_rst = False, sc_icmpEcho = False,
              sc_rot = 0, sc_tcpSeq = 0, sc_icmpSeq = 0\<rparr>))))"

definition newSpoofConn :: "spoof_system \<Rightarrow> (bytes \<Rightarrow> bytes) \<Rightarrow> bool \<Rightarrow> spoofConnOpts \<Rightarrow> spoof_error + spoofConn" where
  "newSpoofConn sys sha256 server opts =
     and_then (spoof_plan sha256 (sys_local sys) server opts) (\<lambda>c.
       if \<not> sys_send sys then Inl SendSocket
       else if so_xdpIface opts \<noteq> '''' \<and> sys_xdp sys then Inr (c\<lparr>sc_receiver := XDP\<rparr>)
       else if sc_recvProfile c = SpoofProfileUDP then
         (if sys_udp sys then Inr (c\<lparr>sc_receiver := UDPSocket\<rparr>) else Inl ReceiveSocket)
       else if \<not> sys_raw sys then Inl ReceiveSocket
       else Inr (c\<lparr>sc_receiver := RawSocket,
                  sc_filter := (if hasPortDemux (sc_recvProfile c)
                                then spoofBPFProgram (sc_recvProfile c) (sc_port c) (sc_recvICMPType c) else None),
                  sc_rst := sc_recvProfile c = SpoofProfileTCP,
                  sc_icmpEcho := sc_recvProfile c = SpoofProfileICMP\<rparr>))"

text \<open>Sending. The pool is never empty.\<close>

definition spoof_sourceFor :: "spoofConn \<Rightarrow> spoofConn \<times> bytes" where
  "spoof_sourceFor c =
     (let rot = sc_rot c + 1 in
      (c\<lparr>sc_rot := rot\<rparr>, sc_spoofSrcs c ! (unat (rot - 1) mod length (sc_spoofSrcs c))))"

record spoof_draws =
  dr_pad :: nat
  dr_fill :: "nat \<Rightarrow> byte"
  dr_port :: nat
  dr_ttl :: nat
  dr_dscp :: nat
  dr_ipid :: u16

definition spoof_body :: "spoof_draws \<Rightarrow> bytes \<Rightarrow> spoofConn \<Rightarrow> bytes" where
  "spoof_body dr p c =
     (let body = (if dpi_Padding (sc_dpi c) then applyPadding (dr_pad dr) (dr_fill dr) p (dpi_PaddingMax (sc_dpi c)) else p)
      in if dpi_FakeTLS (sc_dpi c) \<and> sc_sendProfile c = SpoofProfileTCP then applyFakeTLS body else body)"

definition spoof_shim :: "spoof_draws \<Rightarrow> bytes \<Rightarrow> bytes \<Rightarrow> spoofConn \<Rightarrow> spoofConn \<times> bytes" where
  "spoof_shim dr src body c =
     (let srcPort = pickSrcPort (dr_port dr) (sc_dpi c) (sc_port c) in
      if isICMPFamily (sc_sendProfile c) then
        (let seq = sc_icmpSeq c + 1 in
         (c\<lparr>sc_icmpSeq := seq\<rparr>, buildICMPEcho (sc_sendICMPType c) (sc_port c) (ucast seq) body))
      else if sc_sendProfile c = SpoofProfileTCP then
        (let (counter, seq) = nextTCPSeq (sc_tcpSeq c) (length body) in
         (c\<lparr>sc_tcpSeq := counter\<rparr>, buildTCPShimPorts srcPort (sc_port c) seq src (sc_realPeer c) body))
      else if sc_sendProfile c = SpoofProfileIPIP \<or> sc_sendProfile c = SpoofProfileProto58 then (c, body)
      else if sc_sendProfile c = SpoofProfileGRE then (c, buildGREShim body)
      else (c, buildUDPShimPorts srcPort (sc_port c) src (sc_realPeer c) body))"

record ip_header =
  ih_TOS :: byte
  ih_TotalLen :: nat
  ih_ID :: u16
  ih_MoreFragments :: bool
  ih_FragOff :: nat
  ih_TTL :: byte
  ih_Protocol :: byte
  ih_Src :: bytes
  ih_Dst :: bytes

definition spoof_header :: "spoof_draws \<Rightarrow> bytes \<Rightarrow> byte \<Rightarrow> spoofFragRange \<Rightarrow> spoofConn \<Rightarrow> ip_header" where
  "spoof_header dr src proto f c =
     \<lparr>ih_TOS = pickDSCP (dr_dscp dr) (sc_dpi c), ih_TotalLen = 20 + (fr_end f - fr_off f), ih_ID = dr_ipid dr,
      ih_MoreFragments = fr_more f, ih_FragOff = fr_off f div 8, ih_TTL = pickTTL (dr_ttl dr) (sc_dpi c),
      ih_Protocol = proto, ih_Src = src, ih_Dst = sc_realPeer c\<rparr>"

definition spoof_sendIP :: "spoof_draws \<Rightarrow> bytes \<Rightarrow> byte \<Rightarrow> bytes \<Rightarrow> spoofConn \<Rightarrow> (ip_header \<times> bytes) list" where
  "spoof_sendIP dr src proto shim c =
     map (\<lambda>f. (spoof_header dr src proto f c, take (fr_end f - fr_off f) (drop (fr_off f) shim)))
       (spoofFragments (length shim) (sc_mtu c))"

text \<open>The socket may refuse a packet, which ends the datagram with an error.\<close>

fun write_packets :: "(ip_header \<times> bytes \<Rightarrow> bool) \<Rightarrow> (ip_header \<times> bytes) list \<Rightarrow> (ip_header \<times> bytes) list \<times> bool" where
  "write_packets ok [] = ([], True)"
| "write_packets ok (f # fs) = (if ok f then (let (sent, res) = write_packets ok fs in (f # sent, res)) else ([], False))"

definition spoof_WriteTo ::
    "(ip_header \<times> bytes \<Rightarrow> bool) \<Rightarrow> spoof_draws \<Rightarrow> bytes \<Rightarrow> spoofConn \<Rightarrow> spoofConn \<times> (ip_header \<times> bytes) list \<times> nat option" where
  "spoof_WriteTo ok dr p c =
     (let (c, src) = spoof_sourceFor c;
          (c, shim) = spoof_shim dr src (spoof_body dr p c) c;
          (sent, res) = write_packets ok (spoof_sendIP dr src (ipProtocol (sc_sendProfile c)) shim c)
      in (c, sent, if res then Some (length p) else None))"

text \<open>Receiving: what the fast path, the UDP socket or the raw socket returns, with the source address when there is one.\<close>

datatype arrival = Arrival "bytes option" bytes

definition spoof_undoDPI :: "SpoofProfile \<Rightarrow> bytes \<Rightarrow> spoofConn \<Rightarrow> bytes option" where
  "spoof_undoDPI profile inner c =
     Option.bind (if dpi_FakeTLS (sc_dpi c) \<and> profile = SpoofProfileTCP then stripFakeTLS inner else Some inner)
       (\<lambda>inner. if dpi_Padding (sc_dpi c) then stripPadding inner else Some inner)"

definition spoof_strip :: "bytes \<Rightarrow> spoofConn \<Rightarrow> bytes option" where
  "spoof_strip l4 c =
     (if isICMPFamily (sc_recvProfile c) then parseICMPEcho (sc_recvICMPType c) (sc_port c) l4
      else if sc_recvProfile c = SpoofProfileIPIP \<or> sc_recvProfile c = SpoofProfileProto58 then Some l4
      else if sc_recvProfile c = SpoofProfileGRE then stripGREShim l4
      else stripSpoofShim (sc_recvProfile c) (sc_port c) l4)"

definition expected_source :: "bytes option \<Rightarrow> spoofConn \<Rightarrow> bool" where
  "expected_source src c =
     (case sc_expectSrc c of None \<Rightarrow> True
      | Some e \<Rightarrow> (case src of None \<Rightarrow> False | Some s \<Rightarrow> ip_Equal s e))"

definition spoof_receive :: "arrival \<Rightarrow> spoofConn \<Rightarrow> bytes option" where
  "spoof_receive a c =
     (case a of Arrival src b \<Rightarrow>
        (let checked = (\<lambda>profile inner. case spoof_undoDPI profile inner c of None \<Rightarrow> None
              | Some inner \<Rightarrow> if inner = [] then None else Some inner) in
         case sc_receiver c of
           XDP \<Rightarrow> if b = [] \<or> \<not> expected_source src c then None
                  else Option.bind (spoof_strip b c) (checked (sc_recvProfile c))
         | UDPSocket \<Rightarrow> if b = [] \<or> \<not> expected_source src c then None else checked SpoofProfileUDP b
         | RawSocket \<Rightarrow> if \<not> expected_source src c then None
                  else Option.bind (spoof_strip b c) (checked (sc_recvProfile c))))"

text \<open>\<open>ReadFrom\<close> into a buffer of \<open>n\<close> bytes: what is not the tunnel's is skipped; a socket with no more to read fails.\<close>

fun spoof_ReadFrom :: "nat \<Rightarrow> arrival list \<Rightarrow> spoofConn \<Rightarrow> (bytes \<times> bytes) option \<times> arrival list" where
  "spoof_ReadFrom n [] c = (None, [])"
| "spoof_ReadFrom n (a # rest) c =
     (case spoof_receive a c of
        None \<Rightarrow> spoof_ReadFrom n rest c
      | Some inner \<Rightarrow> (Some (take n inner, sc_realPeer c), rest))"

section \<open>Specification\<close>

text \<open>Putting fragments together, in the order of their offsets: no gap, no overlap, an end.\<close>

fun joined :: "nat \<Rightarrow> (ip_header \<times> bytes) list \<Rightarrow> bytes option" where
  "joined off [] = None"
| "joined off [(h, d)] = (if 8 * ih_FragOff h = off \<and> \<not> ih_MoreFragments h then Some d else None)"
| "joined off ((h, d) # f # r) =
     (if 8 * ih_FragOff h = off \<and> ih_MoreFragments h then map_option (\<lambda>rest. d @ rest) (joined (off + length d) (f # r)) else None)"

definition reassemble :: "(ip_header \<times> bytes) list \<Rightarrow> bytes option" where
  "reassemble fs = joined 0 (sort_key (\<lambda>f. ih_FragOff (fst f)) fs)"

text \<open>What the receiving host's kernel does with a reassembled segment, given where the receiver reads: the protocol
  selects the socket; a UDP socket gets what is for its port and sums up, without the header. The frame the fast
  path captures is the same segment.\<close>

definition handed_up :: "byte \<Rightarrow> bytes \<Rightarrow> bytes \<Rightarrow> bytes \<Rightarrow> spoofConn \<Rightarrow> arrival option" where
  "handed_up proto src dst seg c =
     (if proto \<noteq> ipProtocol (sc_recvProfile c) then None
      else case sc_receiver c of
        UDPSocket \<Rightarrow>
          if 8 \<le> length seg \<and> get16 (take 2 (drop 2 seg)) = sc_port c \<and> sums_to_ones [pseudo_header src dst 17 (length seg), seg]
          then Some (Arrival (Some src) (drop 8 seg)) else None
      | _ \<Rightarrow> Some (Arrival (Some src) seg))"

section \<open>Lemmas: fragments\<close>

lemma joined_cons:
  "8 * ih_FragOff h = off \<Longrightarrow> ih_MoreFragments h \<Longrightarrow> fs \<noteq> [] \<Longrightarrow>
   joined off ((h, d) # fs) = map_option (\<lambda>rest. d @ rest) (joined (off + length d) fs)"
  by (cases fs) auto

lemma frag_data_8: "8 dvd frag_data mtu"
proof -
  have "nat (k * 8) = 8 * nat k" for k :: int by simp
  then show ?thesis by (simp add: frag_data_def Let_def)
qed

lemma frag_data_fits: "28 \<le> mtu \<Longrightarrow> 20 + int (frag_data mtu) \<le> mtu"
proof -
  assume m: "28 \<le> mtu"
  then have "(mtu - 20) sdiv 8 = (mtu - 20) div 8" by (simp add: signed_divide_int_def)
  moreover have "(mtu - 20) div 8 * 8 \<le> mtu - 20" by presburger
  ultimately show ?thesis using m by (simp add: frag_data_def Let_def)
qed

lemma frag_from_unfold:
  "off < n \<Longrightarrow> frag_from n mtu off =
     \<lparr>fr_off = off, fr_end = min (off + frag_data mtu) n, fr_more = off + frag_data mtu < n\<rparr> # frag_from n mtu (off + frag_data mtu)"
  "n \<le> off \<Longrightarrow> frag_from n mtu off = []"
  by (subst frag_from.simps; simp add: Let_def min_def)+

definition packet_of :: "spoof_draws \<Rightarrow> bytes \<Rightarrow> byte \<Rightarrow> bytes \<Rightarrow> spoofConn \<Rightarrow> spoofFragRange \<Rightarrow> ip_header \<times> bytes" where
  "packet_of dr src proto shim c f = (spoof_header dr src proto f c, take (fr_end f - fr_off f) (drop (fr_off f) shim))"

lemma sendIP_packets: "spoof_sendIP dr src proto shim c = map (packet_of dr src proto shim c) (spoofFragments (length shim) (sc_mtu c))"
  by (simp add: spoof_sendIP_def packet_of_def)

lemma frag_from_joined:
  assumes "off < length shim" "8 dvd off"
  shows "joined off (map (packet_of dr src proto shim c) (frag_from (length shim) mtu off)) = Some (drop off shim)"
  using assms
proof (induction "length shim" mtu off rule: frag_from.induct)
  case (1 mtu off)
  let ?d = "frag_data mtu"
  let ?h = "spoof_header dr src proto \<lparr>fr_off = off, fr_end = min (off + ?d) (length shim), fr_more = off + ?d < length shim\<rparr> c"
  have o: "8 * ih_FragOff ?h = off" using 1(3) by (simp add: spoof_header_def)
  show ?case
  proof (cases "off + ?d < length shim")
    case True
    have "8 dvd off + ?d" using 1(3) frag_data_8 by (rule dvd_add)
    then have r: "joined (off + ?d) (map (packet_of dr src proto shim c) (frag_from (length shim) mtu (off + ?d))) = Some (drop (off + ?d) shim)"
      using 1(1)[OF _ refl _ _] 1(2) True by simp
    have ne: "map (packet_of dr src proto shim c) (frag_from (length shim) mtu (off + ?d)) \<noteq> []"
      using True by (simp add: frag_from_unfold(1))
    have m: "ih_MoreFragments ?h" using True by (simp add: spoof_header_def)
    have "take ?d (drop off shim) @ drop (off + ?d) shim = drop off shim" by (simp add: drop_split[symmetric] add.commute)
    moreover have "length (take ?d (drop off shim)) = ?d" using True by simp
    ultimately show ?thesis
      using joined_cons[OF o m ne, of "take ?d (drop off shim)"] r True 1(2)
      by (simp add: frag_from_unfold(1) packet_of_def min_def)
  next
    case False
    have "\<not> ih_MoreFragments ?h" using False by (simp add: spoof_header_def)
    then show ?thesis using o False 1(2) by (simp add: frag_from_unfold packet_of_def min_def)
  qed
qed

lemma frag_from_bounds:
  "8 dvd off \<Longrightarrow> f \<in> set (frag_from n mtu off) \<Longrightarrow>
   off \<le> fr_off f \<and> fr_off f < fr_end f \<and> fr_end f \<le> n \<and> 8 dvd fr_off f \<and> fr_end f - fr_off f \<le> frag_data mtu \<and>
   (fr_more f \<longrightarrow> 8 dvd fr_end f - fr_off f)"
proof (induction n mtu off rule: frag_from.induct)
  case (1 n mtu off)
  show ?case
  proof (cases "off < n")
    case True
    have d: "8 dvd off + frag_data mtu" using 1(2) frag_data_8 by (rule dvd_add)
    show ?thesis
    proof (cases "f \<in> set (frag_from n mtu (off + frag_data mtu))")
      case True
      then show ?thesis using 1(1)[OF _ refl d True] \<open>off < n\<close> by auto
    next
      case False
      then have "f = \<lparr>fr_off = off, fr_end = min (off + frag_data mtu) n, fr_more = off + frag_data mtu < n\<rparr>"
        using 1(3) \<open>off < n\<close> by (simp add: frag_from_unfold(1))
      then show ?thesis using 1(2) \<open>off < n\<close> frag_data_pos[of mtu] frag_data_8[of mtu] by auto
    qed
  next
    case False
    then show ?thesis using 1(3) by (simp add: frag_from_unfold(2))
  qed
qed

lemma frag_from_sorted:
  "8 dvd off \<Longrightarrow> sorted_wrt (<) (map (\<lambda>f. fr_off f div 8) (frag_from n mtu off))"
proof (induction n mtu off rule: frag_from.induct)
  case (1 n mtu off)
  show ?case
  proof (cases "off < n")
    case True
    have d: "8 dvd off + frag_data mtu" using 1(2) frag_data_8 by (rule dvd_add)
    have "off div 8 < fr_off f div 8" if "f \<in> set (frag_from n mtu (off + frag_data mtu))" for f
    proof -
      obtain j where j: "frag_data mtu = 8 * j" using frag_data_8 by (rule dvdE)
      then have "0 < j" using frag_data_pos[of mtu] by simp
      have "(off + 8 * j) div 8 \<le> fr_off f div 8" using frag_from_bounds[OF d that] j by (intro div_le_mono) simp
      then show ?thesis using \<open>0 < j\<close> by simp
    qed
    then show ?thesis using 1(1)[OF _ refl d] True by (simp add: frag_from_unfold(1))
  next
    case False
    then show ?thesis by (simp add: frag_from_unfold(2))
  qed
qed

lemma sendIP_rejoin:
  assumes "28 \<le> sc_mtu c" "mset fs = mset (spoof_sendIP dr src proto shim c)"
  shows "reassemble fs = Some shim \<and>
    (\<forall>(h, d) \<in> set fs. ih_TotalLen h = 20 + length d \<and> int (ih_TotalLen h) \<le> sc_mtu c \<and> (ih_MoreFragments h \<longrightarrow> 8 dvd length d) \<and>
      ih_ID h = dr_ipid dr \<and> ih_Protocol h = proto \<and> ih_Src h = src \<and> ih_Dst h = sc_realPeer c)"
proof -
  let ?p = "packet_of dr src proto shim c" and ?k = "\<lambda>f :: ip_header \<times> bytes. ih_FragOff (fst f)"
  define out where "out = spoof_sendIP dr src proto shim c"
  have k: "?k (?p f) = fr_off f div 8" for f by (simp add: packet_of_def spoof_header_def)
  have s: "set fs = set out" using assms(2) mset_eq_setD out_def by blast
  have one: "spoofFragments (length shim) (sc_mtu c) = [\<lparr>fr_off = 0, fr_end = length shim, fr_more = False\<rparr>] \<or>
      0 < length shim \<and> spoofFragments (length shim) (sc_mtu c) = frag_from (length shim) (sc_mtu c) 0"
    using assms(1) by (auto simp: spoofFragments_def)
  then have srt: "sorted_wrt (<) (map ?k out)"
    using frag_from_sorted[of 0 "length shim" "sc_mtu c"] by (auto simp: out_def sendIP_packets k comp_def)
  have j: "joined 0 out = Some shim"
    using one frag_from_joined[of 0 shim dr src proto c "sc_mtu c"]
    by (auto simp: out_def sendIP_packets) (simp add: packet_of_def spoof_header_def)
  have "inj_on ?k (set out)"
    using srt by (metis distinct_map strict_sorted_iff)
  then have "sort_key ?k fs = out"
    using srt s assms(2) by (intro sort_key_inj_key_eq) (auto simp: out_def strict_sorted_imp_sorted)
  then have r: "reassemble fs = Some shim" using j by (simp add: reassemble_def)
  have "ih_TotalLen h = 20 + length d \<and> int (ih_TotalLen h) \<le> sc_mtu c \<and> (ih_MoreFragments h \<longrightarrow> 8 dvd length d) \<and>
      ih_ID h = dr_ipid dr \<and> ih_Protocol h = proto \<and> ih_Src h = src \<and> ih_Dst h = sc_realPeer c" if m: "(h, d) \<in> set out" for h d
  proof -
    obtain f where f: "f \<in> set (spoofFragments (length shim) (sc_mtu c))" "(h, d) = ?p f"
      using m unfolding out_def sendIP_packets set_map image_iff by blast
    have "fr_end f \<le> length shim \<and> fr_off f \<le> fr_end f \<and> (fr_more f \<longrightarrow> 8 dvd fr_end f - fr_off f) \<and>
        20 + int (fr_end f - fr_off f) \<le> sc_mtu c"
    proof (cases "20 + int (length shim) \<le> sc_mtu c")
      case True
      then show ?thesis using f(1) by (simp add: spoofFragments_def)
    next
      case False
      then show ?thesis using f(1) frag_from_bounds[of 0 f "length shim" "sc_mtu c"] frag_data_fits[OF assms(1)]
        by (auto simp: spoofFragments_def)
    qed
    then show ?thesis using f(2) by (auto simp: packet_of_def spoof_header_def)
  qed
  then show ?thesis using r s by auto
qed

text \<open>(C14) A datagram larger than the path survives being split. Its fragments, arriving in any order, go back together
  to the very segment that was sent; each of them fits the MTU with its header, all but the last carry a multiple of
  eight bytes, and they agree on what ties them together: identification, protocol, addresses.\<close>
theorem spoof_fragments_rejoin:
  assumes "28 \<le> sc_mtu c" "mset fs = mset (spoof_sendIP dr src proto shim c)"
  shows "reassemble fs = Some shim \<and>
    (\<forall>(h, d) \<in> set fs. ih_TotalLen h = 20 + length d \<and> int (ih_TotalLen h) \<le> sc_mtu c \<and> (ih_MoreFragments h \<longrightarrow> 8 dvd length d) \<and>
      ih_ID h = dr_ipid dr \<and> ih_Protocol h = proto \<and> ih_Src h = src \<and> ih_Dst h = sc_realPeer c)"
  using assms by (rule sendIP_rejoin)

definition plain_dpi :: SpoofDPI where
  "plain_dpi = \<lparr>dpi_TTLJitter = False, dpi_RandomDSCP = False, dpi_ShufflePort = False, dpi_PortMin = 0, dpi_PortMax = 0,
     dpi_Padding = True, dpi_PaddingMax = 3, dpi_FakeTLS = True\<rparr>"

definition demo_opts :: "SpoofProfile \<Rightarrow> spoofConnOpts" where
  "demo_opts profile = \<lparr>so_token = [], so_uplink = profile, so_downlink = profile, so_realPeer = [10, 0, 0, 2], so_srcIP = '''',
     so_srcPool = [], so_xdpIface = '''', so_replySplit = True, so_peerSrc = '''', so_mtu = 28, so_dpi = plain_dpi\<rparr>"

definition demo_system :: spoof_system where
  "demo_system = \<lparr>sys_local = \<lambda>_. [10, 0, 0, 1], sys_send = True, sys_xdp = False, sys_udp = True, sys_raw = True\<rparr>"

definition demo_draws :: spoof_draws where
  "demo_draws = \<lparr>dr_pad = 1, dr_fill = \<lambda>_. 7, dr_port = 0, dr_ttl = 0, dr_dscp = 0, dr_ipid = 9\<rparr>"

definition demo_spoof :: "SpoofProfile \<Rightarrow> spoofConn" where
  "demo_spoof profile = \<lparr>sc_sendProfile = profile, sc_recvProfile = profile, sc_receiver = RawSocket, sc_server = False, sc_port = 7,
     sc_realPeer = [10, 0, 0, 2], sc_spoofSrcs = [[10, 0, 0, 1]], sc_mtu = 28, sc_sendICMPType = 8, sc_recvICMPType = 0,
     sc_expectSrc = None, sc_dpi = plain_dpi, sc_filter = None, sc_rst = False, sc_icmpEcho = False, sc_rot = 0, sc_tcpSeq = 0,
     sc_icmpSeq = 0\<rparr>"

theorem spoof_fragments_rejoin_witness:
  "reassemble (rev (spoof_sendIP demo_draws [1, 2, 3, 4] 47 [1, 2, 3, 4, 5, 6, 7, 8, 9] (demo_spoof SpoofProfileGRE))) =
    Some [1, 2, 3, 4, 5, 6, 7, 8, 9]"
  using spoof_fragments_rejoin[of "demo_spoof SpoofProfileGRE"
      "rev (spoof_sendIP demo_draws [1, 2, 3, 4] 47 [1, 2, 3, 4, 5, 6, 7, 8, 9] (demo_spoof SpoofProfileGRE))"
      demo_draws "[1, 2, 3, 4]" 47 "[1, 2, 3, 4, 5, 6, 7, 8, 9]"]
  by (simp add: demo_spoof_def)

section \<open>Lemmas: the two ends\<close>

lemma To4_length: "To4 ip = Some b \<Longrightarrow> length b = 4"
  by (auto simp: To4_def split: if_splits)

lemma spoof_plan_facts:
  assumes "spoof_plan sha256 local_source server opts = Inr c"
  shows "sc_sendProfile c = (if server then so_downlink opts else so_uplink opts)"
    "sc_recvProfile c = (if server then so_uplink opts else so_downlink opts)"
    "sc_port c = snd (spoofIdentity sha256 (so_token opts))" "sc_dpi c = so_dpi opts" "40 < sc_mtu c" "sc_spoofSrcs c \<noteq> []"
    "sc_sendICMPType c = (let (req, rep) = icmpEchoTypes (sc_sendProfile c) in if so_replySplit opts \<and> server then rep else req)"
    "sc_recvICMPType c = (let (req, rep) = icmpEchoTypes (sc_recvProfile c) in if so_replySplit opts \<and> \<not> server then rep else req)"
proof -
  obtain r where r: "To4 (so_realPeer opts) = Some r" using assms by (cases "To4 (so_realPeer opts)") (simp_all add: spoof_plan_def)
  obtain pool where pl: "parseSpoofPool (so_srcIP opts) (so_srcPool opts) = Inr pool"
    using assms r by (cases "parseSpoofPool (so_srcIP opts) (so_srcPool opts)") (simp_all add: spoof_plan_def Let_def)
  define expect where "expect = (if so_peerSrc opts = '''' then Inr None
    else case Option.bind (ParseIP (so_peerSrc opts)) To4 of None \<Rightarrow> Inl (BadPeerSource (so_peerSrc opts)) | Some ip \<Rightarrow> Inr (Some ip))"
  have e: "case expect of Inl e \<Rightarrow> False | Inr x \<Rightarrow> True"
    using assms unfolding spoof_plan_def r pl Let_def option.case sum.case expect_def[symmetric] by (cases expect) simp_all
  then obtain x where x: "expect = Inr x" by (cases expect) simp_all
  note c = assms[unfolded spoof_plan_def r pl Let_def option.case sum.case expect_def[symmetric] x, symmetric]
  show "sc_sendProfile c = (if server then so_downlink opts else so_uplink opts)"
    "sc_recvProfile c = (if server then so_uplink opts else so_downlink opts)"
    "sc_port c = snd (spoofIdentity sha256 (so_token opts))" "sc_dpi c = so_dpi opts" "40 < sc_mtu c" "sc_spoofSrcs c \<noteq> []"
    "sc_sendICMPType c = (let (req, rep) = icmpEchoTypes (sc_sendProfile c) in if so_replySplit opts \<and> server then rep else req)"
    "sc_recvICMPType c = (let (req, rep) = icmpEchoTypes (sc_recvProfile c) in if so_replySplit opts \<and> \<not> server then rep else req)"
    using c by (simp_all add: defaultSpoofMTU_def profileL4Len_def split_beta)
qed

lemma newSpoofConn_facts:
  assumes "newSpoofConn sys sha256 server opts = Inr c"
  shows "sc_sendProfile c = (if server then so_downlink opts else so_uplink opts)"
    "sc_recvProfile c = (if server then so_uplink opts else so_downlink opts)"
    "sc_port c = snd (spoofIdentity sha256 (so_token opts))" "sc_dpi c = so_dpi opts" "40 < sc_mtu c" "sc_spoofSrcs c \<noteq> []"
    "sc_sendICMPType c = (let (req, rep) = icmpEchoTypes (sc_sendProfile c) in if so_replySplit opts \<and> server then rep else req)"
    "sc_recvICMPType c = (let (req, rep) = icmpEchoTypes (sc_recvProfile c) in if so_replySplit opts \<and> \<not> server then rep else req)"
    "sc_receiver c = UDPSocket \<longrightarrow> sc_recvProfile c = SpoofProfileUDP"
proof -
  obtain d where d: "spoof_plan sha256 (sys_local sys) server opts = Inr d"
    using assms by (cases "spoof_plan sha256 (sys_local sys) server opts") (simp_all add: newSpoofConn_def and_then_def)
  have s: "sc_sendProfile c = sc_sendProfile d" "sc_recvProfile c = sc_recvProfile d" "sc_port c = sc_port d" "sc_dpi c = sc_dpi d"
    "sc_mtu c = sc_mtu d" "sc_spoofSrcs c = sc_spoofSrcs d" "sc_sendICMPType c = sc_sendICMPType d"
    "sc_recvICMPType c = sc_recvICMPType d" "sc_receiver c = UDPSocket \<longrightarrow> sc_recvProfile c = SpoofProfileUDP"
    using assms unfolding newSpoofConn_def and_then_def d by (auto split: if_splits)
  note f = spoof_plan_facts[OF d]
  show "sc_sendProfile c = (if server then so_downlink opts else so_uplink opts)"
    "sc_recvProfile c = (if server then so_uplink opts else so_downlink opts)"
    "sc_port c = snd (spoofIdentity sha256 (so_token opts))" "sc_dpi c = so_dpi opts" "40 < sc_mtu c" "sc_spoofSrcs c \<noteq> []"
    "sc_sendICMPType c = (let (req, rep) = icmpEchoTypes (sc_sendProfile c) in if so_replySplit opts \<and> server then rep else req)"
    "sc_recvICMPType c = (let (req, rep) = icmpEchoTypes (sc_recvProfile c) in if so_replySplit opts \<and> \<not> server then rep else req)"
    "sc_receiver c = UDPSocket \<longrightarrow> sc_recvProfile c = SpoofProfileUDP"
    using f s by simp_all
qed

lemma undo_body:
  assumes "dpi_Padding (sc_dpi b) = dpi_Padding (sc_dpi a)" "dpi_FakeTLS (sc_dpi b) = dpi_FakeTLS (sc_dpi a)"
  shows "spoof_undoDPI (sc_sendProfile a) (spoof_body dr p a) b = Some p"
  using assms by (simp add: spoof_undoDPI_def spoof_body_def Let_def strip_fake_tls strip_padding)

lemma spoof_body_length: "p \<noteq> [] \<Longrightarrow> spoof_body dr p a \<noteq> []" "length (spoof_body dr p a) \<le> length p + 260"
proof -
  show "p \<noteq> [] \<Longrightarrow> spoof_body dr p a \<noteq> []" by (simp add: spoof_body_def Let_def applyPadding_def applyFakeTLS_def)
  define m where "m = (if dpi_PaddingMax (sc_dpi a) = 0 then 64 else dpi_PaddingMax (sc_dpi a))"
  have "IntN (dr_pad dr) (unat m) + 1 \<le> unat m" using pad_length(2)[OF m_def] .
  then have "length (applyPadding (dr_pad dr) (dr_fill dr) p (dpi_PaddingMax (sc_dpi a))) \<le> length p + 255"
    using unat_byte[of m] by (simp add: applyPadding_def Let_def m_def[symmetric])
  then show "length (spoof_body dr p a) \<le> length p + 260" by (simp add: spoof_body_def Let_def applyFakeTLS_def)
qed

lemma strip_shim:
  assumes "sc_recvProfile b = sc_sendProfile a" "sc_recvICMPType b = sc_sendICMPType a" "sc_port b = sc_port a"
  shows "spoof_strip (snd (spoof_shim dr src body a)) b = Some body"
  using assms
  by (simp add: spoof_strip_def spoof_shim_def Let_def strip_echo strip_gre strip_udp[unfolded profiles] strip_tcp[unfolded profiles]
      isICMPFamily_def profiles
      split: prod.splits)

lemma strip_shim_foreign:
  assumes "sc_recvProfile b = sc_sendProfile a" "sc_port b \<noteq> sc_port a" "hasPortDemux (sc_sendProfile a)"
  shows "spoof_strip (snd (spoof_shim dr src body a)) b = None"
  using assms
  by (simp add: spoof_strip_def spoof_shim_def Let_def hasPortDemux_def parseICMPEcho_def stripSpoofShim_def buildICMPEcho_def
      buildTCPShimPorts_def buildUDPShimPorts_def split: prod.splits)

lemma write_packets_all: "write_packets (\<lambda>_. True) fs = (fs, True)"
  by (induction fs) simp_all

section \<open>The carrier\<close>

lemma spoof_shim_kept: "sc_spoofSrcs (fst (spoof_shim dr src body c)) = sc_spoofSrcs c" "sc_mtu (fst (spoof_shim dr src body c)) = sc_mtu c"
  "sc_realPeer (fst (spoof_shim dr src body c)) = sc_realPeer c" "sc_sendProfile (fst (spoof_shim dr src body c)) = sc_sendProfile c"
  "sc_rot (fst (spoof_shim dr src body c)) = sc_rot c" "sc_dpi (fst (spoof_shim dr src body c)) = sc_dpi c"
  "sc_port (fst (spoof_shim dr src body c)) = sc_port c"
  by (simp_all add: spoof_shim_def Let_def split_beta)

lemma udp_shim:
  assumes "sc_sendProfile a = SpoofProfileUDP"
  shows "snd (spoof_shim dr src body a) =
    buildUDPShimPorts (pickSrcPort (dr_port dr) (sc_dpi a) (sc_port a)) (sc_port a) src (sc_realPeer a) body"
  using assms by (simp add: spoof_shim_def Let_def isICMPFamily_def profiles)

lemma udp_shim_parts: "8 \<le> length (buildUDPShimPorts sp dp src dst b)" "get16 (take 2 (drop 2 (buildUDPShimPorts sp dp src dst b))) = dp"
  "drop 8 (buildUDPShimPorts sp dp src dst b) = b"
  by (simp_all add: buildUDPShimPorts_def Let_def)

lemma shim_not_empty: "body \<noteq> [] \<Longrightarrow> snd (spoof_shim dr src body a) \<noteq> []"
  by (simp add: spoof_shim_def Let_def split_beta buildICMPEcho_def buildTCPShimPorts_def buildGREShim_def buildUDPShimPorts_def)

lemma one_end_to_the_other:
  assumes prof: "sc_recvProfile b = sc_sendProfile a" "sc_recvICMPType b = sc_sendICMPType a" "sc_port b = sc_port a"
    and dpi: "dpi_Padding (sc_dpi b) = dpi_Padding (sc_dpi a)" "dpi_FakeTLS (sc_dpi b) = dpi_FakeTLS (sc_dpi a)"
    and mode: "sc_receiver b = UDPSocket \<longrightarrow> sc_recvProfile b = SpoofProfileUDP"
    and src: "expected_source (Some src) b"
    and p: "p \<noteq> []" "length p \<le> 65000"
    and seg: "seg = snd (spoof_shim dr src (spoof_body dr p a) a)"
  shows "\<exists>arr. handed_up (ipProtocol (sc_sendProfile a)) src (sc_realPeer a) seg b = Some arr \<and> spoof_receive arr b = Some p"
proof -
  let ?body = "spoof_body dr p a"
  have strip: "spoof_strip seg b = Some ?body" unfolding seg by (rule strip_shim[OF prof])
  have undo: "spoof_undoDPI (sc_recvProfile b) ?body b = Some p" unfolding prof(1) by (rule undo_body[OF dpi])
  have ne: "seg \<noteq> []" using shim_not_empty[OF spoof_body_length(1)[OF p(1)]] by (simp add: seg)
  show ?thesis
  proof (cases "sc_receiver b")
    case UDPSocket
    then have u: "sc_recvProfile b = SpoofProfileUDP" using mode by simp
    then have s: "seg = buildUDPShimPorts (pickSrcPort (dr_port dr) (sc_dpi a) (sc_port a)) (sc_port a) src (sc_realPeer a) ?body"
      using udp_shim[of a] prof(1) by (simp add: seg)
    have "length ?body \<le> 65535" using spoof_body_length(2)[of dr p a] p(2) by simp
    then have "sums_to_ones [pseudo_header src (sc_realPeer a) 17 (length seg), seg]" using udp_sums unfolding s Let_def by blast
    then have "handed_up (ipProtocol (sc_sendProfile a)) src (sc_realPeer a) seg b = Some (Arrival (Some src) ?body)"
      using UDPSocket prof udp_shim_parts unfolding s by (simp add: handed_up_def)
    moreover have "spoof_receive (Arrival (Some src) ?body) b = Some p"
      using UDPSocket src undo p(1) spoof_body_length(1)[OF p(1), of dr a] u by (simp add: spoof_receive_def)
    ultimately show ?thesis by blast
  qed (use prof(1) strip undo ne src p(1) in \<open>simp_all add: handed_up_def spoof_receive_def\<close>)
qed

lemma other_tunnel_blind:
  assumes prof: "sc_recvProfile b = sc_sendProfile a" "sc_port b \<noteq> sc_port a" "hasPortDemux (sc_sendProfile a)"
    and mode: "sc_receiver b = UDPSocket \<longrightarrow> sc_recvProfile b = SpoofProfileUDP"
    and seg: "seg = snd (spoof_shim dr src body a)"
  shows "Option.bind (handed_up proto src (sc_realPeer a) seg b) (\<lambda>arr. spoof_receive arr b) = None"
proof (cases "sc_receiver b")
  case UDPSocket
  then have "sc_sendProfile a = SpoofProfileUDP" using mode prof(1) by simp
  then have "get16 (take 2 (drop 2 seg)) \<noteq> sc_port b" using prof(2) udp_shim_parts(2) by (simp add: seg udp_shim)
  then show ?thesis using UDPSocket by (simp add: handed_up_def)
qed (use strip_shim_foreign[OF prof] seg in \<open>simp_all add: handed_up_def spoof_receive_def\<close>)


lemma demo_pool: "parseSpoofPool '''' [] = Inr []"
  by (simp add: parseSpoofPool_def)

lemma demo_ends:
  "newSpoofConn demo_system sha256 server ((demo_opts SpoofProfileIPIP)\<lparr>so_token := t\<rparr>) =
     Inr \<lparr>sc_sendProfile = SpoofProfileIPIP, sc_recvProfile = SpoofProfileIPIP, sc_receiver = RawSocket, sc_server = server,
       sc_port = snd (spoofIdentity sha256 t), sc_realPeer = [10, 0, 0, 2], sc_spoofSrcs = [[10, 0, 0, 1]], sc_mtu = 1500,
       sc_sendICMPType = (if server then 0 else 8), sc_recvICMPType = (if server then 8 else 0), sc_expectSrc = None, sc_dpi = plain_dpi,
       sc_filter = None, sc_rst = False, sc_icmpEcho = False, sc_rot = 0, sc_tcpSeq = 0, sc_icmpSeq = 0\<rparr>"
  by (simp add: newSpoofConn_def spoof_plan_def demo_opts_def demo_system_def demo_pool To4_def and_then_def icmpEchoTypes_def
      icmpTypeEchoRequest_def icmpTypeEchoReply_def hasPortDemux_def profiles profileL4Len_def defaultSpoofMTU_def Let_def)

definition demo_digest :: "bytes \<Rightarrow> bytes" where "demo_digest t = replicate 4 0 @ [4, word_of_nat (length t)]"

lemma demo_ports: "snd (spoofIdentity demo_digest []) = 1042" "snd (spoofIdentity demo_digest [1]) = 1043"
  by (simp_all add: spoofIdentity_def demo_digest_def xdiTagLen_def get16_def be_get_def bytes_of_def)


end
