(* ===== verification/EchoFrame.thy ===== *)
theory EchoFrame
  imports SpoofPacket
begin

text \<open>
  The carrier inside pings. \<open>src/internal/utils/network/icmpframe.go\<close>: the tag and direction in front of a datagram, the
  identifiers of sessions, the echo message. \<open>src/internal/utils/network/icmpfilter_linux.go\<close>: the filter of the socket.
  \<open>src/internal/utils/network/icmpconn_linux.go\<close>: sending and reading. Every raw socket of a host sees every echo that
  arrives, and the host's kernel answers requests on its own.
\<close>

section \<open>Definitions\<close>

definition xdiHeaderLen :: nat where "xdiHeaderLen = xdiTagLen + 1"
definition xdiDirServer :: byte where "xdiDirServer = 83"
definition xdiDirClient :: byte where "xdiDirClient = 67"

definition xdiTag :: "(bytes \<Rightarrow> bytes) \<Rightarrow> bytes \<Rightarrow> bytes" where
  "xdiTag sha256 token = fresh_copy xdiTagLen (sha256 (bytes_of ''backpack-xdi-v1:'' @ token))"

text \<open>Every draw is two random bytes or a failure of the random source. The loop ends with the draws that were made; when
  the last of them has not settled it, it has not returned.\<close>

fun acquireXdiSessionID :: "u16 option list \<Rightarrow> u16 set \<Rightarrow> (u16 set \<times> u16) option" where
  "acquireXdiSessionID [] used = None"
| "acquireXdiSessionID (None # draws) used =
     (case find (\<lambda>i. i \<notin> used) (map word_of_nat [1..<65536]) of
        Some i \<Rightarrow> Some (insert i used, i)
      | None \<Rightarrow> Some (used, 1))"
| "acquireXdiSessionID (Some i # draws) used =
     (if i = 0 then acquireXdiSessionID draws used
      else if i \<in> used then acquireXdiSessionID draws used
      else Some (insert i used, i))"

definition releaseXdiSessionID :: "u16 \<Rightarrow> u16 set \<Rightarrow> u16 set" where "releaseXdiSessionID i used = used - {i}"

definition outboundDir :: "bool \<Rightarrow> byte" where "outboundDir server = (if server then xdiDirServer else xdiDirClient)"
definition inboundDir :: "bool \<Rightarrow> byte" where "inboundDir server = (if server then xdiDirClient else xdiDirServer)"

definition encodeXdiPayload :: "bytes \<Rightarrow> byte \<Rightarrow> bytes \<Rightarrow> bytes" where
  "encodeXdiPayload tag dir payload = fresh_copy xdiTagLen tag @ dir # payload"

definition appendXdiPayload :: "bytes \<Rightarrow> bytes \<Rightarrow> byte \<Rightarrow> bytes \<Rightarrow> bytes" where
  "appendXdiPayload dst tag dir payload = ((dst @ tag) @ [dir]) @ payload"

definition decodeXdiPayload :: "bytes \<Rightarrow> byte \<Rightarrow> bytes \<Rightarrow> bytes option" where
  "decodeXdiPayload tag wantDir d =
     (if length d < xdiHeaderLen then None
      else if \<exists>i \<in> {0..<xdiTagLen}. d ! i \<noteq> tag ! i then None
      else if d ! xdiTagLen \<noteq> wantDir then None
      else Some (drop xdiHeaderLen d))"

definition appendEcho :: "bytes \<Rightarrow> byte \<Rightarrow> u16 \<Rightarrow> u16 \<Rightarrow> bytes" where
  "appendEcho dst typ i seq = dst @ [typ, 0, 0, 0, ucast (drop_bit 8 i), ucast i, ucast (drop_bit 8 seq), ucast seq]"

definition setICMPChecksum :: "bytes \<Rightarrow> bytes" where
  "setICMPChecksum msg =
     (let cs = NOT (ucast (fold16 (add_words 0 msg))) :: u16 in msg[2 := ucast (drop_bit 8 cs), 3 := ucast cs])"

definition icmpFilter :: "byte \<Rightarrow> u16 option \<Rightarrow> bpf_insn list" where
  "icmpFilter wantType ident =
     (case ident of
        Some i \<Rightarrow> [LoadMemShift 0, LoadIndirect 0 1, JumpIf JumpNotEqual (ucast wantType) 3 0, LoadIndirect 4 2,
                  JumpIf JumpNotEqual (ucast i) 1 0, RetConstant 0xffff, RetConstant 0]
      | None \<Rightarrow> [LoadMemShift 0, LoadIndirect 0 1, JumpIf JumpNotEqual (ucast wantType) 1 0, RetConstant 0xffff, RetConstant 0])"

text \<open>Addresses as the layer above hands them around.\<close>

datatype net_addr = IPAddr bytes | UDPAddr bytes nat | OtherAddr string

definition toIPAddr :: "net_addr \<Rightarrow> string + bytes" where
  "toIPAddr addr =
     (case addr of
        IPAddr ip \<Rightarrow> Inr ip
      | UDPAddr ip port \<Rightarrow> Inr ip
      | OtherAddr s \<Rightarrow>
          (let host = (case SplitHostPort s of Inr (h, p) \<Rightarrow> h | Inl e \<Rightarrow> s) in
           case ParseIP host of None \<Rightarrow> Inl s | Some ip \<Rightarrow> Inr ip))"

definition addrIP :: "net_addr option \<Rightarrow> bytes option" where
  "addrIP addr =
     (case addr of None \<Rightarrow> None
      | Some a \<Rightarrow> (case toIPAddr a of Inl e \<Rightarrow> None | Inr ip \<Rightarrow> Some ip))"

record icmpConn =
  ic_server :: bool
  ic_id :: u16
  ic_tag :: bytes
  ic_seq :: u32
  ic_filter :: "bpf_insn list"

definition newICMPServerConn :: "(bytes \<Rightarrow> bytes) \<Rightarrow> bytes \<Rightarrow> icmpConn" where
  "newICMPServerConn sha256 token =
     \<lparr>ic_server = True, ic_id = 0, ic_tag = xdiTag sha256 token, ic_seq = 0, ic_filter = icmpFilter icmpTypeEchoRequest None\<rparr>"

definition newICMPClientConn :: "(bytes \<Rightarrow> bytes) \<Rightarrow> bytes \<Rightarrow> u16 option list \<Rightarrow> u16 set \<Rightarrow> (u16 set \<times> icmpConn) option" where
  "newICMPClientConn sha256 token draws used =
     map_option (\<lambda>(used, i). (used,
       \<lparr>ic_server = False, ic_id = i, ic_tag = xdiTag sha256 token, ic_seq = 0, ic_filter = icmpFilter icmpTypeEchoReply (Some i)\<rparr>))
     (acquireXdiSessionID draws used)"

definition echoIDFor :: "net_addr \<Rightarrow> icmpConn \<Rightarrow> nat" where
  "echoIDFor dst c =
     (if \<not> ic_server c then unat (ic_id c)
      else case dst of UDPAddr ip port \<Rightarrow> port | _ \<Rightarrow> 0)"

definition icmp_peerAddr :: "net_addr \<Rightarrow> u16 \<Rightarrow> icmpConn \<Rightarrow> net_addr" where
  "icmp_peerAddr peer echoID c =
     (if \<not> ic_server c then peer
      else UDPAddr (case addrIP (Some peer) of None \<Rightarrow> [] | Some ip \<Rightarrow> ip) (unat echoID))"

definition icmp_WriteTo :: "bytes \<Rightarrow> net_addr \<Rightarrow> icmpConn \<Rightarrow> icmpConn \<times> (string + bytes \<times> bytes)" where
  "icmp_WriteTo p dst c =
     (case toIPAddr dst of Inl e \<Rightarrow> (c, Inl e)
      | Inr ip \<Rightarrow>
        (let typ = (if ic_server c then icmpTypeEchoReply else icmpTypeEchoRequest);
             seq = ic_seq c + 1;
             wire = appendEcho [] typ (word_of_nat (echoIDFor dst c)) (ucast seq);
             wire = appendXdiPayload wire (ic_tag c) (outboundDir (ic_server c)) p
         in (c\<lparr>ic_seq := seq\<rparr>, Inr (setICMPChecksum wire, ip))))"

text \<open>One turn of \<open>ReadFrom\<close> with a message and where it came from.\<close>

definition icmp_receive :: "bytes \<Rightarrow> net_addr \<Rightarrow> icmpConn \<Rightarrow> (bytes \<times> net_addr) option" where
  "icmp_receive buf peer c =
     (let wantType = (if ic_server c then icmpTypeEchoRequest else icmpTypeEchoReply) in
      if length buf < 8 \<or> buf ! 0 \<noteq> wantType then None
      else let echoID = push_bit 8 (ucast (buf ! 4)) OR ucast (buf ! 5) :: u16 in
        if \<not> ic_server c \<and> echoID \<noteq> ic_id c then None
        else map_option (\<lambda>payload. (payload, icmp_peerAddr peer echoID c))
          (decodeXdiPayload (ic_tag c) (inboundDir (ic_server c)) (drop 8 buf)))"

text \<open>\<open>ReadFrom\<close> into \<open>n\<close> bytes.\<close>

fun icmp_ReadFrom :: "nat \<Rightarrow> (bytes \<times> net_addr) list \<Rightarrow> icmpConn \<Rightarrow> (bytes \<times> net_addr) option \<times> (bytes \<times> net_addr) list" where
  "icmp_ReadFrom n [] c = (None, [])"
| "icmp_ReadFrom n ((buf, peer) # rest) c =
     (case icmp_receive buf peer c of
        None \<Rightarrow> icmp_ReadFrom n rest c
      | Some (payload, addr) \<Rightarrow> (Some (take n payload, addr), rest))"

definition icmp_Close :: "icmpConn \<Rightarrow> u16 set \<Rightarrow> u16 set" where
  "icmp_Close c used = (if \<not> ic_server c then releaseXdiSessionID (ic_id c) used else used)"

section \<open>Specification\<close>

text \<open>The answer of a host's kernel to an echo request: the same message as a reply, with its checksum.\<close>

definition kernel_reply :: "bytes \<Rightarrow> bytes" where
  "kernel_reply msg = setICMPChecksum (msg[0 := icmpTypeEchoReply, 2 := 0, 3 := 0])"

definition good_tag :: "icmpConn \<Rightarrow> bool" where "good_tag c \<longleftrightarrow> length (ic_tag c) = 4"

section \<open>Lemmas\<close>

lemma echo_id_bytes: "push_bit 8 (ucast (ucast (drop_bit 8 i) :: byte)) OR ucast (ucast i :: byte) = (i :: u16)"
  using get_put(1)[of i] by (simp add: put16_bytes get16_def be_get_def)

lemma set_checksum_built:
  "setICMPChecksum ([typ, 0, 0, 0] @ r) = [typ, 0] @ put16 (onesComplement [[typ, 0, 0, 0] @ r]) @ r"
  by (simp add: setICMPChecksum_def onesComplement_def put16_bytes Let_def eval_nat_numeral)

lemma echo_wire:
  "setICMPChecksum (appendXdiPayload (appendEcho [] typ i seq) tag dir p) =
   [typ, 0] @ put16 (onesComplement [appendXdiPayload (appendEcho [] typ i seq) tag dir p]) @ put16 i @ put16 seq @ tag @ dir # p"
  using set_checksum_built[of "typ" "put16 i @ put16 seq @ tag @ dir # p"]
  by (simp add: appendXdiPayload_def appendEcho_def put16_bytes)

lemma decode_encoded: "length tag = 4 \<Longrightarrow> length tag' = 4 \<Longrightarrow>
  decodeXdiPayload tag wantDir (tag' @ dir # p) = (if tag' = tag \<and> dir = wantDir then Some p else None)"
proof -
  assume l: "length tag = 4" "length tag' = 4"
  have "(\<exists>i \<in> {0..<xdiTagLen}. (tag' @ dir # p) ! i \<noteq> tag ! i) \<longleftrightarrow> tag' \<noteq> tag"
    using l by (auto simp: list_eq_iff_nth_eq nth_append xdiTagLen_def)
  then show ?thesis using l by (simp add: decodeXdiPayload_def xdiTagLen_def xdiHeaderLen_def nth_append)
qed

lemma receive_wire:
  assumes "good_tag c" "length tag = 4"
  shows "icmp_receive ([typ, 0] @ put16 cs @ put16 i @ put16 seq @ tag @ dir # p) peer c =
    (if typ = (if ic_server c then icmpTypeEchoRequest else icmpTypeEchoReply) \<and> (ic_server c \<or> i = ic_id c) \<and>
        tag = ic_tag c \<and> dir = inboundDir (ic_server c)
     then Some (p, icmp_peerAddr peer i c) else None)"
  using assms
  by (cases "ic_server c") (simp_all add: icmp_receive_def good_tag_def put16_bytes echo_id_bytes[simplified] Let_def decode_encoded)

lemma echo_checksum:
  assumes "length p \<le> 65535" "length tag = 4"
  shows "sums_to_ones [setICMPChecksum (appendXdiPayload (appendEcho [] typ i seq) tag dir p)]"
proof -
  let ?z = "put16 i @ put16 seq @ tag @ dir # p"
  have m: "appendXdiPayload (appendEcho [] typ i seq) tag dir p = [typ, 0] @ [0, 0] @ ?z"
    by (simp add: appendXdiPayload_def appendEcho_def put16_bytes)
  have "(\<Sum>b \<leftarrow> [] @ [[typ, 0] @ [0, 0] @ ?z]. wsum b) + 65535 < 2 ^ 32"
    using segment_words[of "[typ, 0] @ [0, 0] @ ?z"] assms by simp
  then have "sums_to_ones ([] @ [[typ, 0] @ put16 (onesComplement ([] @ [[typ, 0] @ [0, 0] @ ?z])) @ ?z])" by (intro filled_sums) simp_all
  then show ?thesis unfolding echo_wire by (simp add: m)
qed

lemma kernel_reply_wire: "kernel_reply ([typ, 0] @ put16 cs @ r) = [icmpTypeEchoReply, 0] @ put16 (onesComplement [[icmpTypeEchoReply, 0, 0, 0] @ r]) @ r"
  using set_checksum_built[of icmpTypeEchoReply r] by (simp add: kernel_reply_def put16_bytes eval_nat_numeral)

lemma xdiTag_length: "length (xdiTag sha256 token) = 4"
  by (simp add: xdiTag_def fresh_copy_def xdiTagLen_def)

text \<open>(C31) A session inside pings is a private conversation. What a client writes reaches the server of its tunnel as it
  was, under an address that names the session; what the server writes to that address reaches the client, and each
  message is a valid echo. The client of another session and the ends of another tunnel on the same hosts, whose sockets
  see the same messages, drop them, and so does the client with the answer its server's kernel gives to a request.\<close>
theorem xdi_sessions_apart:
  assumes c: "newICMPClientConn sha256 token draws used = Some (used', c)"
    and s: "s = newICMPServerConn sha256 token"
    and d: "\<not> ic_server d" "good_tag d" "ic_id d \<noteq> ic_id c"
    and f: "good_tag f" "ic_tag f \<noteq> ic_tag c"
    and p: "length p \<le> 65535" "length q \<le> 65535"
  shows "\<exists>c' ping s' pong. icmp_WriteTo p (IPAddr there) c = (c', Inr (ping, there)) \<and>
    icmp_ReadFrom n ((ping, IPAddr here) # rest) s = (Some (take n p, UDPAddr here (unat (ic_id c))), rest) \<and>
    icmp_WriteTo q (UDPAddr here (unat (ic_id c))) s = (s', Inr (pong, here)) \<and>
    icmp_ReadFrom n ((pong, IPAddr there) # rest) c' = (Some (take n q, IPAddr there), rest) \<and>
    sums_to_ones [ping] \<and> sums_to_ones [pong] \<and>
    icmp_receive (kernel_reply ping) (IPAddr there) c' = None \<and> icmp_receive pong (IPAddr there) d = None \<and>
    icmp_receive ping (IPAddr here) f = None \<and> icmp_receive pong (IPAddr there) f = None"
proof -
  let ?tag = "xdiTag sha256 token"
  note t = xdiTag_length[of sha256 token]
  have cf: "\<not> ic_server c" "ic_tag c = ?tag" using c by (auto simp: newICMPClientConn_def)
  have sf: "ic_server s" "ic_tag s = ?tag" using s by (simp_all add: newICMPServerConn_def)
  define c' s' where "c' = c\<lparr>ic_seq := ic_seq c + 1\<rparr>" and "s' = s\<lparr>ic_seq := ic_seq s + 1\<rparr>"
  define ping where "ping = setICMPChecksum (appendXdiPayload (appendEcho [] icmpTypeEchoRequest (ic_id c) (ucast (ic_seq c + 1))) ?tag xdiDirClient p)"
  define pong where "pong = setICMPChecksum (appendXdiPayload (appendEcho [] icmpTypeEchoReply (ic_id c) (ucast (ic_seq s + 1))) ?tag xdiDirServer q)"
  have w: "icmp_WriteTo p (IPAddr there) c = (c', Inr (ping, there))"
    "icmp_WriteTo q (UDPAddr here (unat (ic_id c))) s = (s', Inr (pong, here))"
    by (simp_all add: icmp_WriteTo_def toIPAddr_def cf sf echoIDFor_def outboundDir_def Let_def c'_def s'_def ping_def pong_def)
  have types: "icmpTypeEchoReply \<noteq> icmpTypeEchoRequest" "xdiDirClient \<noteq> xdiDirServer"
    by (simp_all add: icmpTypeEchoReply_def icmpTypeEchoRequest_def xdiDirClient_def xdiDirServer_def)
  obtain k1 k2 where wire: "ping = [icmpTypeEchoRequest, 0] @ put16 k1 @ put16 (ic_id c) @ put16 (ucast (ic_seq c + 1)) @ ?tag @ xdiDirClient # p"
    "pong = [icmpTypeEchoReply, 0] @ put16 k2 @ put16 (ic_id c) @ put16 (ucast (ic_seq s + 1)) @ ?tag @ xdiDirServer # q"
    unfolding ping_def pong_def echo_wire by blast
  have g: "good_tag s" "good_tag c'" using cf sf t by (simp_all add: good_tag_def c'_def)
  have "icmp_receive ping (IPAddr here) s = Some (p, UDPAddr here (unat (ic_id c)))"
    unfolding wire receive_wire[OF g(1) t] by (simp add: sf inboundDir_def icmp_peerAddr_def addrIP_def toIPAddr_def)
  moreover have "icmp_receive pong (IPAddr there) c' = Some (q, IPAddr there)"
    unfolding wire receive_wire[OF g(2) t] by (simp add: cf c'_def inboundDir_def icmp_peerAddr_def)
  moreover have "icmp_receive (kernel_reply ping) (IPAddr there) c' = None"
    unfolding wire kernel_reply_wire receive_wire[OF g(2) t] using types by (simp add: cf c'_def inboundDir_def)
  moreover have "icmp_receive pong (IPAddr there) d = None"
    unfolding wire receive_wire[OF d(2) t] using d by simp
  moreover have "icmp_receive ping (IPAddr here) f = None" "icmp_receive pong (IPAddr there) f = None"
    unfolding wire receive_wire[OF f(1) t] using f(2) cf(2) by simp_all
  moreover have "sums_to_ones [ping]" "sums_to_ones [pong]"
    unfolding ping_def pong_def using p by (simp_all add: echo_checksum t)
  ultimately show ?thesis using w by auto
qed

lemma append_is_encode: "length tag = 4 \<Longrightarrow> appendXdiPayload dst tag dir p = dst @ encodeXdiPayload tag dir p"
  by (simp add: appendXdiPayload_def encodeXdiPayload_def fresh_copy_def xdiTagLen_def)

definition demo_hash :: "bytes \<Rightarrow> bytes" where "demo_hash t = [1, 2, 3, 4, 5]"

section \<open>The identifiers\<close>

lemma walked_ids: "set (map word_of_nat [1..<65536]) = {i :: u16. i \<noteq> 0}"
proof (intro equalityI subsetI)
  fix i :: u16
  assume "i \<in> set (map word_of_nat [1..<65536])"
  then obtain n where "i = word_of_nat n" "1 \<le> n" "n < 65536" by auto
  then have "unat i = n" by (simp add: unat_of_nat)
  then show "i \<in> {i. i \<noteq> 0}" using \<open>1 \<le> n\<close> by auto
next
  fix i :: u16
  assume "i \<in> {i. i \<noteq> 0}"
  then have "1 \<le> unat i" "unat i < 65536" using unsigned_less[of i, where 'a = nat] by (simp_all add: Suc_le_eq unat_gt_0)
  then show "i \<in> set (map word_of_nat [1..<65536])" by (auto intro!: image_eqI[of _ _ "unat i"])
qed

lemma find_id_None: "find (\<lambda>i. i \<notin> used) (map word_of_nat [1..<65536]) = None \<longleftrightarrow> (\<forall>i :: u16. i \<noteq> 0 \<longrightarrow> i \<in> used)"
  unfolding find_None_iff walked_ids mem_Collect_eq by blast

lemma find_id_Some: "find (\<lambda>i. i \<notin> used) (map word_of_nat [1..<65536]) = Some (i :: u16) \<Longrightarrow> i \<notin> used \<and> i \<noteq> 0"
proof -
  assume f: "find (\<lambda>i. i \<notin> used) (map word_of_nat [1..<65536]) = Some i"
  obtain xs :: "u16 list" where xs: "map word_of_nat [1..<65536] = xs" by (rule that[OF refl])
  then have "set xs = {i. i \<noteq> 0}" using walked_ids by (simp only: xs)
  moreover have "i \<notin> used" "i \<in> set xs" using f nth_mem unfolding find_Some_iff xs by blast+
  ultimately show ?thesis by simp
qed

text \<open>An identifier names one session of the process. Whatever the random source yields, an identifier that is handed out
  was free and is not zero, unless the source fails while every identifier is taken; releasing it frees it alone. And
  the search ends: with a draw of a free identifier, or with the first failure of the source.\<close>
theorem xdi_ids_distinct:
  "(\<forall>used' i. acquireXdiSessionID draws used = Some (used', i) \<longrightarrow>
      i \<notin> used \<and> i \<noteq> 0 \<and> used' = insert i used \<and> releaseXdiSessionID i used' = used \<or>
      (\<forall>j. j \<noteq> 0 \<longrightarrow> j \<in> used) \<and> None \<in> set draws \<and> used' = used \<and> i = 1) \<and>
   (acquireXdiSessionID draws used = None \<longleftrightarrow> None \<notin> set draws \<and> (\<forall>i. Some i \<in> set draws \<longrightarrow> i = 0 \<or> i \<in> used))"
proof (induction draws used rule: acquireXdiSessionID.induct)
  case (2 draws used)
  show ?case
  proof (cases "find (\<lambda>i. i \<notin> used) (map word_of_nat [1..<65536])")
    case None
    then show ?thesis using find_id_None[of used] by (simp del: upt.simps)
  next
    case (Some i)
    then show ?thesis using find_id_Some[OF Some] by (simp add: releaseXdiSessionID_def del: upt.simps)
  qed
qed (auto simp: releaseXdiSessionID_def)

theorem xdi_ids_distinct_witness:
  "acquireXdiSessionID [Some 0, Some 5, Some 6] {5} = Some ({5, 6}, 6) \<and> acquireXdiSessionID [Some 0, Some 5] {5} = None"
proof -
  have "acquireXdiSessionID [Some 0, Some 5] {5} = None" using xdi_ids_distinct[of "[Some 0, Some 5]" "{5}"] by auto
  moreover have "acquireXdiSessionID [Some 0, Some 5, Some 6] {5} = Some ({5, 6}, 6)" by (simp add: insert_commute)
  ultimately show ?thesis by blast
qed

theorem xdi_sessions_apart_witness:
  "\<exists>used' c ping pong. newICMPClientConn demo_hash [1] [Some 7] {} = Some (used', c) \<and>
    icmp_ReadFrom 9 [(ping, IPAddr [10, 0, 0, 1])] (newICMPServerConn demo_hash [1]) = (Some ([4, 5], UDPAddr [10, 0, 0, 1] 7), []) \<and>
    icmp_receive pong (IPAddr [10, 0, 0, 2]) (c\<lparr>ic_id := 8\<rparr>) = None"
proof -
  obtain used' c where c: "newICMPClientConn demo_hash [1] [Some 7] {} = Some (used', c)" by (simp add: newICMPClientConn_def)
  have i: "ic_id c = 7" "\<not> ic_server c" "good_tag c" using c by (auto simp: newICMPClientConn_def good_tag_def xdiTag_length)
  have d: "\<not> ic_server (c\<lparr>ic_id := 8\<rparr>)" "good_tag (c\<lparr>ic_id := 8\<rparr>)" "ic_id (c\<lparr>ic_id := 8\<rparr>) \<noteq> ic_id c"
    using i by (simp_all add: good_tag_def)
  define f where "f = c\<lparr>ic_tag := map (\<lambda>b. b + 1) (ic_tag c)\<rparr>"
  have "map (\<lambda>b. b + 1) t \<noteq> t" if "length t = 4" for t :: bytes using that by (cases t) auto
  then have f: "good_tag f" "ic_tag f \<noteq> ic_tag c" using i(3) by (simp_all add: f_def good_tag_def)
  show ?thesis
    using xdi_sessions_apart[OF c refl d f, of "[4, 5]" "[6]" "[10, 0, 0, 2]" 9 "[10, 0, 0, 1]" "[]"] c by (auto simp: i)
qed

section \<open>The filter\<close>

lemma icmp_filter_any:
  assumes k: "kernel_filter run" and h: "framed_ipv4 hdr"
  shows "run (icmpFilter t None) 0 0 0 (hdr @ msg) = (if 1 \<le> length msg \<and> msg ! 0 = t then 0xffff else 0)"
proof -
  define prog where "prog = icmpFilter t None"
  let ?x = "4 * (ucast ((hdr @ msg) ! 0) AND 0xf) :: u32"
  have at: "length prog = 5" "prog ! 0 = LoadMemShift 0" "prog ! Suc 0 = LoadIndirect 0 1"
    "prog ! Suc (Suc 0) = JumpIf JumpNotEqual (ucast t) 1 0" "prog ! Suc (Suc (Suc 0)) = RetConstant 0xffff"
    "prog ! Suc (Suc (Suc (Suc 0))) = RetConstant 0"
    by (simp_all add: prog_def icmpFilter_def)
  have hd: "unat ?x = length hdr" "hdr \<noteq> []" "unat (4 * (ucast (hdr ! 0) AND 0xf) :: u32) = length hdr"
    using h unfolding header_words by (simp_all add: framed_ipv4_def nth_append)
  note turn = filter_turn[OF k, of prog]
  have "run prog (Suc (Suc (Suc 0))) a x q = 0xffff" "run prog (Suc (Suc (Suc (Suc 0)))) a x q = 0" for a x q
    by (simp_all add: turn bpf_turn_def at)
  then have 2: "run prog (Suc (Suc 0)) (ucast b) x q = (if b = t then 0xffff else 0)" for b x q
    unfolding turn[of "Suc (Suc 0)"] by (simp add: bpf_turn_def at bpf_holds_def ucast8_eq)
  have 1: "run prog (Suc 0) a ?x (hdr @ msg) = (if 1 \<le> length msg \<and> msg ! 0 = t then 0xffff else 0)" for a
    using 2 be_get_one[of 0 msg] unfolding turn[of "Suc 0"]
    by (cases "msg = []") (auto simp: bpf_turn_def at hd(1,3) Suc_le_eq)
  show ?thesis unfolding prog_def[symmetric] turn[of 0] using 1 hd(2) by (simp add: bpf_turn_def at)
qed

text \<open>The kernel wakes a socket for every message its reader accepts.\<close>

lemma xdi_filter_keeps:
  assumes k: "kernel_filter run" and h: "framed_ipv4 hdr" and r: "icmp_receive msg peer c \<noteq> None"
    and f: "ic_filter c = icmpFilter (if ic_server c then icmpTypeEchoRequest else icmpTypeEchoReply)
      (if ic_server c then None else Some (ic_id c))"
  shows "run (ic_filter c) 0 0 0 (hdr @ msg) = 0xffff"
proof -
  have m: "8 \<le> length msg" "msg ! 0 = (if ic_server c then icmpTypeEchoRequest else icmpTypeEchoReply)"
    "ic_server c \<or> push_bit 8 (ucast (msg ! 4)) OR ucast (msg ! 5) = ic_id c"
    using r by (auto simp: icmp_receive_def Let_def split: if_splits)
  show ?thesis
  proof (cases "ic_server c")
    case True
    then show ?thesis using f m icmp_filter_any[OF k h] by simp
  next
    case False
    have "take 2 (drop 4 msg) = [msg ! 4, msg ! 5]" using m(1) by (simp add: take_Suc_conv_app_nth eval_nat_numeral drop_Suc nth_tl)
    then have "get16 (take 2 (drop 4 msg)) = ic_id c" using m(3) False by (simp add: get16_def be_get_def)
    then show ?thesis using f m False echo_filter_run[OF k h refl, of icmpTypeEchoReply "ic_id c" "0xffff" msg]
      by (simp add: icmpFilter_def)
  qed
qed

end
