(* ===== verification/MuxServer.thy ===== *)
theory MuxServer
  imports Pairing
begin

text \<open>
  The reverse tunnel's server over multiplexed sessions: \<open>src/internal/server/transport/muxsession.go\<close>,
  \<open>requeueLocal\<close> of \<open>pairing.go\<close>, \<open>udpAdmitter\<close> of \<open>udpforward.go\<close>, and of \<open>tcpmux.go\<close> the accepting of forwarded connections, the
  delivery of sessions, \<open>handleLoop\<close> and the runs they belong to. Every goroutine is a stage of a connection, of a
  session or of an acceptor; every atomic access to a shared counter and every send to or receipt from a channel is a step
  of its own, so every interleaving is covered, restarts included. \<open>smux\<close> is not part of the repository: whether it opens
  a stream, and whether the address can be sent on it, is left open.
\<close>

section \<open>Definitions\<close>

text \<open>What a goroutine still has to do once it is done with a connection: take it out of the count of streams, give the
  session's slot back, release the connection's slot, ask for another session.\<close>

datatype mact = Uncount bool | GiveBack nat | Release_slot | Request nat

text \<open>
  A forwarded connection; \<open>u\<close> says that it is a UDP flow. Turned away and taking its increment back; about to be offered
  to the queue of its run; in the queue; in the hands of session \<open>x\<close>, opening a stream; the session's stream could not be
  announced on and its slot is given back; the session is retired and the connection still in its hands; relayed;
  finished, with what its own goroutine still has to do; given up by the loop of session \<open>x\<close>, with what that loop has to do
  before it goes on (or, if it does not go on, ends).
\<close>

datatype mconn = Turned | Offered nat int bool | InQueue nat int bool | Opening nat nat int bool | Unannounced nat nat int bool
  | Failing nat nat int bool | Relayed nat bool | Finishing "mact list" | GivingUp nat nat bool "mact list"

text \<open>A session's loop: about to take a slot of its counter, waiting for a connection, busy with one, about to ask for a
  replacement and end.\<close>

datatype mloop = TopOf | Selecting | WithConn | LastRequest

text \<open>An acceptor after it has queued a connection.\<close>

datatype mpost = Counting | Loading | Comparing u32 | Nudging

record mstate =
  mx_limiter :: "Limiter option"
  mx_conns :: "nat \<rightharpoonup> mconn"
  mx_posts :: "nat \<rightharpoonup> nat \<times> mpost"
  mx_sessions :: "nat \<rightharpoonup> nat \<times> mloop"
  mx_slots :: "nat \<Rightarrow> nat"
  mx_streamCounter :: u32
  mx_sessionCounter :: u32
  mx_run :: nat
  mx_stopped :: bool
  mx_local :: "nat \<Rightarrow> nat list"
  mx_tunnel :: "nat \<Rightarrow> nat list"
  mx_requests :: "nat \<Rightarrow> nat"
  mx_loops :: "nat \<Rightarrow> nat"
  mx_known :: "nat set"
  mx_now :: int
  mx_flows_gone :: nat

definition mx_over :: "mstate \<Rightarrow> nat \<Rightarrow> bool" where
  "mx_over s g \<longleftrightarrow> g < mx_run s \<or> g = mx_run s \<and> mx_stopped s"

definition conn_is :: "nat \<Rightarrow> mconn option \<Rightarrow> mstate \<Rightarrow> mstate" where
  "conn_is i c s = s\<lparr>mx_conns := (mx_conns s)(i := c)\<rparr>"

definition loop_is :: "nat \<Rightarrow> (nat \<times> mloop) option \<Rightarrow> mstate \<Rightarrow> mstate" where
  "loop_is x l s = s\<lparr>mx_sessions := (mx_sessions s)(x := l)\<rparr>"

definition post_is :: "nat \<Rightarrow> (nat \<times> mpost) option \<Rightarrow> mstate \<Rightarrow> mstate" where
  "post_is p a s = s\<lparr>mx_posts := (mx_posts s)(p := a)\<rparr>"

definition local_is :: "nat \<Rightarrow> nat list \<Rightarrow> mstate \<Rightarrow> mstate" where
  "local_is g q s = s\<lparr>mx_local := (mx_local s)(g := q)\<rparr>"

text \<open>A send to the channel of requests that does not block: what finds it full is dropped.\<close>

definition request_session :: "nat \<Rightarrow> nat \<Rightarrow> mstate \<Rightarrow> mstate" where
  "request_session room g s = (if mx_requests s g < room then s\<lparr>mx_requests := (mx_requests s)(g := Suc (mx_requests s g))\<rparr> else s)"

fun do_act :: "nat \<Rightarrow> mact \<Rightarrow> mstate \<Rightarrow> mstate" where
  "do_act room (Uncount u) s =
     s\<lparr>mx_streamCounter := mx_streamCounter s - 1, mx_flows_gone := (if u then Suc (mx_flows_gone s) else mx_flows_gone s)\<rparr>"
| "do_act room (GiveBack x) s = s\<lparr>mx_slots := (mx_slots s)(x := mx_slots s x - 1)\<rparr>"
| "do_act room Release_slot s = s\<lparr>mx_limiter := limiter_release (mx_limiter s)\<rparr>"
| "do_act room (Request g) s = request_session room g s"

text \<open>A session is handed to the pool of its run, or closed when the pool is full.\<close>

definition deliver_session :: "nat \<Rightarrow> nat \<Rightarrow> nat \<Rightarrow> mstate \<Rightarrow> mstate" where
  "deliver_session room g x s =
     (if length (mx_tunnel s g) < room
      then s\<lparr>mx_tunnel := (mx_tunnel s)(g := mx_tunnel s g @ [x]), mx_known := insert x (mx_known s)\<rparr>
      else s\<lparr>mx_known := insert x (mx_known s)\<rparr>)"

text \<open>The next run has channels of its own; both counters begin again.\<close>

definition restart_run :: "nat \<Rightarrow> mstate \<Rightarrow> mstate" where
  "restart_run loops s =
     s\<lparr>mx_run := mx_run s + 1, mx_stopped := False, mx_streamCounter := 0, mx_sessionCounter := 0,
       mx_loops := (mx_loops s)(mx_run s + 1 := loops)\<rparr>"

text \<open>The comparison of an acceptor, in \<open>int32\<close>.\<close>

definition sessions_busy :: "nat \<Rightarrow> u32 \<Rightarrow> u32 \<Rightarrow> bool" where
  "sessions_busy muxCon streams sessions \<longleftrightarrow> sint streams \<ge> sint (sessions * word_of_nat muxCon)"

text \<open>Parameters: \<open>channel_size\<close>, the number of loops a run starts, \<open>mux_con\<close>, and whether the tunnel carries UDP.\<close>

inductive mux_step :: "nat \<Rightarrow> nat \<Rightarrow> nat \<Rightarrow> bool \<Rightarrow> mstate \<Rightarrow> mstate \<Rightarrow> bool" for room loops muxCon acceptUDP where
  m_time: "mx_now s \<le> now \<Longrightarrow> mux_step room loops muxCon acceptUDP s (s\<lparr>mx_now := now\<rparr>)"
| m_accepted: "mx_conns s i = None \<Longrightarrow> room_in (mx_conns s) \<Longrightarrow> g \<le> mx_run s \<Longrightarrow> u \<longrightarrow> acceptUDP \<Longrightarrow>
    limiter_acquire (mx_limiter s) = (l, True) \<Longrightarrow>
    mux_step room loops muxCon acceptUDP s (conn_is i (Some (Offered g (mx_now s) u)) (s\<lparr>mx_limiter := l\<rparr>))"
| m_turned: "mx_conns s i = None \<Longrightarrow> room_in (mx_conns s) \<Longrightarrow> limiter_acquire (mx_limiter s) = (l, False) \<Longrightarrow>
    mux_step room loops muxCon acceptUDP s (conn_is i (Some Turned) (s\<lparr>mx_limiter := l\<rparr>))"
| m_backed: "mx_conns s i = Some Turned \<Longrightarrow>
    mux_step room loops muxCon acceptUDP s (conn_is i None (s\<lparr>mx_limiter := limiter_backs_out (mx_limiter s)\<rparr>))"
| m_queued: "mx_conns s i = Some (Offered g t u) \<Longrightarrow> length (mx_local s g) < room \<Longrightarrow> mx_posts s p = None \<Longrightarrow> room_in (mx_posts s) \<Longrightarrow>
    mux_step room loops muxCon acceptUDP s
      (conn_is i (Some (InQueue g t u)) (post_is p (Some (g, if u then Nudging else Counting)) (local_is g (mx_local s g @ [i]) s)))"
| m_full: "mx_conns s i = Some (Offered g t u) \<Longrightarrow> \<not> length (mx_local s g) < room \<Longrightarrow>
    mux_step room loops muxCon acceptUDP s (conn_is i (Some (Finishing [Release_slot])) s)"
| m_counts: "mx_posts s p = Some (g, Counting) \<Longrightarrow>
    mux_step room loops muxCon acceptUDP s (post_is p (Some (g, Loading)) (s\<lparr>mx_streamCounter := mx_streamCounter s + 1\<rparr>))"
| m_loads: "mx_posts s p = Some (g, Loading) \<Longrightarrow>
    mux_step room loops muxCon acceptUDP s (post_is p (Some (g, Comparing (mx_streamCounter s))) s)"
| m_compares: "mx_posts s p = Some (g, Comparing v) \<Longrightarrow>
    mux_step room loops muxCon acceptUDP s
      (post_is p (if sessions_busy muxCon v (mx_sessionCounter s) then Some (g, Nudging) else None) s)"
| m_nudges: "mx_posts s p = Some (g, Nudging) \<Longrightarrow>
    mux_step room loops muxCon acceptUDP s (post_is p None (request_session room g s))"
| m_asks: "mx_requests s g = Suc n \<Longrightarrow> mux_step room loops muxCon acceptUDP s (s\<lparr>mx_requests := (mx_requests s)(g := n)\<rparr>)"
| m_delivered: "x \<notin> mx_known s \<Longrightarrow> g \<le> mx_run s \<Longrightarrow> mux_step room loops muxCon acceptUDP s (deliver_session room g x s)"
| m_started: "mx_tunnel s g = x # q \<Longrightarrow> 0 < mx_loops s g \<Longrightarrow> room_in (mx_sessions s) \<Longrightarrow>
    mux_step room loops muxCon acceptUDP s
      (loop_is x (Some (g, TopOf)) (s\<lparr>mx_tunnel := (mx_tunnel s)(g := q), mx_sessionCounter := mx_sessionCounter s + 1\<rparr>))"
| m_slot: "mx_sessions s x = Some (g, TopOf) \<Longrightarrow> mx_slots s x < muxCon \<Longrightarrow>
    mux_step room loops muxCon acceptUDP s (loop_is x (Some (g, Selecting)) (s\<lparr>mx_slots := (mx_slots s)(x := Suc (mx_slots s x))\<rparr>))"
| m_over: "mx_sessions s x = Some (g, Selecting) \<Longrightarrow> mx_over s g \<Longrightarrow> mux_step room loops muxCon acceptUDP s (loop_is x None s)"
| m_late: "mx_sessions s x = Some (g, Selecting) \<Longrightarrow> mx_local s g = i # q \<Longrightarrow> mx_conns s i = Some (InQueue g t u) \<Longrightarrow>
    pairing_expired (mx_now s) t \<Longrightarrow>
    mux_step room loops muxCon acceptUDP s
      (conn_is i (Some (GivingUp x g True [Release_slot, Uncount u, GiveBack x])) (loop_is x (Some (g, WithConn)) (local_is g q s)))"
| m_taken: "mx_sessions s x = Some (g, Selecting) \<Longrightarrow> mx_local s g = i # q \<Longrightarrow> mx_conns s i = Some (InQueue g t u) \<Longrightarrow>
    \<not> pairing_expired (mx_now s) t \<Longrightarrow>
    mux_step room loops muxCon acceptUDP s
      (conn_is i (Some (Opening x g t u)) (loop_is x (Some (g, WithConn)) (local_is g q s)))"
| m_relayed: "mx_conns s i = Some (Opening x g t u) \<Longrightarrow>
    mux_step room loops muxCon acceptUDP s (conn_is i (Some (Relayed x u)) (loop_is x (Some (g, TopOf)) s))"
| m_unannounced: "mx_conns s i = Some (Opening x g t u) \<Longrightarrow>
    mux_step room loops muxCon acceptUDP s (conn_is i (Some (Unannounced x g t u)) (do_act room (GiveBack x) s))"
| m_requeued: "mx_conns s i = Some (Unannounced x g t u) \<Longrightarrow> length (mx_local s g) < room \<Longrightarrow>
    mux_step room loops muxCon acceptUDP s
      (conn_is i (Some (InQueue g t u)) (loop_is x (Some (g, TopOf)) (local_is g (mx_local s g @ [i]) s)))"
| m_no_room: "mx_conns s i = Some (Unannounced x g t u) \<Longrightarrow> \<not> length (mx_local s g) < room \<Longrightarrow>
    mux_step room loops muxCon acceptUDP s (conn_is i (Some (GivingUp x g True [Release_slot, Uncount u])) s)"
| m_fails: "mx_conns s i = Some (Opening x g t u) \<Longrightarrow>
    mux_step room loops muxCon acceptUDP s
      (conn_is i (Some (Failing x g t u)) (s\<lparr>mx_sessionCounter := mx_sessionCounter s - 1\<rparr>))"
| m_fail_requeued: "mx_conns s i = Some (Failing x g t u) \<Longrightarrow> length (mx_local s g) < room \<Longrightarrow>
    mux_step room loops muxCon acceptUDP s
      (conn_is i (Some (InQueue g t u)) (loop_is x (Some (g, LastRequest)) (local_is g (mx_local s g @ [i]) s)))"
| m_fail_no_room: "mx_conns s i = Some (Failing x g t u) \<Longrightarrow> \<not> length (mx_local s g) < room \<Longrightarrow>
    mux_step room loops muxCon acceptUDP s (conn_is i (Some (GivingUp x g False [Release_slot, Uncount u, Request g])) s)"
| m_replaced: "mx_sessions s x = Some (g, LastRequest) \<Longrightarrow>
    mux_step room loops muxCon acceptUDP s (loop_is x None (request_session room g s))"
| m_gives_up: "mx_conns s i = Some (GivingUp x g on (a # as)) \<Longrightarrow>
    mux_step room loops muxCon acceptUDP s (conn_is i (Some (GivingUp x g on as)) (do_act room a s))"
| m_given_up: "mx_conns s i = Some (GivingUp x g on []) \<Longrightarrow>
    mux_step room loops muxCon acceptUDP s (conn_is i None (loop_is x (if on then Some (g, TopOf) else None) s))"
| m_ended: "mx_conns s i = Some (Relayed x u) \<Longrightarrow>
    mux_step room loops muxCon acceptUDP s (conn_is i (Some (Finishing [Uncount u, GiveBack x, Release_slot])) s)"
| m_finishes: "mx_conns s i = Some (Finishing (a # as)) \<Longrightarrow>
    mux_step room loops muxCon acceptUDP s (conn_is i (Some (Finishing as)) (do_act room a s))"
| m_finished: "mx_conns s i = Some (Finishing []) \<Longrightarrow> mux_step room loops muxCon acceptUDP s (conn_is i None s)"
| m_loop_returns: "mx_over s g \<Longrightarrow> mx_loops s g = Suc n \<Longrightarrow>
    mux_step room loops muxCon acceptUDP s (s\<lparr>mx_loops := (mx_loops s)(g := n)\<rparr>)"
| m_run_ends: "mux_step room loops muxCon acceptUDP s (s\<lparr>mx_stopped := True\<rparr>)"
| m_run_begins: "mx_stopped s \<Longrightarrow> mux_step room loops muxCon acceptUDP s (restart_run loops s)"

definition mux_start :: "LimitConfig \<Rightarrow> nat \<Rightarrow> mstate" where
  "mux_start c loops =
     \<lparr>mx_limiter = newLimiter c, mx_conns = Map.empty, mx_posts = Map.empty, mx_sessions = Map.empty, mx_slots = (\<lambda>_. 0),
      mx_streamCounter = 0, mx_sessionCounter = 0, mx_run = 0, mx_stopped = False, mx_local = (\<lambda>_. []), mx_tunnel = (\<lambda>_. []),
      mx_requests = (\<lambda>_. 0), mx_loops = (\<lambda>g. if g = 0 then loops else 0), mx_known = {}, mx_now = 0, mx_flows_gone = 0\<rparr>"

section \<open>Lemmas\<close>

lemmas mux_loop_ops = restart_run_def deliver_session_def loop_is_def post_is_def local_is_def
lemmas mux_ops = conn_is_def mux_loop_ops request_session_def

lemma ops_sessions [simp]:
  "mx_sessions (conn_is i c s) = mx_sessions s" "mx_sessions (post_is p a s) = mx_sessions s" "mx_sessions (local_is g q s) = mx_sessions s"
  "mx_limiter (conn_is i c s) = mx_limiter s" "mx_limiter (loop_is x l s) = mx_limiter s"
  by (simp_all add: mux_ops)

text \<open>The session whose loop has a connection in its hands.\<close>

fun hand_of :: "mconn \<Rightarrow> (nat \<times> nat) option" where
  "hand_of (Opening x g t u) = Some (x, g)"
| "hand_of (Unannounced x g t u) = Some (x, g)"
| "hand_of (Failing x g t u) = Some (x, g)"
| "hand_of (GivingUp x g on as) = Some (x, g)"
| "hand_of _ = None"

definition hands_ok :: "mstate \<Rightarrow> bool" where
  "hands_ok s \<longleftrightarrow>
     (\<forall>i c x g. mx_conns s i = Some c \<longrightarrow> hand_of c = Some (x, g) \<longrightarrow> mx_sessions s x = Some (g, WithConn)) \<and>
     (\<forall>i j c d x g h. mx_conns s i = Some c \<longrightarrow> mx_conns s j = Some d \<longrightarrow> hand_of c = Some (x, g) \<longrightarrow> hand_of d = Some (x, h) \<longrightarrow> i = j)"

text \<open>Sessions that are not running yet.\<close>

definition fresh_ok :: "mstate \<Rightarrow> bool" where
  "fresh_ok s \<longleftrightarrow>
     (\<forall>x. x \<notin> mx_known s \<longrightarrow> mx_sessions s x = None) \<and>
     (\<forall>g x. x \<in> set (mx_tunnel s g) \<longrightarrow> x \<in> mx_known s \<and> mx_sessions s x = None) \<and>
     (\<forall>g. distinct (mx_tunnel s g)) \<and>
     (\<forall>g h x. x \<in> set (mx_tunnel s g) \<longrightarrow> x \<in> set (mx_tunnel s h) \<longrightarrow> g = h)"

lemma do_act_kept [simp]:
  "mx_conns (do_act room a s) = mx_conns s" "mx_sessions (do_act room a s) = mx_sessions s" "mx_posts (do_act room a s) = mx_posts s"
  "mx_known (do_act room a s) = mx_known s" "mx_tunnel (do_act room a s) = mx_tunnel s" "mx_local (do_act room a s) = mx_local s"
  "mx_run (do_act room a s) = mx_run s" "mx_stopped (do_act room a s) = mx_stopped s" "mx_loops (do_act room a s) = mx_loops s"
  "mx_sessionCounter (do_act room a s) = mx_sessionCounter s"
  by (cases a; simp add: request_session_def)+

lemma request_session_kept [simp]:
  "mx_conns (request_session room g s) = mx_conns s" "mx_sessions (request_session room g s) = mx_sessions s"
  "mx_posts (request_session room g s) = mx_posts s" "mx_known (request_session room g s) = mx_known s"
  "mx_tunnel (request_session room g s) = mx_tunnel s" "mx_local (request_session room g s) = mx_local s"
  "mx_run (request_session room g s) = mx_run s" "mx_stopped (request_session room g s) = mx_stopped s"
  "mx_streamCounter (request_session room g s) = mx_streamCounter s" "mx_sessionCounter (request_session room g s) = mx_sessionCounter s"
  "mx_flows_gone (request_session room g s) = mx_flows_gone s" "mx_limiter (request_session room g s) = mx_limiter s"
  "mx_slots (request_session room g s) = mx_slots s"
  by (simp_all add: request_session_def)

lemma hand_session:
  "hands_ok s \<Longrightarrow> mx_conns s i = Some c \<Longrightarrow> hand_of c = Some (x, g) \<Longrightarrow> mx_sessions s x = Some (g, WithConn)"
  "hands_ok s \<Longrightarrow> mx_conns s i = Some c \<Longrightarrow> mx_conns s j = Some d \<Longrightarrow> hand_of c = Some (x, g) \<Longrightarrow> hand_of d = Some (x, h) \<Longrightarrow> i = j"
  unfolding hands_ok_def by blast+

lemma handed:
  "mx_conns s i = Some (Opening x g t u) \<Longrightarrow> hands_ok s \<Longrightarrow> mx_sessions s x = Some (g, WithConn)"
  "mx_conns s i = Some (Unannounced x g t u) \<Longrightarrow> hands_ok s \<Longrightarrow> mx_sessions s x = Some (g, WithConn)"
  "mx_conns s i = Some (Failing x g t u) \<Longrightarrow> hands_ok s \<Longrightarrow> mx_sessions s x = Some (g, WithConn)"
  "mx_conns s i = Some (GivingUp x g on as) \<Longrightarrow> hands_ok s \<Longrightarrow> mx_sessions s x = Some (g, WithConn)"
  using hand_session(1) by fastforce+

lemma fresh_kept [simp]:
  "fresh_ok (conn_is i c s) = fresh_ok s" "fresh_ok (post_is p a s) = fresh_ok s" "fresh_ok (local_is g q s) = fresh_ok s"
  "fresh_ok (do_act room b s) = fresh_ok s" "fresh_ok (request_session room g s) = fresh_ok s"
  by (simp_all add: fresh_ok_def conn_is_def post_is_def local_is_def)

lemma fresh_loop: "fresh_ok s \<Longrightarrow> mx_sessions s x = Some r \<Longrightarrow> fresh_ok (loop_is x l s)"
  by (auto simp: fresh_ok_def loop_is_def)

lemma fresh_step: "mux_step room loops muxCon acceptUDP s s' \<Longrightarrow> fresh_ok s \<Longrightarrow> hands_ok s \<Longrightarrow> fresh_ok s'"
proof (induction rule: mux_step.induct)
  case (m_delivered x s g)
  then show ?case by (auto simp: fresh_ok_def deliver_session_def)
next
  case (m_started s g x q)
  then have q: "mx_tunnel s g = x # q" "x \<in> set (mx_tunnel s g)" "\<And>y. y \<in> set q \<Longrightarrow> y \<in> set (mx_tunnel s g)"
    and f: "fresh_ok s" by auto
  have d: "x \<notin> set q" using f q(1) unfolding fresh_ok_def by (metis distinct.simps(2))
  have o: "x \<notin> set (mx_tunnel s h)" if "h \<noteq> g" for h using f q(2) that unfolding fresh_ok_def by blast
  show ?case
    unfolding fresh_ok_def loop_is_def using f q d o by (auto simp: fresh_ok_def split: if_splits; metis distinct.simps(2) list.set_intros)
qed (auto simp: fresh_loop dest!: handed, auto simp: fresh_ok_def loop_is_def restart_run_def split: if_splits)

lemma hands_step: "mux_step room loops muxCon acceptUDP s s' \<Longrightarrow> fresh_ok s \<Longrightarrow> hands_ok s \<Longrightarrow> hands_ok s'"
proof (induction rule: mux_step.induct)
  case (m_started s g x q)
  then have "mx_sessions s x = None" unfolding fresh_ok_def by (metis list.set_intros(1))
  with m_started show ?case by (auto simp: hands_ok_def loop_is_def)
qed (auto simp: hands_ok_def mux_ops split: if_splits)

text \<open>Counting in words.\<close>

lemma how_many_word:
  "finite (dom ts) \<Longrightarrow> (word_of_nat (how_many P (ts(i := c))) :: u32) = word_of_nat (how_many P ts) + word_of_nat (sat P c) - word_of_nat (sat P (ts i))"
  by (metis add_diff_cancel_right' how_many_upd of_nat_add)

text \<open>A connection that is in flight, and is not a UDP flow: it was queued, and has not been taken out of the count.\<close>

fun flight_of :: "mconn \<Rightarrow> bool" where
  "flight_of (InQueue g t u) = (\<not> u)"
| "flight_of (Opening x g t u) = (\<not> u)"
| "flight_of (Unannounced x g t u) = (\<not> u)"
| "flight_of (Failing x g t u) = (\<not> u)"
| "flight_of (Relayed x u) = (\<not> u)"
| "flight_of (Finishing as) = (Uncount False \<in> set as)"
| "flight_of (GivingUp x g on as) = (Uncount False \<in> set as)"
| "flight_of _ = False"

fun tidy_acts :: "mconn \<Rightarrow> bool" where
  "tidy_acts (Finishing as) = (distinct as \<and> \<not> (Uncount True \<in> set as \<and> Uncount False \<in> set as))"
| "tidy_acts (GivingUp x g on as) =
     (distinct as \<and> \<not> (Uncount True \<in> set as \<and> Uncount False \<in> set as) \<and> (on \<or> (\<forall>y. GiveBack y \<notin> set as)))"
| "tidy_acts _ = True"

definition counts_ok :: "mstate \<Rightarrow> bool" where
  "counts_ok s \<longleftrightarrow> finite (dom (mx_conns s)) \<and> finite (dom (mx_posts s)) \<and>
     (\<forall>i c. mx_conns s i = Some c \<longrightarrow> tidy_acts c) \<and>
     (mx_run s = 0 \<longrightarrow>
       mx_streamCounter s + word_of_nat (how_many (\<lambda>(g, a). a = Counting) (mx_posts s)) + word_of_nat (mx_flows_gone s) =
       word_of_nat (how_many flight_of (mx_conns s)))"

lemma counts_step: "mux_step room loops muxCon acceptUDP s s' \<Longrightarrow> counts_ok s \<Longrightarrow> counts_ok s'"
proof (induction rule: mux_step.induct)
  case (m_gives_up s i x g on a as)
  then have "tidy_acts (GivingUp x g on (a # as))" unfolding counts_ok_def by blast
  with m_gives_up show ?case by (cases a) (auto simp: counts_ok_def mux_ops how_many_word algebra_simps)
next
  case (m_finishes s i a as)
  then have "tidy_acts (Finishing (a # as))" unfolding counts_ok_def by blast
  with m_finishes show ?case by (cases a) (auto simp: counts_ok_def mux_ops how_many_word algebra_simps)
qed (auto simp: counts_ok_def mux_ops how_many_word algebra_simps)

lemma few_step:
  "mux_step room loops muxCon acceptUDP s s' \<Longrightarrow> card (dom (mx_conns s)) < 2 ^ 31 \<Longrightarrow> finite (dom (mx_conns s)) \<Longrightarrow>
   card (dom (mx_conns s')) < 2 ^ 31"
  by (induction rule: mux_step.induct)
    (auto simp: mux_ops room_in_def card_insert_if insert_absorb domI intro: le_less_trans[OF card_Diff1_le])

text \<open>The count of sessions.\<close>

fun retired_by :: "mconn \<Rightarrow> bool" where
  "retired_by (Failing x g t u) = True"
| "retired_by (GivingUp x g on as) = (\<not> on)"
| "retired_by _ = False"

definition sessions_ok :: "mstate \<Rightarrow> bool" where
  "sessions_ok s \<longleftrightarrow> finite (dom (mx_sessions s)) \<and>
     (mx_run s = 0 \<and> \<not> mx_stopped s \<longrightarrow>
       mx_sessionCounter s + word_of_nat (how_many retired_by (mx_conns s)) =
       word_of_nat (how_many (\<lambda>(g, l). l \<noteq> LastRequest) (mx_sessions s)))"

lemma sessions_step:
  "mux_step room loops muxCon acceptUDP s s' \<Longrightarrow> sessions_ok s \<Longrightarrow> finite (dom (mx_conns s)) \<Longrightarrow> hands_ok s \<Longrightarrow> fresh_ok s \<Longrightarrow> sessions_ok s'"
proof (induction rule: mux_step.induct)
  case (m_started s g x q)
  then have "mx_sessions s x = None" unfolding fresh_ok_def by (metis list.set_intros(1))
  with m_started show ?case by (auto simp: sessions_ok_def loop_is_def how_many_word)
next
  case (m_over s x g)
  then show ?case by (auto simp: sessions_ok_def mux_ops mx_over_def)
qed (auto simp: sessions_ok_def mux_ops how_many_word algebra_simps dest!: handed)

text \<open>The slots of a session.\<close>

fun uses_slot :: "nat \<Rightarrow> mconn \<Rightarrow> bool" where
  "uses_slot y (Opening x g t u) = (x = y)"
| "uses_slot y (Failing x g t u) = (x = y)"
| "uses_slot y (Relayed x u) = (x = y)"
| "uses_slot y (Finishing as) = (GiveBack y \<in> set as)"
| "uses_slot y (GivingUp x g on as) = (GiveBack y \<in> set as \<or> \<not> on \<and> x = y)"
| "uses_slot y _ = False"

definition own_slot :: "(nat \<times> mloop) option \<Rightarrow> nat" where
  "own_slot l = (case l of Some (g, Selecting) \<Rightarrow> 1 | Some (g, LastRequest) \<Rightarrow> 1 | _ \<Rightarrow> 0)"

definition mux_slots_ok :: "nat \<Rightarrow> mstate \<Rightarrow> bool" where
  "mux_slots_ok m s \<longleftrightarrow>
     (\<forall>y. how_many (uses_slot y) (mx_conns s) + own_slot (mx_sessions s y) \<le> mx_slots s y \<and> mx_slots s y \<le> m \<and>
       (mx_sessions s y \<noteq> None \<longrightarrow> how_many (uses_slot y) (mx_conns s) + own_slot (mx_sessions s y) = mx_slots s y)) \<and>
     (\<forall>y. y \<notin> mx_known s \<or> (\<exists>g. y \<in> set (mx_tunnel s g)) \<longrightarrow> mx_slots s y = 0)"

lemma how_many_pos: "finite (dom ts) \<Longrightarrow> ts i = Some c \<Longrightarrow> P c \<Longrightarrow> 0 < how_many P ts"
  using how_many_split[of ts P i] by simp

lemma slots_move:
  assumes ok: "mux_slots_ok m s" and fin: "finite (dom (mx_conns s))" and f: "fresh_ok s" and c: "mx_conns s' = mx_conns s"
    and le: "\<And>y. mx_slots s y + sat (uses_slot y) c + own_slot (mx_sessions s' y) \<le>
      mx_slots s' y + sat (uses_slot y) (mx_conns s i) + own_slot (mx_sessions s y)"
    and eq: "\<And>y. mx_sessions s' y \<noteq> None \<Longrightarrow> mx_sessions s y \<noteq> None \<and>
      mx_slots s y + sat (uses_slot y) c + own_slot (mx_sessions s' y) =
      mx_slots s' y + sat (uses_slot y) (mx_conns s i) + own_slot (mx_sessions s y)"
    and m: "\<And>y. mx_slots s' y \<le> mx_slots s y"
    and k: "mx_known s' = mx_known s" "mx_tunnel s' = mx_tunnel s"
  shows "mux_slots_ok m (conn_is i c s')"
proof -
  have "how_many (uses_slot y) ((mx_conns s)(i := c)) + own_slot (mx_sessions s' y) \<le> mx_slots s' y \<and> mx_slots s' y \<le> m \<and>
    (mx_sessions s' y \<noteq> None \<longrightarrow> how_many (uses_slot y) ((mx_conns s)(i := c)) + own_slot (mx_sessions s' y) = mx_slots s' y)" for y
  proof -
    have o: "how_many (uses_slot y) (mx_conns s) + own_slot (mx_sessions s y) \<le> mx_slots s y" "mx_slots s y \<le> m"
      "mx_sessions s y \<noteq> None \<Longrightarrow> how_many (uses_slot y) (mx_conns s) + own_slot (mx_sessions s y) = mx_slots s y"
      using ok by (auto simp: mux_slots_ok_def)
    show ?thesis using how_many_upd[OF fin, of "uses_slot y" i c] o le[of y] eq[of y] m[of y] by (auto; linarith)
  qed
  moreover have "mx_slots s' y = 0" if "y \<notin> mx_known s' \<or> (\<exists>g. y \<in> set (mx_tunnel s' g))" for y
    using that ok m[of y] k by (auto simp: mux_slots_ok_def)
  ultimately show ?thesis by (auto simp: mux_slots_ok_def conn_is_def c k)
qed

lemma slots_at:
  "mux_slots_ok m s \<Longrightarrow> mx_sessions s x \<noteq> None \<Longrightarrow> how_many (uses_slot x) (mx_conns s) + own_slot (mx_sessions s x) = mx_slots s x"
  unfolding mux_slots_ok_def by blast

lemma slots_pos:
  "mux_slots_ok m s \<Longrightarrow> finite (dom (mx_conns s)) \<Longrightarrow> mx_conns s i = Some c \<Longrightarrow> uses_slot x c \<Longrightarrow> 0 < mx_slots s x"
  using how_many_pos[of "mx_conns s" i c "uses_slot x"] by (fastforce simp: mux_slots_ok_def dest: spec[of _ x])

lemma slots_kept [simp]:
  "mux_slots_ok m (s\<lparr>mx_limiter := l\<rparr>) = mux_slots_ok m s" "mux_slots_ok m (s\<lparr>mx_streamCounter := v\<rparr>) = mux_slots_ok m s"
  "mux_slots_ok m (s\<lparr>mx_sessionCounter := v\<rparr>) = mux_slots_ok m s" "mux_slots_ok m (s\<lparr>mx_stopped := b\<rparr>) = mux_slots_ok m s"
  "mux_slots_ok m (s\<lparr>mx_run := n\<rparr>) = mux_slots_ok m s" "mux_slots_ok m (s\<lparr>mx_requests := r\<rparr>) = mux_slots_ok m s"
  "mux_slots_ok m (s\<lparr>mx_loops := r\<rparr>) = mux_slots_ok m s" "mux_slots_ok m (s\<lparr>mx_now := z\<rparr>) = mux_slots_ok m s"
  "mux_slots_ok m (s\<lparr>mx_posts := q\<rparr>) = mux_slots_ok m s" "mux_slots_ok m (request_session room g s) = mux_slots_ok m s"
  by (simp_all add: mux_slots_ok_def)

lemma mux_slots_step:
  assumes "mux_step room loops muxCon acceptUDP s s'" "mux_slots_ok muxCon s" "counts_ok s" "hands_ok s" "fresh_ok s"
  shows "mux_slots_ok muxCon s'"
proof -
  have fin: "finite (dom (mx_conns s))" using assms(3) by (simp add: counts_ok_def)
  note move = slots_move[OF assms(2) fin assms(5)] and pos = slots_pos[OF assms(2) fin]
  have once: "mx_conns s i = Some c \<Longrightarrow> tidy_acts c" for i c using assms(3) by (auto simp: counts_ok_def)
  show ?thesis using assms(1)
  proof (cases rule: mux_step.cases)
    case (m_unannounced i x g t u)
    then show ?thesis using pos[of i _ x] handed(1)[OF _ assms(4)]
      by (auto intro!: move simp: own_slot_def)
  next
    case (m_gives_up i x g on a as)
    then show ?thesis using pos[of i] once[of i] handed(4)[OF _ assms(4)]
      by (cases a) (auto intro!: move simp: own_slot_def request_session_def)
  next
    case (m_finishes i a as)
    then show ?thesis using pos[of i] once[of i]
      by (cases a) (auto intro!: move simp: own_slot_def request_session_def)
  next
    case (m_started g x q)
    then have x: "x \<in> set (mx_tunnel s g)" "\<And>h. y \<in> set (((mx_tunnel s)(g := q)) h) \<Longrightarrow> y \<in> set (mx_tunnel s h)" for y
      by (auto split: if_splits)
    then have z: "mx_slots s x = 0" "mx_sessions s x = None" using assms(2,5) unfolding mux_slots_ok_def fresh_ok_def by blast+
    then have "how_many (uses_slot x) (mx_conns s) = 0" using assms(2) unfolding mux_slots_ok_def by (metis add_is_0 le_zero_eq)
    moreover have "mx_slots s y = 0" if "y \<notin> mx_known s \<or> (\<exists>h. y \<in> set (((mx_tunnel s)(g := q)) h))" for y
      using that x(2) assms(2) unfolding mux_slots_ok_def by blast
    ultimately show ?thesis using m_started(1) z assms(2)
      by (simp add: mux_slots_ok_def loop_is_def own_slot_def del: fun_upd_apply) (simp add: mux_slots_ok_def)
  next
    case (m_slot x g)
    then have e: "how_many (uses_slot x) (mx_conns s) = mx_slots s x"
      using slots_at[OF assms(2), of x] by (simp add: own_slot_def)
    have n: "x \<in> mx_known s \<and> (\<forall>h. x \<notin> set (mx_tunnel s h))"
      using assms(5) m_slot(2) unfolding fresh_ok_def by (metis option.distinct(1))
    show ?thesis using assms(2) m_slot e n by (auto simp: mux_slots_ok_def loop_is_def own_slot_def)
  next
    case (m_over x g)
    then show ?thesis using assms(2) by (fastforce simp: mux_slots_ok_def loop_is_def own_slot_def)
  next
    case (m_replaced x g)
    then show ?thesis using assms(2) by (fastforce simp: mux_slots_ok_def loop_is_def own_slot_def request_session_def)
  next
    case (m_delivered x g)
    then show ?thesis using assms(2) by (auto simp: mux_slots_ok_def deliver_session_def)
  next
    case (m_relayed i x g t u)
    then show ?thesis using handed(1)[OF _ assms(4)] by (auto intro!: move simp: loop_is_def own_slot_def split: if_splits)
  next
    case (m_requeued i x g t u)
    then show ?thesis using handed(2)[OF _ assms(4)] by (auto intro!: move simp: mux_loop_ops own_slot_def split: if_splits)
  next
    case (m_fail_requeued i x g t u)
    then show ?thesis using handed(3)[OF _ assms(4)] by (auto intro!: move simp: mux_loop_ops own_slot_def split: if_splits)
  next
    case (m_given_up i x g on)
    then show ?thesis using handed(4)[OF _ assms(4)] by (auto intro!: move simp: mux_loop_ops own_slot_def split: if_splits)
  qed (use assms(2) in \<open>auto intro!: move simp: mux_loop_ops own_slot_def split: if_splits\<close>)
qed

text \<open>The slots of the limiter: the connections that have not released theirs.\<close>

fun let_go :: "mconn \<Rightarrow> bool" where
  "let_go (Finishing as) = (Release_slot \<notin> set as)"
| "let_go (GivingUp x g on as) = (Release_slot \<notin> set as)"
| "let_go _ = False"

definition mholds :: "mconn \<Rightarrow> bool" where "mholds c \<longleftrightarrow> c \<noteq> Turned"

definition slot_tasks :: "(nat \<rightharpoonup> mconn) \<Rightarrow> (nat \<rightharpoonup> mconn)" where
  "slot_tasks cs = (\<lambda>i. case cs i of Some c \<Rightarrow> if let_go c then None else Some c | None \<Rightarrow> None)"

definition limit_ok :: "mstate \<Rightarrow> bool" where
  "limit_ok s \<longleftrightarrow> table_ok limiter_held mholds (\<lambda>_. False) (\<lambda>_. None :: unit option) (slot_tasks (mx_conns s)) Map.empty (mx_limiter s) 0"

interpretation muxed: task_table acquire_begin acquire_backout Release limiter_held limiter_cap_of mholds "\<lambda>_. False" "\<lambda>_. None :: unit option"
  by unfold_locales simp

lemma slot_tasks_upd:
  "slot_tasks (cs(i := c)) = (slot_tasks cs)(i := (case c of Some c \<Rightarrow> if let_go c then None else Some c | None \<Rightarrow> None))"
  by (auto simp: slot_tasks_def split: option.splits)

lemma slot_tasks_room: "finite (dom cs) \<Longrightarrow> room_in cs \<Longrightarrow> room_in (slot_tasks cs)"
proof -
  assume "finite (dom cs)" "room_in cs"
  moreover have "dom (slot_tasks cs) \<subseteq> dom cs" by (auto simp: slot_tasks_def split: option.splits)
  ultimately show ?thesis unfolding room_in_def by (meson card_mono le_less_trans)
qed

lemma limit_step:
  assumes st: "mux_step room loops muxCon acceptUDP s s'" and inv: "limit_ok s" and c: "counts_ok s"
  shows "limit_ok s' \<and> limiter_cap_of (mx_limiter s') = limiter_cap_of (mx_limiter s)"
proof -
  have ok: "table_ok limiter_held mholds (\<lambda>_. False) (\<lambda>_. None :: unit option) (slot_tasks (mx_conns s)) Map.empty (mx_limiter s) 0"
    using inv by (simp add: limit_ok_def)
  have fin: "finite (dom (mx_conns s))" and tidy: "mx_conns s i = Some d \<Longrightarrow> tidy_acts d" for i d
    using c by (auto simp: counts_ok_def)
  note cap = pool.cap_kept(1)[of "mx_limiter s"] pool.cap_kept(2,3)
  have stay: "limit_ok (conn_is i (Some d') s2) \<and> limiter_cap_of (mx_limiter s2) = limiter_cap_of (mx_limiter s)"
    if "mx_conns s i = Some d" "d \<noteq> Turned" "d' \<noteq> Turned" "let_go d' = let_go d" "mx_conns s2 = mx_conns s" "mx_limiter s2 = mx_limiter s"
    for i d d' s2
  proof -
    have "slot_tasks (mx_conns s) i = (if let_go d then None else Some d)" using that(1) by (simp add: slot_tasks_def)
    then show ?thesis using muxed.table_stage[OF ok, of i d d' 0] ok that
      by (simp add: limit_ok_def conn_is_def slot_tasks_upd mholds_def fun_upd_idem split: if_splits)
  qed
  show ?thesis using st
  proof (cases rule: mux_step.cases)
    case (m_accepted i g u l)
    then show ?thesis using muxed.table_enter[OF ok, of i l True "Offered g (mx_now s) u"] slot_tasks_room[OF fin] cap
      by (simp add: limit_ok_def conn_is_def slot_tasks_upd mholds_def limiter_acquire_def) (simp add: slot_tasks_def)
  next
    case (m_turned i l)
    then show ?thesis using muxed.table_enter[OF ok, of i l False Turned] slot_tasks_room[OF fin] cap
      by (simp add: limit_ok_def conn_is_def slot_tasks_upd mholds_def limiter_acquire_def) (simp add: slot_tasks_def)
  next
    case (m_backed i)
    then show ?thesis using muxed.table_backout[OF ok, of i Turned] cap
      by (simp add: limit_ok_def conn_is_def slot_tasks_upd mholds_def limiter_backs_out_def) (simp add: slot_tasks_def)
  next
    case (m_gives_up i x g on a as)
    note t = tidy[OF m_gives_up(2)]
    show ?thesis
    proof (cases "a = Release_slot")
      case True
      then show ?thesis using muxed.table_leave[OF ok, of i "GivingUp x g on (a # as)"] cap m_gives_up t
        by (simp add: limit_ok_def conn_is_def slot_tasks_upd mholds_def limiter_release_def) (simp add: slot_tasks_def)
    next
      case False
      then show ?thesis using stay[OF m_gives_up(2), of "GivingUp x g on as" "do_act room a s"] m_gives_up
        by (cases a) (auto simp: request_session_def)
    qed
  next
    case (m_finishes i a as)
    note t = tidy[OF m_finishes(2)]
    show ?thesis
    proof (cases "a = Release_slot")
      case True
      then show ?thesis using muxed.table_leave[OF ok, of i "Finishing (a # as)"] cap m_finishes t
        by (simp add: limit_ok_def conn_is_def slot_tasks_upd mholds_def limiter_release_def) (simp add: slot_tasks_def)
    next
      case False
      then show ?thesis using stay[OF m_finishes(2), of "Finishing as" "do_act room a s"] m_finishes
        by (cases a) (auto simp: request_session_def)
    qed
  next
    case (m_given_up i x g on)
    have "slot_tasks (mx_conns s) i = None" using m_given_up by (simp add: slot_tasks_def)
    then show ?thesis using m_given_up ok by (simp add: limit_ok_def conn_is_def loop_is_def slot_tasks_upd fun_upd_idem)
  next
    case (m_finished i)
    have "slot_tasks (mx_conns s) i = None" using m_finished by (simp add: slot_tasks_def)
    then show ?thesis using m_finished ok by (simp add: limit_ok_def conn_is_def slot_tasks_upd fun_upd_idem)
  qed (use inv stay in \<open>auto simp: mux_loop_ops\<close>, auto simp: limit_ok_def)
qed

text \<open>The queue of a run is exactly its waiting connections.\<close>

definition queue_ok :: "mstate \<Rightarrow> bool" where
  "queue_ok s \<longleftrightarrow> (\<forall>g. distinct (mx_local s g) \<and> (\<forall>i. i \<in> set (mx_local s g) \<longleftrightarrow> (\<exists>t u. mx_conns s i = Some (InQueue g t u))))"

lemma queue_step: "mux_step room loops muxCon acceptUDP s s' \<Longrightarrow> queue_ok s \<Longrightarrow> queue_ok s'"
proof (induction rule: mux_step.induct)
  case (m_late s x g i q t u)
  then have "distinct (i # q)" "\<And>j. j \<in> set (i # q) \<longleftrightarrow> (\<exists>t u. mx_conns s j = Some (InQueue g t u))" unfolding queue_ok_def by metis+
  with m_late show ?case by (auto simp: queue_ok_def mux_ops; blast)
next
  case (m_taken s x g i q t u)
  then have "distinct (i # q)" "\<And>j. j \<in> set (i # q) \<longleftrightarrow> (\<exists>t u. mx_conns s j = Some (InQueue g t u))" unfolding queue_ok_def by metis+
  with m_taken show ?case by (auto simp: queue_ok_def mux_ops; blast)
qed (auto simp: queue_ok_def mux_ops)

text \<open>Without UDP no flow is counted out.\<close>

fun udp_of :: "mconn \<Rightarrow> bool" where
  "udp_of (Offered g t u) = u" | "udp_of (InQueue g t u) = u" | "udp_of (Opening x g t u) = u" | "udp_of (Unannounced x g t u) = u"
| "udp_of (Failing x g t u) = u" | "udp_of (Relayed x u) = u" | "udp_of (Finishing as) = (Uncount True \<in> set as)"
| "udp_of (GivingUp x g on as) = (Uncount True \<in> set as)" | "udp_of Turned = False"

definition tcp_only :: "mstate \<Rightarrow> bool" where
  "tcp_only s \<longleftrightarrow> (\<forall>i c. mx_conns s i = Some c \<longrightarrow> \<not> udp_of c) \<and> mx_flows_gone s = 0"

lemma tcp_step: "mux_step room loops muxCon acceptUDP s s' \<Longrightarrow> \<not> acceptUDP \<Longrightarrow> tcp_only s \<Longrightarrow> tcp_only s'"
proof (induction rule: mux_step.induct)
  case (m_gives_up s i x g on a as)
  then have "\<not> udp_of (GivingUp x g on (a # as))" unfolding tcp_only_def by blast
  with m_gives_up show ?case by (cases a) (auto simp: tcp_only_def conn_is_def request_session_def)
next
  case (m_finishes s i a as)
  then have "\<not> udp_of (Finishing (a # as))" unfolding tcp_only_def by blast
  with m_finishes show ?case by (cases a) (auto simp: tcp_only_def conn_is_def request_session_def)
qed (auto simp: tcp_only_def mux_ops, (drule spec, drule spec, drule (1) mp, simp)+)

text \<open>Everything at once.\<close>

definition mux_ok :: "nat \<Rightarrow> mstate \<Rightarrow> bool" where
  "mux_ok m s \<longleftrightarrow> fresh_ok s \<and> hands_ok s \<and> counts_ok s \<and> card (dom (mx_conns s)) < 2 ^ 31 \<and> sessions_ok s \<and> mux_slots_ok m s \<and> queue_ok s"

lemma mux_ok_run: "(mux_step room loops muxCon acceptUDP)\<^sup>*\<^sup>* (mux_start c loops) s \<Longrightarrow> mux_ok muxCon s"
proof (induction rule: rtranclp_induct)
  case base
  show ?case
    by (simp add: mux_ok_def mux_start_def fresh_ok_def hands_ok_def counts_ok_def sessions_ok_def mux_slots_ok_def queue_ok_def own_slot_def)
next
  case (step s s')
  then have ok: "fresh_ok s" "hands_ok s" "counts_ok s" "card (dom (mx_conns s)) < 2 ^ 31" "sessions_ok s" "mux_slots_ok muxCon s" "queue_ok s"
    by (simp_all add: mux_ok_def)
  have fin: "finite (dom (mx_conns s))" using ok(3) by (simp add: counts_ok_def)
  note st = step(2)
  show ?case
    unfolding mux_ok_def
    using fresh_step[OF st ok(1,2)] hands_step[OF st ok(1,2)] counts_step[OF st ok(3)] few_step[OF st ok(4) fin]
      sessions_step[OF st ok(5) fin ok(2,1)] mux_slots_step[OF st ok(6,3,2,1)] queue_step[OF st ok(7)] by blast
qed

lemma limit_run:
  assumes "(mux_step room loops muxCon acceptUDP)\<^sup>*\<^sup>* (mux_start c loops) s" "0 < lc_MaxConnections c" "lc_MaxConnections c < 2 ^ 31"
  shows "limit_ok s \<and> limiter_cap_of (mx_limiter s) = Some (nat (lc_MaxConnections c))"
  using assms(1)
proof (induction rule: rtranclp_induct)
  case base
  show ?case using muxed.table_start[of "limits_New c"] limits_New_cap[OF assms(2,3)]
    by (simp add: limit_ok_def mux_start_def newLimiter_def slot_tasks_def)
next
  case (step s s')
  then show ?case using limit_step[OF step(2)] mux_ok_run[OF step(1)] by (simp add: mux_ok_def)
qed

lemma tcp_run: "(mux_step room loops muxCon False)\<^sup>*\<^sup>* (mux_start c loops) s \<Longrightarrow> tcp_only s"
  by (induction rule: rtranclp_induct) (auto simp: tcp_only_def mux_start_def dest: tcp_step[unfolded tcp_only_def])

lemma how_many_card: "finite (dom ts) \<Longrightarrow> how_many P ts = card {i. \<exists>c. ts i = Some c \<and> P c}"
proof -
  assume fin: "finite (dom ts)"
  have "how_many P ts = (\<Sum>i \<in> dom ts. if \<exists>c. ts i = Some c \<and> P c then 1 else 0)"
    unfolding how_many_def by (rule sum.cong) (auto simp: sat_def)
  also have "\<dots> = card (dom ts \<inter> {i. \<exists>c. ts i = Some c \<and> P c})" using fin by (simp add: sum.If_cases)
  also have "dom ts \<inter> {i. \<exists>c. ts i = Some c \<and> P c} = {i. \<exists>c. ts i = Some c \<and> P c}" by auto
  finally show ?thesis .
qed

lemma how_many_mono: "finite (dom ts) \<Longrightarrow> (\<And>c. P c \<Longrightarrow> Q c) \<Longrightarrow> how_many P ts \<le> how_many Q ts"
  unfolding how_many_def by (rule sum_mono) (auto simp: sat_def split: option.splits)

lemma how_many_le: "finite (dom ts) \<Longrightarrow> how_many P ts \<le> card (dom ts)"
  using how_many_total[of ts P] by simp

section \<open>Properties\<close>


lemma const_upd: "(\<lambda>_. a)(x := a) = (\<lambda>_. a)"
  by auto

text \<open>A first session, and a connection or flow that is relayed over it and ends.\<close>

definition demo_mux :: "bool \<Rightarrow> mstate" where
  "demo_mux u = (mux_start \<lparr>lc_MaxConnections = 2, lc_BandwidthMbps = 0\<rparr> 1)
     \<lparr>mx_known := {0}, mx_sessionCounter := 1, mx_sessions := [0 \<mapsto> (0, TopOf)], mx_slots := (\<lambda>_. 0)(0 := 1),
      mx_limiter := Some \<lparr>li_maxConns = 2, li_active = 1, li_burst = None\<rparr>, mx_conns := [0 \<mapsto> Relayed 0 u],
      mx_posts := [0 \<mapsto> (0, if u then Nudging else Counting)]\<rparr>"

lemma demo_mux_reached:
  "(mux_step 4 1 1 True)\<^sup>*\<^sup>* (mux_start \<lparr>lc_MaxConnections = 2, lc_BandwidthMbps = 0\<rparr> 1) (demo_mux u)"
proof -
  define s0 where "s0 = mux_start \<lparr>lc_MaxConnections = 2, lc_BandwidthMbps = 0\<rparr> 1"
  define s1 where "s1 = s0\<lparr>mx_tunnel := (mx_tunnel s0)(0 := [0]), mx_known := {0}\<rparr>"
  define s2 where "s2 = s0\<lparr>mx_known := {0}, mx_sessionCounter := 1, mx_sessions := [0 \<mapsto> (0, TopOf)]\<rparr>"
  define s3 where "s3 = s2\<lparr>mx_sessions := [0 \<mapsto> (0, Selecting)], mx_slots := (\<lambda>_. 0)(0 := 1)\<rparr>"
  define s4 where "s4 = s3\<lparr>mx_limiter := Some \<lparr>li_maxConns = 2, li_active = 1, li_burst = None\<rparr>, mx_conns := [0 \<mapsto> Offered 0 0 u]\<rparr>"
  define s5 where "s5 = s4\<lparr>mx_conns := [0 \<mapsto> InQueue 0 0 u], mx_posts := [0 \<mapsto> (0, if u then Nudging else Counting)], mx_local := (mx_local s0)(0 := [0])\<rparr>"
  define s6 where "s6 = s4\<lparr>mx_conns := [0 \<mapsto> Opening 0 0 0 u], mx_posts := [0 \<mapsto> (0, if u then Nudging else Counting)], mx_sessions := [0 \<mapsto> (0, WithConn)]\<rparr>"
  note defs = mux_start_def mux_ops newLimiter_def limits_New_def limiter_acquire_def acquire_begin_def acquire_add_def room_in_def
    pairing_expired_def pairingTimeout_def const_upd
  have "mux_step 4 1 1 True s0 s1"
    using m_delivered[of 0 s0 0 4 1 1 True] by (simp add: s0_def s1_def defs)
  moreover have "mux_step 4 1 1 True s1 s2"
    using m_started[of s1 0 0 "[]" 4 1 1 True] by (simp add: s0_def s1_def s2_def defs)
  moreover have "mux_step 4 1 1 True s2 s3"
    using m_slot[of s2 0 0 1 4 1 True] by (simp add: s0_def s2_def s3_def defs)
  moreover have "mux_step 4 1 1 True s3 s4"
    using m_accepted[of s3 0 0 u True "mx_limiter s4" 4 1 1] by (simp add: s0_def s2_def s3_def s4_def defs)
  moreover have "mux_step 4 1 1 True s4 s5"
    using m_queued[of s4 0 0 0 u 4 0 1 1 True] by (simp add: s0_def s2_def s3_def s4_def s5_def defs)
  moreover have "mux_step 4 1 1 True s5 s6"
    using m_taken[of s5 0 0 0 "[]" 0 u 4 1 1 True] by (simp add: s0_def s2_def s3_def s4_def s5_def s6_def defs)
  moreover have "mux_step 4 1 1 True s6 (demo_mux u)"
    using m_relayed[of s6 0 0 0 0 u 4 1 1 True] by (simp add: s0_def s2_def s3_def s4_def s6_def demo_mux_def defs)
  ultimately show ?thesis unfolding s0_def[symmetric] by (meson converse_rtranclp_into_rtranclp rtranclp.rtrancl_refl)
qed


lemma sint_of_diff:
  assumes "int a - int b < 2 ^ 31" "- (2 ^ 31) \<le> int a - int b"
  shows "sint (word_of_nat a - word_of_nat b :: u32) = int a - int b"
proof -
  have "(word_of_nat a - word_of_nat b :: u32) = word_of_int (int a - int b)" by simp
  then show ?thesis using assms by (simp only: sint_sbintrunc') (simp add: signed_take_bit_int_eq_self)
qed

lemma relayed_disjoint:
  assumes "finite (dom ss)" "finite (dom cs)" "\<forall>x \<in> dom ss. card {i. cs i = Some (Relayed x False)} = m"
  shows "card (dom ss) * m \<le> how_many flight_of cs"
proof -
  have f: "finite {i. cs i = Some (Relayed x False)}" for x by (rule finite_subset[OF _ assms(2)]) auto
  have "card (\<Union>x \<in> dom ss. {i. cs i = Some (Relayed x False)}) = (\<Sum>x \<in> dom ss. card {i. cs i = Some (Relayed x False)})"
    by (rule card_UN_disjoint[OF assms(1)]) (use f in auto)
  also have "\<dots> = card (dom ss) * m" using assms(3) by simp
  finally have "card (dom ss) * m = card (\<Union>x \<in> dom ss. {i. cs i = Some (Relayed x False)})" ..
  also have "\<dots> \<le> card {i. \<exists>d. cs i = Some d \<and> flight_of d}"
    by (rule card_mono[OF finite_subset[OF _ assms(2)]]) auto
  finally show ?thesis by (simp add: how_many_card[OF assms(2)])
qed

text \<open>What an acceptor finds when it compares the count of streams with the sessions, in the first run, while nobody is
  between queueing and counting and no session is being retired: exactly whether the TCP connections in flight, less all
  the UDP flows that have ever ended, fill the running sessions. On a tunnel without UDP it therefore asks for a session
  whenever every session is full; every flow that ends makes the count fall one further behind.\<close>
theorem mux_asks_for_sessions:
  assumes "(mux_step room loops muxCon acceptUDP)\<^sup>*\<^sup>* (mux_start c loops) s" "mx_run s = 0" "\<not> mx_stopped s"
    and "\<forall>p g. mx_posts s p \<noteq> Some (g, Counting)" "\<forall>i d. mx_conns s i = Some d \<longrightarrow> \<not> retired_by d"
    and "\<forall>x g. mx_sessions s x \<noteq> Some (g, LastRequest)"
    and "card (dom (mx_sessions s)) * muxCon < 2 ^ 31" "mx_flows_gone s < 2 ^ 31"
  shows "(sessions_busy muxCon (mx_streamCounter s) (mx_sessionCounter s) \<longleftrightarrow>
      int (card (dom (mx_sessions s)) * muxCon) \<le> int (card {i. \<exists>d. mx_conns s i = Some d \<and> flight_of d}) - int (mx_flows_gone s)) \<and>
    (\<not> acceptUDP \<and> (\<forall>x \<in> dom (mx_sessions s). card {i. mx_conns s i = Some (Relayed x False)} = muxCon) \<longrightarrow>
      sessions_busy muxCon (mx_streamCounter s) (mx_sessionCounter s))"
proof -
  let ?f = "how_many flight_of (mx_conns s)" and ?n = "card (dom (mx_sessions s))"
  have ok: "mux_ok muxCon s" by (rule mux_ok_run[OF assms(1)])
  then have fin: "finite (dom (mx_conns s))" "finite (dom (mx_sessions s))" "card (dom (mx_conns s)) < 2 ^ 31"
    by (simp_all add: mux_ok_def counts_ok_def sessions_ok_def)
  have "how_many (\<lambda>(g, a). a = Counting) (mx_posts s) = 0"
    using assms(4) unfolding how_many_def by (intro sum.neutral) (auto simp: sat_def split: option.splits prod.splits)
  then have st: "mx_streamCounter s = word_of_nat ?f - word_of_nat (mx_flows_gone s)"
    using ok assms(2) by (auto simp: mux_ok_def counts_ok_def algebra_simps)
  have "how_many retired_by (mx_conns s) = 0"
    using assms(5) unfolding how_many_def by (intro sum.neutral) (auto simp: sat_def split: option.splits)
  moreover have "how_many (\<lambda>(g, l). l \<noteq> LastRequest) (mx_sessions s) = ?n"
    using assms(6) unfolding how_many_def by (subst sum.cong[OF refl, of _ _ "\<lambda>_. 1"]) (auto simp: sat_def split: option.splits prod.splits)
  ultimately have se: "mx_sessionCounter s = word_of_nat ?n"
    using ok assms(2,3) by (auto simp: mux_ok_def sessions_ok_def)
  have f: "?f < 2 ^ 31" using how_many_le[OF fin(1), of flight_of] fin(3) by linarith
  have s1: "sint (mx_streamCounter s) = int ?f - int (mx_flows_gone s)" unfolding st using f assms(8) by (intro sint_of_diff) simp_all
  have s2: "sint (mx_sessionCounter s * word_of_nat muxCon) = int (?n * muxCon)"
  proof -
    have "int k - int 0 < 2 ^ 31" "- (2 ^ 31) \<le> int k - int 0" if "k < 2 ^ 31" for k using that by auto
    from sint_of_diff[OF this[OF assms(7)]] show ?thesis by (simp add: se)
  qed
  have e: "sessions_busy muxCon (mx_streamCounter s) (mx_sessionCounter s) \<longleftrightarrow> int (?n * muxCon) \<le> int ?f - int (mx_flows_gone s)"
    by (simp add: sessions_busy_def s1 s2)
  moreover have "mx_flows_gone s = 0" if "\<not> acceptUDP"
    using tcp_run[of room loops muxCon c s] assms(1) that by (simp add: tcp_only_def)
  moreover have "sessions_busy muxCon (mx_streamCounter s) (mx_sessionCounter s)"
    if "\<not> acceptUDP" "\<forall>x \<in> dom (mx_sessions s). card {i. mx_conns s i = Some (Relayed x False)} = muxCon"
    unfolding e using relayed_disjoint[OF fin(2,1) that(2)] calculation(2)[OF that(1)] by (simp flip: of_nat_mult)
  ultimately show ?thesis unfolding how_many_card[OF fin(1), symmetric] by blast
qed

theorem mux_asks_for_sessions_witness:
  "\<exists>s. (mux_step 4 1 1 True)\<^sup>*\<^sup>* (mux_start \<lparr>lc_MaxConnections = 2, lc_BandwidthMbps = 0\<rparr> 1) s \<and>
     mx_flows_gone s = 1 \<and> mx_streamCounter s = - 1 \<and> \<not> sessions_busy 1 (mx_streamCounter s) (mx_sessionCounter s)"
proof -
  let ?step = "mux_step 4 1 1 True"
  define s1 where "s1 = (demo_mux True)\<lparr>mx_conns := [0 \<mapsto> Finishing [Uncount True, GiveBack 0, Release_slot]]\<rparr>"
  define s2 where "s2 = s1\<lparr>mx_streamCounter := - 1, mx_flows_gone := 1, mx_conns := [0 \<mapsto> Finishing [GiveBack 0, Release_slot]]\<rparr>"
  have "?step (demo_mux True) s1"
    using m_ended[of "demo_mux True" 0 0 True 4 1 1 True] by (simp add: s1_def demo_mux_def conn_is_def)
  moreover have "?step s1 s2"
    using m_finishes[of s1 0 "Uncount True" "[GiveBack 0, Release_slot]" 4 1 1 True]
    by (simp add: s1_def s2_def demo_mux_def mux_start_def conn_is_def)
  ultimately have r: "?step\<^sup>*\<^sup>* (mux_start \<lparr>lc_MaxConnections = 2, lc_BandwidthMbps = 0\<rparr> 1) s2"
    using demo_mux_reached[of True] by (meson rtranclp.rtrancl_into_rtrancl)
  have n: "{i. \<exists>d. mx_conns s2 i = Some d \<and> flight_of d} = {}" "dom (mx_sessions s2) = {0}"
    by (auto simp: s2_def s1_def demo_mux_def split: if_splits)
  have "sessions_busy 1 (mx_streamCounter s2) (mx_sessionCounter s2) \<longleftrightarrow>
      int (card (dom (mx_sessions s2)) * 1) \<le> int (card {i. \<exists>d. mx_conns s2 i = Some d \<and> flight_of d}) - int (mx_flows_gone s2)"
    by (rule mux_asks_for_sessions[OF r, THEN conjunct1])
      (simp_all only: n, auto simp: s2_def s1_def demo_mux_def mux_start_def split: if_splits)
  then have "\<not> sessions_busy 1 (mx_streamCounter s2) (mx_sessionCounter s2)" unfolding n by simp
  then show ?thesis using r by (intro exI[of _ s2]) (simp add: s2_def)
qed

end
