(* ===== verification/MuxVersion.thy ===== *)
theory MuxVersion
  imports ControlAuth
begin

text \<open>
  Agreeing on a version of the multiplexer: \<open>src/internal/utils/network/mux.go\<close>, and \<open>setMuxVersion\<close> and \<open>smuxCfg\<close> of both
  \<open>src/internal/server/transport/tcpmux.go\<close> and \<open>src/internal/client/transport/tcpmux.go\<close>. The version travels in the answer
  to the claim of the control channel, which \<open>ControlAuth\<close> models.
\<close>

section \<open>Definitions\<close>

definition MuxVersionAuto :: int where "MuxVersionAuto = 0"

definition ResolveMuxVersion :: "int \<Rightarrow> int" where
  "ResolveMuxVersion configured = (if configured = 1 \<or> configured = 2 then configured else 2)"

definition ResolveStaticMuxVersion :: "int \<Rightarrow> int" where
  "ResolveStaticMuxVersion configured = (if configured = 1 \<or> configured = 2 then configured else 1)"

record MuxSettings =
  MaxFrameSize :: int
  MaxReceiveBuffer :: int
  MaxStreamBuffer :: int

record smux_Config =
  smux_Version :: int
  smux_KeepAliveInterval :: duration
  smux_KeepAliveTimeout :: duration
  smux_MaxFrameSize :: int
  smux_MaxReceiveBuffer :: int
  smux_MaxStreamBuffer :: int

definition SmuxConfig :: "int \<Rightarrow> MuxSettings \<Rightarrow> smux_Config" where
  "SmuxConfig version s =
     \<lparr>smux_Version = version, smux_KeepAliveInterval = 20 * second, smux_KeepAliveTimeout = 40 * second,
      smux_MaxFrameSize = MaxFrameSize s, smux_MaxReceiveBuffer = MaxReceiveBuffer s, smux_MaxStreamBuffer = MaxStreamBuffer s\<rparr>"

text \<open>What each end stores, given its configured version and the negotiated one; \<open>0\<close> stands for none.\<close>

definition server_setMuxVersion :: "int \<Rightarrow> int \<Rightarrow> int" where
  "server_setMuxVersion configured negotiated =
     (if negotiated \<noteq> 1 \<and> negotiated \<noteq> 2
      then if configured = MuxVersionAuto then 1 else ResolveMuxVersion configured
      else negotiated)"

definition client_setMuxVersion :: "int \<Rightarrow> int \<Rightarrow> int" where
  "client_setMuxVersion configured negotiated =
     (if negotiated \<noteq> 1 \<and> negotiated \<noteq> 2
      then if configured \<noteq> 1 \<and> configured \<noteq> 2 then 1 else configured
      else negotiated)"

text \<open>The configuration of a session, by the stored version; before one is stored it is \<open>0\<close>.\<close>

definition server_smuxCfg :: "MuxSettings \<Rightarrow> int \<Rightarrow> smux_Config" where
  "server_smuxCfg s version = (if version = 2 then SmuxConfig 2 s else SmuxConfig 1 s)"

definition client_smuxCfg :: "MuxSettings \<Rightarrow> int \<Rightarrow> smux_Config" where
  "client_smuxCfg s version = (if version = 2 then SmuxConfig 2 s else SmuxConfig 1 s)"

section \<open>Lemmas\<close>

lemma mux_versions:
  assumes "length b = poolNonceBytes"
  shows "\<exists>ack nonce n. controlAck SG_ChanV2 token (ResolveMuxVersion sv) (Some b) = Some (ack, nonce, ResolveMuxVersion sv) \<and>
      decodeControlAck ack SG_ChanV2 = (token, nonce, n) \<and>
      smux_Version (server_smuxCfg s (server_setMuxVersion sv (ResolveMuxVersion sv))) =
        smux_Version (client_smuxCfg t (client_setMuxVersion cv (int n)))"
    and "\<exists>ack. controlAck SG_Chan token (ResolveMuxVersion sv) (Some b) = Some (ack, [], 0) \<and>
      decodeControlAck ack SG_Chan = (token, [], 0) \<and>
      (sv \<in> {0, 1, 2} \<and> cv \<in> {0, 1, 2} \<longrightarrow>
        (smux_Version (server_smuxCfg s (server_setMuxVersion sv 0)) = smux_Version (client_smuxCfg t (client_setMuxVersion cv 0)) \<longleftrightarrow>
          (sv = 2 \<longleftrightarrow> cv = 2)))"
proof -
  have v: "0 \<le> ResolveMuxVersion sv" "ResolveMuxVersion sv \<le> 9" by (simp_all add: ResolveMuxVersion_def)
  have "length (EncodeToString b) = 64" using assms by (simp add: length_EncodeToString poolNonceBytes_def)
  then show "\<exists>ack nonce n. controlAck SG_ChanV2 token (ResolveMuxVersion sv) (Some b) = Some (ack, nonce, ResolveMuxVersion sv) \<and>
      decodeControlAck ack SG_ChanV2 = (token, nonce, n) \<and>
      smux_Version (server_smuxCfg s (server_setMuxVersion sv (ResolveMuxVersion sv))) =
        smux_Version (client_smuxCfg t (client_setMuxVersion cv (int n)))"
    using DecodeControlAck_EncodeControlAck[OF _ v, of "EncodeToString b" token]
    by (auto simp: controlAck_def decodeControlAck_def NewPoolNonce_def server_setMuxVersion_def client_setMuxVersion_def
        server_smuxCfg_def client_smuxCfg_def ResolveMuxVersion_def SmuxConfig_def)
  show "\<exists>ack. controlAck SG_Chan token (ResolveMuxVersion sv) (Some b) = Some (ack, [], 0) \<and>
      decodeControlAck ack SG_Chan = (token, [], 0) \<and>
      (sv \<in> {0, 1, 2} \<and> cv \<in> {0, 1, 2} \<longrightarrow>
        (smux_Version (server_smuxCfg s (server_setMuxVersion sv 0)) = smux_Version (client_smuxCfg t (client_setMuxVersion cv 0)) \<longleftrightarrow>
          (sv = 2 \<longleftrightarrow> cv = 2)))"
    by (auto simp: controlAck_def decodeControlAck_def server_setMuxVersion_def client_setMuxVersion_def signal_defs MuxVersionAuto_def
        server_smuxCfg_def client_smuxCfg_def ResolveMuxVersion_def SmuxConfig_def)
qed

section \<open>Properties\<close>

text \<open>The two ends of a multiplexed tunnel never speak different versions after the current handshake, whatever each
  was configured with: the client reads from the answer the version the server imposes, and both build their sessions with
  it. After the handshake of older clients, which carries no version, they agree exactly when both or neither are pinned to
  version 2.\<close>
theorem mux_version_agreed:
  assumes "length b = poolNonceBytes"
  shows "(\<exists>ack nonce n. controlAck SG_ChanV2 token (ResolveMuxVersion sv) (Some b) = Some (ack, nonce, ResolveMuxVersion sv) \<and>
      decodeControlAck ack SG_ChanV2 = (token, nonce, n) \<and>
      smux_Version (server_smuxCfg s (server_setMuxVersion sv (ResolveMuxVersion sv))) =
        smux_Version (client_smuxCfg t (client_setMuxVersion cv (int n)))) \<and>
    (\<exists>ack. controlAck SG_Chan token (ResolveMuxVersion sv) (Some b) = Some (ack, [], 0) \<and>
      decodeControlAck ack SG_Chan = (token, [], 0) \<and>
      (sv \<in> {0, 1, 2} \<and> cv \<in> {0, 1, 2} \<longrightarrow>
        (smux_Version (server_smuxCfg s (server_setMuxVersion sv 0)) = smux_Version (client_smuxCfg t (client_setMuxVersion cv 0)) \<longleftrightarrow>
          (sv = 2 \<longleftrightarrow> cv = 2))))"
  by (rule conjI[OF mux_versions[OF assms]])

theorem mux_version_agreed_witness:
  "\<exists>ack nonce n. controlAck SG_ChanV2 ''t'' (ResolveMuxVersion 0) (Some (replicate 32 7)) = Some (ack, nonce, 2) \<and>
     decodeControlAck ack SG_ChanV2 = (''t'', nonce, n) \<and> client_setMuxVersion 1 (int n) = 2"
proof -
  have "length (replicate 32 (7 :: byte)) = poolNonceBytes" by (simp add: poolNonceBytes_def)
  from mux_version_agreed[OF this, of "''t''" 0 undefined undefined 1] show ?thesis
    by (fastforce simp: ResolveMuxVersion_def server_setMuxVersion_def client_setMuxVersion_def server_smuxCfg_def client_smuxCfg_def
        SmuxConfig_def split: if_splits)
qed

end
