(* ===== verification/Stealth.thy ===== *)
theory Stealth
  imports ByteStream
begin

text \<open>
  The stealth transport, \<open>src/internal/utils/network/noise.go\<close>: the framing, both sides of the handshake, the agreement on
  padding, and the record layer. The Noise library and HKDF are not part of the repository: they are the functions of a record
  \<open>stealth\<close>, with handshake states of type \<open>'h\<close> and cipher states of type \<open>'s\<close> (which count their messages themselves). What
  the code relies on is stated as \<open>cipher_law\<close> and \<open>handshake_law\<close>, about a relation \<open>sync\<close> between the sending state of one
  end and the receiving state of the other.

  A reader is a function of the bytes that will still arrive. Random draws are arguments. Deadlines and the reuse of buffers are
  not modelled; what a write that fails leaves on the wire is not either.
\<close>

section \<open>Definitions: the library\<close>

record ('h, 's) stealth =
  st_psk :: "string \<Rightarrow> bytes option"
  st_init :: "string \<Rightarrow> bytes \<Rightarrow> bool \<Rightarrow> 'h option"
  st_write :: "'h \<Rightarrow> bytes \<Rightarrow> bytes \<Rightarrow> ('h \<times> bytes \<times> ('s \<times> 's) option) option"
  st_read :: "'h \<Rightarrow> bytes \<Rightarrow> ('h \<times> bytes \<times> ('s \<times> 's) option) option"
  st_encrypt :: "'s \<Rightarrow> bytes \<Rightarrow> (bytes \<times> 's) option"
  st_decrypt :: "'s \<Rightarrow> bytes \<Rightarrow> (bytes \<times> 's) option"

definition noiseTag :: nat where "noiseTag = 16"

definition cipher_law :: "('h, 's) stealth \<Rightarrow> ('s \<Rightarrow> 's \<Rightarrow> bool) \<Rightarrow> bool" where
  "cipher_law L sync \<longleftrightarrow>
     (\<forall>s r p c s'. sync s r \<longrightarrow> st_encrypt L s p = Some (c, s') \<longrightarrow>
        length c = length p + noiseTag \<and> (\<exists>r'. st_decrypt L r c = Some (p, r') \<and> sync s' r'))"

text \<open>The two ends of an undisturbed NNpsk0 exchange with one key: each message is 48 bytes longer than its payload, the other
  end reads the payload, and the second message gives both ends the same pair of ciphers.\<close>

definition handshake_law :: "('h, 's) stealth \<Rightarrow> ('s \<Rightarrow> 's \<Rightarrow> bool) \<Rightarrow> bool" where
  "handshake_law L sync \<longleftrightarrow>
     (\<forall>prologue psk hi hr e1 p1 hi1 m1 x.
        st_init L prologue psk True = Some hi \<and> st_init L prologue psk False = Some hr \<and>
        st_write L hi e1 p1 = Some (hi1, m1, x) \<longrightarrow>
        length m1 = length p1 + 48 \<and>
        (\<exists>hr1 y. st_read L hr m1 = Some (hr1, p1, y) \<and>
           (\<forall>e2 p2 hr2 m2 z. st_write L hr1 e2 p2 = Some (hr2, m2, z) \<longrightarrow>
              length m2 = length p2 + 48 \<and>
              (\<exists>c0 c1 d0 d1 hi2. z = Some (c0, c1) \<and> st_read L hi1 m2 = Some (hi2, p2, Some (d0, d1)) \<and>
                 sync d0 c0 \<and> sync c1 d1))))"

section \<open>Definitions: framing\<close>

definition noisePrologue :: string where "noisePrologue = ''backpack-noise-v1''"
definition noiseMaxPayload :: nat where "noiseMaxPayload = 65535 - 16"
definition noiseVersion :: byte where "noiseVersion = 1"
definition noiseVersionPadding :: byte where "noiseVersionPadding = 1"
definition noiseMaxPad :: nat where "noiseMaxPad = 255"
definition noisePaddedMaxPayload :: nat where "noisePaddedMaxPayload = noiseMaxPayload - 1 - noiseMaxPad"
definition noiseLenPrefix :: nat where "noiseLenPrefix = 2"
definition noiseMaxFrame :: nat where "noiseMaxFrame = 65535"

definition noise_frame :: "bytes \<Rightarrow> bytes" where
  "noise_frame msg = put16 (word_of_nat (length msg)) @ msg"

definition writeNoiseFrame :: "bytes \<Rightarrow> bytes option" where
  "writeNoiseFrame msg = (if length msg > noiseMaxFrame then None else Some (noise_frame msg))"

definition readNoiseFrame :: "bytes \<Rightarrow> (bytes \<times> bytes) option" where
  "readNoiseFrame r =
     Option.bind (ReadFull 2 r) (\<lambda>(hdr, r).
     let n = unat (get16 hdr) in if n = 0 then None else ReadFull n r)"

section \<open>Definitions: the handshake\<close>

datatype noise_error = NoKey | NoState | FrameTooLarge | NoFrame | HandshakeRejected | BuildFailed | Incomplete
  | EncryptFailed | WriteFailed | NotAuthentic | BadPadding

record 's noiseConn =
  nz_pad :: bool
  nz_send :: 's
  nz_recv :: 's
  nz_readBuf :: bytes

definition noisePSK :: "('h, 's) stealth \<Rightarrow> string \<Rightarrow> bytes option" where
  "noisePSK L token = st_psk L token"

definition versionFromPayload :: "bytes \<Rightarrow> byte" where
  "versionFromPayload payload = (if payload = [] then 0 else payload ! 0)"

definition agrees_padding :: "byte \<Rightarrow> bool" where
  "agrees_padding peerVersion \<longleftrightarrow> noiseVersion \<ge> noiseVersionPadding \<and> peerVersion \<ge> noiseVersionPadding"

definition noise_state :: "('h, 's) stealth \<Rightarrow> string \<Rightarrow> bool \<Rightarrow> noise_error + 'h" where
  "noise_state L token initiator =
     (case noisePSK L token of
        None \<Rightarrow> Inl NoKey
      | Some psk \<Rightarrow> (case st_init L noisePrologue psk initiator of None \<Rightarrow> Inl NoState | Some hs \<Rightarrow> Inr hs))"

text \<open>The initiator up to its first message, with what it puts into the payload; and from the answer on.\<close>

definition initiator_sends :: "('h, 's) stealth \<Rightarrow> bytes \<Rightarrow> string \<Rightarrow> bytes \<Rightarrow> noise_error + 'h \<times> bytes" where
  "initiator_sends L e token payload =
     (case noise_state L token True of
        Inl err \<Rightarrow> Inl err
      | Inr hs \<Rightarrow>
          (case st_write L hs e payload of
             None \<Rightarrow> Inl BuildFailed
           | Some (hs, msg, _) \<Rightarrow> (case writeNoiseFrame msg of None \<Rightarrow> Inl FrameTooLarge | Some b \<Rightarrow> Inr (hs, b))))"

definition initiator_finishes :: "('h, 's) stealth \<Rightarrow> 'h \<Rightarrow> bytes \<Rightarrow> noise_error + 's noiseConn \<times> bytes" where
  "initiator_finishes L hs r =
     (case readNoiseFrame r of
        None \<Rightarrow> Inl NoFrame
      | Some (m, r) \<Rightarrow>
          (case st_read L hs m of
             None \<Rightarrow> Inl HandshakeRejected
           | Some (_, _, None) \<Rightarrow> Inl Incomplete
           | Some (_, payload, Some (cs0, cs1)) \<Rightarrow>
               Inr (\<lparr>nz_pad = agrees_padding (versionFromPayload payload), nz_send = cs0, nz_recv = cs1, nz_readBuf = []\<rparr>, r)))"

text \<open>The responder: what it writes, and the connection.\<close>

definition responder :: "('h, 's) stealth \<Rightarrow> bytes \<Rightarrow> string \<Rightarrow> bytes \<Rightarrow> bytes \<times> (noise_error + 's noiseConn \<times> bytes)" where
  "responder L e token r =
     (case noise_state L token False of
        Inl err \<Rightarrow> ([], Inl err)
      | Inr hs \<Rightarrow>
          (case readNoiseFrame r of
             None \<Rightarrow> ([], Inl NoFrame)
           | Some (m, r) \<Rightarrow>
               (case st_read L hs m of
                  None \<Rightarrow> ([], Inl HandshakeRejected)
                | Some (hs, payload, _) \<Rightarrow>
                    let peerVersion = versionFromPayload payload;
                        reply = (if peerVersion > 0 then [noiseVersion] else [])
                    in (case st_write L hs e reply of
                          None \<Rightarrow> ([], Inl BuildFailed)
                        | Some (_, msg, cs) \<Rightarrow>
                            (case writeNoiseFrame msg of
                               None \<Rightarrow> ([], Inl FrameTooLarge)
                             | Some b \<Rightarrow>
                                 (b, case cs of
                                       None \<Rightarrow> Inl Incomplete
                                     | Some (cs0, cs1) \<Rightarrow>
                                         Inr (\<lparr>nz_pad = agrees_padding peerVersion, nz_send = cs1, nz_recv = cs0,
                                               nz_readBuf = []\<rparr>, r)))))))"

section \<open>Definitions: the record layer\<close>

definition noise_plaintext :: "bool \<Rightarrow> byte \<Rightarrow> bytes \<Rightarrow> bytes" where
  "noise_plaintext pad padLen chunk = (if \<not> pad then chunk else padLen # chunk @ replicate (unat padLen) 0)"

definition noise_unpad :: "bool \<Rightarrow> bytes \<Rightarrow> bytes option" where
  "noise_unpad pad plain =
     (if \<not> pad then Some plain
      else if length plain < 1 then None
      else let padLen = unat (plain ! 0) in
           if 1 + padLen > length plain then None else Some (take (length plain - padLen - 1) (drop 1 plain)))"

definition write_limit :: "bool \<Rightarrow> nat" where
  "write_limit pad = (if pad then noisePaddedMaxPayload else noiseMaxPayload)"

text \<open>\<open>draw i\<close> is the padding of the \<open>i\<close>-th record, \<open>sent i\<close> whether the connection took it. The result is what was written, the
  count, the cipher state, and the error.\<close>

function write_records :: "('h, 's) stealth \<Rightarrow> bool \<Rightarrow> (nat \<Rightarrow> byte) \<Rightarrow> (nat \<Rightarrow> bool) \<Rightarrow> nat \<Rightarrow> 's \<Rightarrow> nat \<Rightarrow> bytes \<Rightarrow>
    bytes \<times> nat \<times> 's \<times> noise_error option" where
  "write_records L pad draw sent i s done_so_far p =
     (if p = [] then ([], done_so_far, s, None)
      else let chunk = take (write_limit pad) p in
           case st_encrypt L s (noise_plaintext pad (draw i) chunk) of
             None \<Rightarrow> ([], done_so_far, s, Some EncryptFailed)
           | Some (c, s') \<Rightarrow>
               if length c > noiseMaxFrame then ([], done_so_far, s', Some FrameTooLarge)
               else if \<not> sent i then ([], done_so_far, s', Some WriteFailed)
               else (case write_records L pad draw sent (Suc i) s' (done_so_far + length chunk) (drop (write_limit pad) p) of
                       (w, result) \<Rightarrow> (noise_frame c @ w, result)))"
  by pat_completeness auto
termination
  by (relation "measure (\<lambda>(L, pad, draw, sent, i, s, done_so_far, p). length p)")
    (auto simp: write_limit_def noisePaddedMaxPayload_def noiseMaxPayload_def noiseMaxPad_def)

declare write_records.simps [simp del]

definition noise_Write :: "('h, 's) stealth \<Rightarrow> (nat \<Rightarrow> byte) \<Rightarrow> (nat \<Rightarrow> bool) \<Rightarrow> bytes \<Rightarrow> 's noiseConn \<Rightarrow>
    bytes \<times> nat \<times> noise_error option \<times> 's noiseConn" where
  "noise_Write L draw sent p c =
     (case write_records L (nz_pad c) draw sent 0 (nz_send c) 0 p of (w, n, s, err) \<Rightarrow> (w, n, err, c\<lparr>nz_send := s\<rparr>))"

text \<open>\<open>Read\<close> fetches records until one has a payload. An error ends the stream.\<close>

function fill :: "('h, 's) stealth \<Rightarrow> 's noiseConn \<Rightarrow> bytes \<Rightarrow> noise_error + 's noiseConn \<times> bytes" where
  "fill L c r =
     (if nz_readBuf c \<noteq> [] then Inr (c, r)
      else (case readNoiseFrame r of
              None \<Rightarrow> Inl NoFrame
            | Some (frame, r') \<Rightarrow>
                (case st_decrypt L (nz_recv c) frame of
                   None \<Rightarrow> Inl NotAuthentic
                 | Some (plain, k) \<Rightarrow>
                     (case noise_unpad (nz_pad c) plain of
                        None \<Rightarrow> Inl BadPadding
                      | Some b \<Rightarrow> if length r' < length r then fill L (c\<lparr>nz_recv := k, nz_readBuf := b\<rparr>) r' else Inl NoFrame))))"
  by pat_completeness auto
termination by (relation "measure (\<lambda>(L, c, r). length r)") auto

declare fill.simps [simp del]

definition noise_Read :: "('h, 's) stealth \<Rightarrow> nat \<Rightarrow> 's noiseConn \<Rightarrow> bytes \<Rightarrow> noise_error + bytes \<times> 's noiseConn \<times> bytes" where
  "noise_Read L n c r =
     (case fill L c r of
        Inl err \<Rightarrow> Inl err
      | Inr (c, r) \<Rightarrow> Inr (take n (nz_readBuf c), c\<lparr>nz_readBuf := drop n (nz_readBuf c)\<rparr>, r))"

text \<open>Whole conversations: writes one after another, with their draws; reads of given sizes, up to the first that fails.\<close>

fun noise_writes :: "('h, 's) stealth \<Rightarrow> (bytes \<times> (nat \<Rightarrow> byte)) list \<Rightarrow> 's noiseConn \<Rightarrow> (bytes \<times> 's noiseConn) option" where
  "noise_writes L [] c = Some ([], c)"
| "noise_writes L ((p, draw) # ps) c =
     (case noise_Write L draw (\<lambda>_. True) p c of
        (w, n, None, c) \<Rightarrow> map_option (\<lambda>(v, c). (w @ v, c)) (noise_writes L ps c)
      | (w, n, Some err, c) \<Rightarrow> None)"

fun noise_reads :: "('h, 's) stealth \<Rightarrow> nat list \<Rightarrow> 's noiseConn \<Rightarrow> bytes \<Rightarrow> bytes list" where
  "noise_reads L [] c r = []"
| "noise_reads L (n # ns) c r =
     (case noise_Read L n c r of Inl err \<Rightarrow> [] | Inr (b, c, r) \<Rightarrow> b # noise_reads L ns c r)"

section \<open>Lemmas\<close>

lemmas noise_sizes = noiseMaxFrame_def noiseMaxPayload_def noisePaddedMaxPayload_def noiseMaxPad_def noiseTag_def write_limit_def

text \<open>Frames of one byte or more survive a stream.\<close>

lemma frame_header: "length m < 2 ^ 16 \<Longrightarrow> ReadFull 2 (noise_frame m @ r) = Some (put16 (word_of_nat (length m)), m @ r)"
  by (simp add: noise_frame_def ReadFull_append)

interpretation noise_frames: stream_codec noise_frame readNoiseFrame "\<lambda>m. m \<noteq> [] \<and> length m < 2 ^ 16"
proof
  fix m :: bytes and rest b :: bytes
  assume m: "m \<noteq> [] \<and> length m < 2 ^ 16"
  note l = unat_length16[of m]
  show "readNoiseFrame (noise_frame m @ rest) = Some (m, rest)"
    using m l by (simp add: readNoiseFrame_def frame_header Let_def ReadFull_append)
  show "readNoiseFrame b = None" if "strict_prefix b (noise_frame m)"
    using short_message[OF that[unfolded noise_frame_def]]
  proof
    assume "length b < length (put16 (word_of_nat (length m)))"
    then show ?thesis by (simp add: readNoiseFrame_def ReadFull_None)
  next
    assume "\<exists>m'. b = put16 (word_of_nat (length m)) @ m' \<and> length m' < length m"
    then show ?thesis using m l by (auto simp: readNoiseFrame_def ReadFull_append ReadFull_None Let_def)
  qed
  show "noise_frame m \<noteq> []" by (simp add: noise_frame_def flip: length_0_conv)
qed (simp add: readNoiseFrame_def ReadFull_None)

lemma unpad_plaintext: "noise_unpad pad (noise_plaintext pad d chunk) = Some chunk"
  by (simp add: noise_unpad_def noise_plaintext_def Let_def)

lemma length_plaintext: "length (noise_plaintext pad d chunk) = (if pad then 1 + length chunk + unat d else length chunk)"
  by (simp add: noise_plaintext_def)

text \<open>What a receiver in a given state will get out of a stream.\<close>

inductive carried :: "('h, 's) stealth \<Rightarrow> bool \<Rightarrow> 's \<Rightarrow> bytes \<Rightarrow> bytes \<Rightarrow> bool" for L pad where
  nothing: "carried L pad k [] []"
| one_more: "st_decrypt L k c = Some (plain, k') \<Longrightarrow> noise_unpad pad plain = Some chunk \<Longrightarrow> c \<noteq> [] \<Longrightarrow> length c < 2 ^ 16 \<Longrightarrow>
    carried L pad k' r data \<Longrightarrow> carried L pad k (noise_frame c @ r) (chunk @ data)"

text \<open>Every record fits its frame.\<close>

lemma record_fits:
  assumes law: "cipher_law L sync" and s: "sync s k" and e: "st_encrypt L s (noise_plaintext pad d (take (write_limit pad) p)) = Some (c, s')"
    and p: "p \<noteq> []"
  shows "length c \<le> noiseMaxFrame" "c \<noteq> []"
    "\<exists>k'. sync s' k' \<and> st_decrypt L k c = Some (noise_plaintext pad d (take (write_limit pad) p), k')"
proof -
  have l: "length c = length (noise_plaintext pad d (take (write_limit pad) p)) + 16"
    and "\<exists>k'. st_decrypt L k c = Some (noise_plaintext pad d (take (write_limit pad) p), k') \<and> sync s' k'"
    using law s e by (auto simp: cipher_law_def noiseTag_def)
  then show "\<exists>k'. sync s' k' \<and> st_decrypt L k c = Some (noise_plaintext pad d (take (write_limit pad) p), k')" by blast
  have "unat d \<le> 255" using unsigned_less[of d, where 'a = nat] by simp
  then show "length c \<le> noiseMaxFrame" using l by (auto simp: length_plaintext noise_sizes)
  show "c \<noteq> []" using l by auto
qed

lemma write_carried:
  assumes "cipher_law L sync" "sync s k" "write_records L pad draw (\<lambda>_. True) i s n p = (w, m, s', None)"
  shows "m = n + length p \<and> (\<exists>k'. sync s' k' \<and> (\<forall>r data. carried L pad k' r data \<longrightarrow> carried L pad k (w @ r) (p @ data)))"
  using assms
proof (induction L pad draw "\<lambda>_ :: nat. True" i s n p arbitrary: k w rule: write_records.induct)
  case (1 L pad draw i s n p)
  show ?case
  proof (cases "p = []")
    case True
    then show ?thesis using 1(3,4) by (auto simp: write_records.simps[of L pad draw "\<lambda>_. True" i s n "[]"])
  next
    case False
    let ?q = "take (write_limit pad) p"
    obtain c t where e: "st_encrypt L s (noise_plaintext pad (draw i) ?q) = Some (c, t)"
      using 1(4) False by (subst (asm) write_records.simps) (auto simp: Let_def split: option.splits)
    obtain k' where f: "length c \<le> noiseMaxFrame" "c \<noteq> []" "sync t k'" "st_decrypt L k c = Some (noise_plaintext pad (draw i) ?q, k')"
      using record_fits[OF 1(2,3) e False] by blast
    obtain v where v: "write_records L pad draw (\<lambda>_. True) (Suc i) t (n + length ?q) (drop (write_limit pad) p) = (v, m, s', None)"
        "w = noise_frame c @ v"
      using 1(4) False e f(1) by (subst (asm) write_records.simps) (auto simp: Let_def split: prod.splits)
    obtain k'' where "m = n + length ?q + length (drop (write_limit pad) p)" "sync s' k''"
        "\<And>r data. carried L pad k'' r data \<Longrightarrow> carried L pad k' (v @ r) (drop (write_limit pad) p @ data)"
      using 1(1)[OF False refl e refl _ _ 1(2) f(3) v(1)] f(1) by auto
    moreover have "carried L pad k (w @ r) (p @ data)" if "carried L pad k' (v @ r) (drop (write_limit pad) p @ data)" for r data
      using one_more[OF f(4) unpad_plaintext f(2) _ that] f(1) v(2)
      by (simp add: noiseMaxFrame_def) (metis append.assoc append_take_drop_id)
    ultimately show ?thesis by (auto intro!: exI[of _ k''])
  qed
qed

lemma writes_carried:
  assumes "cipher_law L sync" "sync (nz_send c) k" "noise_writes L ps c = Some (w, c')"
  shows "\<exists>k'. sync (nz_send c') k' \<and> (\<forall>r data. carried L (nz_pad c) k' r data \<longrightarrow> carried L (nz_pad c) k (w @ r) (concat (map fst ps) @ data))"
  using assms(2,3)
proof (induction ps arbitrary: c k w)
  case (Cons q ps)
  obtain p draw where q: "q = (p, draw)" by fastforce
  obtain v n s where v: "write_records L (nz_pad c) draw (\<lambda>_. True) 0 (nz_send c) 0 p = (v, n, s, None)"
    using Cons.prems(2) by (auto simp: q noise_Write_def split: prod.splits option.splits)
  then obtain x where x: "noise_writes L ps (c\<lparr>nz_send := s\<rparr>) = Some (x, c')" "w = v @ x"
    using Cons.prems(2) by (auto simp: q noise_Write_def)
  from write_carried[OF assms(1) Cons.prems(1) v] obtain k' where k': "sync s k'"
      "\<And>r data. carried L (nz_pad c) k' r data \<Longrightarrow> carried L (nz_pad c) k (v @ r) (p @ data)" by blast
  from Cons.IH[OF _ x(1), of k'] k'(1) obtain k'' where "sync (nz_send c') k''"
      "\<And>r data. carried L (nz_pad c) k'' r data \<Longrightarrow> carried L (nz_pad c) k' (x @ r) (concat (map fst ps) @ data)" by auto
  then show ?case using k'(2) by (auto simp: q x(2) intro!: exI[of _ k''])
next
  case Nil
  then show ?case by (intro exI[of _ k]) simp
qed

text \<open>Filling the buffer takes what is carried, and fails only when nothing is left.\<close>

lemma fill_carried:
  assumes "carried L (nz_pad c) (nz_recv c) r data"
  shows "case fill L c r of
      Inl err \<Rightarrow> nz_readBuf c @ data = []
    | Inr (c', r') \<Rightarrow> nz_pad c' = nz_pad c \<and> nz_readBuf c' \<noteq> [] \<and>
        (\<exists>data'. carried L (nz_pad c) (nz_recv c') r' data' \<and> nz_readBuf c' @ data' = nz_readBuf c @ data)"
  using assms
proof (induction L c r arbitrary: data rule: fill.induct)
  case (1 L c r)
  show ?case
  proof (cases "nz_readBuf c = []")
    case False
    then show ?thesis using 1(2) by (auto simp: fill.simps[of L c r])
  next
    case buf: True
    show ?thesis using 1(2)
    proof (cases rule: carried.cases)
      case nothing
      then show ?thesis using buf by (simp add: fill.simps[of L c "[]"] noise_frames.get_eof)
    next
      case (one_more frame plain k' chunk r' rest)
      have g: "readNoiseFrame r = Some (frame, r')" using noise_frames.get_put[of frame r'] one_more by simp
      have l: "length r' < length r" using one_more(1) by (simp add: noise_frame_def)
      have "fill L c r = fill L (c\<lparr>nz_recv := k', nz_readBuf := chunk\<rparr>) r'"
        using buf g l one_more(3,4) by (subst fill.simps) simp
      moreover have "carried L (nz_pad (c\<lparr>nz_recv := k', nz_readBuf := chunk\<rparr>)) (nz_recv (c\<lparr>nz_recv := k', nz_readBuf := chunk\<rparr>)) r' rest"
        using one_more(7) by simp
      note 1(1)[OF _ g refl one_more(3) refl one_more(4) l this]
      ultimately show ?thesis using buf one_more(2) by (auto split: sum.splits)
    qed
  qed
qed

lemma reads_carried:
  assumes "carried L (nz_pad c) (nz_recv c) r data" "\<forall>n \<in> set ns. 0 < n"
  shows "prefix (concat (noise_reads L ns c r)) (nz_readBuf c @ data) \<and> [] \<notin> set (noise_reads L ns c r) \<and>
    (length (noise_reads L ns c r) < length ns \<longrightarrow> concat (noise_reads L ns c r) = nz_readBuf c @ data)"
  using assms
proof (induction ns arbitrary: c r data)
  case (Cons n ns)
  show ?case
  proof (cases "fill L c r")
    case (Inl err)
    then show ?thesis using fill_carried[OF Cons.prems(1)] by (simp add: noise_Read_def)
  next
    case (Inr x)
    obtain c' r' where x: "x = (c', r')" by fastforce
    from fill_carried[OF Cons.prems(1)] obtain data' where f: "nz_pad c' = nz_pad c" "nz_readBuf c' \<noteq> []"
        "carried L (nz_pad c) (nz_recv c') r' data'" "nz_readBuf c' @ data' = nz_readBuf c @ data" by (auto simp: Inr x)
    let ?c = "c'\<lparr>nz_readBuf := drop n (nz_readBuf c')\<rparr>" and ?b = "take n (nz_readBuf c')"
    have r: "noise_reads L (n # ns) c r = ?b # noise_reads L ns ?c r'" by (simp add: noise_Read_def Inr x)
    have e: "?b @ (nz_readBuf ?c @ data') = nz_readBuf c @ data" using f(4) by (simp flip: append.assoc)
    have IH: "prefix (concat (noise_reads L ns ?c r')) (nz_readBuf ?c @ data') \<and> [] \<notin> set (noise_reads L ns ?c r') \<and>
      (length (noise_reads L ns ?c r') < length ns \<longrightarrow> concat (noise_reads L ns ?c r') = nz_readBuf ?c @ data')"
      by (rule Cons.IH) (use f(1,3) Cons.prems(2) in auto)
    have "?b \<noteq> []" using f(2) Cons.prems(2) by simp
    then show ?thesis unfolding r e[symmetric] using IH by simp
  qed
qed simp

section \<open>Properties\<close>

text \<open>(C35) The stealth record layer is a byte stream: whatever is written, in pieces of any size and with any draws of padding,
  is read at the other end complete and in order by reads of any sizes; each read returns at least a byte, and a read fails
  only when everything has been delivered. Both ends only have to agree on whether they pad.\<close>
theorem stealth_stream:
  assumes "cipher_law L sync" "sync (nz_send a) (nz_recv b)" "nz_pad b = nz_pad a" "nz_readBuf b = []"
    and "noise_writes L ps a = Some (w, a')" "\<forall>n \<in> set ns. 0 < n"
  shows "prefix (concat (noise_reads L ns b w)) (concat (map fst ps)) \<and> [] \<notin> set (noise_reads L ns b w) \<and>
    (length (noise_reads L ns b w) < length ns \<longrightarrow> concat (noise_reads L ns b w) = concat (map fst ps))"
proof -
  from writes_carried[OF assms(1,2,5)] obtain k' where
    "\<And>r data. carried L (nz_pad a) k' r data \<Longrightarrow> carried L (nz_pad a) (nz_recv b) (w @ r) (concat (map fst ps) @ data)" by blast
  from this[OF carried.nothing] have "carried L (nz_pad b) (nz_recv b) w (concat (map fst ps))"
    unfolding assms(3) append_Nil2 .
  from reads_carried[OF this assms(6)] show ?thesis by (simp add: assms(4))
qed

text \<open>A concrete library for the witnesses: cipher states count, and messages carry the count or the key.\<close>

definition demo_stealth :: "(bytes \<times> nat, nat) stealth" where
  "demo_stealth = \<lparr>
     st_psk = (\<lambda>token. Some (bytes_of token)),
     st_init = (\<lambda>prologue psk initiator. Some (psk, 0)),
     st_write = (\<lambda>(psk, n) e p. Some ((psk, Suc n), p @ replicate 48 (of_nat (length psk)), if n = 0 then None else Some (5, 7))),
     st_read = (\<lambda>(psk, n) m. if length m \<ge> 48 \<and> drop (length m - 48) m = replicate 48 (of_nat (length psk))
        then Some ((psk, Suc n), take (length m - 48) m, if n = 0 then None else Some (5, 7)) else None),
     st_encrypt = (\<lambda>n p. Some (p @ replicate 16 (of_nat n), Suc n)),
     st_decrypt = (\<lambda>n c. if length c \<ge> 16 \<and> drop (length c - 16) c = replicate 16 (of_nat n) then Some (take (length c - 16) c, Suc n) else None)\<rparr>"

lemma demo_stealth_laws: "cipher_law demo_stealth (=)" "handshake_law demo_stealth (=)"
  by (auto simp: cipher_law_def handshake_law_def demo_stealth_def noiseTag_def)

theorem stealth_stream_witness:
  "\<exists>w a'. noise_writes demo_stealth [([1, 2, 3], \<lambda>_. 2), ([4], \<lambda>_. 0)] \<lparr>nz_pad = True, nz_send = 5, nz_recv = 7, nz_readBuf = []\<rparr> = Some (w, a') \<and>
     prefix (concat (noise_reads demo_stealth [2, 2, 2, 2] \<lparr>nz_pad = True, nz_send = 7, nz_recv = 5, nz_readBuf = []\<rparr> w)) [1, 2, 3, 4]"
proof -
  let ?a = "\<lparr>nz_pad = True, nz_send = 5, nz_recv = 7, nz_readBuf = []\<rparr>" and ?b = "\<lparr>nz_pad = True, nz_send = 7, nz_recv = 5 :: nat, nz_readBuf = []\<rparr>"
  obtain w a' where w: "noise_writes demo_stealth [([1, 2, 3], \<lambda>_. 2), ([4], \<lambda>_. 0)] ?a = Some (w, a')"
    by (simp add: noise_Write_def write_records.simps demo_stealth_def noise_sizes noise_plaintext_def Let_def)
  from stealth_stream[OF demo_stealth_laws(1) _ _ _ w, of ?b "[2, 2, 2, 2]"] show ?thesis using w by auto
qed

text \<open>A stealth handshake between two ends that hold the same token agrees on everything the stream needs: each end
  reads what the other writes with matching cipher states, and both pad. With an initiator that sends no version, as builds
  before the padding did, the responder answers as it always did and neither pads.\<close>
theorem stealth_handshake_agrees:
  assumes "handshake_law L sync" "payload = [noiseVersion] \<or> payload = []"
    and "initiator_sends L e token payload = Inr (hi, m1)" "responder L e' token (m1 @ x) = (m2, Inr (b, y))"
  shows "\<exists>a z. initiator_finishes L hi (m2 @ u) = Inr (a, z) \<and> y = x \<and> z = u \<and>
    sync (nz_send a) (nz_recv b) \<and> sync (nz_send b) (nz_recv a) \<and> nz_readBuf a = [] \<and> nz_readBuf b = [] \<and>
    nz_pad a = (payload \<noteq> []) \<and> nz_pad b = (payload \<noteq> [])"
proof -
  obtain psk h0 msg v where i: "st_psk L token = Some psk" "st_init L noisePrologue psk True = Some h0"
      "st_write L h0 e payload = Some (hi, msg, v)" "m1 = noise_frame msg"
    using assms(3) by (auto simp: initiator_sends_def noise_state_def noisePSK_def writeNoiseFrame_def split: sum.splits option.splits if_splits)
  obtain r0 where r0: "st_init L noisePrologue psk False = Some r0"
    using assms(4) i(1) by (auto simp: responder_def noise_state_def noisePSK_def split: sum.splits option.splits)
  have l: "length msg = length payload + 48" and
    "\<exists>hr1 y'. st_read L r0 msg = Some (hr1, payload, y') \<and>
       (\<forall>e2 p2 hr2 m2 z. st_write L hr1 e2 p2 = Some (hr2, m2, z) \<longrightarrow> length m2 = length p2 + 48 \<and>
          (\<exists>c0 c1 d0 d1 hi2. z = Some (c0, c1) \<and> st_read L hi m2 = Some (hi2, p2, Some (d0, d1)) \<and> sync d0 c0 \<and> sync c1 d1))"
    using assms(1) i(2,3) r0 unfolding handshake_law_def by blast+
  then obtain hr1 y' where r1: "st_read L r0 msg = Some (hr1, payload, y')" and
    r2: "\<And>e2 p2 hr2 m2 z. st_write L hr1 e2 p2 = Some (hr2, m2, z) \<Longrightarrow> length m2 = length p2 + 48 \<and>
          (\<exists>c0 c1 d0 d1 hi2. z = Some (c0, c1) \<and> st_read L hi m2 = Some (hi2, p2, Some (d0, d1)) \<and> sync d0 c0 \<and> sync c1 d1)" by blast
  have g: "readNoiseFrame (m1 @ x) = Some (msg, x)"
    unfolding i(4) by (rule noise_frames.get_put) (use l assms(2) in auto)
  define reply where "reply = (if versionFromPayload payload > 0 then [noiseVersion] else [])"
  have rp: "reply = payload" using assms(2) by (auto simp: reply_def versionFromPayload_def noiseVersion_def)
  obtain hr2 msg2 z where w: "st_write L hr1 e' reply = Some (hr2, msg2, z)" "m2 = noise_frame msg2"
    using assms(4) i(1) r0 g r1
    by (auto simp: responder_def noise_state_def noisePSK_def Let_def reply_def[symmetric] writeNoiseFrame_def split: option.splits if_splits)
  obtain c0 c1 d0 d1 hi2 where f: "length msg2 = length reply + 48" "z = Some (c0, c1)"
      "st_read L hi msg2 = Some (hi2, reply, Some (d0, d1))" "sync d0 c0" "sync c1 d1"
    using r2[OF w(1)] by blast
  have "length reply \<le> 1" by (simp add: reply_def)
  then have "0 < length msg2" "length msg2 \<le> 49" using f(1) by simp_all
  then have g2: "readNoiseFrame (m2 @ u) = Some (msg2, u)" "writeNoiseFrame msg2 = Some m2"
    unfolding w(2) by (auto intro!: noise_frames.get_put simp: writeNoiseFrame_def noiseMaxFrame_def)
  have b: "b = \<lparr>nz_pad = agrees_padding (versionFromPayload payload), nz_send = c1, nz_recv = c0, nz_readBuf = []\<rparr>" "y = x"
    using assms(4) i(1) r0 g r1 w(1) g2(2) f(2)
    by (simp_all add: responder_def noise_state_def noisePSK_def Let_def reply_def[symmetric])
  have "agrees_padding (versionFromPayload payload) = (payload \<noteq> [])"
    using assms(2) by (auto simp: agrees_padding_def versionFromPayload_def noiseVersion_def noiseVersionPadding_def)
  then show ?thesis using f g2(1) b by (simp add: initiator_finishes_def rp)
qed

theorem stealth_handshake_agrees_witness:
  "\<exists>hi m1 m2 b a. initiator_sends demo_stealth [] ''t'' [noiseVersion] = Inr (hi, m1) \<and>
     responder demo_stealth [] ''t'' m1 = (m2, Inr (b, [])) \<and> initiator_finishes demo_stealth hi m2 = Inr (a, []) \<and> nz_pad a \<and> nz_pad b"
proof -
  obtain hi m1 where i: "initiator_sends demo_stealth [] ''t'' [noiseVersion] = Inr (hi, m1)"
    by (simp add: initiator_sends_def noise_state_def noisePSK_def demo_stealth_def writeNoiseFrame_def noiseMaxFrame_def)
  then have m1: "m1 = noise_frame (noiseVersion # replicate 48 1)"
    by (auto simp: initiator_sends_def noise_state_def noisePSK_def demo_stealth_def writeNoiseFrame_def noiseMaxFrame_def bytes_of_def)
  have "readNoiseFrame m1 = Some (noiseVersion # replicate 48 1, [])"
    using noise_frames.get_put[of "noiseVersion # replicate 48 1" "[]"] by (simp add: m1)
  then obtain m2 b where r: "responder demo_stealth [] ''t'' (m1 @ []) = (m2, Inr (b, []))"
    by (simp add: responder_def noise_state_def noisePSK_def demo_stealth_def writeNoiseFrame_def noiseMaxFrame_def bytes_of_def Let_def
        versionFromPayload_def noiseVersion_def)
  from stealth_handshake_agrees[OF demo_stealth_laws(2) _ i r, of "[]"] i r show ?thesis by auto
qed

end
