(* ===== verification/KcpIdle.thy ===== *)
theory KcpIdle
  imports Prelude
begin

text \<open>
  Idle KCP sessions, \<open>src/internal/utils/network/kcpidle.go\<close>: a session's switch between its own flush interval and the slow one,
  and the one goroutine that looks for quiet sessions. \<open>touch\<close> runs in every goroutine that reads or writes, \<open>sweep\<close> in the
  governor's; each access to an atomic variable, each setting of the session and each locking is a step of its own, so every
  interleaving is covered. The settings are the two calls of \<open>kcpTuner\<close>; KCP itself is a third-party library.
\<close>

section \<open>Definitions: one session\<close>

definition idleAfter :: duration where "idleAfter = 3 * second"
definition idleInterval :: int where "idleInterval = 200"
definition idleSweep :: duration where "idleSweep = second"

text \<open>
  A goroutine in \<open>touch\<close>: the clock was read; the time is stored; the session was seen idle; the mutex is held, and the flag is
  looked at again, was cleared, and the interval is restored. One in \<open>sweep\<close>, with \<open>quietSince\<close>: called; not idle; quiet; the
  mutex is held; not idle; the flag is set; acknowledging at once; slow; there was traffic after all; the flag is cleared again;
  the interval is restored. \<open>Unlocking\<close> holds the mutex and has nothing left to do.
\<close>

datatype idle_pc = Stamped instant | Stored | SawIdle | Rechecking | Clearing | Restoring | Restored
  | SweepCalled instant | SweepNotIdle instant | SweepQuiet instant | SweepLocked instant | SweepMarks instant | SweepAcks instant
  | SweepSlows instant | SweepLooks instant | Unlocking

record idleKCP =
  ik_interval :: int
  ik_ack :: bool
  ik_last :: instant
  ik_idle :: bool
  ik_mu :: "nat option"
  ik_now_interval :: int
  ik_now_ack :: bool
  ik_threads :: "nat \<rightharpoonup> idle_pc"
  ik_since :: instant

definition goes_to :: "nat \<Rightarrow> idle_pc option \<Rightarrow> idleKCP \<Rightarrow> idleKCP" where
  "goes_to t p c = c\<lparr>ik_threads := (ik_threads c)(t := p)\<rparr>"

text \<open>\<open>ik_since\<close> is a trace: the \<open>quietSince\<close> of the sweep that set the flag last.\<close>

inductive idle_step :: "idleKCP \<Rightarrow> idleKCP \<Rightarrow> bool" where
  touch_called: "ik_threads c t = None \<Longrightarrow> idle_step c (goes_to t (Some (Stamped now)) c)"
| touch_stores: "ik_threads c t = Some (Stamped now) \<Longrightarrow> idle_step c (goes_to t (Some Stored) (c\<lparr>ik_last := now\<rparr>))"
| touch_looks: "ik_threads c t = Some Stored \<Longrightarrow> idle_step c (goes_to t (if ik_idle c then Some SawIdle else None) c)"
| touch_locks: "ik_threads c t = Some SawIdle \<Longrightarrow> ik_mu c = None \<Longrightarrow> idle_step c (goes_to t (Some Rechecking) (c\<lparr>ik_mu := Some t\<rparr>))"
| touch_rechecks: "ik_threads c t = Some Rechecking \<Longrightarrow>
    idle_step c (goes_to t (Some (if ik_idle c then Clearing else Unlocking)) c)"
| touch_clears: "ik_threads c t = Some Clearing \<Longrightarrow> idle_step c (goes_to t (Some Restoring) (c\<lparr>ik_idle := False\<rparr>))"
| busy_interval: "ik_threads c t = Some Restoring \<Longrightarrow>
    idle_step c (goes_to t (Some Restored) (c\<lparr>ik_now_interval := ik_interval c\<rparr>))"
| busy_ack: "ik_threads c t = Some Restored \<Longrightarrow> idle_step c (goes_to t (Some Unlocking) (c\<lparr>ik_now_ack := ik_ack c\<rparr>))"
| unlocks: "ik_threads c t = Some Unlocking \<Longrightarrow> idle_step c (goes_to t None (c\<lparr>ik_mu := None\<rparr>))"
| sweep_called: "ik_threads c t = None \<Longrightarrow> idle_step c (goes_to t (Some (SweepCalled (now - after))) c)"
| sweep_looks: "ik_threads c t = Some (SweepCalled q) \<Longrightarrow>
    idle_step c (goes_to t (if ik_idle c then None else Some (SweepNotIdle q)) c)"
| sweep_quiet: "ik_threads c t = Some (SweepNotIdle q) \<Longrightarrow>
    idle_step c (goes_to t (if ik_last c > q then None else Some (SweepQuiet q)) c)"
| sweep_locks: "ik_threads c t = Some (SweepQuiet q) \<Longrightarrow> ik_mu c = None \<Longrightarrow>
    idle_step c (goes_to t (Some (SweepLocked q)) (c\<lparr>ik_mu := Some t\<rparr>))"
| sweep_rechecks: "ik_threads c t = Some (SweepLocked q) \<Longrightarrow>
    idle_step c (goes_to t (Some (if ik_idle c then Unlocking else SweepMarks q)) c)"
| sweep_marks: "ik_threads c t = Some (SweepMarks q) \<Longrightarrow>
    idle_step c (goes_to t (Some (SweepAcks q)) (c\<lparr>ik_idle := True, ik_since := q\<rparr>))"
| sweep_acks: "ik_threads c t = Some (SweepAcks q) \<Longrightarrow> idle_step c (goes_to t (Some (SweepSlows q)) (c\<lparr>ik_now_ack := True\<rparr>))"
| sweep_slows: "ik_threads c t = Some (SweepSlows q) \<Longrightarrow>
    idle_step c (goes_to t (Some (SweepLooks q)) (c\<lparr>ik_now_interval := idleInterval\<rparr>))"
| sweep_decides: "ik_threads c t = Some (SweepLooks q) \<Longrightarrow>
    idle_step c (goes_to t (Some (if ik_last c > q then Clearing else Unlocking)) c)"

text \<open>\<open>IdleAwareKCP\<close> wraps a session that runs on the tunnel's own settings.\<close>

definition IdleAwareKCP :: "int \<Rightarrow> bool \<Rightarrow> instant \<Rightarrow> idleKCP" where
  "IdleAwareKCP interval ackNoDelay now =
     \<lparr>ik_interval = interval, ik_ack = ackNoDelay, ik_last = now, ik_idle = False, ik_mu = None, ik_now_interval = interval,
      ik_now_ack = ackNoDelay, ik_threads = Map.empty, ik_since = now\<rparr>"

section \<open>Definitions: the governor\<close>

text \<open>\<open>ig_goroutines\<close> counts the goroutines in \<open>run\<close>; \<open>ig_swept\<close> is a trace of the sweeps of each tick. Every operation holds the
  mutex for all it does to the state.\<close>

record idleGovernor =
  ig_conns :: "nat set"
  ig_running :: bool
  ig_goroutines :: nat
  ig_swept :: "nat set list"

inductive gov_step :: "idleGovernor \<Rightarrow> idleGovernor \<Rightarrow> bool" where
  gov_add: "gov_step g (g\<lparr>ig_conns := insert c (ig_conns g), ig_running := True,
    ig_goroutines := (if ig_running g then ig_goroutines g else Suc (ig_goroutines g))\<rparr>)"
| gov_remove: "gov_step g (g\<lparr>ig_conns := ig_conns g - {c}\<rparr>)"
| gov_stops: "ig_goroutines g = Suc n \<Longrightarrow> ig_conns g = {} \<Longrightarrow> gov_step g (g\<lparr>ig_running := False, ig_goroutines := n\<rparr>)"
| gov_ticks: "ig_goroutines g = Suc n \<Longrightarrow> ig_conns g \<noteq> {} \<Longrightarrow> gov_step g (g\<lparr>ig_swept := ig_conns g # ig_swept g\<rparr>)"

definition idleGov :: idleGovernor where
  "idleGov = \<lparr>ig_conns = {}, ig_running = False, ig_goroutines = 0, ig_swept = []\<rparr>"

section \<open>Lemmas\<close>

fun holds_mu :: "idle_pc option \<Rightarrow> bool" where
  "holds_mu (Some Rechecking) = True" | "holds_mu (Some Clearing) = True" | "holds_mu (Some Restoring) = True"
| "holds_mu (Some Restored) = True" | "holds_mu (Some (SweepLocked q)) = True" | "holds_mu (Some (SweepMarks q)) = True"
| "holds_mu (Some (SweepAcks q)) = True" | "holds_mu (Some (SweepSlows q)) = True" | "holds_mu (Some (SweepLooks q)) = True"
| "holds_mu (Some Unlocking) = True" | "holds_mu _ = False"

text \<open>What is true of the flag and the settings while the goroutine that holds the mutex is at a given point.\<close>

fun settings_at :: "idle_pc \<Rightarrow> idleKCP \<Rightarrow> bool" where
  "settings_at Clearing c = (ik_idle c \<and> ik_now_interval c = idleInterval \<and> ik_now_ack c)"
| "settings_at Restoring c = (\<not> ik_idle c \<and> ik_now_ack c)"
| "settings_at Restored c = (\<not> ik_idle c \<and> ik_now_interval c = ik_interval c)"
| "settings_at (SweepMarks q) c = (\<not> ik_idle c \<and> ik_now_interval c = ik_interval c \<and> ik_now_ack c = ik_ack c)"
| "settings_at (SweepAcks q) c = (ik_idle c \<and> ik_since c = q \<and> ik_now_interval c = ik_interval c)"
| "settings_at (SweepSlows q) c = (ik_idle c \<and> ik_since c = q \<and> ik_now_ack c)"
| "settings_at (SweepLooks q) c = (ik_idle c \<and> ik_since c = q \<and> ik_now_interval c = idleInterval \<and> ik_now_ack c)"
| "settings_at _ c = ((ik_idle c \<longrightarrow> ik_now_interval c = idleInterval \<and> ik_now_ack c) \<and>
     (\<not> ik_idle c \<longrightarrow> ik_now_interval c = ik_interval c \<and> ik_now_ack c = ik_ack c))"

text \<open>A goroutine that will still look at the flag, or clear it.\<close>

fun will_clear :: "idle_pc option \<Rightarrow> bool" where
  "will_clear (Some Stored) = True" | "will_clear (Some SawIdle) = True" | "will_clear (Some Rechecking) = True"
| "will_clear (Some Clearing) = True" | "will_clear (Some (SweepAcks q)) = True" | "will_clear (Some (SweepSlows q)) = True"
| "will_clear (Some (SweepLooks q)) = True" | "will_clear _ = False"

definition mutex_ok :: "idleKCP \<Rightarrow> bool" where
  "mutex_ok c \<longleftrightarrow> (\<forall>t. holds_mu (ik_threads c t) \<longleftrightarrow> ik_mu c = Some t)"

text \<open>Where the holder of the mutex is.\<close>

definition held_at :: "idleKCP \<Rightarrow> idle_pc" where
  "held_at c = (case ik_mu c of None \<Rightarrow> Unlocking | Some t \<Rightarrow> the (ik_threads c t))"

definition settings_ok :: "idleKCP \<Rightarrow> bool" where
  "settings_ok c \<longleftrightarrow> settings_at (held_at c) c"

definition quiet_ok :: "idleKCP \<Rightarrow> bool" where
  "quiet_ok c \<longleftrightarrow> (ik_idle c \<and> ik_last c > ik_since c \<longrightarrow> (\<exists>t. will_clear (ik_threads c t)))"

lemma mutex_at: "ik_threads c t = x \<Longrightarrow> mutex_ok c \<Longrightarrow> holds_mu x \<longleftrightarrow> ik_mu c = Some t"
  by (auto simp: mutex_ok_def)

lemma settings_at_kept [simp]:
  "settings_at p (c\<lparr>ik_threads := x\<rparr>) = settings_at p c" "settings_at p (c\<lparr>ik_last := z\<rparr>) = settings_at p c"
  "settings_at p (c\<lparr>ik_mu := m\<rparr>) = settings_at p c"
  by (cases p; simp)+

lemma mutex_step: "idle_step c c' \<Longrightarrow> mutex_ok c \<Longrightarrow> mutex_ok c'"
  by (induction rule: idle_step.induct; frule (1) mutex_at; auto simp: mutex_ok_def goes_to_def)

lemma settings_step: "idle_step c c' \<Longrightarrow> mutex_ok c \<Longrightarrow> settings_ok c \<Longrightarrow> settings_ok c'"
  by (induction rule: idle_step.induct; frule (1) mutex_at; simp add: settings_ok_def held_at_def goes_to_def split: option.splits)

text \<open>Where only one goroutine moves, and it was not going to clear the flag or still is.\<close>

lemma quiet_move:
  assumes "quiet_ok c" "will_clear (ik_threads c t) \<longrightarrow> will_clear p \<or> \<not> ik_idle c'" "ik_idle c' \<longrightarrow> ik_idle c \<or> will_clear p"
    "ik_idle c' \<longrightarrow> \<not> will_clear p \<longrightarrow> ik_last c' = ik_last c \<and> ik_since c' = ik_since c" "ik_threads c' = ik_threads c"
  shows "quiet_ok (goes_to t p c')"
  using assms unfolding quiet_ok_def goes_to_def by (auto; metis)

lemma quiet_step: "idle_step c c' \<Longrightarrow> mutex_ok c \<Longrightarrow> settings_ok c \<Longrightarrow> quiet_ok c \<Longrightarrow> quiet_ok c'"
proof (induction rule: idle_step.induct)
  case (sweep_decides c t q)
  then have "ik_since c = q" using mutex_at[of c t] by (simp add: settings_ok_def held_at_def)
  then show ?case using sweep_decides by (auto simp: quiet_ok_def goes_to_def intro: exI[of _ t])
qed (rule quiet_move, assumption, (simp; fail)+)+

lemma idle_run:
  assumes "idle_step\<^sup>*\<^sup>* (IdleAwareKCP interval ack now) c"
  shows "mutex_ok c \<and> settings_ok c \<and> quiet_ok c \<and> ik_interval c = interval \<and> ik_ack c = ack"
  using assms
proof (induction rule: rtranclp_induct)
  case base
  show ?case by (simp add: IdleAwareKCP_def mutex_ok_def settings_ok_def quiet_ok_def held_at_def)
next
  case (step c c')
  have "ik_interval c' = ik_interval c \<and> ik_ack c' = ik_ack c" using step(2) by (induction rule: idle_step.induct) (simp_all add: goes_to_def)
  then show ?case using step mutex_step[OF step(2)] settings_step[OF step(2)] quiet_step[OF step(2)] by simp
qed

definition gov_ok :: "idleGovernor \<Rightarrow> bool" where
  "gov_ok g \<longleftrightarrow> ig_goroutines g = (if ig_running g then 1 else 0) \<and> (ig_conns g \<noteq> {} \<longrightarrow> ig_running g)"

lemma gov_step_ok: "gov_step g g' \<Longrightarrow> gov_ok g \<Longrightarrow> gov_ok g'"
  by (induction rule: gov_step.induct) (auto simp: gov_ok_def split: if_splits)

section \<open>Properties\<close>


text \<open>As long as there is a session there is exactly one goroutine that sweeps, and never more than one.\<close>
theorem one_governor:
  assumes "gov_step\<^sup>*\<^sup>* idleGov g"
  shows "ig_goroutines g \<le> 1 \<and> (ig_conns g \<noteq> {} \<longrightarrow> ig_goroutines g = 1)"
proof -
  have "gov_ok g" using assms by (induction rule: rtranclp_induct) (simp add: gov_ok_def idleGov_def, erule gov_step_ok)
  then show ?thesis by (auto simp: gov_ok_def split: if_splits)
qed

theorem one_governor_witness:
  "\<exists>g. gov_step\<^sup>*\<^sup>* idleGov g \<and> ig_conns g = {3, 4} \<and> ig_goroutines g = 1"
proof -
  let ?g = "\<lparr>ig_conns = {3}, ig_running = True, ig_goroutines = 1, ig_swept = []\<rparr>"
    and ?h = "\<lparr>ig_conns = {4, 3}, ig_running = True, ig_goroutines = 1, ig_swept = []\<rparr>"
  have "gov_step idleGov ?g" "gov_step ?g ?h" using gov_add[of idleGov 3] gov_add[of ?g 4] by (simp_all add: idleGov_def)
  then have r: "gov_step\<^sup>*\<^sup>* idleGov ?h" by simp
  then show ?thesis using one_governor[OF r] by (intro exI[of _ ?h]) auto
qed


end
