(* ===== verification/SniCarrier.thy ===== *)
theory SniCarrier
  imports Fec NetAddr
begin

text \<open>
  The carrier that opens with a TLS greeting. \<open>src/internal/snispoof/hello.go\<close>: a ClientHello of 517 bytes that names a domain,
  and how the other end knows it. \<open>src/internal/tunnel/l3/carrier_sni.go\<close>: the carrier that sends it ahead of the first datagram
  and takes it out again on arrival. The 32-byte draws are parameters; the carrier below is what it was handed and what it
  returns. \<open>hello_server_name\<close> is what an observer who reads TLS (RFC 8446) makes of a message; it is part of the
  specification.
\<close>

section \<open>Definitions: the greeting\<close>

definition helloSize :: nat where "helloSize = 517"
definition maxSNI :: nat where "maxSNI = 219"

definition helloPrefix :: string where "helloPrefix = ''1603010200010001fc0303''"

definition helloMiddle :: string where
  "helloMiddle = ''0024130213031301c02cc030c02bc02fcca9cca8c024c028c023c027009f009e006b006700ff0100018f0000''"

definition helloSuffix :: string where
  "helloSuffix = ''000b000403000102000a00160014001d0017001e0019001801000101010201030104002300000010000e000c02683208687474702f312e310016000000170000000d002a0028040305030603080708080809080a080b080408050806040105010601030303010302040205020602002b00050403040303002d00020101003300260024001d0020''"

text \<open>\<open>hex.DecodeString\<close>.\<close>

fun hex_DecodeString :: "string \<Rightarrow> bytes option" where
  "hex_DecodeString [] = Some []"
| "hex_DecodeString [c] = None"
| "hex_DecodeString (c # d # s) =
     (case (hex_val c, hex_val d) of
        (Some x, Some y) \<Rightarrow> map_option (\<lambda>r. word_of_nat (16 * x + y) # r) (hex_DecodeString s)
      | _ \<Rightarrow> None)"

datatype hello_error = NoDomain | DomainTooLong nat | BadTemplate | NoRandomness | BadSize nat

text \<open>What the three reads of random bytes fill: the client random, the session id and the key share.\<close>

type_synonym hello_draws = "(nat \<Rightarrow> byte) option \<times> (nat \<Rightarrow> byte) option \<times> (nat \<Rightarrow> byte) option"

definition block32 :: "(nat \<Rightarrow> byte) \<Rightarrow> bytes" where "block32 draw = map draw [0..<32]"

definition server_name_ext :: "bytes \<Rightarrow> bytes" where
  "server_name_ext name =
     put16 (word_of_nat (length name + 5)) @ put16 (word_of_nat (length name + 3)) @ [0x00] @ put16 (word_of_nat (length name)) @ name"

definition padding_ext :: "nat \<Rightarrow> bytes" where
  "padding_ext pad = [0x00, 0x15] @ put16 (word_of_nat pad) @ replicate pad 0"

definition BuildHello :: "hello_draws \<Rightarrow> string \<Rightarrow> hello_error + bytes" where
  "BuildHello draws sni =
     (if sni = [] then Inl NoDomain
      else if length sni > maxSNI then Inl (DomainTooLong (length sni))
      else case (hex_DecodeString helloPrefix, hex_DecodeString helloMiddle, hex_DecodeString helloSuffix) of
        (Some pre, Some middle, Some suf) \<Rightarrow>
          (case draws of (Some random, Some sessionID, Some keyShare) \<Rightarrow>
             let name = bytes_of sni;
                 out = pre @ block32 random @ [0x20] @ block32 sessionID @ middle @ server_name_ext name @ suf @ block32 keyShare @
                       padding_ext (maxSNI - length name)
             in if length out \<noteq> helloSize then Inl (BadSize (length out)) else Inr out
           | _ \<Rightarrow> Inl NoRandomness)
      | _ \<Rightarrow> Inl BadTemplate)"

definition SNIOf :: "bytes \<Rightarrow> string option" where
  "SNIOf hello =
     (let lenAt = 125 in
      if length hello < helloSize then None
      else let n = unat (get16 (take 2 (drop lenAt hello))) in
        if lenAt + 2 + n > length hello then None else Some (string_of (take n (drop (lenAt + 2) hello))))"

definition DefaultDomain :: string where "DefaultDomain = ''mci.ir''"

definition DomainOr :: "string \<Rightarrow> string" where
  "DomainOr domain = (if domain = '''' then DefaultDomain else domain)"

definition LooksLikeHello :: "bytes \<Rightarrow> bool" where
  "LooksLikeHello p \<longleftrightarrow> length p = helloSize \<and> p ! 0 = 0x16 \<and> p ! 1 = 0x03 \<and> p ! 2 = 0x01 \<and> p ! 5 = 0x01"

section \<open>Definitions: the carrier\<close>

record sniCarrier =
  sni_hello :: bytes
  sni_once :: bool

text \<open>\<open>once\<close>: the datagrams handed to the carrier below, in order. What becomes of the greeting is not looked at, and the result
  is that of the last one.\<close>

definition sni_WriteTo :: "bytes \<Rightarrow> sniCarrier \<Rightarrow> sniCarrier \<times> bytes list" where
  "sni_WriteTo p c = (if sni_once c then (c, [p]) else (c\<lparr>sni_once := True\<rparr>, [sni_hello c, p]))"

text \<open>\<open>openSNI\<close>: an error of the carrier below, or of the greeting; the carrier below is closed in that case.\<close>

definition openSNI :: "'e + 'c \<Rightarrow> hello_draws \<Rightarrow> string \<Rightarrow> ('e + hello_error) + 'c \<times> sniCarrier" where
  "openSNI below draws domain =
     (case below of Inl e \<Rightarrow> Inl (Inl e)
      | Inr c \<Rightarrow> (case BuildHello draws (DomainOr domain) of Inl e \<Rightarrow> Inl (Inr e)
                | Inr hello \<Rightarrow> Inr (c, \<lparr>sni_hello = hello, sni_once = False\<rparr>)))"

text \<open>\<open>ReadFrom\<close>, over what the carrier below returns from call to call; an error is \<open>Inl\<close>. \<open>None\<close> waits for more.\<close>

fun sni_ReadFrom :: "('e + bytes \<times> 'a) list \<Rightarrow> (('e + bytes \<times> 'a) \<times> ('e + bytes \<times> 'a) list) option" where
  "sni_ReadFrom [] = None"
| "sni_ReadFrom (Inl e # below) = Some (Inl e, below)"
| "sni_ReadFrom (Inr (b, addr) # below) = (if LooksLikeHello b then sni_ReadFrom below else Some (Inr (b, addr), below))"

text \<open>A sequence of writes, and reading until there is nothing more.\<close>

fun sni_writes :: "bytes list \<Rightarrow> sniCarrier \<Rightarrow> bytes list" where
  "sni_writes [] c = []"
| "sni_writes (p # ps) c = (let (c, out) = sni_WriteTo p c in out @ sni_writes ps c)"

lemma sni_read_shorter: "sni_ReadFrom xs = Some (x, ys) \<Longrightarrow> length ys < length xs"
  by (induction xs rule: sni_ReadFrom.induct) (auto split: if_splits)

function sni_reads :: "('e + bytes \<times> 'a) list \<Rightarrow> ('e + bytes \<times> 'a) list" where
  "sni_reads xs = (case sni_ReadFrom xs of None \<Rightarrow> [] | Some (x, ys) \<Rightarrow> x # sni_reads ys)"
  by pat_completeness auto
termination by (relation "measure length") (auto dest: sni_read_shorter)

declare sni_reads.simps [simp del]

section \<open>Specification: the name an observer reads\<close>

definition nat_get :: "bytes \<Rightarrow> nat" where "nat_get b = foldl (\<lambda>n x. 256 * n + unat x) 0 b"

text \<open>A vector with its length in front in \<open>k\<close> bytes, and what follows it.\<close>

definition tls_vector :: "nat \<Rightarrow> bytes \<Rightarrow> (bytes \<times> bytes) option" where
  "tls_vector k b =
     (let n = nat_get (take k b) in
      if length b < k + n then None else Some (take n (drop k b), drop (k + n) b))"

lemma tls_vector_shorter: "tls_vector (Suc k) b = Some (x, r) \<Longrightarrow> length r < length b"
  by (auto simp: tls_vector_def Let_def split: if_splits)

text \<open>The extensions, each with its type; \<open>None\<close> when they do not fill the block exactly.\<close>

function tls_extensions :: "bytes \<Rightarrow> (u16 \<times> bytes) list option" where
  "tls_extensions b =
     (if b = [] then Some []
      else if length b < 2 then None
      else case tls_vector 2 (drop 2 b) of None \<Rightarrow> None
      | Some (x, r) \<Rightarrow> map_option (\<lambda>xs. (get16 b, x) # xs) (tls_extensions r))"
  by pat_completeness auto
termination
  by (relation "measure length") (auto simp: numeral_2_eq_2 dest!: tls_vector_shorter)

declare tls_extensions.simps [simp del]

text \<open>The whole of a record, with a handshake message in it, with a ClientHello in it: version, random, session id, cipher suites,
  compression methods, extensions.\<close>

definition whole :: "(bytes \<times> bytes) option \<Rightarrow> bytes option" where
  "whole r = (case r of Some (x, []) \<Rightarrow> Some x | _ \<Rightarrow> None)"

definition tls_client_hello :: "bytes \<Rightarrow> (u16 \<times> bytes) list option" where
  "tls_client_hello b =
     (if length b < 9 \<or> b ! 0 \<noteq> 22 then None
      else Option.bind (whole (tls_vector 2 (drop 3 b))) (\<lambda>msg.
        if hd msg \<noteq> 1 then None
        else Option.bind (whole (tls_vector 3 (drop 1 msg))) (\<lambda>body.
          if length body < 34 then None
          else Option.bind (tls_vector 1 (drop 34 body)) (\<lambda>(sid, b).
            Option.bind (tls_vector 2 b) (\<lambda>(suites, b).
              Option.bind (tls_vector 1 b) (\<lambda>(comp, b).
                Option.bind (whole (tls_vector 2 b)) tls_extensions))))))"

text \<open>The first host name of the server-name extension.\<close>

definition tls_host :: "bytes \<Rightarrow> bytes option" where
  "tls_host x =
     Option.bind (whole (tls_vector 2 x)) (\<lambda>l. if l = [] \<or> hd l \<noteq> 0 then None else map_option fst (tls_vector 2 (drop 1 l)))"

definition hello_server_name :: "bytes \<Rightarrow> string option" where
  "hello_server_name b =
     Option.bind (tls_client_hello b) (\<lambda>xs. Option.bind (map_of xs 0) (\<lambda>x. map_option string_of (tls_host x)))"

section \<open>Lemmas\<close>

definition hello_prefix :: bytes where "hello_prefix = [22, 3, 1, 2, 0, 1, 0, 1, 252, 3, 3]"

definition hello_suites :: bytes where
  "hello_suites = [19, 2, 19, 3, 19, 1, 192, 44, 192, 48, 192, 43, 192, 47, 204, 169, 204, 168, 192, 36, 192, 40, 192, 35, 192, 39,
     0, 159, 0, 158, 0, 107, 0, 103, 0, 255]"

lemma templates:
  "hex_DecodeString helloPrefix = Some hello_prefix"
  "hex_DecodeString helloMiddle = Some ([0, 36] @ hello_suites @ [1, 0] @ [1, 143] @ [0, 0])"
  by (simp_all add: helloPrefix_def helloMiddle_def hex_val_def hello_prefix_def hello_suites_def)

definition ext_of :: "u16 \<Rightarrow> bytes \<Rightarrow> bytes" where "ext_of t x = put16 t @ put16 (word_of_nat (length x)) @ x"

definition middle_exts :: "(u16 \<times> bytes) list" where
  "middle_exts = [(11, [3, 0, 1, 2]), (10, [0, 20, 0, 29, 0, 23, 0, 30, 0, 25, 0, 24, 1, 0, 1, 1, 1, 2, 1, 3, 1, 4]), (35, []),
     (16, [0, 12, 2, 104, 50, 8, 104, 116, 116, 112, 47, 49, 46, 49]), (22, []), (23, []),
     (13, [0, 40, 4, 3, 5, 3, 6, 3, 8, 7, 8, 8, 8, 9, 8, 10, 8, 11, 8, 4, 8, 5, 8, 6, 4, 1, 5, 1, 6, 1, 3, 3, 3, 1, 3, 2, 4, 2,
       5, 2, 6, 2]), (43, [4, 3, 4, 3, 3]), (45, [1, 1])]"

lemma template_suffix:
  "hex_DecodeString helloSuffix = Some (concat (map (\<lambda>(t, x). ext_of t x) middle_exts) @ put16 51 @ put16 38 @ [0, 36, 0, 29, 0, 32])"
  by (simp add: helloSuffix_def hex_val_def middle_exts_def ext_of_def put16_bytes)

lemma nat_get_put16: "nat_get (put16 w) = unat w"
proof -
  have "unat (ucast (drop_bit 8 w) :: byte) = unat w mod 2 ^ LENGTH(16) div 2 ^ 8 mod 2 ^ LENGTH(8)"
    by (simp only: unsigned_ucast_eq unsigned_drop_bit_eq take_bit_eq_mod) (simp only: drop_bit_eq_div)
  then have "unat (ucast (drop_bit 8 w) :: byte) = unat w div 256"
    using unsigned_less[of w, where 'a = nat] by (simp add: less_mult_imp_div_less)
  moreover have "unat (ucast w :: byte) = unat w mod 256" by (simp add: unsigned_ucast_eq take_bit_eq_mod)
  ultimately show ?thesis by (simp add: nat_get_def put16_bytes)
qed

lemma tls_vector_put:
  assumes "length l = k" "nat_get l = length x"
  shows "tls_vector k (l @ x @ r) = Some (x, r)"
  using assms by (simp add: tls_vector_def)

lemma tls_vector_16: "length x < 65536 \<Longrightarrow> tls_vector 2 (put16 (word_of_nat (length x)) @ x @ r) = Some (x, r)"
  by (rule tls_vector_put) (simp_all add: nat_get_put16 unat_of_nat)

lemma tls_extensions_cons:
  "length x < 65536 \<Longrightarrow> tls_extensions (ext_of t x @ r) = map_option (\<lambda>xs. (t, x) # xs) (tls_extensions r)"
proof -
  assume x: "length x < 65536"
  have ne: "put16 t \<noteq> []" by (simp add: put16_bytes)
  show ?thesis using tls_vector_16[OF x, of r] ne by (subst tls_extensions.simps) (simp add: ext_of_def)
qed

lemma tls_extensions_list:
  "\<forall>(t, x) \<in> set es. length x < 65536 \<Longrightarrow>
   tls_extensions (concat (map (\<lambda>(t, x). ext_of t x) es) @ r) = map_option (\<lambda>xs. es @ xs) (tls_extensions r)"
  by (induction es) (auto simp: tls_extensions_cons option.map_comp comp_def option.map_ident cong: map_option_cong)

lemma length_exts: "length (concat (map (\<lambda>(t, x). ext_of t x) es)) = (\<Sum>(t, x) \<leftarrow> es. 4 + length x)"
  by (induction es) (auto simp: ext_of_def)

text \<open>The message, with a name of \<open>n\<close> bytes.\<close>

definition hello_exts :: "bytes \<Rightarrow> bytes \<Rightarrow> (u16 \<times> bytes) list" where
  "hello_exts name keyShare =
     (0, put16 (word_of_nat (length name + 3)) @ [0] @ put16 (word_of_nat (length name)) @ name) # middle_exts @
     [(51, [0, 36, 0, 29, 0, 32] @ keyShare), (21, replicate (maxSNI - length name) 0)]"

definition hello_body :: "bytes \<Rightarrow> bytes \<Rightarrow> (u16 \<times> bytes) list \<Rightarrow> bytes" where
  "hello_body random sid es =
     [3, 3] @ random @ [0x20] @ sid @ put16 36 @ hello_suites @ [1] @ [0] @ put16 399 @ concat (map (\<lambda>(t, x). ext_of t x) es)"

definition hello_message :: "bytes \<Rightarrow> bytes \<Rightarrow> (u16 \<times> bytes) list \<Rightarrow> bytes" where
  "hello_message random sid es = [22, 3, 1] @ put16 512 @ [1] @ [0, 1, 252] @ hello_body random sid es"

lemma length_block32 [simp]: "length (block32 f) = 32" by (simp add: block32_def)

lemma length_hello_exts:
  assumes "length name \<le> maxSNI" "length keyShare = 32"
  shows "length (concat (map (\<lambda>(t, x). ext_of t x) (hello_exts name keyShare))) = 399"
  using assms by (simp add: hello_exts_def middle_exts_def maxSNI_def ext_of_def)

lemma length_suites: "length hello_suites = 36" by (simp add: hello_suites_def)

lemma built:
  assumes "sni \<noteq> []" "length sni \<le> maxSNI"
  shows "BuildHello (Some r, Some s, Some k) sni = Inr (hello_message (block32 r) (block32 s) (hello_exts (bytes_of sni) (block32 k)))"
proof -
  let ?n = "bytes_of sni"
  let ?out = "hello_message (block32 r) (block32 s) (hello_exts ?n (block32 k))"
  have n: "length ?n \<le> maxSNI" using assms(2) by (simp add: length_bytes_of)
  have p: "put16 512 = [2, 0]" "put16 36 = [0, 36]" "put16 399 = [1, 143]" "put16 0 = [0, 0]" "put16 51 = [0, 51]" "put16 38 = [0, 38]" "put16 21 = [0, 21]"
    by (simp_all add: put16_bytes)
  have pad: "padding_ext m = ext_of 21 (replicate m 0)" for m
    by (simp add: padding_ext_def ext_of_def p)
  have sn: "0 # 0 # server_name_ext ?n @ z = ext_of 0 (put16 (word_of_nat (length ?n + 3)) @ [0] @ put16 (word_of_nat (length ?n)) @ ?n) @ z" for z
    by (simp add: server_name_ext_def ext_of_def p add.commute)
  have ks: "0 # 51 # 0 # 38 # 0 # 36 # 0 # 29 # 0 # 32 # block32 k @ z = ext_of 51 ([0, 36, 0, 29, 0, 32] @ block32 k) @ z" for z
    by (simp add: ext_of_def p)
  have out: "hello_prefix @ block32 r @ [0x20] @ block32 s @ ([0, 36] @ hello_suites @ [1, 0] @ [1, 143] @ [0, 0]) @ server_name_ext ?n @
      (concat (map (\<lambda>(t, x). ext_of t x) middle_exts) @ put16 51 @ put16 38 @ [0, 36, 0, 29, 0, 32]) @ block32 k @
      padding_ext (maxSNI - length ?n) = ?out"
    by (simp add: hello_message_def hello_body_def hello_exts_def hello_prefix_def p pad sn ks)
  have len: "length ?out = helloSize"
    using length_hello_exts[OF n length_block32[of k]] by (simp add: hello_message_def hello_body_def length_suites helloSize_def)
  show ?thesis
    unfolding BuildHello_def templates template_suffix Let_def option.case prod.case out using assms len by simp
qed

lemma exts_read:
  assumes "length name \<le> maxSNI" "length keyShare = 32"
  shows "tls_extensions (concat (map (\<lambda>(t, x). ext_of t x) (hello_exts name keyShare))) = Some (hello_exts name keyShare)"
proof -
  have "\<forall>(t, x) \<in> set (hello_exts name keyShare). length x < 65536"
    using assms by (auto simp: hello_exts_def middle_exts_def maxSNI_def)
  from tls_extensions_list[OF this, of "[]"] show ?thesis by (simp add: tls_extensions.simps)
qed

lemma message_read:
  assumes "length random = 32" "length sid = 32" "length (concat (map (\<lambda>(t, x). ext_of t x) es)) = 399"
  shows "tls_client_hello (hello_message random sid es) = tls_extensions (concat (map (\<lambda>(t, x). ext_of t x) es))"
proof -
  let ?es = "concat (map (\<lambda>(t, x). ext_of t x) es)"
  let ?body = "hello_body random sid es"
  have b: "length ?body = 508" using assms by (simp add: hello_body_def length_suites)
  have n: "nat_get (put16 512) = 512" "nat_get (put16 399) = 399" "nat_get (put16 36) = 36" "nat_get [0, 1, 252] = 508" "nat_get [0x20] = 32" "nat_get [1] = 1"
    by (simp_all add: nat_get_put16) (simp_all add: nat_get_def)
  have v1: "tls_vector 2 (put16 512 @ ([1] @ [0, 1, 252] @ ?body) @ []) = Some ([1] @ [0, 1, 252] @ ?body, [])"
    by (rule tls_vector_put) (simp_all add: n b)
  have v2: "tls_vector 3 ([0, 1, 252] @ ?body @ []) = Some (?body, [])" by (rule tls_vector_put) (simp_all add: n b)
  have v3: "tls_vector 1 ([0x20] @ sid @ r) = Some (sid, r)" for r by (rule tls_vector_put) (simp_all add: n assms)
  have v4: "tls_vector 2 (put16 36 @ hello_suites @ r) = Some (hello_suites, r)" for r by (rule tls_vector_put) (simp_all add: n length_suites)
  have v5: "tls_vector 1 ([1] @ [0] @ r) = Some ([0], r)" for r by (rule tls_vector_put) (simp_all add: n)
  have v6: "tls_vector 2 (put16 399 @ ?es @ []) = Some (?es, [])" by (rule tls_vector_put) (simp_all add: n assms)
  have d: "drop 34 ?body = [0x20] @ sid @ put16 36 @ hello_suites @ [1] @ [0] @ put16 399 @ ?es"
    using assms by (simp add: hello_body_def)
  show ?thesis
    using v1 v2 v3 v4 v5 v6 d b by (simp add: tls_client_hello_def hello_message_def whole_def)
qed

lemma host_read:
  assumes "length name \<le> maxSNI"
  shows "tls_host (put16 (word_of_nat (length name + 3)) @ [0] @ put16 (word_of_nat (length name)) @ name) = Some name"
proof -
  have l: "length ([0] @ put16 (word_of_nat (length name)) @ name) = length name + 3" "length name + 3 < 65536" "length name < 65536"
    using assms by (simp_all add: maxSNI_def)
  then have l2: "length ([0] @ put16 (word_of_nat (length name)) @ name) < 65536" by (simp only:)
  have "tls_vector 2 (put16 (word_of_nat (length name + 3)) @ ([0] @ put16 (word_of_nat (length name)) @ name) @ []) =
      Some ([0] @ put16 (word_of_nat (length name)) @ name, [])"
    using tls_vector_16[OF l2, of "[]"] unfolding l(1) .
  then show ?thesis using tls_vector_16[OF l(3), of "[]"] by (simp add: tls_host_def whole_def del: of_nat_add)
qed

lemma SNIOf_message:
  assumes "length random = 32" "length sid = 32" "length (concat (map (\<lambda>(t, x). ext_of t x) (hello_exts name k))) = 399" "length name \<le> maxSNI"
  shows "SNIOf (hello_message random sid (hello_exts name k)) = Some (string_of name)"
proof -
  let ?h = "hello_message random sid (hello_exts name k)"
  have l: "length ?h = 517" using assms by (simp add: hello_message_def hello_body_def length_suites)
  have d: "drop 125 ?h = put16 (word_of_nat (length name)) @ name @ concat (map (\<lambda>(t, x). ext_of t x) (tl (hello_exts name k)))"
    using assms(1,2) by (simp add: hello_message_def hello_body_def hello_exts_def ext_of_def length_suites del: of_nat_add)
  have d2: "drop 127 ?h = name @ concat (map (\<lambda>(t, x). ext_of t x) (tl (hello_exts name k)))"
    using d drop_drop[of 2 125 ?h] by simp
  have "unat (word_of_nat (length name) :: u16) = length name" using assms(4) by (simp add: maxSNI_def unat_of_nat)
  moreover have "127 + length name \<le> 517" using assms(4) by (simp add: maxSNI_def)
  ultimately show ?thesis by (simp add: SNIOf_def helloSize_def l d d2)
qed

lemma message_shape:
  assumes "length random = 32" "length sid = 32" "length (concat (map (\<lambda>(t, x). ext_of t x) es)) = 399"
  shows "length (hello_message random sid es) = 517" "LooksLikeHello (hello_message random sid es)"
  using assms by (simp_all add: hello_message_def hello_body_def length_suites LooksLikeHello_def helloSize_def nth_append)

lemma sni_reads_filter: "sni_reads xs = [x \<leftarrow> xs. case x of Inl e \<Rightarrow> True | Inr (b, a) \<Rightarrow> \<not> LooksLikeHello b]"
proof (induction xs)
  case Nil
  show ?case by (simp add: sni_reads.simps)
next
  case (Cons x xs)
  then show ?case
    by (cases x) (auto simp: sni_reads.simps[of "_ # xs"] sni_reads.simps[of xs] split: prod.splits)
qed

lemma sni_writes_eq: "sni_writes ps c = (if ps = [] \<or> sni_once c then ps else sni_hello c # ps)"
  by (induction ps arbitrary: c) (auto simp: sni_WriteTo_def)

lemma tunnel_not_hello:
  assumes "datagram_parse p \<noteq> None \<or> parseFECHeader p \<noteq> None"
  shows "\<not> LooksLikeHello p"
  using assms
  by (auto simp: datagram_parse_def parseHeader_def parseFECHeader_def known_kind_def kind_defs fec_consts LooksLikeHello_def Let_def
      split: if_splits)

lemma hello_built:
  "case BuildHello (Some r, Some s, Some k) sni of
     Inl e \<Rightarrow> e = NoDomain \<and> sni = [] \<or> e = DomainTooLong (length sni) \<and> length sni > maxSNI
   | Inr h \<Rightarrow> sni \<noteq> [] \<and> length sni \<le> maxSNI \<and> length h = 517 \<and> hello_server_name h = Some sni \<and> SNIOf h = Some sni \<and>
       LooksLikeHello h"
proof (cases "sni \<noteq> [] \<and> length sni \<le> maxSNI")
  case True
  let ?n = "bytes_of sni" and ?k = "block32 k"
  let ?es = "hello_exts ?n ?k"
  have n: "length ?n \<le> maxSNI" using True by simp
  note e = length_hello_exts[OF n length_block32[of k]]
  have "hello_server_name (hello_message (block32 r) (block32 s) ?es) = Some sni"
    using message_read[OF length_block32[of r] length_block32[of s] e] exts_read[OF n length_block32[of k]] host_read[OF n]
    by (simp add: hello_server_name_def hello_exts_def del: of_nat_add)
  then show ?thesis
    using True built[of sni r s k] message_shape[OF length_block32[of r] length_block32[of s] e]
      SNIOf_message[OF length_block32[of r] length_block32[of s] e n]
    by (simp add: maxSNI_def)
qed (auto simp: BuildHello_def maxSNI_def)

section \<open>Properties\<close>

text \<open>(C37) A greeting for a domain is built exactly when the domain is not empty and has at most 219 bytes, and then it always has
  517 bytes, an observer who reads TLS finds in it a complete ClientHello with that domain as its server name, whatever was
  drawn, and the two functions of the package that look at a greeting know it and read the domain back.\<close>
theorem hello_names_domain:
  "case BuildHello (Some r, Some s, Some k) sni of
     Inl e \<Rightarrow> e = NoDomain \<and> sni = [] \<or> e = DomainTooLong (length sni) \<and> length sni > 219
   | Inr h \<Rightarrow> sni \<noteq> [] \<and> length sni \<le> 219 \<and> length h = 517 \<and> hello_server_name h = Some sni \<and> SNIOf h = Some sni \<and>
       LooksLikeHello h"
  by (rule hello_built[unfolded maxSNI_def])

text \<open>The carrier is transparent to a tunnel: of what one end writes, datagrams with a header of the tunnel or of its error
  correction, the carrier below gets every one in order, with the greeting ahead of the first; and whatever of it arrives at
  the other end, lost, repeated or in another order, the other end reads exactly the datagrams and errors that arrived.\<close>
theorem sni_carrier_transparent:
  assumes "openSNI (Inr below) (Some r, Some s, Some k) domain = Inr (below, c)"
    "\<forall>p \<in> set ps. datagram_parse p \<noteq> None \<or> parseFECHeader p \<noteq> None"
    "\<forall>b addr. Inr (b, addr) \<in> set xs \<longrightarrow> b \<in> set (sni_writes ps c)"
  shows "sni_writes ps c = (if ps = [] then [] else sni_hello c # ps) \<and> sni_hello c \<notin> set ps \<and>
    sni_reads xs = [x \<leftarrow> xs. case x of Inl e \<Rightarrow> True | Inr (b, addr) \<Rightarrow> b \<noteq> sni_hello c]"
proof -
  have b: "BuildHello (Some r, Some s, Some k) (DomainOr domain) = Inr (sni_hello c)" and o: "\<not> sni_once c"
    using assms(1) by (auto simp: openSNI_def split: sum.splits)
  have h: "LooksLikeHello (sni_hello c)" using hello_built[of "DomainOr domain" r s k, unfolded b] by simp
  have n: "\<not> LooksLikeHello p" if "p \<in> set ps" for p using assms(2) that tunnel_not_hello by blast
  have w: "sni_writes ps c = (if ps = [] then [] else sni_hello c # ps)" using o by (simp add: sni_writes_eq)
  have "LooksLikeHello b \<longleftrightarrow> b = sni_hello c" if "Inr (b, addr) \<in> set xs" for b addr
    using assms(3) that w h n by (auto split: if_splits)
  then have "sni_reads xs = [x \<leftarrow> xs. case x of Inl e \<Rightarrow> True | Inr (b, addr) \<Rightarrow> b \<noteq> sni_hello c]"
    unfolding sni_reads_filter by (intro filter_cong refl) (auto split: sum.splits)
  then show ?thesis using w h n by auto
qed

text \<open>A carrier for the default domain, two datagrams, and a path that repeats the greeting and swaps them.\<close>

theorem sni_carrier_transparent_witness:
  "\<exists>h. let c = \<lparr>sni_hello = h, sni_once = False\<rparr>; p = [3] @ replicate 20 7; q = [0] @ replicate 9 1 in
     sni_writes [p, q] c = [h, p, q] \<and> sni_reads [Inr (q, ''a''), Inr (h, ''a''), Inl False, Inr (p, ''a''), Inr (h, ''a'')] = [Inr (q, ''a''), Inl False, Inr (p, ''a'')]"
proof -
  let ?z = "\<lambda>i. 0"
  obtain h where h: "BuildHello (Some ?z, Some ?z, Some ?z) (DomainOr '''') = Inr h"
    using hello_built[of "DomainOr ''''" ?z ?z ?z]
    by (cases "BuildHello (Some ?z, Some ?z, Some ?z) (DomainOr '''')") (auto simp: DomainOr_def DefaultDomain_def maxSNI_def)
  let ?c = "\<lparr>sni_hello = h, sni_once = False\<rparr>" and ?p = "[3] @ replicate 20 7" and ?q = "[0] @ replicate 9 1"
  have o: "openSNI (Inr ()) (Some ?z, Some ?z, Some ?z) '''' = Inr ((), ?c)" using h by (simp add: openSNI_def)
  have g: "\<forall>p \<in> set [?p, ?q]. datagram_parse p \<noteq> None \<or> parseFECHeader p \<noteq> None"
    by (auto simp: datagram_parse_def parseHeader_def headerLen_def known_kind_def kind_defs parseFECHeader_def fec_consts Let_def)
  have w: "sni_writes [?p, ?q] ?c = [h, ?p, ?q]" by (simp add: sni_writes_eq)
  let ?xs = "[Inr (?q, ''a''), Inr (h, ''a''), Inl False, Inr (?p, ''a''), Inr (h, ''a'')]"
  have x: "\<forall>b addr. Inr (b, addr) \<in> set ?xs \<longrightarrow> b \<in> set (sni_writes [?p, ?q] ?c)" unfolding w by auto
  from sni_carrier_transparent[OF o g x] w show ?thesis by (intro exI[of _ h]) auto
qed

end
