(* ===== verification/Carriers.thy ===== *)
theory Carriers
  imports L3Config SpoofConn PckHost EchoFrame SniCarrier
begin

text \<open>
  How a carrier is opened and what it costs. \<open>src/internal/tunnel/l3/carrier.go\<close>: the choice by name and the sockets of the
  plain UDP carrier, one for each path. \<open>src/internal/tunnel/l3/carrier_obfuscated.go\<close>: the forged-source carrier's settings,
  its routing address and its overhead. \<open>src/internal/utils/network/l3conn.go\<close>, \<open>spoofcarrier.go\<close>, \<open>spoofdpi_config.go\<close>,
  \<open>src/config/config.go\<close>: the settings on their way to the carrier. Sockets and the resolver are parameters.
\<close>

section \<open>Definitions: plain UDP\<close>

definition udpOverhead :: "bytes \<Rightarrow> nat" where
  "udpOverhead ip = (if To4 ip = None \<and> ip \<noteq> [] then 40 + 8 else 20 + 8)"

definition defaultSockBuf :: int where "defaultSockBuf = 4 * 2 ^ 20"

definition sizeUDPBuffers :: "int \<Rightarrow> int" where
  "sizeUDPBuffers sockBuf = (if sockBuf \<le> 0 then defaultSockBuf else sockBuf)"

text \<open>The resolver, and the socket that is bound to an address in the i-th attempt, if one is. An empty address is Go's \<open>nil\<close>.\<close>

record 's udp_system =
  us_resolve :: "string \<Rightarrow> (bytes \<times> nat) option"
  us_bind :: "int \<Rightarrow> bytes \<times> nat \<Rightarrow> 's option"

datatype carrier_error = BadPath mp_error | NotResolved string | NotBound string

record 's openedUDP =
  uc_conn :: 's
  uc_overhead :: nat
  uc_sockBuf :: int

record 's pinnedCarrier =
  pn_carrier :: "'s openedUDP"
  pn_peer :: "(bytes \<times> nat) option"

definition listenUDP :: "'s udp_system \<Rightarrow> int \<Rightarrow> string \<Rightarrow> int \<Rightarrow> carrier_error + 's pinnedCarrier" where
  "listenUDP sys i bind sockBuf =
     (case us_resolve sys bind of None \<Rightarrow> Inl (NotResolved bind)
      | Some addr \<Rightarrow>
          (case us_bind sys i addr of None \<Rightarrow> Inl (NotBound bind)
           | Some s \<Rightarrow> Inr \<lparr>pn_carrier = \<lparr>uc_conn = s, uc_overhead = udpOverhead (fst addr), uc_sockBuf = sizeUDPBuffers sockBuf\<rparr>,
                           pn_peer = None\<rparr>))"

definition dialUDP :: "'s udp_system \<Rightarrow> int \<Rightarrow> string \<Rightarrow> int \<Rightarrow> carrier_error + 's pinnedCarrier" where
  "dialUDP sys i remote sockBuf =
     (case us_resolve sys remote of None \<Rightarrow> Inl (NotResolved remote)
      | Some peer \<Rightarrow>
          (let localhost = (if fst peer \<noteq> [] \<and> To4 (fst peer) = None then replicate 16 0 else replicate 4 0) in
           case us_bind sys i (localhost, 0) of None \<Rightarrow> Inl (NotBound remote)
           | Some s \<Rightarrow> Inr \<lparr>pn_carrier = \<lparr>uc_conn = s, uc_overhead = udpOverhead (fst peer), uc_sockBuf = sizeUDPBuffers sockBuf\<rparr>,
                           pn_peer = Some peer\<rparr>))"

text \<open>The loop over the paths: the paths opened so far, and on an error the ones that are closed.\<close>

fun open_paths :: "(int \<Rightarrow> string \<Rightarrow> carrier_error + 'p) \<Rightarrow> string \<Rightarrow> int list \<Rightarrow> 'p list \<Rightarrow> carrier_error \<times> 'p list + 'p list" where
  "open_paths opens addr [] paths = Inr paths"
| "open_paths opens addr (i # rest) paths =
     (case pathAddr addr i of Inl e \<Rightarrow> Inl (BadPath e, paths)
      | Inr a \<Rightarrow> (case opens i a of Inl e \<Rightarrow> Inl (e, paths) | Inr p \<Rightarrow> open_paths opens addr rest (paths @ [p])))"

definition openUDPPaths ::
    "'s udp_system \<Rightarrow> Config \<Rightarrow> carrier_error \<times> 's pinnedCarrier list + 's pinnedCarrier list \<times> (bytes \<times> nat) option" where
  "openUDPPaths sys cfg =
     (let n = (if mc_Paths (cfg_Multipath cfg) < 1 then 1 else mc_Paths (cfg_Multipath cfg));
          dial = cfg_Mode cfg = ''dial'';
          opens = (\<lambda>i a. if dial then dialUDP sys i a (cfg_SockBuf cfg) else listenUDP sys i a (cfg_SockBuf cfg))
      in case open_paths opens (cfg_Addr cfg) [0..n - 1] [] of Inl e \<Rightarrow> Inl e
         | Inr paths \<Rightarrow> Inr (paths, if dial then pn_peer (hd paths) else None))"

section \<open>Definitions: the choice\<close>

text \<open>\<open>openBareCarrier\<close>: one opener per name, \<open>Inl None\<close> for a name that is none of them.\<close>

record 'r openers =
  op_udp :: 'r
  op_pck :: 'r
  op_xdi :: 'r
  op_spoof :: 'r
  op_quic :: 'r
  op_sni :: 'r

definition openBareCarrier :: "('e + 'c) openers \<Rightarrow> Config \<Rightarrow> 'e option + 'c" where
  "openBareCarrier ops cfg =
     (let name = ToLower (TrimSpace (cfg_Carrier cfg)); tagged = map_sum Some id in
      if name = '''' \<or> name = CarrierUDP then tagged (op_udp ops)
      else if name = CarrierPck then tagged (op_pck ops)
      else if name = CarrierXdi then tagged (op_xdi ops)
      else if name = CarrierSpoof then tagged (op_spoof ops)
      else if name = CarrierQuic then tagged (op_quic ops)
      else if name = CarrierSNI then tagged (op_sni ops)
      else Inl None)"

section \<open>Definitions: the forged-source carrier\<close>

record SpoofConfig =
  sp_Profile :: string
  sp_Uplink :: string
  sp_Downlink :: string
  sp_SrcIP :: string
  sp_SrcPool :: "string list"
  sp_PeerIP :: string
  sp_XDPInterface :: string
  sp_SockBuf :: int
  sp_PeerSrcIP :: string
  sp_ICMPReply :: bool
  sp_MTU :: int
  sp_TTLJitter :: bool
  sp_RandomDSCP :: bool
  sp_ShufflePort :: bool
  sp_PortMin :: int
  sp_PortMax :: int
  sp_Padding :: bool
  sp_PaddingMax :: int
  sp_FakeTLS :: bool

definition SpoofDPIFromConfig :: "SpoofConfig \<Rightarrow> SpoofDPI" where
  "SpoofDPIFromConfig sc =
     \<lparr>dpi_TTLJitter = sp_TTLJitter sc, dpi_RandomDSCP = sp_RandomDSCP sc, dpi_ShufflePort = sp_ShufflePort sc,
      dpi_PortMin = word_of_int (sp_PortMin sc), dpi_PortMax = word_of_int (sp_PortMax sc), dpi_Padding = sp_Padding sc,
      dpi_PaddingMax = word_of_int (sp_PaddingMax sc), dpi_FakeTLS = sp_FakeTLS sc\<rparr>"

datatype peer_error = NotAnIP string | ListenNeedsPeer | BadAddress addr_error | PeerNotResolved string

definition spoofRealPeer :: "(string \<Rightarrow> bytes option) \<Rightarrow> SpoofConfig \<Rightarrow> Config \<Rightarrow> peer_error + bytes" where
  "spoofRealPeer resolve sc cfg =
     (if sp_PeerIP sc \<noteq> '''' then (case ParseIP (sp_PeerIP sc) of None \<Rightarrow> Inl (NotAnIP (sp_PeerIP sc)) | Some ip \<Rightarrow> Inr ip)
      else if cfg_Mode cfg = ''listen'' then Inl ListenNeedsPeer
      else case SplitHostPort (cfg_Addr cfg) of Inl e \<Rightarrow> Inl (BadAddress e)
      | Inr (host, _) \<Rightarrow>
          (case ParseIP host of Some ip \<Rightarrow> Inr ip
           | None \<Rightarrow> (case resolve host of None \<Rightarrow> Inl (PeerNotResolved host) | Some ip \<Rightarrow> Inr ip)))"

definition spoofSockBuf :: "SpoofConfig \<Rightarrow> Config \<Rightarrow> int" where
  "spoofSockBuf sc cfg = (if sp_SockBuf sc > 0 then sp_SockBuf sc else cfg_SockBuf cfg)"

definition PckOverhead :: nat where "PckOverhead = pckOverhead"
definition icmpMTUOverhead :: nat where "icmpMTUOverhead = 8 + xdiHeaderLen"
definition XdiOverhead :: nat where "XdiOverhead = 20 + icmpMTUOverhead"
definition spoofOverhead :: "SpoofProfile \<Rightarrow> nat" where "spoofOverhead p = 20 + profileL4Len p"

text \<open>\<open>SpoofCarrier\<close> on its way to the constructor's options.\<close>

definition spoofOpts :: "SpoofConfig \<Rightarrow> bytes \<Rightarrow> bytes \<Rightarrow> spoofConnOpts" where
  "spoofOpts sc token realPeer =
     (let (uplink, downlink) = ResolveSpoofDirections (sp_Profile sc) (sp_Uplink sc) (sp_Downlink sc) in
      \<lparr>so_token = token, so_uplink = uplink, so_downlink = downlink, so_realPeer = realPeer, so_srcIP = sp_SrcIP sc,
       so_srcPool = sp_SrcPool sc, so_xdpIface = sp_XDPInterface sc, so_replySplit = sp_ICMPReply sc,
       so_peerSrc = sp_PeerSrcIP sc, so_mtu = sp_MTU sc, so_dpi = SpoofDPIFromConfig sc\<rparr>)"

definition openSpoof_overhead :: "SpoofConfig \<Rightarrow> int" where
  "openSpoof_overhead sc =
     (let (uplink, downlink) = ResolveSpoofDirections (sp_Profile sc) (sp_Uplink sc) (sp_Downlink sc);
          overhead = int (max (spoofOverhead uplink) (spoofOverhead downlink))
      in if sp_Padding sc then overhead + (if sp_PaddingMax sc \<le> 0 then 255 else sp_PaddingMax sc) else overhead)"

definition openSpoof ::
    "(string \<Rightarrow> bytes option) \<Rightarrow> spoof_system \<Rightarrow> (bytes \<Rightarrow> bytes) \<Rightarrow> SpoofConfig \<Rightarrow> Config \<Rightarrow>
     peer_error + (spoof_error + spoofConn \<times> int \<times> bytes)" where
  "openSpoof resolve sys sha256 sc cfg =
     (case spoofRealPeer resolve sc cfg of Inl e \<Rightarrow> Inl e
      | Inr realPeer \<Rightarrow> Inr (
          case newSpoofConn sys sha256 (cfg_Mode cfg = ''listen'') (spoofOpts sc (bytes_of (cfg_Token cfg)) realPeer) of
            Inl e \<Rightarrow> Inl e
          | Inr c \<Rightarrow> Inr (c, openSpoof_overhead sc, realPeer)))"

section \<open>Lemmas: the paths\<close>

text \<open>The paths a list of indices opens, one each.\<close>

definition paths_open :: "(int \<Rightarrow> string \<Rightarrow> carrier_error + 'p) \<Rightarrow> string \<Rightarrow> int list \<Rightarrow> 'p list \<Rightarrow> bool" where
  "paths_open opens addr js qs \<longleftrightarrow> list_all2 (\<lambda>i q. \<exists>a. pathAddr addr i = Inr a \<and> opens i a = Inr q) js qs"

lemma open_paths_ok: "open_paths opens addr js paths = Inr ps \<Longrightarrow> \<exists>qs. ps = paths @ qs \<and> paths_open opens addr js qs"
proof (induction js arbitrary: paths)
  case Nil
  then show ?case by (simp add: paths_open_def)
next
  case (Cons i js)
  then obtain a p where a: "pathAddr addr i = Inr a" "opens i a = Inr p" "open_paths opens addr js (paths @ [p]) = Inr ps"
    by (auto split: sum.splits)
  from Cons.IH[OF a(3)] obtain qs where "ps = (paths @ [p]) @ qs" "paths_open opens addr js qs" by blast
  then show ?case using a(1,2) by (intro exI[of _ "p # qs"]) (simp add: paths_open_def)
qed

lemma open_paths_fails:
  "open_paths opens addr js paths = Inl (e, closed) \<Longrightarrow>
   \<exists>pre i post qs. js = pre @ i # post \<and> closed = paths @ qs \<and> paths_open opens addr pre qs \<and>
     ((\<exists>m. pathAddr addr i = Inl m \<and> e = BadPath m) \<or> (\<exists>a. pathAddr addr i = Inr a \<and> opens i a = Inl e))"
proof (induction js arbitrary: paths)
  case Nil
  then show ?case by simp
next
  case (Cons i js)
  consider (addr) m where "pathAddr addr i = Inl m" "e = BadPath m" "closed = paths"
    | (fails) a where "pathAddr addr i = Inr a" "opens i a = Inl e" "closed = paths"
    | (more) a p where "pathAddr addr i = Inr a" "opens i a = Inr p" "open_paths opens addr js (paths @ [p]) = Inl (e, closed)"
    using Cons.prems by (auto split: sum.splits)
  then show ?case
  proof cases
    case more
    from Cons.IH[OF more(3)] obtain pre j post qs where
      "js = pre @ j # post" "closed = (paths @ [p]) @ qs" "paths_open opens addr pre qs"
      "(\<exists>m. pathAddr addr j = Inl m \<and> e = BadPath m) \<or> (\<exists>a. pathAddr addr j = Inr a \<and> opens j a = Inl e)"
      by blast
    then show ?thesis using more(1,2)
      by (intro exI[of _ "i # pre"] exI[of _ j] exI[of _ post] exI[of _ "p # qs"]) (simp add: paths_open_def)
  qed (rule exI[of _ "[]"], rule exI[of _ i], rule exI[of _ js], rule exI[of _ "[]"], simp add: paths_open_def)+
qed

section \<open>Lemmas: the sizes\<close>

lemma shim_size: "length (snd (spoof_shim dr src body c)) = profileL4Len (sc_sendProfile c) + length body"
  by (auto simp: spoof_shim_def Let_def profileL4Len_def isICMPFamily_def buildICMPEcho_def buildTCPShimPorts_def
      buildUDPShimPorts_def buildGREShim_def greHeaderLen_def profiles split: prod.splits)

lemma padding_size:
  "length (applyPadding rnd fill p (word_of_int m)) \<le> length p + nat (if m \<le> 0 then 255 else m)"
proof -
  define w :: byte where "w = word_of_int m"
  define k where "k = (if w = 0 then 64 else w)"
  have l: "length (applyPadding rnd fill p (word_of_int m)) = length p + (IntN rnd (unat k) + 1)"
    by (simp add: applyPadding_def Let_def k_def w_def)
  have "IntN rnd (unat k) + 1 \<le> unat k" using pad_length(2)[OF k_def] .
  moreover have "unat k \<le> nat (if m \<le> 0 then 255 else m)"
  proof (cases "m \<le> 0")
    case True
    then show ?thesis using unat_byte[of k] by simp
  next
    case False
    have u: "unat w = nat (m mod 256)" by (simp add: w_def unat_eq_nat_uint uint_word_of_int)
    have le: "m mod 256 \<le> m" using False by (simp add: zmod_le_nonneg_dividend)
    show ?thesis
    proof (cases "w = 0")
      case True
      then have "m mod 256 = 0" using u False by (simp add: unat_eq_0)
      then have "256 \<le> m" using False by presburger
      then show ?thesis using True False by (simp add: k_def)
    qed (use False u le in \<open>simp add: k_def nat_le_iff\<close>)
  qed
  ultimately show ?thesis using l by linarith
qed

lemma body_size:
  assumes "sc_dpi c = SpoofDPIFromConfig sc"
  shows "int (length (spoof_body dr p c)) \<le> int (length p) + (if sp_Padding sc then (if sp_PaddingMax sc \<le> 0 then 255 else sp_PaddingMax sc) else 0)
    + (if sp_FakeTLS sc \<and> sc_sendProfile c = SpoofProfileTCP then 5 else 0)"
  using padding_size[of "dr_pad dr" "dr_fill dr" p "sp_PaddingMax sc"] assms
  by (auto simp: spoof_body_def Let_def SpoofDPIFromConfig_def applyFakeTLS_def split: if_splits)

lemma opened_conn:
  assumes "openSpoof resolve sys sha256 sc cfg = Inr (Inr (c, overhead, peer))"
  shows "sc_dpi c = SpoofDPIFromConfig sc" "overhead = openSpoof_overhead sc" "40 < sc_mtu c"
    "sc_sendProfile c \<in> {fst (ResolveSpoofDirections (sp_Profile sc) (sp_Uplink sc) (sp_Downlink sc)),
      snd (ResolveSpoofDirections (sp_Profile sc) (sp_Uplink sc) (sp_Downlink sc))}"
proof -
  obtain r where n: "newSpoofConn sys sha256 (cfg_Mode cfg = ''listen'') (spoofOpts sc (bytes_of (cfg_Token cfg)) r) = Inr c"
    and o: "overhead = openSpoof_overhead sc"
    using assms by (auto simp: openSpoof_def split: sum.splits)
  note f = newSpoofConn_facts[OF n]
  show "overhead = openSpoof_overhead sc" by (rule o)
  show "sc_dpi c = SpoofDPIFromConfig sc" "40 < sc_mtu c" using f(4,5) by (simp_all add: spoofOpts_def split: prod.splits)
  show "sc_sendProfile c \<in> {fst (ResolveSpoofDirections (sp_Profile sc) (sp_Uplink sc) (sp_Downlink sc)),
      snd (ResolveSpoofDirections (sp_Profile sc) (sp_Uplink sc) (sp_Downlink sc))}"
    using f(1) by (simp add: spoofOpts_def split: prod.splits)
qed

lemma overhead_covers:
  assumes "q \<in> {fst (ResolveSpoofDirections (sp_Profile sc) (sp_Uplink sc) (sp_Downlink sc)),
      snd (ResolveSpoofDirections (sp_Profile sc) (sp_Uplink sc) (sp_Downlink sc))}"
  shows "int (spoofOverhead q) + (if sp_Padding sc then (if sp_PaddingMax sc \<le> 0 then 255 else sp_PaddingMax sc) else 0) \<le> openSpoof_overhead sc"
  using assms by (auto simp: openSpoof_overhead_def Let_def split: prod.splits)

lemma writes_all: "write_packets (\<lambda>_. True) fs = (fs, True)"
  by (induction fs) auto

text \<open>The packets of a write, from the size of the body alone.\<close>

lemma write_packets_of:
  "fst (snd (spoof_WriteTo (\<lambda>_. True) dr p c)) =
   (let src = snd (spoof_sourceFor c); c' = fst (spoof_sourceFor c); shim = snd (spoof_shim dr src (spoof_body dr p c') c');
        c2 = fst (spoof_shim dr src (spoof_body dr p c') c')
    in spoof_sendIP dr src (ipProtocol (sc_sendProfile c2)) shim c2)"
  by (simp add: spoof_WriteTo_def writes_all Let_def split: prod.splits)

lemma shim_conn: "sc_mtu (fst (spoof_shim dr src body c)) = sc_mtu c" "sc_dpi (fst (spoof_shim dr src body c)) = sc_dpi c"
  "sc_sendProfile (fst (spoof_shim dr src body c)) = sc_sendProfile c"
  by (auto simp: spoof_shim_def Let_def split: prod.splits)

lemma source_conn: "sc_mtu (fst (spoof_sourceFor c)) = sc_mtu c" "sc_dpi (fst (spoof_sourceFor c)) = sc_dpi c"
  "sc_sendProfile (fst (spoof_sourceFor c)) = sc_sendProfile c"
  by (simp_all add: spoof_sourceFor_def Let_def)

lemma body_source: "spoof_body dr p (fst (spoof_sourceFor c)) = spoof_body dr p c"
  by (simp add: spoof_body_def source_conn)

lemma write_sizes:
  shows "\<exists>shim src c2. fst (snd (spoof_WriteTo (\<lambda>_. True) dr p c)) = spoof_sendIP dr src (ipProtocol (sc_sendProfile c)) shim c2 \<and>
    length shim = profileL4Len (sc_sendProfile c) + length (spoof_body dr p c) \<and> sc_mtu c2 = sc_mtu c"
  unfolding write_packets_of Let_def
  by (intro exI conjI, (simp add: shim_conn source_conn body_source shim_size; fail)+) 

lemma one_packet:
  assumes "int (20 + length shim) \<le> sc_mtu c"
  shows "\<exists>h. spoof_sendIP dr src proto shim c = [(h, shim)] \<and> \<not> ih_MoreFragments h \<and> ih_FragOff h = 0 \<and> ih_TotalLen h = 20 + length shim"
  using assms by (simp add: spoof_sendIP_def spoofFragments_def spoof_header_def)

lemma two_packets:
  assumes "40 < sc_mtu c" "int (20 + length shim) = sc_mtu c + 5"
  shows "length (spoof_sendIP dr src proto shim c) = 2"
proof -
  define m where "m = nat (sc_mtu c)"
  have m: "sc_mtu c = int m" "40 < m" using assms(1) by (simp_all add: m_def)
  have d: "frag_data (int m) = (m - 20) div 8 * 8"
  proof -
    have "(int m - 20) sdiv 8 = int ((m - 20) div 8)" using m(2) by (simp add: signed_divide_int_def of_nat_diff zdiv_int)
    moreover have "0 < (m - 20) div 8" using m(2) by (simp add: div_greater_zero_iff)
    ultimately show ?thesis by (simp add: frag_data_def Let_def nat_mult_distrib)
  qed
  have l: "length shim = m - 15" using assms(2) m by simp
  have s: "frag_data (int m) < m - 15" "m - 15 \<le> 2 * frag_data (int m)" using m(2) unfolding d by presburger+
  have "length (frag_from (m - 15) (int m) 0) = 2"
    using s m(2) frag_data_pos[of "int m"] by (simp add: frag_from.simps[of "m - 15" "int m" 0] frag_from.simps[of "m - 15"] Let_def)
  then show ?thesis using m l by (simp add: spoof_sendIP_def spoofFragments_def)
qed

text \<open>What the fake TLS header adds to the packets of a connection.\<close>

definition fake_tls_extra :: "SpoofConfig \<Rightarrow> spoofConn \<Rightarrow> int" where
  "fake_tls_extra sc c = (if sp_FakeTLS sc \<and> sc_sendProfile c = SpoofProfileTCP then 5 else 0)"

section \<open>Properties\<close>

text \<open>(C36) A datagram of the forged-source carrier fits the size that \<open>Overhead\<close> says it needs, whatever the profiles of the two
  directions and the padding drawn: one unfragmented packet of at most that size. The fake TLS header is not in the
  overhead: with it on, over tcp, five bytes more are needed.\<close>
theorem spoof_overhead_covers:
  assumes "openSpoof resolve sys sha256 sc cfg = Inr (Inr (c0, overhead, peer))"
    "c = c0\<lparr>sc_rot := r, sc_tcpSeq := t, sc_icmpSeq := i\<rparr>" "int (length p) + overhead + fake_tls_extra sc c \<le> sc_mtu c"
  shows "\<exists>h d. fst (snd (spoof_WriteTo (\<lambda>_. True) dr p c)) = [(h, d)] \<and> \<not> ih_MoreFragments h \<and> ih_FragOff h = 0 \<and>
    ih_TotalLen h = 20 + length d \<and> int (ih_TotalLen h) \<le> int (length p) + overhead + fake_tls_extra sc c"
proof -
  note f = opened_conn[OF assms(1)]
  have c: "sc_dpi c = SpoofDPIFromConfig sc" "sc_sendProfile c = sc_sendProfile c0" "sc_mtu c = sc_mtu c0" using f(1) by (simp_all add: assms(2))
  obtain shim src c2 where w: "fst (snd (spoof_WriteTo (\<lambda>_. True) dr p c)) = spoof_sendIP dr src (ipProtocol (sc_sendProfile c)) shim c2"
    "length shim = profileL4Len (sc_sendProfile c) + length (spoof_body dr p c)" "sc_mtu c2 = sc_mtu c"
    using write_sizes by blast
  have le: "int (20 + length shim) \<le> int (length p) + overhead + fake_tls_extra sc c"
    using overhead_covers[OF f(4)] body_size[OF c(1), of dr p] w(2) c(2) f(2) by (simp add: spoofOverhead_def fake_tls_extra_def)
  then obtain h where "spoof_sendIP dr src (ipProtocol (sc_sendProfile c)) shim c2 = [(h, shim)]" "\<not> ih_MoreFragments h" "ih_FragOff h = 0"
      "ih_TotalLen h = 20 + length shim"
    using one_packet[of shim c2] w(3) assms(3) by fastforce
  then show ?thesis using w(1) le by auto
qed

text \<open>With the fake TLS header and without padding, a datagram of the largest size the overhead leaves room for goes as two
  fragments, over a carrier that is tcp in both directions.\<close>
theorem fake_tls_fragments:
  assumes "openSpoof resolve sys sha256 sc cfg = Inr (Inr (c, overhead, peer))" "sp_FakeTLS sc" "\<not> sp_Padding sc"
    "sp_Profile sc = ''tcp''" "sp_Uplink sc = ''''" "sp_Downlink sc = ''''" "int (length p) + overhead = sc_mtu c"
  shows "length (fst (snd (spoof_WriteTo (\<lambda>_. True) dr p c))) = 2"
proof -
  note f = opened_conn[OF assms(1)]
  have r: "ResolveSpoofDirections ''tcp'' '''' '''' = (SpoofProfileTCP, SpoofProfileTCP)"
    by (simp add: ResolveSpoofDirections_def ParseSpoofProfile_def profiles)
  have send: "sc_sendProfile c = SpoofProfileTCP" using f(4) assms(4-6) r by simp
  have o: "overhead = 40" using f(2) assms(3-6) r by (simp add: openSpoof_overhead_def spoofOverhead_def profileL4Len_def)
  obtain shim src c2 where w: "fst (snd (spoof_WriteTo (\<lambda>_. True) dr p c)) = spoof_sendIP dr src (ipProtocol (sc_sendProfile c)) shim c2"
    "length shim = profileL4Len (sc_sendProfile c) + length (spoof_body dr p c)" "sc_mtu c2 = sc_mtu c"
    using write_sizes by blast
  have "length shim = 20 + (length p + 5)"
    using w(2) send f(1) assms(2,3) by (simp add: profileL4Len_def spoof_body_def SpoofDPIFromConfig_def applyFakeTLS_def)
  then show ?thesis using w(1,3) two_packets[of c2 shim] f(3) o assms(7) by simp
qed

text \<open>The packet-level TCP carrier and the ping carrier cost on the wire exactly what they say: the IP packet of a datagram is
  longer than the datagram by the carrier's overhead.\<close>
theorem carrier_overheads_exact:
  assumes "pck_ready a" "length (fst dst) = 4" "pck_WriteTo rnd clock buf p dst a = Some (a', frame)"
    "icmp_WriteTo p to c = (c', Inr (wire, ip))" "length (ic_tag c) = 4"
  shows "length frame = pckEthHeaderLen + (length p + PckOverhead) \<and> 20 + length wire = length p + XdiOverhead"
proof
  obtain q buf' where q: "assemblePckFrame buf' q = Some frame" "good_params q" "fp_Payload q = p"
    using write_eq[OF assms(1,2), of rnd clock buf p] assms(3) by auto
  have b: "pckFrameLen (length (fp_Payload q)) \<le> length buf'" using q(1) by (auto simp: assemblePckFrame_def Let_def split: if_splits)
  have "frame = buildPckEthernet (fp_DstMAC q) (fp_SrcMAC q) (buildPckIPv4 (fp_ID q) (fp_SrcIP q) (fp_DstIP q)
      (buildPckTCP (fp_SrcPort q) (fp_DstPort q) (fp_Seq q) (fp_Ack q) (fp_Flags q) (fp_TSVal q) (fp_TSEcr q)
        (fp_SrcIP q) (fp_DstIP q) (fp_Payload q)))"
    using assemble_eq[OF q(2) b] q(1) by simp
  then show "length frame = pckEthHeaderLen + (length p + PckOverhead)"
    using q(2,3) by (simp add: buildPckEthernet_def buildPckIPv4_length buildPckTCP_def tcp_segment_def PckOverhead_def pckOverhead_def pck_sizes
        fresh_copy_def good_params_def Let_def)
next
  show "20 + length wire = length p + XdiOverhead"
    using assms(4,5) by (auto simp: icmp_WriteTo_def Let_def echo_wire XdiOverhead_def icmpMTUOverhead_def xdiHeaderLen_def xdiTagLen_def
        split: sum.splits)
qed

text \<open>The plain UDP carrier opens a socket for every path: path \<open>i\<close> is on the port that many above the configured one, bound there
  when listening and sent there when dialling, and the whole range of ports exists.\<close>
theorem udp_paths_consecutive:
  assumes "CHR ''['' \<notin> set host" "CHR '']'' \<notin> set host" "0 \<le> port" "port \<le> 65535" "cfg_Addr cfg = JoinHostPort host (itoa port)"
    "openUDPPaths sys cfg = Inr (paths, peer)"
  shows "int (length paths) = max 1 (mc_Paths (cfg_Multipath cfg)) \<and> port + int (length paths) \<le> 65536 \<and>
    peer = (if cfg_Mode cfg = ''dial'' then pn_peer (hd paths) else None) \<and>
    (\<forall>i < length paths. \<exists>a addr. SplitHostPort a = Inr (host, itoa (port + int i)) \<and> us_resolve sys a = Some addr \<and>
      uc_overhead (pn_carrier (paths ! i)) = udpOverhead (fst addr) \<and>
      (if cfg_Mode cfg = ''dial'' then pn_peer (paths ! i) = Some addr
       else pn_peer (paths ! i) = None \<and> us_bind sys (int i) addr = Some (uc_conn (pn_carrier (paths ! i)))))"
proof -
  define n where "n = (if mc_Paths (cfg_Multipath cfg) < 1 then 1 else mc_Paths (cfg_Multipath cfg))"
  define opens where "opens = (\<lambda>i a. if cfg_Mode cfg = ''dial'' then dialUDP sys i a (cfg_SockBuf cfg) else listenUDP sys i a (cfg_SockBuf cfg))"
  have o: "open_paths opens (cfg_Addr cfg) [0..n - 1] [] = Inr paths" "peer = (if cfg_Mode cfg = ''dial'' then pn_peer (hd paths) else None)"
    using assms(6) unfolding openUDPPaths_def Let_def n_def[symmetric] opens_def[symmetric] by (auto split: sum.splits)
  then have op: "paths_open opens (cfg_Addr cfg) [0..n - 1] paths" using open_paths_ok by fastforce
  then have len: "length paths = nat n" unfolding paths_open_def by (auto dest: list_all2_lengthD)
  have n: "1 \<le> n" by (simp add: n_def)
  have each: "\<exists>a. pathAddr (cfg_Addr cfg) (int i) = Inr a \<and> opens (int i) a = Inr (paths ! i)" if "i < length paths" for i
    using list_all2_nthD2[OF op[unfolded paths_open_def] that] that len by simp
  have port: "port + int i \<le> 65535" "\<exists>a. pathAddr (cfg_Addr cfg) (int i) = Inr a \<and> SplitHostPort a = Inr (host, itoa (port + int i))"
    if "i < length paths" for i
    using path_ports[OF assms(1-4), of "int i"] each[OF that] by (auto simp: assms(5) split: if_splits)
  have "port + int (nat n - 1) \<le> 65535" using port(1)[of "nat n - 1"] n len by simp
  then have range: "port + int (length paths) \<le> 65536" using n len by simp
  have "\<exists>a addr. SplitHostPort a = Inr (host, itoa (port + int i)) \<and> us_resolve sys a = Some addr \<and>
      uc_overhead (pn_carrier (paths ! i)) = udpOverhead (fst addr) \<and>
      (if cfg_Mode cfg = ''dial'' then pn_peer (paths ! i) = Some addr
       else pn_peer (paths ! i) = None \<and> us_bind sys (int i) addr = Some (uc_conn (pn_carrier (paths ! i))))" if i: "i < length paths" for i
  proof -
    obtain a where a: "pathAddr (cfg_Addr cfg) (int i) = Inr a" "opens (int i) a = Inr (paths ! i)" using each[OF i] by blast
    have "SplitHostPort a = Inr (host, itoa (port + int i))" using port(2)[OF i] a(1) by auto
    moreover obtain q where q: "paths ! i = q" by simp
    ultimately show ?thesis using a(2) unfolding q by (intro exI[of _ a]) (auto simp: opens_def dialUDP_def listenUDP_def Let_def split: option.splits if_splits)
  qed
  then show ?thesis using range o(2) len n by (auto simp: n_def)
qed

text \<open>When a path cannot be opened the carrier fails with that path's error, every path opened before it is closed, and none after
  it is tried.\<close>
theorem udp_paths_closed:
  assumes "openUDPPaths sys cfg = Inl (e, closed)"
  shows "\<exists>k < nat (max 1 (mc_Paths (cfg_Multipath cfg))). length closed = k \<and>
    (\<forall>i < k. \<exists>a. pathAddr (cfg_Addr cfg) (int i) = Inr a \<and>
      (if cfg_Mode cfg = ''dial'' then dialUDP sys (int i) a (cfg_SockBuf cfg) else listenUDP sys (int i) a (cfg_SockBuf cfg)) = Inr (closed ! i)) \<and>
    ((\<exists>m. pathAddr (cfg_Addr cfg) (int k) = Inl m \<and> e = BadPath m) \<or>
     (\<exists>a. pathAddr (cfg_Addr cfg) (int k) = Inr a \<and>
      (if cfg_Mode cfg = ''dial'' then dialUDP sys (int k) a (cfg_SockBuf cfg) else listenUDP sys (int k) a (cfg_SockBuf cfg)) = Inl e))"
proof -
  define n where "n = (if mc_Paths (cfg_Multipath cfg) < 1 then 1 else mc_Paths (cfg_Multipath cfg))"
  define opens where "opens = (\<lambda>i a. if cfg_Mode cfg = ''dial'' then dialUDP sys i a (cfg_SockBuf cfg) else listenUDP sys i a (cfg_SockBuf cfg))"
  have "open_paths opens (cfg_Addr cfg) [0..n - 1] [] = Inl (e, closed)"
    using assms unfolding openUDPPaths_def Let_def n_def[symmetric] opens_def[symmetric] by (auto split: sum.splits)
  from open_paths_fails[OF this] obtain pre i post where
    s: "[0..n - 1] = pre @ i # post" "paths_open opens (cfg_Addr cfg) pre closed"
      "(\<exists>m. pathAddr (cfg_Addr cfg) i = Inl m \<and> e = BadPath m) \<or> (\<exists>a. pathAddr (cfg_Addr cfg) i = Inr a \<and> opens i a = Inl e)"
    by auto
  have "length pre < length [0..n - 1]" using s(1) by simp
  then have k: "length pre < nat n" by simp
  have nth: "[0..n - 1] ! j = int j" if "j < nat n" for j using that by simp
  have i: "i = int (length pre)" using nth[OF k] unfolding s(1) by simp
  have p: "pre ! j = int j" if "j < length pre" for j using nth[of j] that k unfolding s(1) by (simp add: nth_append)
  have l: "length closed = length pre" using s(2) unfolding paths_open_def by (auto dest: list_all2_lengthD)
  have "\<exists>a. pathAddr (cfg_Addr cfg) (int j) = Inr a \<and> opens (int j) a = Inr (closed ! j)" if "j < length pre" for j
    using list_all2_nthD[OF s(2)[unfolded paths_open_def] that] p[OF that] by simp
  moreover have "nat (max 1 (mc_Paths (cfg_Multipath cfg))) = nat n" by (simp add: n_def)
  ultimately show ?thesis using s(3) k l unfolding i opens_def by (intro exI[of _ "length pre"]) auto
qed

text \<open>A carrier name that \<open>Validate\<close> accepts is never refused when the carrier is opened.\<close>
theorem known_carrier_opens:
  assumes "knownCarrier (cfg_Carrier cfg)"
  shows "openBareCarrier ops cfg \<noteq> Inl None"
proof -
  have "ToLower (TrimSpace n) = n" if "n \<in> set [CarrierUDP, CarrierPck, CarrierXdi, CarrierSpoof, CarrierQuic, CarrierSNI]" for n
    using that by (auto simp: CarrierUDP_def CarrierPck_def CarrierXdi_def CarrierSpoof_def CarrierQuic_def CarrierSNI_def; code_simp)
  then have n: "ToLower (TrimSpace (cfg_Carrier cfg)) = cfg_Carrier cfg" using assms by (simp add: knownCarrier_def)
  have m: "map_sum Some id r \<noteq> Inl None" for r :: "'a + 'b" by (cases r) auto
  show ?thesis using assms m unfolding openBareCarrier_def Let_def n knownCarrier_def by auto
qed

section \<open>Witnesses\<close>

definition demo_spoof_config :: "int \<Rightarrow> SpoofConfig" where
  "demo_spoof_config m =
     \<lparr>sp_Profile = ''tcp'', sp_Uplink = '''', sp_Downlink = '''', sp_SrcIP = '''', sp_SrcPool = [], sp_PeerIP = '''', sp_XDPInterface = '''',
      sp_SockBuf = 0, sp_PeerSrcIP = '''', sp_ICMPReply = False, sp_MTU = m, sp_TTLJitter = False, sp_RandomDSCP = False,
      sp_ShufflePort = False, sp_PortMin = 0, sp_PortMax = 0, sp_Padding = False, sp_PaddingMax = 0, sp_FakeTLS = True\<rparr>"

lemma demo_carriers:
  "\<exists>c. openSpoof (\<lambda>_. Some [10, 0, 0, 2]) demo_system (\<lambda>_. replicate 32 9) (demo_spoof_config 50) (demo_valid 0) = Inr (Inr (c, 40, [10, 0, 0, 2])) \<and>
     sc_mtu c = 50 \<and> sc_sendProfile c = SpoofProfileTCP"
proof -
  have p: "SplitHostPort ''h:1'' = Inr (''h'', ''1'')" "ParseIP ''h'' = None" by code_simp+
  have r: "spoofRealPeer (\<lambda>_. Some [10, 0, 0, 2]) (demo_spoof_config 50) (demo_valid 0) = Inr [10, 0, 0, 2]"
    by (simp add: spoofRealPeer_def demo_spoof_config_def demo_valid_def demo_config_def p)
  have d: "ResolveSpoofDirections ''tcp'' '''' '''' = (SpoofProfileTCP, SpoofProfileTCP)"
    by (simp add: ResolveSpoofDirections_def ParseSpoofProfile_def profiles)
  have o: "openSpoof_overhead (demo_spoof_config 50) = 40"
    by (simp add: openSpoof_overhead_def demo_spoof_config_def d spoofOverhead_def profileL4Len_def)
  have m: "cfg_Mode (demo_valid 0) = ''dial''" by (simp add: demo_valid_def)
  show ?thesis
    unfolding openSpoof_def r o m
    by (simp add: newSpoofConn_def spoof_plan_def spoofOpts_def demo_spoof_config_def d demo_system_def demo_pool To4_def and_then_def
        icmpEchoTypes_def hasPortDemux_def profiles profileL4Len_def Let_def)
qed

theorem spoof_overhead_covers_witness:
  "\<exists>c h d. openSpoof (\<lambda>_. Some [10, 0, 0, 2]) demo_system (\<lambda>_. replicate 32 9) (demo_spoof_config 50) (demo_valid 0) = Inr (Inr (c, 40, [10, 0, 0, 2])) \<and>
     fst (snd (spoof_WriteTo (\<lambda>_. True) demo_draws [1, 2, 3] c)) = [(h, d)] \<and> ih_TotalLen h \<le> 48"
proof -
  obtain c where c: "openSpoof (\<lambda>_. Some [10, 0, 0, 2]) demo_system (\<lambda>_. replicate 32 9) (demo_spoof_config 50) (demo_valid 0) = Inr (Inr (c, 40, [10, 0, 0, 2]))"
    "sc_mtu c = 50" "sc_sendProfile c = SpoofProfileTCP" using demo_carriers by blast
  have s: "c = c\<lparr>sc_rot := sc_rot c, sc_tcpSeq := sc_tcpSeq c, sc_icmpSeq := sc_icmpSeq c\<rparr>" by simp
  have x: "fake_tls_extra (demo_spoof_config 50) c = 5" using c(3) by (simp add: fake_tls_extra_def demo_spoof_config_def)
  from spoof_overhead_covers[OF c(1) s, of "[1, 2, 3]" demo_draws] c x show ?thesis by (intro exI[of _ c]) auto
qed

theorem fake_tls_fragments_witness:
  "\<exists>c. openSpoof (\<lambda>_. Some [10, 0, 0, 2]) demo_system (\<lambda>_. replicate 32 9) (demo_spoof_config 50) (demo_valid 0) = Inr (Inr (c, 40, [10, 0, 0, 2])) \<and>
     length (fst (snd (spoof_WriteTo (\<lambda>_. True) demo_draws (replicate 10 1) c))) = 2"
proof -
  obtain c where c: "openSpoof (\<lambda>_. Some [10, 0, 0, 2]) demo_system (\<lambda>_. replicate 32 9) (demo_spoof_config 50) (demo_valid 0) = Inr (Inr (c, 40, [10, 0, 0, 2]))"
    "sc_mtu c = 50" using demo_carriers by blast
  from fake_tls_fragments[OF c(1), of "replicate 10 1" demo_draws] c show ?thesis by (intro exI[of _ c]) (simp add: demo_spoof_config_def)
qed

theorem carrier_overheads_exact_witness:
  "\<exists>a' frame c' wire ip. pck_WriteTo 5 1 [] [7, 8, 9] ([10, 0, 0, 2], 443) (demo_conn 1 40000) = Some (a', frame) \<and> length frame = 69 \<and>
     icmp_WriteTo [7, 8, 9] (IPAddr [10, 0, 0, 2]) (newICMPServerConn (\<lambda>_. replicate 32 1) [1]) = (c', Inr (wire, ip)) \<and> length wire = 16"
proof -
  have r: "pck_ready (demo_conn 1 40000)" by (simp add: pck_ready_def demo_conn_def)
  have l: "length (fst ([10, 0, 0, 2] :: bytes, 443 :: u16)) = 4" by simp
  obtain a' frame where w: "pck_WriteTo 5 1 [] [7, 8, 9] ([10, 0, 0, 2], 443) (demo_conn 1 40000) = Some (a', frame)" using write_eq[OF r l] by blast
  obtain c' wire ip where i: "icmp_WriteTo [7, 8, 9] (IPAddr [10, 0, 0, 2]) (newICMPServerConn (\<lambda>_. replicate 32 1) [1]) = (c', Inr (wire, ip))"
    by (simp add: icmp_WriteTo_def toIPAddr_def To4_def Let_def)
  have t: "length (ic_tag (newICMPServerConn (\<lambda>_. replicate 32 1) [1])) = 4" by (simp add: newICMPServerConn_def xdiTag_length)
  from carrier_overheads_exact[OF r l w i t] w i show ?thesis
    by (auto simp: PckOverhead_def pckOverhead_def pck_sizes XdiOverhead_def icmpMTUOverhead_def xdiHeaderLen_def xdiTagLen_def)
qed

definition demo_udp :: "nat udp_system" where
  "demo_udp = \<lparr>us_resolve = \<lambda>a. Some ([10, 0, 0, 2], length a), us_bind = \<lambda>i a. if i < 2 then Some (nat i) else None\<rparr>"

theorem udp_paths_consecutive_witness:
  "\<exists>paths peer. openUDPPaths demo_udp ((demo_valid 0)\<lparr>cfg_Addr := JoinHostPort ''h'' (itoa 65534), cfg_Multipath := \<lparr>mc_Paths = 2\<rparr>\<rparr>) = Inr (paths, peer) \<and>
     length paths = 2"
proof -
  let ?cfg = "(demo_valid 0)\<lparr>cfg_Addr := JoinHostPort ''h'' (itoa 65534), cfg_Multipath := \<lparr>mc_Paths = 2\<rparr>\<rparr>"
  have h: "CHR ''['' \<notin> set ''h''" "CHR '']'' \<notin> set ''h''" by simp_all
  have "[0..1::int] = [0, 1]" by (simp add: upto.simps)
  then obtain paths peer where o: "openUDPPaths demo_udp ?cfg = Inr (paths, peer)"
    using path_ports[OF h, of 65534 0] path_ports[OF h, of 65534 1]
    by (auto simp: openUDPPaths_def demo_valid_def dialUDP_def demo_udp_def Let_def)
  from udp_paths_consecutive[OF h _ _ _ o, of 65534] o show ?thesis by auto
qed

theorem udp_paths_closed_witness:
  "\<exists>e closed. openUDPPaths demo_udp ((demo_valid 0)\<lparr>cfg_Addr := JoinHostPort ''h'' (itoa 9000), cfg_Multipath := \<lparr>mc_Paths = 3\<rparr>\<rparr>) = Inl (e, closed) \<and>
     length closed < 3"
proof -
  let ?cfg = "(demo_valid 0)\<lparr>cfg_Addr := JoinHostPort ''h'' (itoa 9000), cfg_Multipath := \<lparr>mc_Paths = 3\<rparr>\<rparr>"
  have h: "CHR ''['' \<notin> set ''h''" "CHR '']'' \<notin> set ''h''" by simp_all
  have "[0..2::int] = [0, 1, 2]" by (simp add: upto.simps)
  then obtain e closed where o: "openUDPPaths demo_udp ?cfg = Inl (e, closed)"
    using path_ports[OF h, of 9000 0] path_ports[OF h, of 9000 1] path_ports[OF h, of 9000 2]
    by (auto simp: openUDPPaths_def demo_valid_def dialUDP_def demo_udp_def Let_def)
  from udp_paths_closed[OF o] o show ?thesis by auto
qed

theorem known_carrier_opens_witness:
  "openBareCarrier \<lparr>op_udp = Inl 1, op_pck = Inr 2, op_xdi = Inr 3, op_spoof = Inr 4, op_quic = Inr 5, op_sni = Inr (6 :: nat)\<rparr> (demo_valid 0) = Inl (Some (1 :: nat))"
proof -
  have k: "knownCarrier (cfg_Carrier (demo_valid 0))" by (simp add: demo_valid_def knownCarrier_def)
  have "ToLower (TrimSpace CarrierUDP) = CarrierUDP" by code_simp
  then show ?thesis using known_carrier_opens[OF k, of "\<lparr>op_udp = Inl 1, op_pck = Inr 2, op_xdi = Inr 3, op_spoof = Inr 4, op_quic = Inr 5, op_sni = Inr (6 :: nat)\<rparr> :: (nat + nat) openers"]
    by (simp add: openBareCarrier_def demo_valid_def)
qed

end
