(* ===== verification/QuicCarrier.thy ===== *)
theory QuicCarrier
  imports Prelude
begin

text \<open>
  The QUIC carrier's listening side, \<open>src/internal/tunnel/l3/carrier_quic.go\<close>: it keeps up to sixteen connections, reads
  datagrams from all of them and writes to the one an address names. QUIC is a third-party library: a connection is a
  number, its remote address and whether it agreed to carry datagrams are parameters. Each critical section is a step of its
  own, so every interleaving of the accepting goroutine, the readers, the tunnel and \<open>Close\<close> is covered.
\<close>

section \<open>Definitions: the table of connections\<close>

definition quicMaxPeers :: nat where "quicMaxPeers = 16"
definition quicInbox :: nat where "quicInbox = 512"

record quicPeer =
  qp_conn :: nat
  qp_wrote :: instant

text \<open>A datagram that waits, with the connection whose remote address it is reported under.\<close>

record quicCarrier =
  q_peers :: "string \<rightharpoonup> quicPeer"
  q_closed :: bool
  q_in :: "(bytes \<times> nat) list"

text \<open>The loop that looks for the connection written to least recently, over the table in the order it is ranged over.\<close>

fun oldest_loop :: "(string \<rightharpoonup> quicPeer) \<Rightarrow> string list \<Rightarrow> string \<times> instant \<Rightarrow> string \<times> instant" where
  "oldest_loop peers [] acc = acc"
| "oldest_loop peers (k # ks) (oldestKey, oldest) =
     (let w = qp_wrote (the (peers k)) in
      oldest_loop peers ks (if oldestKey = '''' \<or> w < oldest then (k, w) else (oldestKey, oldest)))"

text \<open>\<open>order\<close> lists the keys of the table; \<open>None\<close> is a carrier that was closed. The second part is what to close.\<close>

definition addPeer :: "string list \<Rightarrow> instant \<Rightarrow> string \<Rightarrow> nat \<Rightarrow> quicCarrier \<Rightarrow> (quicCarrier \<times> nat list) option" where
  "addPeer order now key conn c =
     (if q_closed c then None
      else let (peers, evict) =
        (case q_peers c key of
           Some old \<Rightarrow> (q_peers c, [qp_conn old])
         | None \<Rightarrow>
             if length order \<ge> quicMaxPeers then
               (let oldestKey = fst (oldest_loop (q_peers c) order ('''', 0)) in
                ((q_peers c)(oldestKey := None), [qp_conn (the (q_peers c oldestKey))]))
             else (q_peers c, []))
      in Some (c\<lparr>q_peers := peers(key \<mapsto> \<lparr>qp_conn = conn, qp_wrote = now\<rparr>)\<rparr>, evict))"

definition dropPeer :: "string \<Rightarrow> nat \<Rightarrow> quicCarrier \<Rightarrow> quicCarrier" where
  "dropPeer key conn c =
     (case q_peers c key of
        Some p \<Rightarrow> if qp_conn p = conn then c\<lparr>q_peers := (q_peers c)(key := None)\<rparr> else c
      | None \<Rightarrow> c)"

datatype quic_error = NoDialler | CarrierClosed

text \<open>\<open>WriteTo\<close>: the connection the datagram is sent on.\<close>

definition quic_WriteTo :: "instant \<Rightarrow> string option \<Rightarrow> quicCarrier \<Rightarrow> quicCarrier \<times> (quic_error + nat)" where
  "quic_WriteTo now addr c =
     (case addr of None \<Rightarrow> (c, Inl NoDialler)
      | Some a \<Rightarrow>
          if q_closed c then (c, Inl CarrierClosed)
          else case q_peers c a of None \<Rightarrow> (c, Inl NoDialler)
          | Some p \<Rightarrow> (c\<lparr>q_peers := (q_peers c)(a \<mapsto> p\<lparr>qp_wrote := now\<rparr>)\<rparr>, Inr (qp_conn p)))"

section \<open>Definitions: the goroutines\<close>

text \<open>The accepting goroutine: waiting, with a connection before and after it agreed to carry datagrams, with connections still to
  close before the new one's reader starts, and returned.\<close>

datatype acceptor = Accepting | Checking nat | Adding nat | Starting nat "nat list" | AcceptEnded

datatype quic_reader = Receiving | Holding bytes

text \<open>\<open>qs_live\<close>: accepted, and neither closed by this end nor failed. \<open>qs_doomed\<close>: what \<open>Close\<close> has still to close. \<open>qs_seen\<close>,
  \<open>qs_got\<close> and \<open>qs_read\<close> are traces: the connections accepted, what each received, what the tunnel has read.\<close>

record quic_state =
  qs_c :: quicCarrier
  qs_accept :: acceptor
  qs_readers :: "nat \<rightharpoonup> quic_reader"
  qs_live :: "nat set"
  qs_doomed :: "nat set"
  qs_seen :: "nat set"
  qs_got :: "nat \<Rightarrow> bytes list"
  qs_read :: "(bytes \<times> nat) list"

definition listenQuic :: quic_state where
  "listenQuic =
     \<lparr>qs_c = \<lparr>q_peers = Map.empty, q_closed = False, q_in = []\<rparr>, qs_accept = Accepting, qs_readers = Map.empty, qs_live = {},
      qs_doomed = {}, qs_seen = {}, qs_got = (\<lambda>_. []), qs_read = []\<rparr>"

inductive quic_step :: "(nat \<Rightarrow> string) \<Rightarrow> (nat \<Rightarrow> bool) \<Rightarrow> quic_state \<Rightarrow> quic_state \<Rightarrow> bool"
  for remote :: "nat \<Rightarrow> string" and agreed :: "nat \<Rightarrow> bool" where
  q_accepts: "qs_accept s = Accepting \<Longrightarrow> x \<notin> qs_seen s \<Longrightarrow>
    quic_step remote agreed s (s\<lparr>qs_accept := Checking x, qs_seen := insert x (qs_seen s), qs_live := insert x (qs_live s)\<rparr>)"
| q_accept_ends: "qs_accept s = Accepting \<Longrightarrow> quic_step remote agreed s (s\<lparr>qs_accept := AcceptEnded\<rparr>)"
| q_refuses: "qs_accept s = Checking x \<Longrightarrow> \<not> agreed x \<Longrightarrow>
    quic_step remote agreed s (s\<lparr>qs_accept := Accepting, qs_live := qs_live s - {x}\<rparr>)"
| q_agrees: "qs_accept s = Checking x \<Longrightarrow> agreed x \<Longrightarrow> quic_step remote agreed s (s\<lparr>qs_accept := Adding x\<rparr>)"
| q_adds: "qs_accept s = Adding x \<Longrightarrow> set order = dom (q_peers (qs_c s)) \<Longrightarrow> distinct order \<Longrightarrow>
    addPeer order now (remote x) x (qs_c s) = Some (c, evict) \<Longrightarrow>
    quic_step remote agreed s (s\<lparr>qs_c := c, qs_accept := Starting x evict\<rparr>)"
| q_too_late: "qs_accept s = Adding x \<Longrightarrow> addPeer order now (remote x) x (qs_c s) = None \<Longrightarrow>
    quic_step remote agreed s (s\<lparr>qs_accept := AcceptEnded, qs_live := qs_live s - {x}\<rparr>)"
| q_evicts: "qs_accept s = Starting x (e # es) \<Longrightarrow>
    quic_step remote agreed s (s\<lparr>qs_accept := Starting x es, qs_live := qs_live s - {e}\<rparr>)"
| q_starts: "qs_accept s = Starting x [] \<Longrightarrow>
    quic_step remote agreed s (s\<lparr>qs_accept := Accepting, qs_readers := (qs_readers s)(x \<mapsto> Receiving)\<rparr>)"
| q_receives: "qs_readers s x = Some Receiving \<Longrightarrow> x \<in> qs_live s \<Longrightarrow>
    quic_step remote agreed s (s\<lparr>qs_readers := (qs_readers s)(x \<mapsto> Holding d), qs_got := (qs_got s)(x := qs_got s x @ [d])\<rparr>)"
| q_fails: "qs_readers s x = Some Receiving \<Longrightarrow>
    quic_step remote agreed s
      (s\<lparr>qs_c := dropPeer (remote x) x (qs_c s), qs_readers := (qs_readers s)(x := None), qs_live := qs_live s - {x}\<rparr>)"
| q_hands_on: "qs_readers s x = Some (Holding d) \<Longrightarrow> length (q_in (qs_c s)) < quicInbox \<Longrightarrow>
    quic_step remote agreed s
      (s\<lparr>qs_c := (qs_c s)\<lparr>q_in := q_in (qs_c s) @ [(d, x)]\<rparr>, qs_readers := (qs_readers s)(x \<mapsto> Receiving)\<rparr>)"
| q_gives_up: "qs_readers s x = Some (Holding d) \<Longrightarrow> q_closed (qs_c s) \<Longrightarrow>
    quic_step remote agreed s (s\<lparr>qs_readers := (qs_readers s)(x := None)\<rparr>)"
| q_reads: "q_in (qs_c s) = (d, x) # rest \<Longrightarrow>
    quic_step remote agreed s (s\<lparr>qs_c := (qs_c s)\<lparr>q_in := rest\<rparr>, qs_read := qs_read s @ [(d, x)]\<rparr>)"
| q_writes: "quic_WriteTo now addr (qs_c s) = (c, r) \<Longrightarrow> quic_step remote agreed s (s\<lparr>qs_c := c\<rparr>)"
| q_closes: "\<not> q_closed (qs_c s) \<Longrightarrow>
    quic_step remote agreed s
      (s\<lparr>qs_c := (qs_c s)\<lparr>q_closed := True, q_peers := Map.empty\<rparr>,
         qs_doomed := qs_doomed s \<union> qp_conn ` ran (q_peers (qs_c s))\<rparr>)"
| q_close_conn: "x \<in> qs_doomed s \<Longrightarrow>
    quic_step remote agreed s (s\<lparr>qs_doomed := qs_doomed s - {x}, qs_live := qs_live s - {x}\<rparr>)"

text \<open>Connections that come in one after the other, each with the clock and its address.\<close>

inductive quic_joins :: "quicCarrier \<Rightarrow> (instant \<times> string \<times> nat) list \<Rightarrow> quicCarrier \<Rightarrow> bool" where
  joins_none: "quic_joins c [] c"
| joins_one: "set order = dom (q_peers c) \<Longrightarrow> distinct order \<Longrightarrow> addPeer order now key conn c = Some (c', evict) \<Longrightarrow>
    quic_joins c' js c'' \<Longrightarrow> quic_joins c ((now, key, conn) # js) c''"

section \<open>Lemmas: eviction\<close>

lemma oldest_loop_spec:
  assumes "'''' \<notin> set ks" "k = '''' \<longrightarrow> ks \<noteq> []" "oldest_loop peers ks (k, w) = (k', w')"
  shows "(k' \<in> set ks \<and> w' = qp_wrote (the (peers k')) \<or> k \<noteq> '''' \<and> k' = k \<and> w' = w) \<and> (k \<noteq> '''' \<longrightarrow> w' \<le> w) \<and>
    (\<forall>x \<in> set ks. w' \<le> qp_wrote (the (peers x)))"
  using assms
proof (induction ks arbitrary: k w)
  case Nil
  then show ?case by auto
next
  case (Cons x ks)
  let ?w = "qp_wrote (the (peers x))"
  show ?case
  proof (cases "k = '''' \<or> ?w < w")
    case True
    then have "oldest_loop peers ks (x, ?w) = (k', w')" using Cons.prems(3) by (auto simp: Let_def)
    from Cons.IH[OF _ _ this] Cons.prems(1) have
      "(k' \<in> set ks \<and> w' = qp_wrote (the (peers k')) \<or> k' = x \<and> w' = ?w) \<and> w' \<le> ?w \<and> (\<forall>y \<in> set ks. w' \<le> qp_wrote (the (peers y)))"
      by auto
    then show ?thesis using True by auto
  next
    case False
    then have "oldest_loop peers ks (k, w) = (k', w')" using Cons.prems(3) by (auto simp: Let_def)
    from Cons.IH[OF _ _ this] Cons.prems(1) False show ?thesis by auto
  qed
qed

text \<open>What is evicted from a full table was written to no later than everything else in it.\<close>

lemma evicts_oldest:
  assumes "set order = dom (q_peers c)" "'''' \<notin> dom (q_peers c)" "order \<noteq> []"
  obtains p where "q_peers c (fst (oldest_loop (q_peers c) order ('''', 0))) = Some p"
    "\<forall>q \<in> ran (q_peers c). qp_wrote p \<le> qp_wrote q"
proof -
  obtain k w where l: "oldest_loop (q_peers c) order ('''', 0) = (k, w)" by fastforce
  have s: "k \<in> dom (q_peers c)" "w = qp_wrote (the (q_peers c k))" "\<forall>x \<in> dom (q_peers c). w \<le> qp_wrote (the (q_peers c x))"
    using oldest_loop_spec[OF _ _ l] assms by auto
  then obtain p where p: "q_peers c k = Some p" by auto
  have "\<forall>q \<in> ran (q_peers c). qp_wrote p \<le> qp_wrote q" using s(2,3) p by (auto simp: ran_def) (metis domI option.sel)
  then show thesis using that[of p] p l by simp
qed

definition peers_ok :: "quicCarrier \<Rightarrow> bool" where
  "peers_ok c \<longleftrightarrow> finite (dom (q_peers c)) \<and> card (dom (q_peers c)) \<le> quicMaxPeers \<and> '''' \<notin> dom (q_peers c)"

lemma addPeer_table:
  assumes "peers_ok c" "key \<noteq> ''''" "set order = dom (q_peers c)" "distinct order" "addPeer order now key conn c = Some (c', evict)"
  shows "peers_ok c'"
proof -
  have n: "length order = card (dom (q_peers c))" using assms(3,4) distinct_card by fastforce
  have f: "finite (dom (q_peers c))" using assms(1) by (simp add: peers_ok_def)
  show ?thesis
  proof (cases "q_peers c key")
    case None
    show ?thesis
    proof (cases "length order \<ge> quicMaxPeers")
      case True
      define k where "k = fst (oldest_loop (q_peers c) order ('''', 0))"
      have "order \<noteq> []" using True by (auto simp: quicMaxPeers_def)
      then obtain p where p: "q_peers c k = Some p" using evicts_oldest[OF assms(3)] assms(1) unfolding peers_ok_def k_def by metis
      have "c' = c\<lparr>q_peers := ((q_peers c)(k := None))(key \<mapsto> \<lparr>qp_conn = conn, qp_wrote = now\<rparr>)\<rparr>"
        using assms(5) None True by (auto simp: addPeer_def Let_def k_def split: if_splits)
      moreover have "card (insert key (dom (q_peers c) - {k})) \<le> card (dom (q_peers c))"
        using f None card_Suc_Diff1[OF f, of k] domIff[of k "q_peers c"] p by (subst card_insert_disjoint) auto
      ultimately show ?thesis using assms(1,2) f by (auto simp: peers_ok_def)
    next
      case False
      then have "c' = c\<lparr>q_peers := (q_peers c)(key \<mapsto> \<lparr>qp_conn = conn, qp_wrote = now\<rparr>)\<rparr>"
        using assms(5) None by (auto simp: addPeer_def Let_def split: if_splits)
      then show ?thesis using assms(1,2) f False n None by (auto simp: peers_ok_def card_insert_if)
    qed
  next
    case (Some old)
    then have "c' = c\<lparr>q_peers := (q_peers c)(key \<mapsto> \<lparr>qp_conn = conn, qp_wrote = now\<rparr>)\<rparr>"
      using assms(5) by (auto simp: addPeer_def Let_def split: if_splits)
    moreover have "insert key (dom (q_peers c)) = dom (q_peers c)" using Some by auto
    ultimately show ?thesis using assms(1) by (simp add: peers_ok_def)
  qed
qed

lemma addPeer_facts:
  assumes "addPeer order now key conn c = Some (c', evict)"
  shows "\<not> q_closed c" "\<not> q_closed c'" "q_in c' = q_in c" "q_peers c' key = Some \<lparr>qp_conn = conn, qp_wrote = now\<rparr>"
    "\<And>k p. q_peers c' k = Some p \<Longrightarrow> k \<noteq> key \<Longrightarrow> q_peers c k = Some p"
    "\<And>k p. q_peers c k = Some p \<Longrightarrow> q_peers c' k = Some p \<or> qp_conn p \<in> set evict \<or> k = key \<and> qp_conn p \<in> set evict"
  using assms by (auto simp: addPeer_def Let_def split: if_splits option.splits)

section \<open>Lemmas: the goroutines\<close>

definition quic_ok :: "(nat \<Rightarrow> string) \<Rightarrow> quic_state \<Rightarrow> bool" where
  "quic_ok remote s \<longleftrightarrow> peers_ok (qs_c s) \<and>
     (\<forall>k p. q_peers (qs_c s) k = Some p \<longrightarrow> remote (qp_conn p) = k) \<and>
     (q_closed (qs_c s) \<longrightarrow> q_peers (qs_c s) = Map.empty)"

text \<open>What the accepting goroutine has in hand.\<close>

fun in_hand :: "acceptor \<Rightarrow> nat set" where
  "in_hand (Checking x) = {x}" | "in_hand (Adding x) = {x}" | "in_hand (Starting x es) = set es" | "in_hand _ = {}"

definition quic_held :: "quic_state \<Rightarrow> bool" where
  "quic_held s \<longleftrightarrow> qs_live s \<subseteq> qp_conn ` ran (q_peers (qs_c s)) \<union> qs_doomed s \<union> in_hand (qs_accept s)"

definition in_reader :: "quic_state \<Rightarrow> nat \<Rightarrow> bytes list" where
  "in_reader s x = (case qs_readers s x of Some (Holding d) \<Rightarrow> [d] | _ \<Rightarrow> [])"

definition passed_on :: "quic_state \<Rightarrow> nat \<Rightarrow> bytes list" where
  "passed_on s x = map fst [e \<leftarrow> qs_read s @ q_in (qs_c s). snd e = x]"

fun pending :: "acceptor \<Rightarrow> nat set" where
  "pending (Checking x) = {x}" | "pending (Adding x) = {x}" | "pending (Starting x es) = {x}" | "pending _ = {}"

definition readers_ok :: "quic_state \<Rightarrow> bool" where
  "readers_ok s \<longleftrightarrow> (\<forall>x. x \<in> pending (qs_accept s) \<or> x \<notin> qs_seen s \<longrightarrow> qs_readers s x = None) \<and> pending (qs_accept s) \<subseteq> qs_seen s"

text \<open>No datagram of the connection was given up on.\<close>

definition intact :: "quic_state \<Rightarrow> nat \<Rightarrow> bool" where
  "intact s x \<longleftrightarrow> qs_readers s x \<noteq> None \<or> \<not> q_closed (qs_c s) \<or> x \<in> pending (qs_accept s) \<or> x \<notin> qs_seen s"

definition fifo_at :: "quic_state \<Rightarrow> nat \<Rightarrow> bool" where
  "fifo_at s x \<longleftrightarrow> (intact s x \<longrightarrow> passed_on s x @ in_reader s x = qs_got s x) \<and> prefix (passed_on s x) (qs_got s x)"

lemma drop_facts: "q_closed (dropPeer k x c) = q_closed c" "q_in (dropPeer k x c) = q_in c"
  "q_peers (dropPeer k x c) j = Some p \<Longrightarrow> q_peers c j = Some p"
  "q_peers c j = Some p \<Longrightarrow> q_peers (dropPeer k x c) j = Some p \<or> qp_conn p = x"
  by (auto simp: dropPeer_def split: option.splits if_splits)

lemma write_facts:
  assumes "quic_WriteTo now addr c = (c', r)"
  shows "q_closed c' = q_closed c" "q_in c' = q_in c" "dom (q_peers c') = dom (q_peers c)"
    "map_option qp_conn (q_peers c' k) = map_option qp_conn (q_peers c k)"
  using assms by (auto simp: quic_WriteTo_def split: option.splits if_splits)

lemma quic_okI:
  assumes "peers_ok (qs_c s)" "\<And>k p. q_peers (qs_c s) k = Some p \<Longrightarrow> remote (qp_conn p) = k"
    "q_closed (qs_c s) \<Longrightarrow> q_peers (qs_c s) = Map.empty"
  shows "quic_ok remote s"
  using assms by (simp add: quic_ok_def)

lemma ok_step: "quic_step remote agreed s s' \<Longrightarrow> (\<forall>x. remote x \<noteq> '''') \<Longrightarrow> quic_ok remote s \<Longrightarrow> quic_ok remote s'"
proof (induction rule: quic_step.induct)
  case (q_adds s x order now c evict)
  note f = addPeer_facts[OF q_adds(4)]
  have tbl: "peers_ok c" using addPeer_table[OF _ _ q_adds(2-4)] q_adds(5,6) by (simp add: quic_ok_def)
  have own: "remote (qp_conn p) = k" if "q_peers c k = Some p" for k p
  proof (cases "k = remote x")
    case True
    then show ?thesis using f(4) that by (auto dest: sym)
  next
    case False
    then show ?thesis using f(5)[OF that] q_adds(6) by (simp add: quic_ok_def)
  qed
  have c: "qs_c (s\<lparr>qs_c := c, qs_accept := Starting x evict\<rparr>) = c" by simp
  show ?case by (rule quic_okI; unfold c) (rule tbl, erule own, use f(2) in blast)
next
  case (q_fails s x)
  let ?c = "dropPeer (remote x) x (qs_c s)"
  have d: "dom (q_peers (dropPeer (remote x) x (qs_c s))) \<subseteq> dom (q_peers (qs_c s))"
    by (auto simp: dropPeer_def split: option.splits if_splits)
  then have "peers_ok (dropPeer (remote x) x (qs_c s))" using q_fails(3) unfolding quic_ok_def peers_ok_def
    by (meson card_mono finite_subset order_trans subsetD)
  moreover have "q_closed (qs_c s) \<longrightarrow> q_peers (dropPeer (remote x) x (qs_c s)) = Map.empty"
    using q_fails(3) by (simp add: quic_ok_def dropPeer_def)
  moreover have "\<forall>k p. q_peers ?c k = Some p \<longrightarrow> remote (qp_conn p) = k" using q_fails(3) drop_facts(3) unfolding quic_ok_def by blast
  ultimately show ?case by (simp add: quic_ok_def drop_facts(1))
next
  case (q_writes now addr s c r)
  note f = write_facts[OF q_writes(1)]
  have "remote (qp_conn p) = k" if "q_peers c k = Some p" for k p
    using f(4)[of k] that q_writes(3) by (cases "q_peers (qs_c s) k") (auto simp: quic_ok_def)
  then show ?case using f(1,3) q_writes(3) by (auto simp: quic_ok_def peers_ok_def)
qed (auto simp: quic_ok_def peers_ok_def)

lemma held_step: "quic_step remote agreed s s' \<Longrightarrow> quic_ok remote s \<Longrightarrow> quic_held s \<Longrightarrow> quic_held s'"
proof (induction rule: quic_step.induct)
  case (q_adds s x order now c evict)
  note f = addPeer_facts[OF q_adds(4)]
  show ?case unfolding quic_held_def
  proof
    fix y assume "y \<in> qs_live (s\<lparr>qs_c := c, qs_accept := Starting x evict\<rparr>)"
    then consider "y = x" | "y \<in> qs_doomed s" | k p where "q_peers (qs_c s) k = Some p" "qp_conn p = y"
      using q_adds(1,6) by (auto simp: quic_held_def ran_def)
    then show "y \<in> qp_conn ` ran (q_peers (qs_c (s\<lparr>qs_c := c, qs_accept := Starting x evict\<rparr>))) \<union>
        qs_doomed (s\<lparr>qs_c := c, qs_accept := Starting x evict\<rparr>) \<union> in_hand (qs_accept (s\<lparr>qs_c := c, qs_accept := Starting x evict\<rparr>))"
    proof cases
      case 1
      then show ?thesis using f(4) by (force simp: ran_def)
    next
      case 3
      then show ?thesis using f(6)[OF 3(1)] by (force simp: ran_def)
    qed simp
  qed
next
  case (q_fails s x)
  have "qp_conn ` ran (q_peers (qs_c s)) - {x} \<subseteq> qp_conn ` ran (q_peers (dropPeer (remote x) x (qs_c s)))"
    using drop_facts(4)[of "qs_c s"] by (force simp: ran_def)
  then show ?case using q_fails(3) by (auto simp: quic_held_def)
next
  case (q_writes now addr s c r)
  have "qp_conn ` ran (q_peers c) = qp_conn ` ran (q_peers (qs_c s))"
  proof -
    have r: "qp_conn ` ran m = {y. \<exists>k. map_option qp_conn (m k) = Some y}" for m :: "string \<rightharpoonup> quicPeer" by (force simp: ran_def)
    show ?thesis unfolding r write_facts(4)[OF q_writes(1)] ..
  qed
  then show ?case using q_writes(3) by (simp add: quic_held_def)
qed (auto simp: quic_held_def)

lemma readers_step: "quic_step remote agreed s s' \<Longrightarrow> readers_ok s \<Longrightarrow> readers_ok s'"
  by (induction rule: quic_step.induct) (auto simp: readers_ok_def split: if_splits)

lemmas fifo_defs = fifo_at_def intact_def passed_on_def in_reader_def readers_ok_def

lemma fifo_step: "quic_step remote agreed s s' \<Longrightarrow> readers_ok s \<Longrightarrow> fifo_at s y \<Longrightarrow> fifo_at s' y"
proof (induction rule: quic_step.induct)
  case (q_adds s x order now c evict)
  then show ?case using addPeer_facts[OF q_adds(4)] by (simp add: fifo_defs)
next
  case (q_writes now addr s c r)
  then show ?case using write_facts[OF q_writes(1)] by (simp add: fifo_defs)
next
  case (q_starts s x)
  then show ?case by (cases "y = x") (auto simp: fifo_defs)
next
  case (q_receives s x d)
  then show ?case by (cases "y = x") (simp_all add: fifo_defs)
next
  case (q_fails s x)
  then show ?case by (cases "y = x") (simp_all add: fifo_defs drop_facts)
next
  case (q_hands_on s x d)
  then show ?case by (cases "y = x") (simp_all add: fifo_defs)
next
  case (q_gives_up s x d)
  then show ?case by (cases "y = x") (auto simp: fifo_defs)
next
  case (q_accepts s x)
  then show ?case by (cases "y = x") (auto simp: fifo_defs)
next
  case (q_reads s d x rest)
  then show ?case by (cases "y = x") (auto simp: fifo_defs)
qed (auto simp: fifo_defs split: if_splits)

lemma inbox_step: "quic_step remote agreed s s' \<Longrightarrow> length (q_in (qs_c s)) \<le> quicInbox \<Longrightarrow> length (q_in (qs_c s')) \<le> quicInbox"
  by (induction rule: quic_step.induct) (auto dest: addPeer_facts(3) write_facts(2) simp: drop_facts)

lemma quic_run:
  assumes "(quic_step remote agreed)\<^sup>*\<^sup>* listenQuic s" "\<forall>x. remote x \<noteq> ''''"
  shows "quic_ok remote s \<and> quic_held s \<and> readers_ok s \<and> (\<forall>y. fifo_at s y) \<and> length (q_in (qs_c s)) \<le> quicInbox"
  using assms(1)
proof (induction rule: rtranclp_induct)
  case base
  show ?case by (simp add: listenQuic_def quic_ok_def peers_ok_def quic_held_def fifo_defs)
next
  case (step s s')
  then show ?case using ok_step[OF step(2) assms(2)] held_step[OF step(2)] readers_step[OF step(2)] fifo_step[OF step(2)] inbox_step[OF step(2)]
    by blast
qed

lemma joins_keep:
  assumes "quic_joins c js c'" "peers_ok c" "N \<subseteq> dom (q_peers c)" "\<forall>k \<in> N. T < qp_wrote (the (q_peers c k))"
    "\<forall>k \<in> dom (q_peers c) - N. qp_wrote (the (q_peers c k)) \<le> T" "card N + length js \<le> quicMaxPeers"
    "distinct (map (\<lambda>(t, k, x). k) js)" "\<forall>(t, k, x) \<in> set js. k \<noteq> '''' \<and> k \<notin> dom (q_peers c) \<and> T < t"
  shows "peers_ok c' \<and> N \<union> (\<lambda>(t, k, x). k) ` set js \<subseteq> dom (q_peers c')"
  using assms
proof (induction arbitrary: N rule: quic_joins.induct)
  case (joins_none c)
  then show ?case by simp
next
  case (joins_one order c now key conn c1 evict js c2)
  let ?new = "\<lparr>qp_conn = conn, qp_wrote = now\<rparr>" and ?k = "fst (oldest_loop (q_peers c) order ('''', 0))"
  have key: "key \<noteq> ''''" "q_peers c key = None" "T < now" using joins_one.prems(7) by auto
  have tc: "finite (dom (q_peers c))" "card (dom (q_peers c)) \<le> 16" "'''' \<notin> dom (q_peers c)"
    using joins_one.prems(1) by (simp_all add: peers_ok_def quicMaxPeers_def)
  have ok: "peers_ok c1" using addPeer_table[OF joins_one.prems(1) key(1) joins_one.hyps(1-3)] .
  have fN: "finite N" "card N < 16" using joins_one.prems(2,5) tc(1) finite_subset by (auto simp: quicMaxPeers_def)
  have shape: "(q_peers c1 = (q_peers c)(key \<mapsto> ?new)) \<or> (?k \<notin> N \<and> q_peers c1 = ((q_peers c)(?k := None))(key \<mapsto> ?new))"
  proof (cases "length order \<ge> quicMaxPeers")
    case True
    have "length order = card (dom (q_peers c))" using joins_one.hyps(1,2) distinct_card by fastforce
    then have "card N < card (dom (q_peers c))" using True fN(2) by (simp add: quicMaxPeers_def)
    then obtain j where j: "j \<in> dom (q_peers c)" "j \<notin> N" using fN(1) by (metis card_mono leD subsetI)
    have "order \<noteq> []" using True by (auto simp: quicMaxPeers_def)
    then obtain p where p: "q_peers c ?k = Some p" "\<forall>q \<in> ran (q_peers c). qp_wrote p \<le> qp_wrote q"
      using evicts_oldest[OF joins_one.hyps(1) tc(3)] by metis
    have "qp_wrote p \<le> T" using p(2) j joins_one.prems(4) by (force simp: ran_def)
    then have "?k \<notin> N" using p(1) joins_one.prems(3) by force
    then show ?thesis using joins_one.hyps(3) key(2) True by (auto simp: addPeer_def Let_def split: if_splits)
  next
    case False
    then show ?thesis using joins_one.hyps(3) key(2) by (auto simp: addPeer_def Let_def split: if_splits)
  qed
  have n: "key \<notin> N" using key(2) joins_one.prems(2) by auto
  have "peers_ok c2 \<and> insert key N \<union> (\<lambda>(t, k, x). k) ` set js \<subseteq> dom (q_peers c2)"
  proof (rule joins_one.IH[OF ok])
    show "insert key N \<subseteq> dom (q_peers c1)" using shape joins_one.prems(2) by auto
    show "\<forall>k \<in> insert key N. T < qp_wrote (the (q_peers c1 k))" using shape joins_one.prems(3) key(3) n by auto
    show "\<forall>k \<in> dom (q_peers c1) - insert key N. qp_wrote (the (q_peers c1 k)) \<le> T" 
    proof
      fix k assume k: "k \<in> dom (q_peers c1) - insert key N"
      then have e: "q_peers c1 k = q_peers c k" using shape by (auto split: if_splits)
      then have "k \<in> dom (q_peers c) - N" using k by (simp add: domIff)
      then show "qp_wrote (the (q_peers c1 k)) \<le> T" using joins_one.prems(4) unfolding e by blast
    qed
    show "card (insert key N) + length js \<le> quicMaxPeers" using joins_one.prems(5) n fN(1) by simp
    show "distinct (map (\<lambda>(t, k, x). k) js)" using joins_one.prems(6) by simp
    have "\<forall>(t, k, x) \<in> set js. k \<noteq> key" using joins_one.prems(6) by force
    moreover have "dom (q_peers c1) \<subseteq> insert key (dom (q_peers c))" using shape by (auto split: if_splits)
    ultimately show "\<forall>(t, k, x) \<in> set js. k \<noteq> '''' \<and> k \<notin> dom (q_peers c1) \<and> T < t" using joins_one.prems(7) by fastforce
  qed
  then show ?case by auto
qed

section \<open>Properties\<close>

text \<open>(C38) Whatever connections come, fail and are closed, in whatever order the goroutines run: at most sixteen are kept, each
  under its own address, and at most 512 datagrams wait; when nothing is being accepted or closed, every connection that is
  still open is in the table, so none is leaked; a write goes to a connection of the address it names; and of the
  datagrams a connection received the tunnel reads a prefix, in order, all of them while the carrier is open.\<close>
theorem quic_listener_tidy:
  assumes "(quic_step remote agreed)\<^sup>*\<^sup>* listenQuic s" "\<forall>x. remote x \<noteq> ''''"
  shows "card (dom (q_peers (qs_c s))) \<le> 16 \<and> length (q_in (qs_c s)) \<le> 512 \<and>
    (\<forall>k p. q_peers (qs_c s) k = Some p \<longrightarrow> remote (qp_conn p) = k) \<and>
    (qs_accept s \<in> {Accepting, AcceptEnded} \<and> qs_doomed s = {} \<longrightarrow>
      (\<forall>x \<in> qs_live s. \<exists>p. q_peers (qs_c s) (remote x) = Some p \<and> qp_conn p = x)) \<and>
    (\<forall>now a c x. quic_WriteTo now (Some a) (qs_c s) = (c, Inr x) \<longrightarrow> remote x = a) \<and>
    (\<forall>x. prefix (passed_on s x) (qs_got s x) \<and> (\<not> q_closed (qs_c s) \<longrightarrow> passed_on s x @ in_reader s x = qs_got s x))"
proof -
  note r = quic_run[OF assms]
  have own: "\<forall>k p. q_peers (qs_c s) k = Some p \<longrightarrow> remote (qp_conn p) = k" using r by (simp add: quic_ok_def)
  have "\<exists>p. q_peers (qs_c s) (remote x) = Some p \<and> qp_conn p = x"
    if "qs_accept s \<in> {Accepting, AcceptEnded}" "qs_doomed s = {}" "x \<in> qs_live s" for x
  proof -
    have "in_hand (qs_accept s) = {}" using that(1) by auto
    then have "x \<in> qp_conn ` ran (q_peers (qs_c s))" using r that(2,3) by (auto simp: quic_held_def)
    then show ?thesis using own by (auto simp: ran_def)
  qed
  moreover have "remote x = a" if "quic_WriteTo now (Some a) (qs_c s) = (c, Inr x)" for now a c x
    using that own by (auto simp: quic_WriteTo_def split: if_splits option.splits)
  moreover have "prefix (passed_on s x) (qs_got s x) \<and> (\<not> q_closed (qs_c s) \<longrightarrow> passed_on s x @ in_reader s x = qs_got s x)" for x
    using r by (simp add: fifo_at_def intact_def)
  ultimately show ?thesis using r own by (auto simp: quic_ok_def peers_ok_def quicMaxPeers_def quicInbox_def)
qed

text \<open>Sixteen connections that come in after the tunnel's last write push every other one out of the table, the tunnel's own peer
  included: a new connection counts as written to when it is accepted, whether or not it ever proves to hold the token.\<close>
theorem quic_strangers_evict:
  assumes "peers_ok c" "\<forall>p \<in> ran (q_peers c). qp_wrote p \<le> T" "quic_joins c js c'" "length js = 16"
    "distinct (map (\<lambda>(t, k, x). k) js)" "\<forall>(t, k, x) \<in> set js. k \<noteq> '''' \<and> k \<notin> dom (q_peers c) \<and> T < t"
  shows "dom (q_peers c') = (\<lambda>(t, k, x). k) ` set js \<and> dom (q_peers c) \<inter> dom (q_peers c') = {}"
proof -
  have old: "\<forall>k \<in> dom (q_peers c) - {}. qp_wrote (the (q_peers c k)) \<le> T" using assms(2) by (auto simp: ran_def)
  have k: "peers_ok c' \<and> {} \<union> (\<lambda>(t, k, x). k) ` set js \<subseteq> dom (q_peers c')"
    by (rule joins_keep[OF assms(3,1) _ _ old _ assms(5,6)]) (simp_all add: assms(4) quicMaxPeers_def)
  have "card ((\<lambda>(t, k, x). k) ` set js) = 16" using distinct_card[OF assms(5)] assms(4) by simp
  then have d: "dom (q_peers c') = (\<lambda>(t, k, x). k) ` set js"
    using k card_subset_eq[of "dom (q_peers c')" "(\<lambda>(t, k, x). k) ` set js"] card_mono[of "dom (q_peers c')" "(\<lambda>(t, k, x). k) ` set js"]
    by (auto simp: peers_ok_def quicMaxPeers_def)
  have "\<forall>k \<in> (\<lambda>(t, k, x). k) ` set js. k \<notin> dom (q_peers c)" using assms(6) by auto
  then show ?thesis using d by blast
qed

text \<open>A connection from each of two addresses; the first one's datagram reaches the tunnel.\<close>

theorem quic_listener_tidy_witness:
  "\<exists>s. (quic_step (\<lambda>x. if x = 0 then ''a'' else ''b'') (\<lambda>_. True))\<^sup>*\<^sup>* listenQuic s \<and> passed_on s 0 = [[7]] \<and>
     card (dom (q_peers (qs_c s))) \<le> 16 \<and> q_peers (qs_c s) ''a'' = Some \<lparr>qp_conn = 0, qp_wrote = 5\<rparr>"
proof -
  let ?r = "\<lambda>x. if x = 0 then ''a'' else ''b''" and ?step = "quic_step (\<lambda>x. if x = 0 then ''a'' else ''b'') (\<lambda>_. True)"
  let ?p = "[''a'' \<mapsto> \<lparr>qp_conn = 0, qp_wrote = 5\<rparr>]"
  let ?s = "\<lambda>c a rd sn. \<lparr>qs_c = c, qs_accept = a, qs_readers = rd, qs_live = sn, qs_doomed = {}, qs_seen = sn, qs_got = (\<lambda>_. []), qs_read = []\<rparr>"
  let ?c0 = "\<lparr>q_peers = Map.empty, q_closed = False, q_in = []\<rparr>" and ?c1 = "\<lparr>q_peers = ?p, q_closed = False, q_in = []\<rparr>"
  let ?e = "\<lambda>rd i. \<lparr>qs_c = ?c1\<lparr>q_in := i\<rparr>, qs_accept = Accepting, qs_readers = rd, qs_live = {0}, qs_doomed = {}, qs_seen = {0},
    qs_got = (\<lambda>_. [])(0 := [[7]]), qs_read = []\<rparr>"
  have a: "addPeer [] 5 ''a'' 0 ?c0 = Some (?c1, [])" by (simp add: addPeer_def quicMaxPeers_def)
  have "?step listenQuic (?s ?c0 (Checking 0) Map.empty {0})"
    using q_accepts[of listenQuic 0 ?r "\<lambda>_. True"] by (simp add: listenQuic_def)
  moreover have "?step (?s ?c0 (Checking 0) Map.empty {0}) (?s ?c0 (Adding 0) Map.empty {0})"
    using q_agrees[of "?s ?c0 (Checking 0) Map.empty {0}" 0 "\<lambda>_. True" ?r] by simp
  moreover have "?step (?s ?c0 (Adding 0) Map.empty {0}) (?s ?c1 (Starting 0 []) Map.empty {0})"
    using q_adds[of "?s ?c0 (Adding 0) Map.empty {0}" 0 "[]" 5 ?r ?c1 "[]" "\<lambda>_. True"] a by simp
  moreover have "?step (?s ?c1 (Starting 0 []) Map.empty {0}) (?s ?c1 Accepting [0 \<mapsto> Receiving] {0})"
    using q_starts[of "?s ?c1 (Starting 0 []) Map.empty {0}" 0 ?r "\<lambda>_. True"] by simp
  moreover have "?step (?s ?c1 Accepting [0 \<mapsto> Receiving] {0}) (?e [0 \<mapsto> Holding [7]] [])"
    using q_receives[of "?s ?c1 Accepting [0 \<mapsto> Receiving] {0}" 0 ?r "\<lambda>_. True" "[7]"] by simp
  moreover have "?step (?e [0 \<mapsto> Holding [7]] []) (?e [0 \<mapsto> Receiving] [([7], 0)])"
    using q_hands_on[of "?e [0 \<mapsto> Holding [7]] []" 0 "[7]" ?r "\<lambda>_. True"] by (simp add: quicInbox_def)
  ultimately have r: "?step\<^sup>*\<^sup>* listenQuic (?e [0 \<mapsto> Receiving] [([7], 0)])"
    by (meson converse_rtranclp_into_rtranclp rtranclp.rtrancl_refl)
  have "\<forall>x :: nat. ?r x \<noteq> ''''" by simp
  from quic_listener_tidy[OF r this] r show ?thesis
    by (intro exI[of _ "?e [0 \<mapsto> Receiving] [([7], 0)]"]) (simp add: passed_on_def)
qed

text \<open>A carrier whose one peer was written to at 5, and sixteen strangers at 10 to 25.\<close>

definition strangers :: "(instant \<times> string \<times> nat) list" where
  "strangers = map (\<lambda>i. (10 + int i, [CHR ''s'', char_of i], i)) [0..<16]"

lemma addPeer_open: "\<not> q_closed c \<Longrightarrow> addPeer order now key conn c \<noteq> None"
  by (simp add: addPeer_def Let_def split_beta)

lemma joins_exist: "finite (dom (q_peers c)) \<Longrightarrow> \<not> q_closed c \<Longrightarrow> \<exists>c'. quic_joins c js c'"
proof (induction js arbitrary: c)
  case Nil
  then show ?case using joins_none by blast
next
  case (Cons j js)
  obtain now key conn where j: "j = (now, key, conn)" by (cases j)
  obtain order where o: "set order = dom (q_peers c)" "distinct order" using finite_distinct_list[OF Cons.prems(1)] by blast
  obtain c' evict where a: "addPeer order now key conn c = Some (c', evict)"
    using addPeer_open[OF Cons.prems(2)] by (metis old.prod.exhaust option.exhaust)
  have "dom (q_peers c') \<subseteq> insert key (dom (q_peers c))" by (auto dest: addPeer_facts(5)[OF a])
  then have "finite (dom (q_peers c'))" using Cons.prems(1) finite_subset by auto
  then obtain c'' where "quic_joins c' js c''" using Cons.IH addPeer_facts(2)[OF a] by blast
  then show ?case using joins_one[OF o a] j by blast
qed

theorem quic_strangers_evict_witness:
  "\<exists>c'. quic_joins \<lparr>q_peers = [''peer'' \<mapsto> \<lparr>qp_conn = 99, qp_wrote = 5\<rparr>], q_closed = False, q_in = []\<rparr> strangers c' \<and> q_peers c' ''peer'' = None"
proof -
  let ?c = "\<lparr>q_peers = [''peer'' \<mapsto> \<lparr>qp_conn = 99, qp_wrote = 5\<rparr>], q_closed = False, q_in = []\<rparr>"
  obtain c' where j: "quic_joins ?c strangers c'" using joins_exist[of ?c strangers] by auto
  have "distinct (map (\<lambda>(t, k, x). k) strangers)"
    by (simp add: strangers_def distinct_map inj_on_def comp_def)
  from quic_strangers_evict[OF _ _ j _ this, of 5] have "dom (q_peers ?c) \<inter> dom (q_peers c') = {}"
    by (auto simp: peers_ok_def quicMaxPeers_def strangers_def)
  then show ?thesis using j by (intro exI[of _ c']) auto
qed

end
