(* ===== verification/Spec2Isabelle.thy ===== *)
theory Spec2Isabelle
  imports Engine MtuProbe Fec Multipath L3Config Portmap TunnelLimits MssClamp Chain Forward DirectEdge
    Liveness Endpoints ControlAuth Backends ConnPool Pairing UdpFlow PckHost SpoofConn EchoFrame
    MuxServer MuxVersion Stealth KcpIdle SniCarrier Carriers QuicCarrier
begin

text \<open>
  A verification of the tunnels of Backpack (\<open>src/\<close>), a Go program that carries traffic between two servers.

  \<^bold>\<open>The program.\<close> The layer-3 tunnel (\<open>src/internal/tunnel/l3\<close>) joins two hosts by an interface: packets the
  kernel routes into the interface are encapsulated, sealed under a session and sent as datagrams over a
  carrier; datagrams that arrive are opened and injected. Sessions come from a Noise handshake that one
  end starts and the other answers, and are renewed. Beneath the engine a carrier may add error
  correction or several paths, and may batch its writes; beside it run the path measurement and the port
  forwarder. The direct tunnel (\<open>src/internal/tunnel/direct\<close>) forwards ports without an interface: the edge,
  where the users are, dials the origin, both prove a shared token, and every user connection is a stream of
  a multiplexed session, which the origin joins to a backend. The reverse tunnel (\<open>src/internal/server\<close>,
  \<open>src/internal/client\<close>) forwards ports the other way round: the client, where the backends are, dials the server,
  keeps a control channel and a pool of connections there, and the server pairs every user with one of them. Shared by the tunnel kinds are the port-mapping syntax, the caps on connections and
  bandwidth, the clamp on TCP segment sizes and the chain of fallback transports.

  \<^bold>\<open>Theories, in the order of the code's layers.\<close>
  \<^item> \<open>Prelude\<close>: byte and string functions of the Go library, big-endian integers, durations. \<open>NetAddr\<close>: textual
    IP addresses.
  \<^item> \<open>Wire\<close> (\<open>wire.go\<close>): header and message kinds; the locales \<open>framing\<close> and \<open>exact_framing\<close> state what an
    encoder and its decoder owe each other, interpreted on the header, on GRE and on the FEC header.
  \<^item> \<open>Replay\<close> (\<open>replay.go\<close>): the window, shown equal to a filter on sets; the locale \<open>replay_filter\<close>.
  \<^item> \<open>Version\<close>, \<open>Freshness\<close> (\<open>version.go\<close>, \<open>freshness.go\<close>, \<open>initreplay.go\<close>): payloads and the listener's memory;
    the judge of timestamps is a \<open>replay_filter\<close> too.
  \<^item> \<open>Encap\<close> (\<open>encap.go\<close>): GRE.
  \<^item> \<open>Session\<close> (\<open>session.go\<close>): sealing and opening, both halves of the handshake. The Noise library is the
    record \<open>noise\<close>, a parameter, with \<open>aead_correct\<close> and \<open>noise_correct\<close> as what the code relies on.
  \<^item> \<open>Batch\<close> (\<open>gso.go\<close>, \<open>gso_linux.go\<close>, \<open>batchread_linux.go\<close>, \<open>segoverflow.go\<close>), \<open>Fec\<close> (\<open>fec.go\<close>), \<open>Multipath\<close>
    (\<open>multipath.go\<close>): the carrier layers. Reed-Solomon coding is the record \<open>rs\<close>, a parameter, with \<open>rs_correct\<close>.
  \<^item> \<open>Engine\<close> (\<open>tunnel.go\<close>): the guarded state as a record with a store of sessions, every handler, the pumps
    by round and by datagram, the dialler's negotiation, and the step relation \<open>step\<close> of the whole engine.
  \<^item> \<open>L3Config\<close> (\<open>config.go\<close>): validation. \<open>MtuProbe\<close> (\<open>mtuprobe.go\<close>): the search, over the locale \<open>size_probe\<close>.
  \<^item> \<open>Portmap\<close>, \<open>TunnelLimits\<close>, \<open>MssClamp\<close>, \<open>Chain\<close>: the shared parts, each over the file of its name. \<open>Forward\<close> (\<open>forward.go\<close>): the port
    forwarder.
  \<^item> \<open>TaskTable\<close>: connections and flows as goroutines in stages; the locale \<open>task_table\<close>, a client of the
    locale \<open>slot_pool\<close> of \<open>TunnelLimits\<close>, interpreted by \<open>Forward\<close> and \<open>DirectEdge\<close>.
  \<^item> \<open>ByteStream\<close> (\<open>src/internal/utils/binary.go\<close>): messages on a byte stream, over the locale \<open>stream_codec\<close>.
  \<^item> \<open>DirectWire\<close> (\<open>handshake.go\<close>), \<open>DirectTunnel\<close> (\<open>config.go\<close>, \<open>target.go\<close>, \<open>origin.go\<close>) and \<open>DirectEdge\<close>
    (\<open>edge.go\<close>, \<open>session.go\<close>): the direct tunnel; HMAC-SHA256, the resolver and the dial are parameters.
  \<^item> \<open>Liveness\<close> (\<open>src/internal/server/transport/control.go\<close>, \<open>src/internal/client/transport/handshake.go\<close>): the
    reverse tunnel's heartbeat schedule and the deadline the client learns from it. \<open>Endpoints\<close>
    (\<open>src/internal/utils/network/endpoints.go\<close>, \<open>healthscore.go\<close>): the choice among several server addresses.
  \<^item> The reverse tunnel over TCP, server \<open>src/internal/server/transport\<close> and client \<open>src/internal/client/transport\<close>:
    \<open>ControlAuth\<close> (\<open>announce.go\<close>, \<open>control.go\<close>, \<open>tcp.go\<close>, \<open>handshake.go\<close>, \<open>poolnonce.go\<close>) is the claim of the control channel, its
    answer, and who gets into the pool; \<open>Pairing\<close> (\<open>pairloop.go\<close>, \<open>pairing.go\<close>, \<open>limits.go\<close>) the way of a forwarded
    connection to a tunnel connection, over \<open>task_table\<close>; \<open>ConnPool\<close> (\<open>backoff.go\<close>, \<open>poolload.go\<close>, \<open>poolmaintain.go\<close>) how
    many tunnel connections the client keeps; \<open>Backends\<close> (\<open>backendpool.go\<close>) which backend it joins them to; \<open>UdpFlow\<close>
    (\<open>udpframe.go\<close>, both \<open>udpforward.go\<close>) forwarded datagrams, over \<open>stream_codec\<close>.
  \<^item> Packet-level carriers, \<open>src/internal/utils/network\<close>: \<open>Checksum\<close> (\<open>spoofpacket.go\<close>) the internet checksum and what a
    receiver makes of it; \<open>PacketFilter\<close> (\<open>pckframe.go\<close>, \<open>spoofbpf.go\<close>) the socket filters, over any machine that is a
    \<open>kernel_filter\<close>; \<open>PckFrame\<close> (\<open>pckframe.go\<close>, \<open>pckport.go\<close>, \<open>pckconn_linux.go\<close>) datagrams as TCP segments; \<open>PckHost\<close>
    (\<open>pckroute_linux.go\<close>, \<open>pckguard_linux.go\<close>, \<open>pckconn_linux.go\<close>) the way out of the host, the firewall rules and the life of
    carriers; \<open>SpoofPacket\<close> and \<open>SpoofConn\<close> (\<open>spoofframe.go\<close>, \<open>spoofpacket.go\<close>, \<open>spoofconn_linux.go\<close>) packets with forged
    sources in seven profiles; \<open>EchoFrame\<close> (\<open>icmpframe.go\<close>, \<open>icmpfilter_linux.go\<close>, \<open>icmpconn_linux.go\<close>) sessions inside pings.
    Sockets, \<open>iptables\<close>, the tables of the kernel, random draws and SHA-256 are parameters.
  \<^item> The multiplexed reverse tunnel: \<open>MuxServer\<close> (\<open>muxsession.go\<close>, \<open>tcpmux.go\<close>) the server's acceptors, sessions, streams and
    restarts as a step relation, over \<open>task_table\<close>; \<open>MuxVersion\<close> (\<open>mux.go\<close>, both \<open>tcpmux.go\<close>) the settings of its sessions. \<open>Stealth\<close>
    (\<open>noise.go\<close>) is the encrypted transport a control channel may run in, \<open>KcpIdle\<close> (\<open>kcpidle.go\<close>) the slowing down of idle sessions.
  \<^item> How carriers are opened: \<open>Carriers\<close> (\<open>carrier.go\<close>, \<open>carrier_obfuscated.go\<close>, \<open>spoofcarrier.go\<close>) the choice, the paths, the options
    and what each carrier costs, over \<open>SpoofConn\<close>, \<open>PckHost\<close> and \<open>EchoFrame\<close>; \<open>SniCarrier\<close> (\<open>hello.go\<close>, \<open>carrier_sni.go\<close>) the TLS
    greeting in front of a flow; \<open>QuicCarrier\<close> (\<open>carrier_quic.go\<close>) the listener's table of connections as a step relation.

  \<^bold>\<open>What is shown.\<close> Safety of the data path (no nonce reused, no datagram opened twice, nothing
  unauthenticated has an effect), that packets arrive unchanged and handshakes agree, exactness of the
  codecs, of the replay window against its reference, of the error correction and of the path search,
  bounds on what is kept, accounting of what is sent, and the behaviour on every error branch. Some
  theorems say where the code does not do what its comments promise; the text before them says so.

  \<^bold>\<open>Bounds and loops.\<close> Loops are structural or carry a measure. The one loop of the sources that may not
  end, the clearing loop of \<open>commit\<close>, is a partial function with \<open>None\<close> for not returning, and the operations
  that call it return options. \<open>negotiate\<close> takes its rounds as a list, and two are shown to be enough.

  \<^bold>\<open>Not modelled.\<close> Opening of sockets and devices, goroutine start-up and shutdown, logging, the
  QUIC library and the XDP program, the dialling side of the QUIC carrier, the copying of bytes between sockets, the library that
  multiplexes streams, the websocket and TLS transports, of the reverse tunnels the KCP and websocket transports beyond the parts
  they share with TCP and its multiplexed form, and the management programs, panels and bots around the tunnels.
\<close>

end
